(* ===== verification/Prelude.thy ===== *)
theory Prelude
  imports Main "HOL-Library.Char_ord" "HOL-Library.List_Lexorder" "HOL-Library.Product_Lexorder"
begin

text \<open>
  Vocabulary shared by every component: the types that stand for Python values, the string
  functions of the Python standard library that the modelled code calls, and the generic
  lemmas about lists and options the component proofs rest on.

  Conventions. A Python \<open>str\<close> is a \<open>string\<close> (code points 0 to 255). A datetime is an
  \<open>int\<close> counting microseconds since the epoch, a timedelta an \<open>int\<close> of microseconds.
  \<open>None\<close> is \<open>None\<close>, an exception is the left value of a sum, an SQL table is the list of
  its rows.
\<close>

named_theorems py_simps \<open>definitions of the Python string helpers\<close>
named_theorems splits_intro \<open>facts that turn a check into its cases\<close>

type_synonym datetime = int
type_synonym timedelta = int
type_synonym uuid = string

section \<open>Time\<close>

definition seconds :: "int \<Rightarrow> timedelta" where
  "seconds n = n * 1000000"

definition minutes :: "int \<Rightarrow> timedelta" where
  "minutes n = seconds (n * 60)"

definition hours :: "int \<Rightarrow> timedelta" where
  "hours n = minutes (n * 60)"

lemma minutes_mono: "m \<le> n \<Longrightarrow> minutes m \<le> minutes n"
  by (simp add: minutes_def seconds_def)

lemma hours_nonneg: "0 \<le> n \<Longrightarrow> 0 \<le> hours n"
  by (simp add: hours_def minutes_def seconds_def)

section \<open>Python strings\<close>

definition py_startswith :: "string \<Rightarrow> string \<Rightarrow> bool" where
  [py_simps]: "py_startswith s p \<longleftrightarrow> take (length p) s = p"

definition py_endswith :: "string \<Rightarrow> string \<Rightarrow> bool" where
  [py_simps]: "py_endswith s p \<longleftrightarrow> take (length p) (rev s) = rev p"

definition py_rstrip_char :: "char \<Rightarrow> string \<Rightarrow> string" where
  [py_simps]: "py_rstrip_char c s = rev (dropWhile (\<lambda>x. x = c) (rev s))"

text \<open>\<open>str.strip()\<close> and the code points it takes for white space.\<close>

definition py_isspace :: "char \<Rightarrow> bool" where
  [py_simps]: "py_isspace c \<longleftrightarrow> (let n = of_char c :: nat in
     9 \<le> n \<and> n \<le> 13 \<or> 28 \<le> n \<and> n \<le> 32 \<or> n = 133 \<or> n = 160)"

definition py_strip :: "string \<Rightarrow> string" where
  [py_simps]: "py_strip s = rev (dropWhile py_isspace (rev (dropWhile py_isspace s)))"

definition ascii_upper :: "char \<Rightarrow> char" where
  "ascii_upper c = (let n = of_char c :: nat in
     if 97 \<le> n \<and> n \<le> 122 then char_of (n - 32) else c)"

definition ascii_lower :: "char \<Rightarrow> char" where
  "ascii_lower c = (let n = of_char c :: nat in
     if 65 \<le> n \<and> n \<le> 90 then char_of (n + 32) else c)"

definition py_upper :: "string \<Rightarrow> string" where
  [py_simps]: "py_upper s = map ascii_upper s"

definition py_lower :: "string \<Rightarrow> string" where
  [py_simps]: "py_lower s = map ascii_lower s"

text \<open>\<open>py_partition s sep\<close> is \<open>s.partition(sep)\<close> with the separator found or not as a flag:
  the text before the first occurrence, whether there is one, and the text after it.\<close>

fun py_partition :: "string \<Rightarrow> string \<Rightarrow> string \<times> bool \<times> string" where
  "py_partition [] sep = (if sep = [] then ([], True, []) else ([], False, []))"
| "py_partition (c # s) sep =
     (if py_startswith (c # s) sep then ([], True, drop (length sep) (c # s))
      else (let (h, f, t) = py_partition s sep in (c # h, f, t)))"

lemma py_partition_not_found: "py_partition s sep = (h, False, t) \<Longrightarrow> h = s \<and> t = []"
  by (induction s arbitrary: h t) (auto split: if_splits prod.splits)

lemma py_partition_found: "py_partition s sep = (h, True, t) \<Longrightarrow> s = h @ sep @ t"
proof (induction s arbitrary: h t)
  case Nil
  then show ?case by (auto split: if_splits)
next
  case (Cons c s)
  show ?case
  proof (cases "py_startswith (c # s) sep")
    case True
    then have "c # s = sep @ drop (length sep) (c # s)"
      unfolding py_startswith_def by (metis append_take_drop_id)
    with Cons.prems True show ?thesis by simp
  next
    case False
    with Cons.prems obtain h' where "py_partition s sep = (h', True, t)" and "h = c # h'"
      by (auto split: prod.splits)
    with Cons.IH show ?thesis by simp
  qed
qed

subsection \<open>Decimal text\<close>

fun nat_digits :: "nat \<Rightarrow> string" where
  "nat_digits n = (if n < 10 then [char_of (48 + n)]
     else nat_digits (n div 10) @ [char_of (48 + n mod 10)])"

declare nat_digits.simps [simp del]

definition int_str :: "int \<Rightarrow> string" where
  "int_str i = (if i < 0 then CHR ''-'' # nat_digits (nat (- i)) else nat_digits (nat i))"

text \<open>\<open>{s!r}\<close> of a string without quotes in it.\<close>

definition squote :: string where "squote = [CHR 0x27]"

definition quoted :: "string \<Rightarrow> string" where
  "quoted s = squote @ s @ squote"

section \<open>Generic lemmas\<close>

lemma list_all_filter_neg [simp]: "list_all P (filter P xs)"
  by (induction xs) auto

lemma concat_map_Nil [simp]: "concat (map (\<lambda>_. []) xs) = []"
  by (induction xs) auto

lemma find_SomeD: "find P xs = Some x \<Longrightarrow> P x \<and> x \<in> set xs"
  by (induction xs) (auto split: if_splits)

lemma find_None_conv: "find P xs = None \<longleftrightarrow> (\<forall>x \<in> set xs. \<not> P x)"
  by (induction xs) auto

lemma length_filter_le_filter:
  "(\<And>x. P x \<Longrightarrow> Q x) \<Longrightarrow> length (filter P xs) \<le> length (filter Q xs)"
  by (induction xs) (auto intro: le_SucI)

lemma map_update_lookup: "(m(k \<mapsto> v)) k' = (if k' = k then Some v else m k')"
  by simp

end
