(* ===== verification/Accounts.thy ===== *)
theory Accounts
  imports Prelude
begin

text \<open>
  The rows the authorization code reads: \<open>User\<close>, \<open>Group\<close>, \<open>Role\<close>
  (\<^verbatim>\<open>backend/app/models/auth.py\<close>) and \<open>TimeBoundGrant\<close>
  (\<^verbatim>\<open>backend/app/models/time_bound_grant.py\<close>). \<open>Role.permissions\<close> is a JSONB list, so an
  entry is any JSON value; the code reads three keys of an entry that is an object. The two
  underscore attributes are what the authentication dependency stashes on the loaded user.
\<close>

section \<open>JSON values of a permission entry\<close>

text \<open>\<open>JOther t\<close> is any JSON value that is neither null nor a string; the code only ever
  compares it with strings and takes its \<open>str()\<close> text \<open>t\<close>.\<close>

datatype jval = JNull | JStr string | JOther string

type_synonym pdict = "string \<rightharpoonup> jval"

definition dict_get :: "pdict \<Rightarrow> string \<Rightarrow> jval \<Rightarrow> jval" where
  "dict_get d k dflt = (case d k of None \<Rightarrow> dflt | Some v \<Rightarrow> v)"

fun jval_str :: "jval \<Rightarrow> string" where
  "jval_str JNull = ''None''"
| "jval_str (JStr s) = s"
| "jval_str (JOther t) = t"

fun opt_jval :: "string option \<Rightarrow> jval" where
  "opt_jval None = JNull"
| "opt_jval (Some s) = JStr s"

record time_bound_grant =
  tbg_action :: string
  tbg_resource_type :: string
  tbg_resource_id :: "string option"

text \<open>An entry of a JSONB permission list is an object or some other JSON value. The granting
  code also takes rows that carry the triple as attributes.\<close>

datatype json_entry = PDict pdict | PNotDict

datatype perm_entry = PJson json_entry | PGrant time_bound_grant

record role =
  permissions :: "json_entry list option"

record group =
  roles :: "role list"

record user =
  user_id :: uuid
  username :: string
  display_name :: string
  auth_source :: string
  is_active :: bool
  is_superadmin :: bool
  groups :: "group list"
  active_time_bound_grants :: "time_bound_grant list option"
  api_token_resource_grants :: "json_entry list option"
  failed_login_count :: int
  failed_login_locked_until :: "datetime option"
  last_failed_login_at :: "datetime option"
  mfa_failed_count :: int
  mfa_last_failed_at :: "datetime option"

text \<open>\<open>x or []\<close>\<close>

definition or_empty :: "'a list option \<Rightarrow> 'a list" where
  "or_empty x = (case x of None \<Rightarrow> [] | Some xs \<Rightarrow> xs)"

lemma or_empty_simps [simp]: "or_empty None = []" "or_empty (Some xs) = xs"
  by (simp_all add: or_empty_def)

section \<open>Concrete accounts\<close>

text \<open>A plain active account, for concrete instances.\<close>

definition plain_user :: "uuid \<Rightarrow> user" where
  "plain_user i = \<lparr>user_id = i, username = i, display_name = i, auth_source = ''local'',
     is_active = True, is_superadmin = False, groups = [], active_time_bound_grants = None,
     api_token_resource_grants = None, failed_login_count = 0, failed_login_locked_until = None,
     last_failed_login_at = None, mfa_failed_count = 0, mfa_last_failed_at = None\<rparr>"

text \<open>A permission object with all three keys.\<close>

definition perm :: "string \<Rightarrow> string \<Rightarrow> string option \<Rightarrow> json_entry" where
  "perm a t r = PDict [''action'' \<mapsto> JStr a, ''resource_type'' \<mapsto> JStr t,
     ''resource_id'' \<mapsto> opt_jval r]"

definition user_with :: "uuid \<Rightarrow> json_entry list \<Rightarrow> user" where
  "user_with i ps = (plain_user i)\<lparr>groups := [\<lparr>roles = [\<lparr>permissions = Some ps\<rparr>]\<rparr>]\<rparr>"

end
