(* ===== verification/Permissions.thy ===== *)
theory Permissions
  imports Accounts
begin

text \<open>
  \<^verbatim>\<open>backend/app/core/permissions.py\<close>, the decision half: how a granted triple matches a
  request, what a user's roles and time-bound grants allow, how a resource-scoped API token
  narrows that, which permissions a user may hand on, and the self-introspection list.
\<close>

section \<open>Matching a grant against a request\<close>

definition admin_implies :: "string list" where
  "admin_implies = [''read'', ''write'', ''delete'', ''admin'']"

definition action_matches :: "jval \<Rightarrow> string \<Rightarrow> bool" where
  "action_matches granted requested =
     (if granted = JStr ''*'' \<or> granted = JStr requested then True
      else if granted = JStr ''admin'' \<and> requested \<in> set admin_implies then True
      else False)"

definition resource_type_matches :: "jval \<Rightarrow> string \<Rightarrow> bool" where
  "resource_type_matches granted requested \<longleftrightarrow> granted = JStr ''*'' \<or> granted = JStr requested"

definition any_instance :: "jval \<Rightarrow> bool" where
  "any_instance granted \<longleftrightarrow> granted = JNull \<or> granted = JStr '''' \<or> granted = JStr ''*''"

definition resource_id_matches :: "jval \<Rightarrow> string option \<Rightarrow> bool" where
  "resource_id_matches granted requested =
     (if any_instance granted then True
      else (case requested of None \<Rightarrow> False | Some r \<Rightarrow> jval_str granted = r))"

section \<open>The active API token's grants\<close>

text \<open>Only JSON objects count as grants.\<close>

fun dicts :: "json_entry list \<Rightarrow> pdict list" where
  "dicts [] = []"
| "dicts (PDict d # ps) = d # dicts ps"
| "dicts (_ # ps) = dicts ps"

definition token_grants_for :: "user \<Rightarrow> pdict list" where
  "token_grants_for u = dicts (or_empty (api_token_resource_grants u))"

text \<open>Write implies read for token grants.\<close>

definition token_action_ok :: "jval \<Rightarrow> string \<Rightarrow> bool" where
  "token_action_ok g_action action \<longleftrightarrow> action_matches g_action action \<or>
     (action = ''read'' \<and> (g_action = JStr ''write'' \<or> g_action = JStr ''delete''))"

fun token_grants_allow :: "pdict list \<Rightarrow> string \<Rightarrow> string \<Rightarrow> string option \<Rightarrow> bool" where
  "token_grants_allow [] action resource_type req_rid = False"
| "token_grants_allow (g # gs) action resource_type req_rid =
     (if \<not> token_action_ok (dict_get g ''action'' (JStr '''')) action
      then token_grants_allow gs action resource_type req_rid
      else if \<not> resource_type_matches (dict_get g ''resource_type'' (JStr '''')) resource_type
      then token_grants_allow gs action resource_type req_rid
      else if req_rid = None then True
      else if resource_id_matches (dict_get g ''resource_id'' JNull) req_rid then True
      else token_grants_allow gs action resource_type req_rid)"

fun token_scope_loop :: "pdict list \<Rightarrow> string \<Rightarrow> string option \<Rightarrow> bool" where
  "token_scope_loop [] resource_type req_rid = False"
| "token_scope_loop (g # gs) resource_type req_rid =
     (if \<not> resource_type_matches (dict_get g ''resource_type'' (JStr '''')) resource_type
      then token_scope_loop gs resource_type req_rid
      else if resource_id_matches (dict_get g ''resource_id'' JNull) req_rid then True
      else token_scope_loop gs resource_type req_rid)"

definition token_scope_allows :: "user \<Rightarrow> string \<Rightarrow> string option \<Rightarrow> bool" where
  "token_scope_allows u resource_type resource_id =
     (let grants = token_grants_for u
      in if grants = [] then True else token_scope_loop grants resource_type resource_id)"

text \<open>\<open>None\<close>: every instance is visible. \<open>Some ids\<close>: only those.\<close>

fun scoped_ids_loop :: "pdict list \<Rightarrow> string \<Rightarrow> string list \<Rightarrow> string list option" where
  "scoped_ids_loop [] resource_type ids = Some ids"
| "scoped_ids_loop (g # gs) resource_type ids =
     (if \<not> resource_type_matches (dict_get g ''resource_type'' (JStr '''')) resource_type
      then scoped_ids_loop gs resource_type ids
      else let rid = dict_get g ''resource_id'' JNull
           in if any_instance rid then None
              else scoped_ids_loop gs resource_type (List.insert (jval_str rid) ids))"

definition token_scoped_resource_ids :: "user \<Rightarrow> string \<Rightarrow> string list option" where
  "token_scoped_resource_ids u resource_type =
     (let grants = token_grants_for u
      in if grants = [] then None else scoped_ids_loop grants resource_type [])"

section \<open>Roles, time-bound grants and the verdict\<close>

definition perm_dict_allows :: "pdict \<Rightarrow> string \<Rightarrow> string \<Rightarrow> string option \<Rightarrow> bool" where
  "perm_dict_allows d action resource_type req_rid \<longleftrightarrow>
     action_matches (dict_get d ''action'' (JStr '''')) action \<and>
     resource_type_matches (dict_get d ''resource_type'' (JStr '''')) resource_type \<and>
     resource_id_matches (dict_get d ''resource_id'' JNull) req_rid"

definition time_bound_allows ::
    "time_bound_grant \<Rightarrow> string \<Rightarrow> string \<Rightarrow> string option \<Rightarrow> bool" where
  "time_bound_allows g action resource_type req_rid \<longleftrightarrow>
     action_matches (JStr (tbg_action g)) action \<and>
     resource_type_matches (JStr (tbg_resource_type g)) resource_type \<and>
     resource_id_matches (opt_jval (tbg_resource_id g)) req_rid"

definition role_entries :: "user \<Rightarrow> json_entry list" where
  "role_entries u = concat (map (\<lambda>g. concat (map (\<lambda>r. or_empty (permissions r)) (roles g))) (groups u))"

definition user_rbac_allows ::
    "user \<Rightarrow> string \<Rightarrow> string \<Rightarrow> string option \<Rightarrow> bool \<Rightarrow> bool" where
  "user_rbac_allows u action resource_type req_rid include_time_bound =
     (if is_superadmin u then True
      else if list_ex (\<lambda>d. perm_dict_allows d action resource_type req_rid) (dicts (role_entries u))
      then True
      else if \<not> include_time_bound then False
      else list_ex (\<lambda>g. time_bound_allows g action resource_type req_rid)
             (or_empty (active_time_bound_grants u)))"

definition user_has_permission :: "user \<Rightarrow> string \<Rightarrow> string \<Rightarrow> string option \<Rightarrow> bool" where
  "user_has_permission u action resource_type resource_id =
     (if \<not> is_active u then False
      else if \<not> user_rbac_allows u action resource_type resource_id True then False
      else let token_grants = token_grants_for u
           in if token_grants \<noteq> [] \<and>
                 \<not> token_grants_allow token_grants action resource_type resource_id
              then False else True)"

definition is_effective_superadmin :: "user \<Rightarrow> bool" where
  "is_effective_superadmin u =
     (if is_superadmin u \<and> token_grants_for u = [] then True
      else user_has_permission u ''*'' ''*'' None)"

definition SUBNET_TOKEN_COARSE_TYPES :: "string list" where
  "SUBNET_TOKEN_COARSE_TYPES = [''ip_space'', ''ip_block'', ''subnet'', ''ip_address'']"

definition ZONE_TOKEN_COARSE_TYPES :: "string list" where
  "ZONE_TOKEN_COARSE_TYPES = [''dns_group'', ''dns_zone'', ''dns_record'']"

definition type_level_allows :: "user \<Rightarrow> string \<Rightarrow> string \<Rightarrow> bool" where
  "type_level_allows u action resource_type =
     (if \<not> is_active u then False
      else if \<not> user_rbac_allows u action resource_type None True then False
      else let grants = token_grants_for u
           in if grants = [] \<or> token_grants_allow grants action resource_type None then True
              else if resource_type \<in> set ZONE_TOKEN_COARSE_TYPES \<and>
                      token_grants_allow grants action ''dns_zone'' None then True
              else resource_type \<in> set SUBNET_TOKEN_COARSE_TYPES \<and>
                   token_grants_allow grants action ''subnet'' None)"

section \<open>Permission triples\<close>

type_synonym triple = "string \<times> string \<times> string option"

definition triple_of :: "jval \<Rightarrow> jval \<Rightarrow> jval \<Rightarrow> triple option" where
  "triple_of action resource_type resource_id =
     (case (action, resource_type) of
        (JStr a, JStr t) \<Rightarrow>
          Some (a, t, case resource_id of
                 JStr r \<Rightarrow> if r \<noteq> '''' \<and> r \<noteq> ''*'' then Some r else None
               | _ \<Rightarrow> None)
      | _ \<Rightarrow> None)"

text \<open>A JSON value that is not an object has none of the attributes, so \<open>getattr\<close> gives the
  defaults.\<close>

fun perm_triple :: "perm_entry \<Rightarrow> triple option" where
  "perm_triple (PJson (PDict d)) = triple_of (dict_get d ''action'' (JStr ''''))
     (dict_get d ''resource_type'' (JStr '''')) (dict_get d ''resource_id'' JNull)"
| "perm_triple (PGrant g) = triple_of (JStr (tbg_action g)) (JStr (tbg_resource_type g))
     (opt_jval (tbg_resource_id g))"
| "perm_triple (PJson PNotDict) = triple_of (JStr '''') (JStr '''') JNull"

fun the_triples :: "perm_entry list \<Rightarrow> triple list" where
  "the_triples [] = []"
| "the_triples (p # ps) = (case perm_triple p of None \<Rightarrow> the_triples ps
                            | Some t \<Rightarrow> t # the_triples ps)"

definition has_any_grant_for :: "user \<Rightarrow> string \<Rightarrow> string \<Rightarrow> bool" where
  "has_any_grant_for u action resource_type =
     (if \<not> is_active u then False
      else if is_effective_superadmin u then True
      else list_ex (\<lambda>(ga, gt, _). action_matches (JStr ga) action \<and>
                                  resource_type_matches (JStr gt) resource_type)
             (the_triples (map PJson (role_entries u) @
                map PGrant (or_empty (active_time_bound_grants u)))))"

definition has_any_read_grant :: "user \<Rightarrow> string \<Rightarrow> bool" where
  "has_any_read_grant u resource_type =
     (if \<not> has_any_grant_for u ''read'' resource_type then False
      else token_grants_for u = [] \<or>
           token_grants_allow (token_grants_for u) ''read'' resource_type None)"

section \<open>The privilege ceiling of delegated granting\<close>



section \<open>Self-introspection: the effective permission list\<close>

definition owner_triples :: "user \<Rightarrow> triple list" where
  "owner_triples u =
     (if is_superadmin u then [(''*'', ''*'', None)] else []) @
     the_triples (map PJson (role_entries u)) @
     the_triples (map PGrant (or_empty (active_time_bound_grants u)))"

text \<open>What one token grant leaves of an any-instance triple.\<close>

definition narrow_any :: "string \<Rightarrow> string \<Rightarrow> pdict \<Rightarrow> triple list" where
  "narrow_any action resource_type g =
     (if \<not> token_action_ok (dict_get g ''action'' (JStr '''')) action then []
      else if \<not> resource_type_matches (dict_get g ''resource_type'' (JStr '''')) resource_type then []
      else let g_rid = dict_get g ''resource_id'' JNull
           in if any_instance g_rid then [(action, resource_type, None)]
              else [(action, resource_type, Some (jval_str g_rid))])"

fun narrow_triple :: "pdict list \<Rightarrow> triple \<Rightarrow> triple list" where
  "narrow_triple token_grants (action, resource_type, Some rid) =
     (if token_grants_allow token_grants action resource_type (Some rid)
      then [(action, resource_type, Some rid)] else [])"
| "narrow_triple token_grants (action, resource_type, None) =
     concat (map (narrow_any action resource_type) token_grants)"

definition grant_key :: "triple \<Rightarrow> string \<times> string \<times> string" where
  "grant_key t = (case t of (action, resource_type, rid) \<Rightarrow>
     (resource_type, action, case rid of None \<Rightarrow> '''' | Some r \<Rightarrow> r))"

definition effective_grants :: "user \<Rightarrow> triple list" where
  "effective_grants u =
     (if \<not> is_active u then []
      else let triples = remdups (owner_triples u);
               token_grants = token_grants_for u;
               narrowed = (if token_grants \<noteq> []
                           then remdups (concat (map (narrow_triple token_grants) triples))
                           else triples)
           in sort_key grant_key narrowed)"

text \<open>The client-side check over that list: the entry's action, type and id match the request
  by the same three predicates.\<close>

fun triple_allows :: "triple \<Rightarrow> string \<Rightarrow> string \<Rightarrow> string option \<Rightarrow> bool" where
  "triple_allows (a, t, r) action resource_type req_rid \<longleftrightarrow>
     action_matches (JStr a) action \<and> resource_type_matches (JStr t) resource_type \<and>
     resource_id_matches (opt_jval r) req_rid"

definition permission_match :: "triple list \<Rightarrow> string \<Rightarrow> string \<Rightarrow> string option \<Rightarrow> bool" where
  "permission_match ts action resource_type req_rid \<longleftrightarrow>
     list_ex (\<lambda>t. triple_allows t action resource_type req_rid) ts"

section \<open>The laws of matching\<close>

lemmas match_defs = action_matches_def resource_type_matches_def resource_id_matches_def
  any_instance_def

definition norm_rid :: "string option \<Rightarrow> bool" where
  "norm_rid r \<longleftrightarrow> r \<noteq> Some '''' \<and> r \<noteq> Some ''*''"

lemma star_not_implied [simp]: "''*'' \<notin> set admin_implies"
  by (simp add: admin_implies_def)

lemma admin_implied [simp]: "''admin'' \<in> set admin_implies"
  by (simp add: admin_implies_def)

lemma action_matches_trans:
  "action_matches g a' \<Longrightarrow> action_matches (JStr a') a \<Longrightarrow> action_matches g a"
  by (auto simp: action_matches_def split: if_splits)

lemma resource_type_matches_trans:
  "resource_type_matches g t' \<Longrightarrow> resource_type_matches (JStr t') t \<Longrightarrow> resource_type_matches g t"
  by (auto simp: resource_type_matches_def)

lemma any_instance_norm: "norm_rid (Some r) \<Longrightarrow> \<not> any_instance (JStr r)"
  by (auto simp: any_instance_def norm_rid_def)

lemma resource_id_matches_trans:
  assumes "norm_rid r'" and "resource_id_matches g r'" and "resource_id_matches (opt_jval r') r"
  shows "resource_id_matches g r"
  using assms
  by (cases r'; cases r) (auto simp: resource_id_matches_def dest: any_instance_norm split: if_splits)

lemma token_action_ok_trans:
  assumes "token_action_ok g a'" and "action_matches (JStr a') a"
  shows "token_action_ok g a"
  using assms
  by (auto simp: token_action_ok_def action_matches_def admin_implies_def split: if_splits)

text \<open>
  What a way of reading one grant promises, whatever the grant is stored as: a grant that
  covers a request covers every request that one implies. Role objects, time-bound rows and
  the introspection triples all promise it, so the three can be mixed freely; an API-token
  grant promises it for requests that name an instance only.
\<close>

locale instance_grants =
  fixes covers :: "'g \<Rightarrow> string \<Rightarrow> string \<Rightarrow> string option \<Rightarrow> bool"
  assumes scoped_mono:
    "norm_rid (Some r') \<Longrightarrow> covers g a' t' (Some r') \<Longrightarrow>
     triple_allows (a', t', Some r') a t r \<Longrightarrow> covers g a t r"
begin

lemma list_scoped_mono:
  assumes "norm_rid (Some r')" and "list_ex (\<lambda>g. covers g a' t' (Some r')) gs"
    and "triple_allows (a', t', Some r') a t r"
  shows "list_ex (\<lambda>g. covers g a t r) gs"
  using assms unfolding list_ex_iff by (blast intro: scoped_mono)

end

locale type_grants = instance_grants +
  assumes type_mono:
    "covers g a' t' None \<Longrightarrow> triple_allows (a', t', None) a t r \<Longrightarrow> covers g a t r"
begin

lemma covers_mono:
  assumes "norm_rid r'" and "covers g a' t' r'" and "triple_allows (a', t', r') a t r"
  shows "covers g a t r"
proof (cases r')
  case None
  with assms show ?thesis using type_mono by blast
next
  case (Some x)
  with assms show ?thesis by (blast intro: scoped_mono)
qed

lemma list_covers_mono:
  assumes "norm_rid r'" and "list_ex (\<lambda>g. covers g a' t' r') gs"
    and "triple_allows (a', t', r') a t r"
  shows "list_ex (\<lambda>g. covers g a t r) gs"
  using assms unfolding list_ex_iff by (blast intro: covers_mono)

text \<open>A grant that covers the whole type covers each of its instances.\<close>

lemma type_covers_instance: "covers g a t None \<Longrightarrow> covers g a t r"
  by (rule type_mono) (auto simp: match_defs)

end

lemmas match_trans = action_matches_trans resource_type_matches_trans
  resource_id_matches_trans [of "Some r'" for r'] resource_id_matches_trans [of None]



interpretation intro_triples: type_grants triple_allows
proof unfold_locales
  fix g a' t' a t r and r' :: string
  assume "norm_rid (Some r')" "triple_allows g a' t' (Some r')" "triple_allows (a', t', Some r') a t r"
  then show "triple_allows g a t r" by (cases g) (auto intro: match_trans)
next
  fix g a' t' a t r
  assume "triple_allows g a' t' None" "triple_allows (a', t', None) a t r"
  then show "triple_allows g a t r" by (cases g) (auto simp: norm_rid_def intro: match_trans)
qed

text \<open>One token grant, as \<open>token_grants_allow\<close> reads it.\<close>

definition token_grant_covers :: "pdict \<Rightarrow> string \<Rightarrow> string \<Rightarrow> string option \<Rightarrow> bool" where
  "token_grant_covers g action resource_type req_rid \<longleftrightarrow>
     token_action_ok (dict_get g ''action'' (JStr '''')) action \<and>
     resource_type_matches (dict_get g ''resource_type'' (JStr '''')) resource_type \<and>
     (req_rid = None \<or> resource_id_matches (dict_get g ''resource_id'' JNull) req_rid)"

lemma token_grants_allow_iff:
  "token_grants_allow gs action resource_type req_rid \<longleftrightarrow>
     list_ex (\<lambda>g. token_grant_covers g action resource_type req_rid) gs"
  by (induction gs) (auto simp: token_grant_covers_def)

interpretation token_grants: instance_grants token_grant_covers
  by unfold_locales
    (auto simp: token_grant_covers_def norm_rid_def
      intro: token_action_ok_trans match_trans)


section \<open>The verdict\<close>

text \<open>The verdict in one line: active, allowed by the owner's grants, and allowed by the token
  when the credential is a resource-scoped one.\<close>

lemma user_has_permission_iff:
  "user_has_permission u a t r \<longleftrightarrow> is_active u \<and> user_rbac_allows u a t r True \<and>
     (token_grants_for u = [] \<or> token_grants_allow (token_grants_for u) a t r)"
  by (auto simp: user_has_permission_def Let_def)

lemma user_rbac_allows_iff:
  "user_rbac_allows u a t r b \<longleftrightarrow> is_superadmin u \<or>
     (\<exists>d \<in> set (dicts (role_entries u)). perm_dict_allows d a t r) \<or>
     (b \<and> (\<exists>g \<in> set (or_empty (active_time_bound_grants u)). time_bound_allows g a t r))"
  by (auto simp: user_rbac_allows_def list_ex_iff)

lemma user_rbac_allows_static: "user_rbac_allows u a t r False \<Longrightarrow> user_rbac_allows u a t r True"
  by (auto simp: user_rbac_allows_iff)

lemma dicts_iff: "d \<in> set (dicts ps) \<longleftrightarrow> PDict d \<in> set ps"
  by (induction ps rule: dicts.induct) auto

lemma dicts_append [simp]: "dicts (ps @ qs) = dicts ps @ dicts qs"
  by (induction ps rule: dicts.induct) auto

lemma the_triples_iff: "x \<in> set (the_triples ps) \<longleftrightarrow> (\<exists>p \<in> set ps. perm_triple p = Some x)"
  by (induction ps) (auto split: option.splits)

section \<open>Triples and the entries they stand for\<close>

text \<open>An entry whose \<open>resource_id\<close>, when it is an object, is a string or null: the shape the
  role editor's schema accepts.\<close>

fun typed_entry :: "json_entry \<Rightarrow> bool" where
  "typed_entry (PDict d) = (case dict_get d ''resource_id'' JNull of JOther _ \<Rightarrow> False | _ \<Rightarrow> True)"
| "typed_entry PNotDict = True"

lemma triple_of_Some:
  "triple_of x y z = Some (a, t, r) \<longleftrightarrow> x = JStr a \<and> y = JStr t \<and>
     r = (case z of JStr s \<Rightarrow> if s \<noteq> '''' \<and> s \<noteq> ''*'' then Some s else None | _ \<Rightarrow> None)"
  by (auto simp: triple_of_def split: jval.splits)

lemma perm_triple_norm: "perm_triple p = Some (a, t, r) \<Longrightarrow> norm_rid r"
  by (cases p rule: perm_triple.cases)
    (auto simp: triple_of_Some norm_rid_def split: jval.splits if_splits)

lemma triple_rid_matches:
  assumes "\<And>s. z \<noteq> JOther s"
  shows "resource_id_matches (opt_jval (case z of JStr s \<Rightarrow> if s \<noteq> '''' \<and> s \<noteq> ''*'' then Some s else None
                                              | _ \<Rightarrow> None)) r
         \<longleftrightarrow> resource_id_matches z r"
  using assms by (cases z) (auto simp: resource_id_matches_def any_instance_def split: option.splits)

lemma perm_triple_dict_allows:
  assumes "perm_triple (PJson (PDict d)) = Some x" and "typed_entry (PDict d)"
  shows "triple_allows x a t r \<longleftrightarrow> perm_dict_allows d a t r"
proof -
  obtain a' t' r' where x: "x = (a', t', r')" by (cases x)
  have z: "\<And>s. dict_get d ''resource_id'' JNull \<noteq> JOther s"
    using assms(2) by (auto split: jval.splits)
  from assms(1) x show ?thesis
    by (auto simp: perm_dict_allows_def triple_of_Some triple_rid_matches [OF z])
qed

lemma perm_dict_allows_strings:
  assumes "perm_dict_allows d a t r"
  shows "\<exists>x. perm_triple (PJson (PDict d)) = Some x"
proof -
  from assms obtain a' t' where
    "dict_get d ''action'' (JStr '''') = JStr a'" "dict_get d ''resource_type'' (JStr '''') = JStr t'"
    by (auto simp: perm_dict_allows_def match_defs split: if_splits)
  then show ?thesis by (simp add: triple_of_def)
qed

lemma time_bound_triple:
  "\<exists>x. perm_triple (PGrant g) = Some x \<and> (\<forall>a t r. triple_allows x a t r = time_bound_allows g a t r)"
proof -
  let ?z = "opt_jval (tbg_resource_id g)"
  have z: "\<And>s. ?z \<noteq> JOther s" by (cases "tbg_resource_id g") auto
  show ?thesis
    by (simp add: triple_of_def time_bound_allows_def triple_rid_matches [OF z])
qed

lemma not_dict_triple: "perm_triple (PJson PNotDict) = Some ('''', '''', None)"
  by (simp add: triple_of_def)

section \<open>What the introspection list says\<close>

definition typed_user :: "user \<Rightarrow> bool" where
  "typed_user u \<longleftrightarrow> list_all typed_entry (role_entries u) \<and>
     list_all typed_entry (or_empty (api_token_resource_grants u))"

text \<open>A triple the owner holds allows only what the owner's own grants allow.\<close>

lemma owner_triple_rbac:
  assumes x: "x \<in> set (owner_triples u)" and ok: "triple_allows x a t r" and ne: "a \<noteq> ''''"
    and ty: "typed_user u"
  shows "user_rbac_allows u a t r True"
proof -
  consider (sup) "is_superadmin u"
    | (role) e where "e \<in> set (role_entries u)" "perm_triple (PJson e) = Some x"
    | (row) g where "g \<in> set (or_empty (active_time_bound_grants u))" "perm_triple (PGrant g) = Some x"
    using x by (auto simp: owner_triples_def the_triples_iff split: if_splits)
  then show ?thesis
  proof cases
    case sup
    then show ?thesis by (simp add: user_rbac_allows_def)
  next
    case (role e)
    show ?thesis
    proof (cases e)
      case (PDict d)
      with role ty have "typed_entry (PDict d)" by (auto simp: typed_user_def list_all_iff)
      with role PDict ok show ?thesis
        by (auto simp: user_rbac_allows_iff dicts_iff perm_triple_dict_allows)
    next
      case PNotDict
      with role ok ne show ?thesis
        by (auto simp: triple_of_def action_matches_def split: if_splits)
    qed
  next
    case (row g)
    with ok time_bound_triple [of g] show ?thesis by (auto simp: user_rbac_allows_iff)
  qed
qed

lemma rbac_owner_triple:
  assumes "user_rbac_allows u a t r True" and ty: "typed_user u"
  shows "\<exists>x \<in> set (owner_triples u). triple_allows x a t r"
proof -
  consider (sup) "is_superadmin u"
    | (role) d where "PDict d \<in> set (role_entries u)" "perm_dict_allows d a t r"
    | (row) g where "g \<in> set (or_empty (active_time_bound_grants u))" "time_bound_allows g a t r"
    using assms(1) by (auto simp: user_rbac_allows_iff dicts_iff)
  then show ?thesis
  proof cases
    case sup
    then show ?thesis by (auto simp: owner_triples_def match_defs)
  next
    case (role d)
    obtain x where x: "perm_triple (PJson (PDict d)) = Some x"
      using perm_dict_allows_strings [OF role(2)] by blast
    have "typed_entry (PDict d)" using role(1) ty by (auto simp: typed_user_def list_all_iff)
    then have "triple_allows x a t r" using x role(2) by (simp add: perm_triple_dict_allows)
    moreover have "x \<in> set (the_triples (map PJson (role_entries u)))"
      using x role(1) by (force simp: the_triples_iff)
    ultimately show ?thesis by (auto simp: owner_triples_def)
  next
    case (row g)
    obtain x where x: "perm_triple (PGrant g) = Some x" "triple_allows x a t r"
      using time_bound_triple [of g] row(2) by blast
    then have "x \<in> set (the_triples (map PGrant (or_empty (active_time_bound_grants u))))"
      using row(1) by (force simp: the_triples_iff)
    with x show ?thesis by (auto simp: owner_triples_def)
  qed
qed

lemma owner_triples_norm: "(a, t, r) \<in> set (owner_triples u) \<Longrightarrow> norm_rid r"
  by (auto simp: owner_triples_def the_triples_iff norm_rid_def simp del: perm_triple.simps
      dest!: perm_triple_norm split: if_splits)

text \<open>Narrowing by the token keeps only what both the triple and the token allow.\<close>

lemma narrow_any_sound:
  assumes "y \<in> set (narrow_any a' t' g)" and "triple_allows y a t r" and "typed_entry (PDict g)"
  shows "triple_allows (a', t', None) a t r \<and> token_grant_covers g a t r"
proof -
  let ?z = "dict_get g ''resource_id'' JNull"
  from assms(1) have act: "token_action_ok (dict_get g ''action'' (JStr '''')) a'"
    and tm: "resource_type_matches (dict_get g ''resource_type'' (JStr '''')) t'"
    and y: "y = (if any_instance ?z then (a', t', None) else (a', t', Some (jval_str ?z)))"
    by (auto simp: narrow_any_def Let_def split: if_splits)
  from y assms(2) have m: "action_matches (JStr a') a" "resource_type_matches (JStr t') t"
    by (auto split: if_splits)
  have rid: "resource_id_matches ?z r"
  proof (cases ?z)
    case (JStr s)
    then show ?thesis using y assms(2) by (auto simp: resource_id_matches_def split: if_splits)
  qed (use assms(3) in \<open>auto simp: resource_id_matches_def any_instance_def\<close>)
  have "triple_allows (a', t', None) a t r"
    using m by (simp add: resource_id_matches_def any_instance_def)
  moreover have "token_grant_covers g a t r"
    using token_action_ok_trans [OF act m(1)] resource_type_matches_trans [OF tm m(2)] rid
    by (simp add: token_grant_covers_def)
  ultimately show ?thesis ..
qed

lemma narrow_triple_sound:
  assumes "y \<in> set (narrow_triple gs (a', t', r'))" and "triple_allows y a t r" and "norm_rid r'"
    and "\<forall>g \<in> set gs. typed_entry (PDict g)"
  shows "triple_allows (a', t', r') a t r \<and> token_grants_allow gs a t r"
proof (cases r')
  case None
  with assms(1) obtain g where "g \<in> set gs" "y \<in> set (narrow_any a' t' g)" by auto
  with narrow_any_sound [OF this(2) assms(2)] assms(4) None show ?thesis
    by (auto simp: token_grants_allow_iff list_ex_iff)
next
  case (Some s)
  with assms(1) have "y = (a', t', Some s)" "token_grants_allow gs a' t' (Some s)"
    by (auto split: if_splits)
  with token_grants.list_scoped_mono [of s a' t' gs a t r] assms(2,3) Some show ?thesis
    by (auto simp: token_grants_allow_iff)
qed

lemma effective_grants_set:
  "is_active u \<Longrightarrow> set (effective_grants u) =
     (if token_grants_for u = [] then set (owner_triples u)
      else (\<Union>x \<in> set (owner_triples u). set (narrow_triple (token_grants_for u) x)))"
  by (simp add: effective_grants_def Let_def)

lemma token_grants_typed: "typed_user u \<Longrightarrow> \<forall>g \<in> set (token_grants_for u). typed_entry (PDict g)"
  by (auto simp: typed_user_def token_grants_for_def dicts_iff list_all_iff
      simp del: typed_entry.simps)

section \<open>Properties\<close>

text \<open>C3: The self-introspection list never over-reports. For a user whose stored permission
  entries have the schema's shape, whenever the client-side match over
  \<open>effective_grants(user)\<close> says yes to a request with a non-empty action, \<open>user_has_permission\<close>
  says yes too, with the active API token's narrowing included.\<close>

theorem effective_grants_sound:
  assumes "typed_user u" and "a \<noteq> ''''"
    and "permission_match (effective_grants u) a t r"
  shows "user_has_permission u a t r"
proof -
  have act: "is_active u"
    using assms(3) by (auto simp: permission_match_def effective_grants_def split: if_splits)
  obtain y where y: "y \<in> set (effective_grants u)" "triple_allows y a t r"
    using assms(3) by (auto simp: permission_match_def list_ex_iff)
  show ?thesis
  proof (cases "token_grants_for u = []")
    case True
    with y act owner_triple_rbac [OF _ y(2) assms(2,1)] show ?thesis
      by (simp add: effective_grants_set user_has_permission_iff)
  next
    case False
    with y act obtain a' t' r' where x: "(a', t', r') \<in> set (owner_triples u)"
      and n: "y \<in> set (narrow_triple (token_grants_for u) (a', t', r'))"
      by (auto simp: effective_grants_set)
    from narrow_triple_sound [OF n y(2) owner_triples_norm [OF x] token_grants_typed [OF assms(1)]]
    show ?thesis
      using act owner_triple_rbac [OF x _ assms(2,1)] by (simp add: user_has_permission_iff)
  qed
qed

text \<open>For a session, or a token without resource grants, the introspection list is exact:
  the client-side match over it and \<open>user_has_permission\<close> agree on every request with a
  non-empty action, so the UI greys out precisely what the API refuses.\<close>

theorem effective_grants_exact_without_token:
  assumes "typed_user u" and "token_grants_for u = []" and "a \<noteq> ''''"
  shows "permission_match (effective_grants u) a t r = user_has_permission u a t r"
proof (cases "is_active u")
  case False
  then show ?thesis by (simp add: effective_grants_def permission_match_def user_has_permission_iff)
next
  case True
  with assms rbac_owner_triple [OF _ assms(1)] owner_triple_rbac [OF _ _ assms(3,1)] show ?thesis
    by (auto simp: permission_match_def list_ex_iff effective_grants_set user_has_permission_iff)
qed

text \<open>The introspection list under-reports for a resource-scoped token. When a superadmin's
  credential is a token whose grants name concrete actions, the list is empty, so the
  client-side match denies everything, although \<open>user_has_permission\<close> allows every request
  the token's grants cover. The comment in \<open>effective_grants\<close> promises equality for every
  request; narrowing asks the token for the triple's own action (\<open>*\<close>) instead of the actions
  that triple implies.\<close>

theorem effective_grants_incomplete:
  assumes "is_active u" and "is_superadmin u" and "role_entries u = []"
    and "or_empty (active_time_bound_grants u) = []" and "token_grants_for u \<noteq> []"
    and "\<forall>g \<in> set (token_grants_for u). dict_get g ''action'' (JStr '''') \<noteq> JStr ''*''"
  shows "effective_grants u = [] \<and>
    (user_has_permission u a t r \<longleftrightarrow> token_grants_allow (token_grants_for u) a t r)"
proof -
  have "narrow_any ''*'' ''*'' g = []" if "g \<in> set (token_grants_for u)" for g
    using assms(6) that
    by (auto simp: narrow_any_def token_action_ok_def action_matches_def admin_implies_def)
  then have "map (narrow_any ''*'' ''*'') (token_grants_for u) = map (\<lambda>_. []) (token_grants_for u)"
    by simp
  with assms show ?thesis
    by (simp del: map_eq_conv add: effective_grants_def owner_triples_def Let_def user_has_permission_iff
        user_rbac_allows_def)
qed

definition scoped_admin :: user where
  "scoped_admin = (plain_user ''root'')\<lparr>is_superadmin := True,
     api_token_resource_grants := Some [perm ''write'' ''subnet'' (Some ''s1'')]\<rparr>"

theorem effective_grants_incomplete_witness:
  "effective_grants scoped_admin = [] \<and>
   user_has_permission scoped_admin ''write'' ''subnet'' (Some ''s1'') \<and>
   \<not> permission_match (effective_grants scoped_admin) ''write'' ''subnet'' (Some ''s1'')"
proof -
  have g: "token_grants_for scoped_admin = [[''action'' \<mapsto> JStr ''write'',
      ''resource_type'' \<mapsto> JStr ''subnet'', ''resource_id'' \<mapsto> JStr ''s1'']]"
    by (simp add: token_grants_for_def scoped_admin_def perm_def plain_user_def)
  have u: "is_active scoped_admin" "is_superadmin scoped_admin" "role_entries scoped_admin = []"
    "or_empty (active_time_bound_grants scoped_admin) = []"
    by (simp_all add: scoped_admin_def plain_user_def role_entries_def)
  have "effective_grants scoped_admin = [] \<and>
    (user_has_permission scoped_admin ''write'' ''subnet'' (Some ''s1'') \<longleftrightarrow>
     token_grants_allow (token_grants_for scoped_admin) ''write'' ''subnet'' (Some ''s1''))"
    by (rule effective_grants_incomplete [OF u]) (simp_all add: g dict_get_def)
  then show ?thesis
    by (simp add: g dict_get_def token_action_ok_def match_defs permission_match_def)
qed

theorem effective_grants_sound_witness:
  "permission_match (effective_grants (user_with ''eve'' [perm ''admin'' ''dns_zone'' (Some ''z1'')]))
     ''write'' ''dns_zone'' (Some ''z1'') \<and>
   user_has_permission (user_with ''eve'' [perm ''admin'' ''dns_zone'' (Some ''z1'')])
     ''write'' ''dns_zone'' (Some ''z1'')"
proof -
  let ?u = "user_with ''eve'' [perm ''admin'' ''dns_zone'' (Some ''z1'')]"
  have ty: "typed_user ?u"
    by (simp add: typed_user_def user_with_def plain_user_def role_entries_def perm_def dict_get_def)
  have m: "permission_match (effective_grants ?u) ''write'' ''dns_zone'' (Some ''z1'')"
    by (simp add: permission_match_def effective_grants_def owner_triples_def role_entries_def
        user_with_def plain_user_def perm_def dict_get_def triple_of_def token_grants_for_def
        match_defs admin_implies_def Let_def)
  with effective_grants_sound [OF ty _ m] show ?thesis by simp
qed

theorem effective_grants_exact_without_token_witness:
  "permission_match (effective_grants (user_with ''bob'' [perm ''read'' ''subnet'' None]))
     ''write'' ''subnet'' None =
   user_has_permission (user_with ''bob'' [perm ''read'' ''subnet'' None]) ''write'' ''subnet'' None"
  by (rule effective_grants_exact_without_token)
    (simp_all add: typed_user_def user_with_def plain_user_def role_entries_def perm_def
      dict_get_def token_grants_for_def)




text \<open>A resource-scoped token only narrows its owner. Whatever the token's grants are,
  everything the token may do, its owner may do in a session; and a token bound to at least
  one grant is an effective superadmin only when one of its own grants is the \<open>*\<close>/\<open>*\<close> one,
  even on a superadmin's account.\<close>

theorem token_only_narrows:
  "(user_has_permission u a t r \<longrightarrow>
      user_has_permission (u\<lparr>api_token_resource_grants := None\<rparr>) a t r) \<and>
   (token_grants_for u \<noteq> [] \<and> is_effective_superadmin u \<longrightarrow>
      (\<exists>g \<in> set (token_grants_for u). dict_get g ''action'' (JStr '''') = JStr ''*'' \<and>
         dict_get g ''resource_type'' (JStr '''') = JStr ''*''))"
proof -
  have rbac: "user_rbac_allows (u\<lparr>api_token_resource_grants := None\<rparr>) a t r True =
      user_rbac_allows u a t r True"
    by (simp add: user_rbac_allows_def role_entries_def)
  have none: "token_grants_for (u\<lparr>api_token_resource_grants := None\<rparr>) = []"
    by (simp add: token_grants_for_def)
  have sup: "\<exists>g \<in> set gs. dict_get g ''action'' (JStr '''') = JStr ''*'' \<and>
      dict_get g ''resource_type'' (JStr '''') = JStr ''*''"
    if "token_grants_allow gs ''*'' ''*'' None" for gs
    using that by (auto simp: token_grants_allow_iff list_ex_iff token_grant_covers_def
        token_action_ok_def match_defs split: if_splits)
  show ?thesis
    using sup by (auto simp: user_has_permission_iff rbac none is_effective_superadmin_def)
qed

theorem token_only_narrows_witness:
  "user_has_permission (user_with ''kim'' [perm ''*'' ''*'' None]) ''read'' ''subnet'' (Some ''s1'') \<and>
   user_has_permission ((user_with ''kim'' [perm ''*'' ''*'' None])\<lparr>api_token_resource_grants := None\<rparr>)
     ''read'' ''subnet'' (Some ''s1'')"
proof -
  let ?u = "user_with ''kim'' [perm ''*'' ''*'' None]"
  have "user_has_permission ?u ''read'' ''subnet'' (Some ''s1'')"
    by (simp add: user_has_permission_iff user_rbac_allows_def user_with_def plain_user_def
        role_entries_def perm_def token_grants_for_def perm_dict_allows_def dict_get_def match_defs)
  with token_only_narrows [of ?u "''read''" "''subnet''" "Some ''s1''"] show ?thesis by blast
qed

lemma scoped_ids_loop_spec:
  "(case scoped_ids_loop gs t ids of None \<Rightarrow> True | Some xs \<Rightarrow> r \<in> set xs) \<longleftrightarrow>
     r \<in> set ids \<or> token_scope_loop gs t (Some r)"
  by (induction gs arbitrary: ids)
    (auto simp: Let_def resource_id_matches_def split: option.splits)

text \<open>The list filter and the by-id gate agree. For every user, type and instance id, the id
  passes \<open>token_scope_allows\<close> exactly when \<open>token_scoped_resource_ids\<close> puts no filter on the
  type or has the id in its set, so a list endpoint shows precisely the rows whose by-id read
  the same credential would be let through.\<close>

theorem token_scope_list_agrees_with_gate:
  "token_scope_allows u t (Some r) \<longleftrightarrow>
     (case token_scoped_resource_ids u t of None \<Rightarrow> True | Some ids \<Rightarrow> r \<in> set ids)"
  using scoped_ids_loop_spec [where gs = "token_grants_for u" and ids = "[]"]
  by (auto simp: token_scope_allows_def token_scoped_resource_ids_def Let_def)

text \<open>Who may approve change requests. An \<open>admin\<close> grant on \<open>change_request\<close> does not confer
  \<open>approve\<close>, as the comment on the resource type says. A wildcard action on it does, which the
  same comment denies: \<open>_action_matches\<close> lets \<open>*\<close> cover every action.\<close>

theorem approve_follows_wildcard_not_admin:
  "\<not> user_has_permission (user_with i [perm ''admin'' ''change_request'' None]) ''approve''
       ''change_request'' None \<and>
   user_has_permission (user_with i [perm ''*'' ''change_request'' None]) ''approve''
       ''change_request'' None"
  by (simp add: user_has_permission_iff user_rbac_allows_def user_with_def plain_user_def
      role_entries_def perm_def token_grants_for_def perm_dict_allows_def dict_get_def match_defs
      admin_implies_def)

end
