(* ===== verification/Json.thy ===== *)
theory Json
  imports Prelude
begin

text \<open>
  The Python values that reach a JSON column and the two functions of the standard library's
  \<open>json\<close> module the audit chain calls: \<open>json.dumps\<close> (with \<open>sort_keys\<close>, \<open>separators\<close>,
  \<open>default=str\<close>, ASCII output) and \<open>json.loads\<close> (with \<open>parse_float\<close> and
  \<open>parse_constant\<close>). The main facts are that loading inverts dumping and that the sorted
  dump does not depend on the order of an object's keys.
\<close>

section \<open>Values\<close>

text \<open>\<open>PyFloat t\<close> is the float that \<open>json.dumps\<close> prints as \<open>t\<close>: its \<open>repr\<close>, or one of
  the three constants. \<open>PyOther t\<close> is an object the encoder does not know (a UUID, a
  datetime, a Decimal), whose \<open>str()\<close> is \<open>t\<close>. A dict is the list of its items in insertion
  order.\<close>

datatype pyval = PyNone | PyBool bool | PyInt int | PyFloat string | PyStr string
  | PyList "pyval list" | PyDict "(string \<times> pyval) list" | PyOther string

text \<open>\<open>bool(v)\<close>.\<close>

fun truthy :: "pyval \<Rightarrow> bool" where
  "truthy PyNone = False"
| "truthy (PyBool b) = b"
| "truthy (PyInt i) = (i \<noteq> 0)"
| "truthy (PyFloat t) = (t \<noteq> ''0.0'' \<and> t \<noteq> ''-0.0'')"
| "truthy (PyStr s) = (s \<noteq> [])"
| "truthy (PyList vs) = (vs \<noteq> [])"
| "truthy (PyDict kvs) = (kvs \<noteq> [])"
| "truthy (PyOther s) = True"

section \<open>Characters and numbers of JSON text\<close>

definition dquote :: char where "dquote = CHR 0x22"

definition bslash :: char where "bslash = CHR 0x5C"

lemmas json_chars = dquote_def bslash_def

definition is_digit :: "char \<Rightarrow> bool" where
  "is_digit c \<longleftrightarrow> 48 \<le> (of_char c :: nat) \<and> (of_char c :: nat) \<le> 57"

definition hex_digit :: "nat \<Rightarrow> char" where
  "hex_digit d = (if d < 10 then char_of (48 + d) else char_of (87 + d))"

definition hex_val :: "char \<Rightarrow> nat option" where
  "hex_val c = (let n = of_char c :: nat in
     if 48 \<le> n \<and> n \<le> 57 then Some (n - 48)
     else if 97 \<le> n \<and> n \<le> 102 then Some (n - 87)
     else if 65 \<le> n \<and> n \<le> 70 then Some (n - 55) else None)"

fun digits_val :: "string \<Rightarrow> nat \<Rightarrow> nat" where
  "digits_val [] acc = acc"
| "digits_val (c # cs) acc = digits_val cs (10 * acc + (of_char c - 48))"

section \<open>Dumping\<close>

text \<open>One character of a string literal, with \<open>ensure_ascii\<close>.\<close>

definition escape_char :: "char \<Rightarrow> string" where
  "escape_char c = (let n = of_char c :: nat in
     if c = dquote then [bslash, dquote] else if c = bslash then [bslash, bslash]
     else if n = 10 then [bslash, CHR ''n''] else if n = 13 then [bslash, CHR ''r'']
     else if n = 9 then [bslash, CHR ''t''] else if n = 12 then [bslash, CHR ''f'']
     else if n = 8 then [bslash, CHR ''b'']
     else if 32 \<le> n \<and> n \<le> 126 then [c]
     else [bslash, CHR ''u'', CHR ''0'', CHR ''0'', hex_digit (n div 16), hex_digit (n mod 16)])"

definition dump_str :: "string \<Rightarrow> string" where
  "dump_str s = dquote # concat (map escape_char s) @ [dquote]"

fun py_join :: "string \<Rightarrow> string list \<Rightarrow> string" where
  "py_join sep [] = []"
| "py_join sep [x] = x"
| "py_join sep (x # y # zs) = x @ sep @ py_join sep (y # zs)"

fun json_dumps :: "bool \<Rightarrow> string \<Rightarrow> string \<Rightarrow> pyval \<Rightarrow> string" where
  "json_dumps srt sep ksep PyNone = ''null''"
| "json_dumps srt sep ksep (PyBool b) = (if b then ''true'' else ''false'')"
| "json_dumps srt sep ksep (PyInt i) = int_str i"
| "json_dumps srt sep ksep (PyFloat t) = t"
| "json_dumps srt sep ksep (PyStr s) = dump_str s"
| "json_dumps srt sep ksep (PyOther s) = dump_str s"
| "json_dumps srt sep ksep (PyList vs) =
     ''['' @ py_join sep (map (json_dumps srt sep ksep) vs) @ '']''"
| "json_dumps srt sep ksep (PyDict kvs) = ''{'' @ py_join sep (map snd
     ((if srt then sort_key fst else id)
       (map (\<lambda>(k, v). (k, dump_str k @ ksep @ json_dumps srt sep ksep v)) kvs))) @ ''}''"

section \<open>Loading\<close>

definition is_ws :: "char \<Rightarrow> bool" where
  "is_ws c \<longleftrightarrow> c = CHR '' '' \<or> c = CHR 0x09 \<or> c = CHR 0x0A \<or> c = CHR 0x0D"

definition skip_ws :: "string \<Rightarrow> string" where
  "skip_ws s = dropWhile is_ws s"

definition unescape :: "char \<Rightarrow> char option" where
  "unescape c = (if c = dquote \<or> c = bslash \<or> c = CHR ''/'' then Some c
     else if c = CHR ''b'' then Some (CHR 0x08) else if c = CHR ''f'' then Some (CHR 0x0C)
     else if c = CHR ''n'' then Some (CHR 0x0A) else if c = CHR ''r'' then Some (CHR 0x0D)
     else if c = CHR ''t'' then Some (CHR 0x09) else None)"

text \<open>The text after an opening quote: the string and what follows its closing quote. A
  \<open>\u\<close> escape outside the code points of the model is refused.\<close>

fun scan_string :: "string \<Rightarrow> (string \<times> string) option" where
  "scan_string [] = None"
| "scan_string (c # cs) =
     (if c = dquote then Some ([], cs)
      else if c = bslash then
        (case cs of [] \<Rightarrow> None
         | d # ds \<Rightarrow>
           (if d = CHR ''u'' then
              (case ds of h1 # h2 # h3 # h4 # r \<Rightarrow>
                 (case (hex_val h1, hex_val h2, hex_val h3, hex_val h4) of
                    (Some a, Some b, Some x, Some y) \<Rightarrow>
                      (if a = 0 \<and> b = 0 then
                         map_option (\<lambda>(s, q). (char_of (16 * x + y) # s, q)) (scan_string r)
                       else None)
                  | _ \<Rightarrow> None)
               | _ \<Rightarrow> None)
            else (case unescape d of None \<Rightarrow> None
                  | Some e \<Rightarrow> map_option (\<lambda>(s, q). (e # s, q)) (scan_string ds))))
      else if (of_char c :: nat) < 32 then None
      else map_option (\<lambda>(s, q). (c # s, q)) (scan_string cs))"

definition scan_frac :: "string \<Rightarrow> string \<times> string" where
  "scan_frac s = (case s of [] \<Rightarrow> ([], []) | c # t \<Rightarrow>
     (if c = CHR ''.'' \<and> takeWhile is_digit t \<noteq> []
      then (c # takeWhile is_digit t, dropWhile is_digit t) else ([], s)))"

definition scan_sign :: "string \<Rightarrow> string \<times> string" where
  "scan_sign s = (case s of [] \<Rightarrow> ([], []) | d # u \<Rightarrow>
     (if d = CHR ''+'' \<or> d = CHR ''-'' then ([d], u) else ([], s)))"

definition scan_exp :: "string \<Rightarrow> string \<times> string" where
  "scan_exp s = (case s of [] \<Rightarrow> ([], []) | c # t \<Rightarrow>
     (if (c = CHR ''e'' \<or> c = CHR ''E'') \<and> takeWhile is_digit (snd (scan_sign t)) \<noteq> []
      then (c # fst (scan_sign t) @ takeWhile is_digit (snd (scan_sign t)),
            dropWhile is_digit (snd (scan_sign t)))
      else ([], s)))"

definition scan_int :: "string \<Rightarrow> string \<times> string" where
  "scan_int s = (case s of [] \<Rightarrow> ([], []) | c # t \<Rightarrow>
     (if c = CHR ''0'' then ([c], t) else (takeWhile is_digit s, dropWhile is_digit s)))"

definition scan_minus :: "string \<Rightarrow> string \<times> string" where
  "scan_minus s = (case s of [] \<Rightarrow> ([], []) | c # t \<Rightarrow> (if c = CHR ''-'' then ([c], t) else ([], s)))"

text \<open>The scanner's number pattern: sign and integer part, fraction, exponent, rest.\<close>

definition scan_number :: "string \<Rightarrow> (string \<times> string \<times> string \<times> string) option" where
  "scan_number s = (let (m, s1) = scan_minus s; (i, s2) = scan_int s1 in
     if i = [] then None
     else let (f, s3) = scan_frac s2; (e, s4) = scan_exp s3 in Some (m @ i, f, e, s4))"

definition int_val :: "string \<Rightarrow> int" where
  "int_val t = (case t of [] \<Rightarrow> 0 | c # cs \<Rightarrow>
     (if c = CHR ''-'' then - int (digits_val cs 0)
      else if c = CHR ''+'' then int (digits_val cs 0) else int (digits_val t 0)))"

text \<open>\<open>d[k] = v\<close>, and the dict of a list of pairs (a repeated key keeps its place and takes
  the last value).\<close>

fun dict_put :: "string \<Rightarrow> 'v \<Rightarrow> (string \<times> 'v) list \<Rightarrow> (string \<times> 'v) list" where
  "dict_put k v [] = [(k, v)]"
| "dict_put k v ((k', v') # kvs) = (if k' = k then (k, v) # kvs else (k', v') # dict_put k v kvs)"

definition py_dict_of :: "(string \<times> 'v) list \<Rightarrow> (string \<times> 'v) list" where
  "py_dict_of kvs = fold (\<lambda>(k, v). dict_put k v) kvs []"

fun parse_value :: "(string \<Rightarrow> pyval) \<Rightarrow> (string \<Rightarrow> pyval) \<Rightarrow> nat \<Rightarrow> string \<Rightarrow> (pyval \<times> string) option"
and parse_items :: "(string \<Rightarrow> pyval) \<Rightarrow> (string \<Rightarrow> pyval) \<Rightarrow> nat \<Rightarrow> string \<Rightarrow> (pyval list \<times> string) option"
and parse_pairs :: "(string \<Rightarrow> pyval) \<Rightarrow> (string \<Rightarrow> pyval) \<Rightarrow> nat \<Rightarrow> string \<Rightarrow>
      ((string \<times> pyval) list \<times> string) option" where
  "parse_value pf pc 0 s = None"
| "parse_value pf pc (Suc n) s = (case s of [] \<Rightarrow> None | c # cs \<Rightarrow>
     (if c = dquote then map_option (\<lambda>(t, r). (PyStr t, r)) (scan_string cs)
      else if c = CHR ''{'' then
        (case skip_ws cs of [] \<Rightarrow> None
         | d # r \<Rightarrow> (if d = CHR ''}'' then Some (PyDict [], r)
                      else map_option (\<lambda>(kvs, q). (PyDict (py_dict_of kvs), q))
                             (parse_pairs pf pc n (d # r))))
      else if c = CHR ''['' then
        (case skip_ws cs of [] \<Rightarrow> None
         | d # r \<Rightarrow> (if d = CHR '']'' then Some (PyList [], r)
                      else map_option (\<lambda>(vs, q). (PyList vs, q)) (parse_items pf pc n (d # r))))
      else if py_startswith s ''null'' then Some (PyNone, drop 4 s)
      else if py_startswith s ''true'' then Some (PyBool True, drop 4 s)
      else if py_startswith s ''false'' then Some (PyBool False, drop 5 s)
      else (case scan_number s of
          Some (i, f, e, r) \<Rightarrow> Some (if f = [] \<and> e = [] then PyInt (int_val i) else pf (i @ f @ e), r)
        | None \<Rightarrow>
            (if py_startswith s ''NaN'' then Some (pc ''NaN'', drop 3 s)
             else if py_startswith s ''Infinity'' then Some (pc ''Infinity'', drop 8 s)
             else if py_startswith s ''-Infinity'' then Some (pc ''-Infinity'', drop 9 s)
             else None))))"
| "parse_items pf pc 0 s = None"
| "parse_items pf pc (Suc n) s = (case parse_value pf pc n s of None \<Rightarrow> None
     | Some (v, r) \<Rightarrow> (case skip_ws r of [] \<Rightarrow> None
        | c # q \<Rightarrow> (if c = CHR '']'' then Some ([v], q)
            else if c = CHR '','' then
              map_option (\<lambda>(vs, z). (v # vs, z)) (parse_items pf pc n (skip_ws q))
            else None)))"
| "parse_pairs pf pc 0 s = None"
| "parse_pairs pf pc (Suc n) s = (case s of [] \<Rightarrow> None | a # s1 \<Rightarrow>
     if a \<noteq> dquote then None else
     (case scan_string s1 of None \<Rightarrow> None
      | Some (k, s2) \<Rightarrow> (case skip_ws s2 of [] \<Rightarrow> None
         | b # s3 \<Rightarrow> if b \<noteq> CHR '':'' then None else
           (case parse_value pf pc n (skip_ws s3) of None \<Rightarrow> None
            | Some (v, r) \<Rightarrow> (case skip_ws r of [] \<Rightarrow> None
               | c # q \<Rightarrow> (if c = CHR ''}'' then Some ([(k, v)], q)
                   else if c = CHR '','' then
                     map_option (\<lambda>(kvs, z). ((k, v) # kvs, z)) (parse_pairs pf pc n (skip_ws q))
                   else None))))))"

text \<open>\<open>json.loads\<close>: a value with whitespace around it and nothing else. Each call of the
  parser consumes a character first, so the length of the text is enough fuel.\<close>

definition json_loads :: "(string \<Rightarrow> pyval) \<Rightarrow> (string \<Rightarrow> pyval) \<Rightarrow> string \<Rightarrow> pyval option" where
  "json_loads pf pc s = (case parse_value pf pc (length s) (skip_ws s) of
     Some (v, r) \<Rightarrow> (if skip_ws r = [] then Some v else None) | None \<Rightarrow> None)"

section \<open>Scanning what was dumped\<close>

lemma of_char_less [simp]: "(of_char c :: nat) < 256"
  by (cases c) (simp add: of_char_def; fail | transfer; simp)?

lemma hex_val_digit [simp]: "d < 16 \<Longrightarrow> hex_val (hex_digit d) = Some d"
  by (simp add: hex_val_def hex_digit_def Let_def)

lemma of_char_eqD: "(of_char c :: nat) = of_char d \<Longrightarrow> c = d"
  by simp

lemma scan_string_escape:
  "scan_string (escape_char c @ t) = map_option (\<lambda>(s, q). (c # s, q)) (scan_string t)"
proof -
  let ?n = "of_char c :: nat"
  have esc: "?n = 10 \<Longrightarrow> c = CHR 0x0A" "?n = 13 \<Longrightarrow> c = CHR 0x0D" "?n = 9 \<Longrightarrow> c = CHR 0x09"
    "?n = 12 \<Longrightarrow> c = CHR 0x0C" "?n = 8 \<Longrightarrow> c = CHR 0x08"
    by (rule of_char_eqD, simp)+
  have "16 * (?n div 16) + ?n mod 16 = ?n" by simp
  then have "char_of (16 * (?n div 16) + ?n mod 16) = c" by simp
  moreover have "?n div 16 < 16" by (rule less_mult_imp_div_less) simp
  moreover have "?n mod 16 < 16" by simp
  ultimately show ?thesis
    by (auto simp: escape_char_def unescape_def json_chars Let_def hex_val_def [of "CHR ''0''"]
        dest: esc)
qed

lemma scan_string_dump: "scan_string (concat (map escape_char s) @ dquote # rest) = Some (s, rest)"
  by (induction s) (simp_all add: scan_string_escape)

definition delim :: "string \<Rightarrow> bool" where
  "delim s \<longleftrightarrow> s = [] \<or> hd s = CHR '','' \<or> hd s = CHR '']'' \<or> hd s = CHR ''}''"

lemma delim_not_digit: "delim s \<Longrightarrow> takeWhile is_digit s = []" "delim s \<Longrightarrow> dropWhile is_digit s = s"
  by (cases s; force simp: delim_def is_digit_def)+

lemma take_digits_append:
  "delim r \<Longrightarrow> takeWhile is_digit (s @ r) = takeWhile is_digit s"
  "delim r \<Longrightarrow> dropWhile is_digit (s @ r) = dropWhile is_digit s @ r"
  by (induction s) (auto simp: delim_not_digit)

lemma scan_frac_append: "delim r \<Longrightarrow> scan_frac (s @ r) = (fst (scan_frac s), snd (scan_frac s) @ r)"
  by (cases s; cases r) (auto simp: scan_frac_def take_digits_append delim_def)

lemma scan_sign_append: "delim r \<Longrightarrow> scan_sign (s @ r) = (fst (scan_sign s), snd (scan_sign s) @ r)"
  by (cases s; cases r) (auto simp: scan_sign_def delim_def)

lemma scan_exp_append: "delim r \<Longrightarrow> scan_exp (s @ r) = (fst (scan_exp s), snd (scan_exp s) @ r)"
  by (cases s; cases r)
    (auto simp: scan_exp_def take_digits_append scan_sign_append delim_def)

lemma scan_int_append: "delim r \<Longrightarrow> scan_int (s @ r) = (fst (scan_int s), snd (scan_int s) @ r)"
  by (cases s; cases r)
    (auto simp: scan_int_def take_digits_append delim_def is_digit_def)

lemma scan_minus_append: "delim r \<Longrightarrow> scan_minus (s @ r) = (fst (scan_minus s), snd (scan_minus s) @ r)"
  by (cases s; cases r) (auto simp: scan_minus_def delim_def)

lemma scan_number_append:
  "delim r \<Longrightarrow> scan_number (s @ r) = map_option (\<lambda>(i, f, e, q). (i, f, e, q @ r)) (scan_number s)"
  by (simp add: scan_number_def scan_minus_append scan_int_append scan_frac_append scan_exp_append
      Let_def split: prod.splits)

text \<open>A float literal the number pattern reads completely and as a float.\<close>

definition float_token :: "string \<Rightarrow> bool" where
  "float_token t \<longleftrightarrow> (case scan_number t of
     Some (i, f, e, r) \<Rightarrow> i @ f @ e = t \<and> r = [] \<and> (f \<noteq> [] \<or> e \<noteq> []) | None \<Rightarrow> False)"

definition json_constants :: "string list" where
  "json_constants = [''NaN'', ''Infinity'', ''-Infinity'']"

lemma digit_char [simp]: "(d :: nat) < 10 \<Longrightarrow> is_digit (char_of (48 + d))"
  by (simp add: is_digit_def)

lemma nat_digits_digits: "list_all is_digit (nat_digits n)"
proof (induction n rule: less_induct)
  case (less n)
  show ?case
  proof (cases "n < 10")
    case True
    then show ?thesis by (subst nat_digits.simps) simp
  next
    case False
    then show ?thesis using less by (subst nat_digits.simps) simp
  qed
qed

lemma digits_val_append: "digits_val (s @ t) acc = digits_val t (digits_val s acc)"
  by (induction s arbitrary: acc) auto

lemma digits_val_nat_digits: "digits_val (nat_digits n) 0 = n"
proof (induction n rule: less_induct)
  case (less n)
  show ?case
  proof (cases "n < 10")
    case True
    then show ?thesis by (subst nat_digits.simps) simp
  next
    case False
    then have "n div 10 < n" by simp
    from less [OF this] False show ?thesis
      by (subst nat_digits.simps) (simp add: digits_val_append)
  qed
qed

lemma nat_digits_hd:
  "nat_digits n \<noteq> [] \<and> (n \<noteq> 0 \<longrightarrow> hd (nat_digits n) \<noteq> CHR ''0'')"
proof (induction n rule: less_induct)
  case (less n)
  show ?case
  proof (cases "n < 10")
    case True
    have "n \<noteq> 0 \<Longrightarrow> (of_char (char_of (48 + n) :: char) :: nat) \<noteq> of_char CHR ''0''"
      using True by simp
    then have "n \<noteq> 0 \<Longrightarrow> char_of (48 + n) \<noteq> CHR ''0''" by metis
    then show ?thesis using True by (subst (1 2) nat_digits.simps) simp
  next
    case False
    then have "n div 10 < n" "n div 10 \<noteq> 0" by auto
    from less [OF this(1)] this(2) False show ?thesis
      by (subst (1 2) nat_digits.simps) simp
  qed
qed

lemma nat_digits_0 [simp]: "nat_digits 0 = ''0''"
  by (subst nat_digits.simps) (simp, rule of_char_eqD, simp)

lemma takeWhile_all: "list_all P xs \<Longrightarrow> takeWhile P xs = xs \<and> dropWhile P xs = []"
  by (induction xs) auto

lemma scan_int_nat_digits: "scan_int (nat_digits n) = (nat_digits n, [])"
  using nat_digits_hd [of n] takeWhile_all [OF nat_digits_digits, of n]
  by (cases "n = 0"; cases "nat_digits n") (auto simp: scan_int_def)

lemma nat_digits_no_sign:
  "c \<notin> {CHR ''-'', CHR ''+'', dquote, CHR ''{'', CHR ''['', CHR ''n'', CHR ''t'', CHR ''f''}"
  if "nat_digits n = c # cs"
  using nat_digits_digits [of n] that by (auto simp: is_digit_def json_chars)

lemma scan_number_int_str: "scan_number (int_str i) = Some (int_str i, [], [], [])"
proof -
  obtain c cs where d: "nat_digits (nat \<bar>i\<bar>) = c # cs" using nat_digits_hd by (metis list.exhaust)
  with nat_digits_no_sign [OF d] scan_int_nat_digits [of "nat \<bar>i\<bar>"] show ?thesis
    by (auto simp: scan_number_def int_str_def scan_minus_def scan_frac_def scan_exp_def)
qed

lemma int_val_int_str: "int_val (int_str i) = i"
proof -
  obtain c cs where d: "nat_digits (nat \<bar>i\<bar>) = c # cs" using nat_digits_hd by (metis list.exhaust)
  with nat_digits_no_sign [OF d] digits_val_nat_digits [of "nat \<bar>i\<bar>"] show ?thesis
    by (auto simp: int_val_def int_str_def simp del: digits_val.simps)
qed
section \<open>Loading inverts dumping\<close>

text \<open>Values \<open>json.dumps\<close> prints faithfully: floats print as a literal of the number grammar
  or as a constant, dict keys are distinct.\<close>

fun dumpable :: "pyval \<Rightarrow> bool" where
  "dumpable (PyFloat t) = (float_token t \<or> t \<in> set json_constants)"
| "dumpable (PyList vs) = list_all dumpable vs"
| "dumpable (PyDict kvs) = (distinct (map fst kvs) \<and> list_all (\<lambda>(k, v). dumpable v) kvs)"
| "dumpable _ = True"

text \<open>What loading makes of it, with the given number and constant readers.\<close>

fun reloaded :: "(string \<Rightarrow> pyval) \<Rightarrow> (string \<Rightarrow> pyval) \<Rightarrow> pyval \<Rightarrow> pyval" where
  "reloaded pf pc (PyFloat t) = (if t \<in> set json_constants then pc t else pf t)"
| "reloaded pf pc (PyOther s) = PyStr s"
| "reloaded pf pc (PyList vs) = PyList (map (reloaded pf pc) vs)"
| "reloaded pf pc (PyDict kvs) = PyDict (map (\<lambda>(k, v). (k, reloaded pf pc v)) kvs)"
| "reloaded pf pc v = v"

definition is_sep :: "char \<Rightarrow> string \<Rightarrow> bool" where
  "is_sep c s \<longleftrightarrow> s \<noteq> [] \<and> hd s = c \<and> list_all is_ws (tl s)"

lemma skip_ws_sep: "list_all is_ws w \<Longrightarrow> skip_ws (w @ s) = skip_ws s"
  by (induction w) (auto simp: skip_ws_def)

text \<open>Text that starts a value: neither whitespace nor the end of an array.\<close>

definition starts_value :: "string \<Rightarrow> bool" where
  "starts_value s \<longleftrightarrow> s \<noteq> [] \<and> \<not> is_ws (hd s) \<and> hd s \<noteq> CHR '']''"

lemma skip_starts_value: "starts_value s \<Longrightarrow> skip_ws (s @ t) = s @ t"
  by (cases s) (auto simp: starts_value_def skip_ws_def)

lemma number_starts_value: "scan_number t = Some (i, f, e, r) \<Longrightarrow> i @ f @ e = t \<Longrightarrow> starts_value t"
  by (cases t) (auto simp: scan_number_def scan_minus_def scan_int_def starts_value_def is_ws_def is_digit_def
      split: if_splits prod.splits)

lemma int_str_starts_value: "starts_value (int_str i)"
  using number_starts_value [OF scan_number_int_str] by simp

lemma dump_str_starts_value: "starts_value (dump_str s)"
  by (simp add: dump_str_def starts_value_def is_ws_def json_chars)

lemma dumps_starts_value: "dumpable v \<Longrightarrow> starts_value (json_dumps False sep ksep v)"
  by (cases v) (auto simp: int_str_starts_value dump_str_starts_value float_token_def json_constants_def
      intro: number_starts_value split: option.splits, auto simp: starts_value_def is_ws_def)

lemma fold_dict_put:
  "distinct (map fst (xs @ ys)) \<Longrightarrow> fold (\<lambda>(k, v). dict_put k v) ys xs = xs @ ys"
proof (induction ys arbitrary: xs)
  case (Cons y ys)
  obtain k v where y: "y = (k, v)" by (cases y)
  have "k \<notin> fst ` set xs \<Longrightarrow> dict_put k v xs = xs @ [(k, v)]" for xs :: "(string \<times> 'a) list"
    by (induction xs) auto
  with Cons.prems y have "dict_put k v xs = xs @ [(k, v)]" by auto
  with Cons.IH [of "xs @ [(k, v)]"] Cons.prems y show ?case by auto
qed simp

lemma py_dict_of_distinct: "distinct (map fst kvs) \<Longrightarrow> py_dict_of kvs = kvs"
  using fold_dict_put [of "[]" kvs] by (simp add: py_dict_of_def)

abbreviation dump_pair :: "string \<Rightarrow> string \<Rightarrow> string \<times> pyval \<Rightarrow> string" where
  "dump_pair sep ksep kv \<equiv> dump_str (fst kv) @ ksep @ json_dumps False sep ksep (snd kv)"

lemma dumps_dict: "json_dumps False sep ksep (PyDict kvs) =
  ''{'' @ py_join sep (map (dump_pair sep ksep) kvs) @ ''}''"
  by (simp add: case_prod_beta' comp_def)

lemma parse_number:
  assumes "scan_number t = Some (i, f, e, [])" "i @ f @ e = t" "delim rest"
  shows "parse_value pf pc (Suc n) (t @ rest) =
    Some (if f = [] \<and> e = [] then PyInt (int_val i) else pf t, rest)"
proof -
  obtain c cs where t: "t = c # cs" "c = CHR ''-'' \<or> is_digit c"
    using assms(1,2) by (cases t)
      (auto simp: scan_number_def scan_minus_def scan_int_def is_digit_def [of "CHR ''0''"]
        split: if_splits prod.splits)
  then have "c \<notin> {dquote, CHR ''{'', CHR ''['', CHR ''n'', CHR ''t'', CHR ''f''}"
    by (auto simp: is_digit_def json_chars)
  moreover have "scan_number (t @ rest) = Some (i, f, e, rest)"
    using assms by (simp add: scan_number_append)
  ultimately show ?thesis using t(1) assms(2) by (auto simp: py_startswith_def)
qed

lemma parse_constant: "t \<in> set json_constants \<Longrightarrow> delim rest \<Longrightarrow>
  parse_value pf pc (Suc n) (t @ rest) = Some (pc t, rest)"
  by (auto simp: json_constants_def json_chars py_startswith_def scan_number_def scan_minus_def
      scan_int_def is_digit_def)

lemma parse_str: "parse_value pf pc (Suc n) (dump_str s @ rest) = Some (PyStr s, rest)"
  by (simp add: dump_str_def scan_string_dump)
text \<open>The three parsers invert the dump of a value, of the items of a list and of the items of a
  dict, when the fuel covers the text.\<close>

abbreviation array_text :: "string \<Rightarrow> string \<Rightarrow> pyval list \<Rightarrow> string" where
  "array_text sep ksep vs \<equiv> py_join sep (map (json_dumps False sep ksep) vs)"

abbreviation object_text :: "string \<Rightarrow> string \<Rightarrow> (string \<times> pyval) list \<Rightarrow> string" where
  "object_text sep ksep kvs \<equiv> py_join sep (map (dump_pair sep ksep) kvs)"

abbreviation reload_items where
  "reload_items pf pc kvs \<equiv> map (\<lambda>(k, v). (k, reloaded pf pc v)) kvs"

definition value_ok where
  "value_ok pf pc sep ksep n \<longleftrightarrow> (\<forall>v rest. dumpable v \<longrightarrow> delim rest \<longrightarrow>
     length (json_dumps False sep ksep v) \<le> n \<longrightarrow>
     parse_value pf pc n (json_dumps False sep ksep v @ rest) = Some (reloaded pf pc v, rest))"

definition items_ok where
  "items_ok pf pc sep ksep n \<longleftrightarrow> (\<forall>vs rest. vs \<noteq> [] \<longrightarrow> list_all dumpable vs \<longrightarrow>
     length (array_text sep ksep vs) < n \<longrightarrow>
     parse_items pf pc n (array_text sep ksep vs @ CHR '']'' # rest) =
       Some (map (reloaded pf pc) vs, rest))"

definition pairs_ok where
  "pairs_ok pf pc sep ksep n \<longleftrightarrow> (\<forall>kvs rest. kvs \<noteq> [] \<longrightarrow> list_all (\<lambda>(k, v). dumpable v) kvs \<longrightarrow>
     length (object_text sep ksep kvs) < n \<longrightarrow>
     parse_pairs pf pc n (object_text sep ksep kvs @ CHR ''}'' # rest) =
       Some (reload_items pf pc kvs, rest))"

lemma value_okD:
  "value_ok pf pc sep ksep n \<Longrightarrow> dumpable v \<Longrightarrow> delim rest \<Longrightarrow>
   length (json_dumps False sep ksep v) \<le> n \<Longrightarrow>
   parse_value pf pc n (json_dumps False sep ksep v @ rest) = Some (reloaded pf pc v, rest)"
  by (simp add: value_ok_def)

lemma array_text_starts: "list_all dumpable vs \<Longrightarrow> vs \<noteq> [] \<Longrightarrow> starts_value (array_text sep ksep vs)"
  using dumps_starts_value [of "hd vs" sep ksep]
  by (cases vs; cases "tl vs") (auto simp: starts_value_def)

lemma object_text_starts: "kvs \<noteq> [] \<Longrightarrow> \<exists>ds. object_text sep ksep kvs = dquote # ds"
  by (cases kvs; cases "tl kvs") (auto simp: dump_str_def)

lemma dquote_starts: "starts_value (dquote # ds)"
  by (simp add: starts_value_def is_ws_def json_chars)

lemma skip_sep:
  assumes "is_sep c sep" "\<not> is_ws c" "starts_value t"
  obtains w where "sep = c # w" "\<And>r. skip_ws (w @ t @ r) = t @ r" "\<And>r. skip_ws (sep @ r) = sep @ r"
proof
  show "sep = c # tl sep" using assms(1) by (cases sep) (auto simp: is_sep_def)
  show "skip_ws (tl sep @ t @ r) = t @ r" for r
    using assms(1) skip_ws_sep [of "tl sep"] skip_starts_value [OF assms(3)] by (simp add: is_sep_def)
  show "skip_ws (sep @ r) = sep @ r" for r
    using assms(1,2) by (cases sep) (auto simp: is_sep_def skip_ws_def)
qed

lemma sep_not_ws: "\<not> is_ws (CHR '','')" "\<not> is_ws (CHR '':'')"
  by (simp_all add: is_ws_def)

lemma parse_array:
  assumes "items_ok pf pc sep ksep n" "dumpable (PyList vs)"
    "length (json_dumps False sep ksep (PyList vs)) \<le> Suc n"
  shows "parse_value pf pc (Suc n) (json_dumps False sep ksep (PyList vs) @ rest) =
    Some (reloaded pf pc (PyList vs), rest)"
proof (cases "vs = []")
  case True
  then show ?thesis by (simp add: json_chars skip_ws_def is_ws_def)
next
  case False
  let ?t = "array_text sep ksep vs"
  have sv: "starts_value ?t" using array_text_starts False assms(2) by simp
  then obtain d ds where t: "?t = d # ds" "d \<noteq> CHR '']''" by (cases ?t) (auto simp: starts_value_def)
  show ?thesis using assms False t skip_starts_value [OF sv]
    by (auto simp: items_ok_def json_chars)
qed

lemma parse_object:
  assumes "pairs_ok pf pc sep ksep n" "dumpable (PyDict kvs)"
    "length (json_dumps False sep ksep (PyDict kvs)) \<le> Suc n"
  shows "parse_value pf pc (Suc n) (json_dumps False sep ksep (PyDict kvs) @ rest) =
    Some (reloaded pf pc (PyDict kvs), rest)"
proof (cases "kvs = []")
  case True
  then show ?thesis by (simp add: json_chars skip_ws_def is_ws_def)
next
  case False
  let ?t = "object_text sep ksep kvs"
  obtain ds where t: "?t = dquote # ds" using object_text_starts False by blast
  have "distinct (map fst (reload_items pf pc kvs))"
    using assms(2) by (simp add: comp_def case_prod_beta')
  then have d: "py_dict_of (reload_items pf pc kvs) = reload_items pf pc kvs"
    by (rule py_dict_of_distinct)
  have p: "parse_pairs pf pc n (?t @ CHR ''}'' # rest) = Some (reload_items pf pc kvs, rest)"
    using assms False unfolding pairs_ok_def dumps_dict by simp
  have "skip_ws (?t @ CHR ''}'' # rest) = ?t @ CHR ''}'' # rest"
    using t skip_starts_value dquote_starts by metis
  then show ?thesis unfolding dumps_dict using p d t by (auto simp: json_chars)
qed

lemma value_ok_Suc:
  assumes "items_ok pf pc sep ksep n" "pairs_ok pf pc sep ksep n"
  shows "value_ok pf pc sep ksep (Suc n)"
  unfolding value_ok_def
proof (intro allI impI)
  fix v rest
  assume v: "dumpable v" and r: "delim rest" and l: "length (json_dumps False sep ksep v) \<le> Suc n"
  show "parse_value pf pc (Suc n) (json_dumps False sep ksep v @ rest) = Some (reloaded pf pc v, rest)"
  proof (cases v)
    case (PyInt i)
    then show ?thesis using parse_number [OF scan_number_int_str _ r]
      by (simp add: int_val_int_str del: parse_value.simps)
  next
    case (PyFloat t)
    show ?thesis
    proof (cases "t \<in> set json_constants")
      case True
      then show ?thesis using PyFloat r by (simp add: parse_constant del: parse_value.simps)
    next
      case False
      then obtain i f e where "scan_number t = Some (i, f, e, [])" "i @ f @ e = t"
        "f \<noteq> [] \<or> e \<noteq> []" using v PyFloat by (auto simp: float_token_def split: option.splits)
      then show ?thesis using PyFloat False parse_number [OF _ _ r]
        by (auto simp del: parse_value.simps)
    qed
  next
    case (PyList vs)
    then show ?thesis using parse_array [OF assms(1)] v l by blast
  next
    case (PyDict kvs)
    then show ?thesis using parse_object [OF assms(2)] v l by blast
  qed (auto simp: parse_str json_chars py_startswith_def simp del: parse_value.simps,
      auto simp: json_chars py_startswith_def)
qed

lemma items_ok_Suc:
  assumes sep: "is_sep (CHR '','') sep" and v: "value_ok pf pc sep ksep n"
    and i: "items_ok pf pc sep ksep n"
  shows "items_ok pf pc sep ksep (Suc n)"
  unfolding items_ok_def
proof (intro allI impI)
  fix vs rest
  let ?goal = "\<lambda>vs. parse_items pf pc (Suc n) (array_text sep ksep vs @ CHR '']'' # rest) =
    Some (map (reloaded pf pc) vs, rest)"
  assume vs: "vs \<noteq> []" "list_all dumpable vs" "length (array_text sep ksep vs) < Suc n"
  then obtain x xs where x: "vs = x # xs" by (cases vs) auto
  show "?goal vs"
  proof (cases "xs = []")
    case True
    then show ?thesis using value_okD [OF v, of x "CHR '']'' # rest"] vs x
      by (auto simp: delim_def skip_ws_def is_ws_def)
  next
    case False
    let ?t = "array_text sep ksep xs"
    have t: "array_text sep ksep vs = json_dumps False sep ksep x @ sep @ ?t"
      using x False by (cases xs) auto
    have st: "starts_value ?t" using array_text_starts False vs(2) x by simp
    obtain w where w: "sep = CHR '','' # w" "\<And>r. skip_ws (w @ ?t @ r) = ?t @ r"
      "\<And>r. skip_ws (sep @ r) = sep @ r"
      using skip_sep [OF sep sep_not_ws(1) st] by blast
    have "parse_value pf pc n (json_dumps False sep ksep x @ sep @ ?t @ CHR '']'' # rest) =
        Some (reloaded pf pc x, sep @ ?t @ CHR '']'' # rest)"
      using value_okD [OF v] vs x t w(1) by (auto simp: delim_def)
    moreover have "parse_items pf pc n (?t @ CHR '']'' # rest) = Some (map (reloaded pf pc) xs, rest)"
      using i vs x t w(1) False unfolding items_ok_def by auto
    ultimately show ?thesis using x t w by simp
  qed
qed

lemma pairs_ok_Suc:
  assumes sep: "is_sep (CHR '','') sep" "is_sep (CHR '':'') ksep" and v: "value_ok pf pc sep ksep n"
    and i: "pairs_ok pf pc sep ksep n"
  shows "pairs_ok pf pc sep ksep (Suc n)"
  unfolding pairs_ok_def
proof (intro allI impI)
  fix kvs rest
  let ?goal = "\<lambda>kvs. parse_pairs pf pc (Suc n) (object_text sep ksep kvs @ CHR ''}'' # rest) =
    Some (reload_items pf pc kvs, rest)"
  assume kvs: "kvs \<noteq> []" "list_all (\<lambda>(k, v). dumpable v) kvs"
    "length (object_text sep ksep kvs) < Suc n"
  then obtain k x xs where x: "kvs = (k, x) # xs" by (cases kvs) auto
  let ?x = "json_dumps False sep ksep x"
  have sx: "starts_value ?x" using dumps_starts_value kvs(2) x by simp
  obtain w' where w': "ksep = CHR '':'' # w'" "\<And>r. skip_ws (w' @ ?x @ r) = ?x @ r"
    "\<And>r. skip_ws (ksep @ r) = ksep @ r"
    using skip_sep [OF sep(2) sep_not_ws(2) sx] by blast
  show "?goal kvs"
  proof (cases "xs = []")
    case True
    then show ?thesis using value_okD [OF v, of x "CHR ''}'' # rest"] kvs x w'
      by (auto simp: delim_def skip_ws_def is_ws_def dump_str_def scan_string_dump)
  next
    case False
    let ?t = "object_text sep ksep xs"
    have t: "object_text sep ksep kvs = dump_str k @ ksep @ ?x @ sep @ ?t"
      using x False by (cases xs) auto
    have st: "starts_value ?t" using object_text_starts [OF False] dquote_starts by metis
    obtain w where w: "sep = CHR '','' # w" "\<And>r. skip_ws (w @ ?t @ r) = ?t @ r"
      "\<And>r. skip_ws (sep @ r) = sep @ r"
      using skip_sep [OF sep(1) sep_not_ws(1) st] by blast
    have "parse_value pf pc n (?x @ sep @ ?t @ CHR ''}'' # rest) =
        Some (reloaded pf pc x, sep @ ?t @ CHR ''}'' # rest)"
      using value_okD [OF v] kvs x t w(1) by (auto simp: delim_def)
    moreover have "parse_pairs pf pc n (?t @ CHR ''}'' # rest) = Some (reload_items pf pc xs, rest)"
      using i kvs x t w(1) False unfolding pairs_ok_def by auto
    ultimately show ?thesis using x t w w' by (simp add: dump_str_def scan_string_dump)
  qed
qed

lemma parsers_ok:
  assumes "is_sep (CHR '','') sep" "is_sep (CHR '':'') ksep"
  shows "value_ok pf pc sep ksep n \<and> items_ok pf pc sep ksep n \<and> pairs_ok pf pc sep ksep n"
proof (induction n)
  case 0
  show ?case using dumps_starts_value [of _ sep ksep]
    by (auto simp: value_ok_def items_ok_def pairs_ok_def starts_value_def)
next
  case (Suc n)
  then show ?case using assms value_ok_Suc items_ok_Suc pairs_ok_Suc by metis
qed

lemma json_loads_dumps:
  assumes "is_sep (CHR '','') sep" "is_sep (CHR '':'') ksep" "dumpable v"
  shows "json_loads pf pc (json_dumps False sep ksep v) = Some (reloaded pf pc v)"
  using value_okD [OF conjunct1 [OF parsers_ok [OF assms(1,2)]] assms(3), of "[]"]
    skip_starts_value [OF dumps_starts_value [OF assms(3)], where t = "[]"]
  by (simp add: json_loads_def delim_def skip_ws_def [of "[]"])

section \<open>Sorted dumps\<close>

text \<open>The value with the keys of every dict in order, and values that differ in key order only,
  which is all a JSONB column may change of a dict.\<close>

fun sort_keys :: "pyval \<Rightarrow> pyval" where
  "sort_keys (PyList vs) = PyList (map sort_keys vs)"
| "sort_keys (PyDict kvs) = PyDict (sort_key fst (map (\<lambda>(k, v). (k, sort_keys v)) kvs))"
| "sort_keys v = v"

definition same_json :: "pyval \<Rightarrow> pyval \<Rightarrow> bool" where
  "same_json v w \<longleftrightarrow> sort_keys v = sort_keys w"

lemma sort_key_map_snd:
  "sort_key fst (map (\<lambda>(k, v). (k, f k v)) kvs) = map (\<lambda>(k, v). (k, f k v)) (sort_key fst kvs)"
proof (induction kvs)
  case (Cons x xs)
  have "insort_key fst (k, f k v) (map (\<lambda>(k, v). (k, f k v)) ys) =
      map (\<lambda>(k, v). (k, f k v)) (insort_key fst (k, v) ys)" for k v ys
    by (induction ys) auto
  with Cons show ?case by (cases x) auto
qed simp

lemma json_dumps_sorted: "json_dumps True sep ksep v = json_dumps False sep ksep (sort_keys v)"
proof (induction v)
  case (PyDict kvs)
  let ?f = "\<lambda>k v. dump_str k @ ksep @ json_dumps False sep ksep v"
  have m: "map (\<lambda>(k, v). (k, dump_str k @ ksep @ json_dumps True sep ksep v)) kvs =
      map (\<lambda>(k, v). (k, ?f k v)) (map (\<lambda>(k, v). (k, sort_keys v)) kvs)"
    using PyDict by (auto simp: snds.simps)
  show ?case
    unfolding json_dumps.simps sort_keys.simps m if_True sort_key_map_snd
    by (simp add: case_prod_beta' comp_def)
qed (auto simp: comp_def cong: map_cong)

text \<open>A value of JSON proper: nothing left for \<open>default=str\<close>.\<close>

fun jsonable :: "pyval \<Rightarrow> bool" where
  "jsonable (PyFloat t) = (float_token t \<or> t \<in> set json_constants)"
| "jsonable (PyList vs) = list_all jsonable vs"
| "jsonable (PyDict kvs) = (distinct (map fst kvs) \<and> list_all (\<lambda>(k, v). jsonable v) kvs)"
| "jsonable (PyOther s) = False"
| "jsonable _ = True"

lemma jsonable_dumpable: "jsonable v \<Longrightarrow> dumpable v"
  by (induction v) (auto simp: list_all_iff snds.simps)

lemma jsonable_reloaded: "jsonable v \<Longrightarrow> reloaded PyFloat PyFloat v = v"
proof (induction v)
  case (PyDict kvs)
  then show ?case by (force simp: list_all_iff snds.simps intro: map_idI)
qed (auto simp: list_all_iff intro: map_idI)

lemma jsonable_sort_keys: "jsonable v \<Longrightarrow> jsonable (sort_keys v)"
proof (induction v)
  case (PyDict kvs)
  have "distinct (map fst (sort_key fst kvs)) \<longleftrightarrow> distinct (map fst kvs)"
    for kvs :: "(string \<times> pyval) list"
    by (simp add: distinct_map)
  with PyDict show ?case
    by (force simp: list_all_iff snds.simps comp_def case_prod_beta')
qed (auto simp: list_all_iff)

lemma canonical_dump_injective:
  assumes "jsonable v" "jsonable w"
    "json_dumps True '','' '':'' v = json_dumps True '','' '':'' w"
  shows "same_json v w"
proof -
  have load: "json_loads PyFloat PyFloat (json_dumps True '','' '':'' v) = Some (sort_keys v)"
    if "jsonable v" for v
    using json_loads_dumps [OF _ _ jsonable_dumpable [OF jsonable_sort_keys [OF that]],
        where sep = "'',''" and ksep = "'':''" and pf = PyFloat and pc = PyFloat]
      jsonable_reloaded [OF jsonable_sort_keys [OF that]]
    by (simp add: is_sep_def json_dumps_sorted)
  show ?thesis using load [OF assms(1)] load [OF assms(2)] assms(3) by (simp add: same_json_def)
qed

lemma same_json_dump: "same_json v w \<Longrightarrow> json_dumps True sep ksep v = json_dumps True sep ksep w"
  by (simp add: same_json_def json_dumps_sorted)

lemma same_json_refl [simp]: "same_json v v"
  by (simp add: same_json_def)

lemma sort_keys_idem: "sort_keys (sort_keys v) = sort_keys v"
proof (induction v)
  case (PyDict kvs)
  let ?s = "map (\<lambda>(k, v). (k, sort_keys v))"
  have "?s (?s kvs) = ?s kvs" using PyDict by (auto simp: snds.simps)
  then have "?s (sort_key fst (?s kvs)) = sort_key fst (?s kvs)"
    using sort_key_map_snd [of "\<lambda>_. sort_keys" "?s kvs"] by metis
  then show ?case by (simp add: sort_key_id_if_sorted)
qed auto

end
