(* ===== verification/Audit_Log.thy ===== *)
theory Audit_Log
  imports Json
begin

text \<open>
  The \<open>AuditLog\<close> row of \<^verbatim>\<open>backend/app/models/audit.py\<close>, as the application sees the object
  before and after it is flushed: an attribute that is not set yet is \<open>None\<close>, and a JSON column
  holds a Python value (\<open>PyNone\<close> for \<open>None\<close>).
\<close>

section \<open>Datetimes of audit rows\<close>

text \<open>A timezone-aware \<open>datetime\<close> in UTC, the form both \<open>datetime.now(UTC)\<close> and the
  \<open>timestamptz\<close> column give.\<close>

record py_datetime =
  year :: nat
  month :: nat
  day :: nat
  hour :: nat
  minute :: nat
  second :: nat
  microsecond :: nat

definition valid_datetime :: "py_datetime \<Rightarrow> bool" where
  "valid_datetime d \<longleftrightarrow> year d < 10000 \<and> month d < 100 \<and> day d < 100 \<and> hour d < 100 \<and>
     minute d < 100 \<and> second d < 100 \<and> microsecond d < 1000000"

definition zero_pad :: "nat \<Rightarrow> nat \<Rightarrow> string" where
  "zero_pad w n = replicate (w - length (nat_digits n)) CHR ''0'' @ nat_digits n"

definition isoformat :: "py_datetime \<Rightarrow> string" where
  "isoformat d = zero_pad 4 (year d) @ ''-'' @ zero_pad 2 (month d) @ ''-'' @ zero_pad 2 (day d) @
     ''T'' @ zero_pad 2 (hour d) @ '':'' @ zero_pad 2 (minute d) @ '':'' @ zero_pad 2 (second d) @
     (if microsecond d = 0 then [] else ''.'' @ zero_pad 6 (microsecond d)) @ ''+00:00''"

lemma length_nat_digits: "n < 10 ^ w \<Longrightarrow> 0 < w \<Longrightarrow> length (nat_digits n) \<le> w"
proof (induction w arbitrary: n)
  case (Suc w)
  show ?case
  proof (cases "n < 10")
    case True
    then show ?thesis by (subst nat_digits.simps) simp
  next
    case False
    then have "0 < w" using Suc.prems by (cases w) auto
    moreover have "n div 10 < 10 ^ w" using Suc.prems(1) by (simp add: less_mult_imp_div_less mult.commute)
    ultimately show ?thesis using Suc.IH False by (subst nat_digits.simps) simp
  qed
qed simp

lemma length_zero_pad: "n < 10 ^ w \<Longrightarrow> 0 < w \<Longrightarrow> length (zero_pad w n) = w"
  using length_nat_digits by (simp add: zero_pad_def)

lemma digits_val_zeros: "digits_val (replicate k CHR ''0'' @ s) 0 = digits_val s 0"
  by (induction k) auto

lemma zero_pad_inj: "zero_pad w m = zero_pad w n \<Longrightarrow> m = n"
  using digits_val_zeros digits_val_nat_digits by (metis zero_pad_def)

lemma zero_pad_append_inj:
  "zero_pad w m @ s = zero_pad w n @ t \<longleftrightarrow> m = n \<and> s = t"
  if "m < 10 ^ w" "n < 10 ^ w" "0 < w"
  using that length_zero_pad [of m w] length_zero_pad [of n w] zero_pad_inj by auto

lemma isoformat_inj:
  assumes "valid_datetime d" "valid_datetime e" "isoformat d = isoformat e"
  shows "d = e"
proof -
  have "year d = year e \<and> month d = month e \<and> day d = day e \<and> hour d = hour e \<and>
      minute d = minute e \<and> second d = second e \<and> microsecond d = microsecond e"
    using assms unfolding isoformat_def valid_datetime_def
    by (auto simp: zero_pad_append_inj split: if_splits dest: zero_pad_inj)
  then show ?thesis by simp
qed

section \<open>The row\<close>

record audit_log =
  al_id :: "uuid option"
  seq :: int
  timestamp :: "py_datetime option"
  al_user_id :: "uuid option"
  user_display_name :: string
  al_auth_source :: "string option"
  source_ip :: "string option"
  user_agent :: "string option"
  al_action :: string
  al_resource_type :: string
  al_resource_id :: string
  resource_display :: string
  old_value :: pyval
  new_value :: pyval
  changed_fields :: pyval
  request_id :: "string option"
  al_result :: "string option"
  error_detail :: "string option"
  row_hash :: "string option"
  prev_hash :: "string option"

text \<open>An optional text as a JSON value.\<close>

fun opt_str :: "string option \<Rightarrow> pyval" where
  "opt_str None = PyNone"
| "opt_str (Some s) = PyStr s"

text \<open>\<open>AuditLog(...)\<close> with only the columns that have no default; everything else is unset
  until the flush.\<close>

definition new_audit_log :: "string \<Rightarrow> string \<Rightarrow> string \<Rightarrow> string \<Rightarrow> string \<Rightarrow> audit_log" where
  "new_audit_log who action rtype rid display = \<lparr>al_id = None, seq = 0, timestamp = None,
     al_user_id = None, user_display_name = who, al_auth_source = None, source_ip = None,
     user_agent = None, al_action = action, al_resource_type = rtype, al_resource_id = rid,
     resource_display = display, old_value = PyNone, new_value = PyNone, changed_fields = PyNone,
     request_id = None, al_result = None, error_detail = None, row_hash = None, prev_hash = None\<rparr>"

end
