(* ===== verification/Permission_Gates.thy ===== *)
theory Permission_Gates
  imports Permissions Audit_Log
begin

text \<open>
  \<^verbatim>\<open>backend/app/core/permissions.py\<close>, the enforcement half: the route dependencies that turn
  the decisions of \<open>Permissions\<close> into an admitted user or a refusal with a \<open>denied\<close> audit row, the
  action a request's method implies, the keys routes are classified under, and the admits for
  instance-scoped grants. A gate maps a session to its answer and the session after it.
\<close>

section \<open>Requests, sessions and refusals\<close>

text \<open>The matched route of a request (its path template, and whether its handler carries the
  \<open>@read_only_post\<close> marker), the request itself, and the path parameters as text.\<close>

record route =
  path :: string
  read_only_post :: bool

record request =
  req_method :: string
  url_path :: string
  scope_route :: "route option"
  path_params :: "string \<rightharpoonup> string"
  client_host :: "string option"
  user_agent_header :: "string option"

text \<open>The session a dependency is given: the committed audit rows, those added and not committed,
  and whether the database accepts the commit.\<close>

record session =
  committed :: "audit_log list"
  added :: "audit_log list"
  commit_ok :: bool

record http_error =
  status_code :: int
  detail :: string

type_synonym gate = "session \<Rightarrow> (http_error + user) \<times> session"

text \<open>\<open>commit()\<close>: all added rows, or an exception that leaves the session to be rolled back.\<close>

definition db_add :: "audit_log \<Rightarrow> session \<Rightarrow> session" where
  "db_add row s = s\<lparr>added := added s @ [row]\<rparr>"

definition db_commit :: "session \<Rightarrow> session option" where
  "db_commit s = (if commit_ok s then Some (s\<lparr>committed := committed s @ added s, added := []\<rparr>)
     else None)"

definition HTTP_403_FORBIDDEN :: int where "HTTP_403_FORBIDDEN = 403"

definition MAX_USER_AGENT_LEN :: nat where "MAX_USER_AGENT_LEN = 500"

definition is_control :: "char \<Rightarrow> bool" where
  "is_control c \<longleftrightarrow> (of_char c :: nat) < 32 \<or> (of_char c :: nat) = 127"

definition clean_user_agent :: "string option \<Rightarrow> string option" where
  "clean_user_agent raw = (case raw of None \<Rightarrow> None | Some r \<Rightarrow>
     (if r = [] then None
      else let cleaned = take MAX_USER_AGENT_LEN (py_strip (filter (\<lambda>c. \<not> is_control c) r))
           in if cleaned = [] then None else Some cleaned))"

definition get_trusted_client_ip :: "request \<Rightarrow> string option" where
  "get_trusted_client_ip r = client_host r"

section \<open>Writing the denial\<close>

text \<open>\<open>auth_source or "local"\<close>, and \<open>rid or d\<close> for an optional id.\<close>

definition source_or_local :: "user \<Rightarrow> string" where
  "source_or_local u = (if auth_source u = [] then ''local'' else auth_source u)"

definition id_or :: "string option \<Rightarrow> string \<Rightarrow> string" where
  "id_or rid d = (case rid of None \<Rightarrow> d | Some r \<Rightarrow> (if r = [] then d else r))"

definition denial_row :: "user \<Rightarrow> request \<Rightarrow> string \<Rightarrow> string \<Rightarrow> string option \<Rightarrow> audit_log" where
  "denial_row u req act rtype rid =
     (new_audit_log (display_name u) act rtype (id_or rid '''') (rtype @ '':'' @ id_or rid ''*''))
       \<lparr>al_user_id := Some (user_id u), al_auth_source := Some (source_or_local u),
        source_ip := get_trusted_client_ip req,
        user_agent := clean_user_agent (user_agent_header req),
        al_result := Some ''denied'',
        error_detail := Some (''permission denied ('' @ act @ '' on '' @ rtype @ '')'')\<rparr>"

text \<open>Best-effort: when the commit raises, the row stays uncommitted and nothing propagates.\<close>

definition add_and_commit :: "audit_log \<Rightarrow> session \<Rightarrow> session" where
  "add_and_commit row s = (case db_commit (db_add row s) of Some s' \<Rightarrow> s' | None \<Rightarrow> db_add row s)"

definition record_denial :: "user \<Rightarrow> request \<Rightarrow> string \<Rightarrow> string \<Rightarrow> string option \<Rightarrow> session \<Rightarrow> session" where
  "record_denial u req act rtype rid s = add_and_commit (denial_row u req act rtype rid) s"

definition refuse_and_audit :: "user \<Rightarrow> request option \<Rightarrow> string \<Rightarrow> string \<Rightarrow> string \<Rightarrow> string \<Rightarrow> string \<Rightarrow>
    int \<Rightarrow> string \<Rightarrow> session \<Rightarrow> (http_error + 'a) \<times> session" where
  "refuse_and_audit u req act rtype rid display why code text s =
     (Inl \<lparr>status_code = code, detail = text\<rparr>,
      add_and_commit ((new_audit_log (display_name u) act rtype rid display)
        \<lparr>al_user_id := Some (user_id u), al_auth_source := Some (source_or_local u),
         source_ip := (case req of None \<Rightarrow> None | Some r \<Rightarrow> get_trusted_client_ip r),
         user_agent := (case req of None \<Rightarrow> None | Some r \<Rightarrow> clean_user_agent (user_agent_header r)),
         al_result := Some ''denied'', error_detail := Some why\<rparr>) s)"

text \<open>Every gate below refuses the same way: record the denial, raise 403.\<close>

definition refuse :: "user \<Rightarrow> request \<Rightarrow> string \<Rightarrow> string \<Rightarrow> string \<Rightarrow> gate" where
  "refuse u req act rtype text s =
     (Inl \<lparr>status_code = HTTP_403_FORBIDDEN, detail = text\<rparr>, record_denial u req act rtype None s)"

definition need_text :: "string \<Rightarrow> string \<Rightarrow> string" where
  "need_text act rtype = ''Permission denied: need '' @ quoted act @ '' on '' @ quoted rtype"

text \<open>The \<open>repr\<close> of a list of type names (which have no quote or backslash in them).\<close>

definition py_list_text :: "string list \<Rightarrow> string" where
  "py_list_text ts = ''['' @ py_join '', '' (map quoted ts) @ '']''"

definition scoped_grant_refusal :: "string \<Rightarrow> string \<Rightarrow> bool \<Rightarrow> string" where
  "scoped_grant_refusal field rtype inherited =
     (let reach = (if inherited
        then ''change a setting the items under it inherit, or point it at another resource''
        else ''point it at another resource'')
      in ''Permission denied: changing '' @ quoted field @ '' needs '' @ quoted ''write'' @
         '' on every '' @ quoted rtype @ '', not only this one. A grant scoped to one '' @
         quoted rtype @ '' cannot '' @ reach @ ''.'')"

section \<open>Gates on fixed permissions\<close>

definition require_permission :: "string \<Rightarrow> string \<Rightarrow> request \<Rightarrow> user \<Rightarrow> gate" where
  "require_permission act rtype req u s =
     (if user_has_permission u act rtype None then (Inr u, s)
      else refuse u req act rtype (need_text act rtype) s)"





section \<open>The action a request asks for\<close>

definition METHOD_TO_ACTION :: "(string \<times> string) list" where
  "METHOD_TO_ACTION = [(''GET'', ''read''), (''HEAD'', ''read''), (''OPTIONS'', ''read''),
     (''POST'', ''write''), (''PUT'', ''write''), (''PATCH'', ''write''), (''DELETE'', ''delete'')]"

definition MULTI_ROW_DELETE_SUFFIXES :: "string list" where
  "MULTI_ROW_DELETE_SUFFIXES = [''/bulk-delete'', ''/orphans/purge'']"

definition method_action_for_request :: "request \<Rightarrow> string" where
  "method_action_for_request req =
     (let m = py_upper (req_method req) in
      if m = ''POST'' \<and>
         list_ex (py_endswith (py_rstrip_char (CHR ''/'') (url_path req))) MULTI_ROW_DELETE_SUFFIXES
      then ''delete''
      else (case map_of METHOD_TO_ACTION m of None \<Rightarrow> ''write'' | Some a \<Rightarrow> a))"

definition is_read_only_post :: "request \<Rightarrow> bool" where
  "is_read_only_post req = (case scope_route req of None \<Rightarrow> False | Some r \<Rightarrow> read_only_post r)"

definition action_for_request :: "request \<Rightarrow> string" where
  "action_for_request req =
     (let act = method_action_for_request req in
      if act = ''write'' \<and> py_upper (req_method req) = ''POST'' \<and> is_read_only_post req
      then ''read'' else act)"

definition gate_actions :: "request \<Rightarrow> string list" where
  "gate_actions req =
     (let act = action_for_request req; method_action = method_action_for_request req in
      if method_action = act then [act] else [act, method_action])"

section \<open>Route keys\<close>

definition is_word :: "char \<Rightarrow> bool" where
  "is_word c \<longleftrightarrow> (let n = of_char c :: nat in
     48 \<le> n \<and> n \<le> 57 \<or> 65 \<le> n \<and> n \<le> 90 \<or> n = 95 \<or> 97 \<le> n \<and> n \<le> 122 \<or>
     n \<in> {170, 178, 179, 181, 185, 186, 188, 189, 190} \<or> 192 \<le> n \<and> n \<noteq> 215 \<and> n \<noteq> 247)"

text \<open>One match of \<open>\{(\w+):\w+\}\<close> after its opening brace: the name and the text after the
  closing brace.\<close>

definition converter_match :: "string \<Rightarrow> (string \<times> string) option" where
  "converter_match s = (let name = takeWhile is_word s in
     if name = [] then None
     else (case dropWhile is_word s of
         c # t \<Rightarrow> (if c \<noteq> CHR '':'' \<or> takeWhile is_word t = [] then None
                   else (case dropWhile is_word t of
                       d # r \<Rightarrow> (if d = CHR ''}'' then Some (name, r) else None) | [] \<Rightarrow> None))
       | [] \<Rightarrow> None))"

lemma converter_match_shorter: "converter_match s = Some (n, r) \<Longrightarrow> length r < length s"
proof -
  assume "converter_match s = Some (n, r)"
  then obtain c t where t: "dropWhile is_word s = c # t" "dropWhile is_word t = CHR ''}'' # r"
    by (auto simp: converter_match_def Let_def split: if_splits list.splits)
  have "length (dropWhile is_word xs) \<le> length xs" for xs by (simp add: length_dropWhile_le)
  from this [of s] this [of t] t show ?thesis by simp
qed

function fold_converters :: "string \<Rightarrow> string" where
  "fold_converters [] = []"
| "fold_converters (c # s) =
     (case (if c = CHR ''{'' then converter_match s else None) of
        Some (name, r) \<Rightarrow> ''{'' @ name @ ''}'' @ fold_converters r
      | None \<Rightarrow> c # fold_converters s)"
  by pat_completeness auto
termination
  by (relation "measure length") (auto split: if_splits dest: converter_match_shorter)

text \<open>\<open>template.split(prefix, 1)[-1] or "/"\<close>\<close>

definition route_key :: "string \<Rightarrow> string \<Rightarrow> string \<Rightarrow> string" where
  "route_key m p prefix =
     (let template = fold_converters p;
          (h, found, t) = py_partition template prefix;
          tail = (if found then t else template)
      in py_upper m @ '' '' @ (if tail = [] then ''/'' else tail))"

definition route_path :: "request \<Rightarrow> string" where
  "route_path req = (case scope_route req of None \<Rightarrow> [] | Some r \<Rightarrow> path r)"

definition request_route_key :: "request \<Rightarrow> string \<Rightarrow> string" where
  "request_route_key req prefix = route_key (req_method req) (route_path req) prefix"

definition mount_route_key :: "string \<Rightarrow> string \<Rightarrow> string \<Rightarrow> string" where
  "mount_route_key m p prefix =
     (let template = fold_converters p;
          (h, sep, t) = py_partition template (prefix @ ''/'')
      in py_upper m @ '' '' @
         (if sep \<and> (h = [] \<or> py_startswith h ''/api/'') then ''/'' @ t else template))"

section \<open>Gates on the request's action\<close>

text \<open>An entry of \<open>instance_routes\<close>: the path parameter, and the type, the collection route, the
  read routes and the write routes it stands for.\<close>

record instance_route =
  ir_type :: string
  list_route :: string
  read_routes :: "string list"
  write_routes :: "string list"

text \<open>\<open>UUID(raw)\<close> with its canonical text, \<open>None\<close> for a \<open>ValueError\<close>, is the argument
  \<open>uuid_text\<close>.\<close>

fun instance_scoped_admit :: "(string \<Rightarrow> string option) \<Rightarrow> request \<Rightarrow> user \<Rightarrow> string \<Rightarrow>
    (string \<times> instance_route) list \<Rightarrow> string \<Rightarrow> bool" where
  "instance_scoped_admit uuid_text req u act [] prefix = False"
| "instance_scoped_admit uuid_text req u act ((pname, ir) # irs) prefix =
     (let key = request_route_key req prefix in
      case path_params req pname of
        None \<Rightarrow> (if act = ''read'' \<and> key = list_route ir \<and> has_any_read_grant u (ir_type ir) then True
                 else instance_scoped_admit uuid_text req u act irs prefix)
      | Some raw \<Rightarrow>
          (case uuid_text raw of
             None \<Rightarrow> instance_scoped_admit uuid_text req u act irs prefix
           | Some rid \<Rightarrow>
               (if key \<in> set (if act = ''read'' then read_routes ir else write_routes ir) \<and>
                   user_has_permission u act (ir_type ir) (Some rid) then True
                else instance_scoped_admit uuid_text req u act irs prefix)))"

definition any_action_allows :: "user \<Rightarrow> request \<Rightarrow> string \<Rightarrow> bool" where
  "any_action_allows u req rt \<longleftrightarrow> list_ex (\<lambda>a. user_has_permission u a rt None) (gate_actions req)"

definition require_resource_permission :: "(string \<Rightarrow> string option) \<Rightarrow> string \<Rightarrow> instance_route option \<Rightarrow>
    string option \<Rightarrow> string option \<Rightarrow> request \<Rightarrow> user \<Rightarrow> gate" where
  "require_resource_permission uuid_text rtype instance_routes instance_param prefix req u s =
     (if any_action_allows u req rtype then (Inr u, s)
      else if (case (instance_routes, instance_param) of
            (Some ir, Some pname) \<Rightarrow> pname \<noteq> [] \<and>
              instance_scoped_admit uuid_text req u (method_action_for_request req) [(pname, ir)]
                (id_or prefix ''/ipam'')
          | _ \<Rightarrow> False)
      then (Inr u, s)
      else refuse u req (action_for_request req) rtype (need_text (action_for_request req) rtype) s)"

definition require_any_resource_permission :: "string list \<Rightarrow> request \<Rightarrow> user \<Rightarrow> gate" where
  "require_any_resource_permission rtypes req u s =
     (if list_ex (any_action_allows u req) rtypes then (Inr u, s)
      else refuse u req (action_for_request req) (case rtypes of [] \<Rightarrow> ''*'' | rt # _ \<Rightarrow> rt)
        (''Permission denied: need '' @ quoted (action_for_request req) @ '' on one of '' @
         py_list_text rtypes) s)"

text \<open>\<open>needed and all(any(type_level_allows ...))\<close>, and the refusal of a classified route.\<close>

definition types_allowed :: "user \<Rightarrow> request \<Rightarrow> string list \<Rightarrow> bool" where
  "types_allowed u req needed \<longleftrightarrow> needed \<noteq> [] \<and>
     list_all (\<lambda>rt. list_ex (\<lambda>a. type_level_allows u a rt) (gate_actions req)) needed"

definition refuse_route_types :: "user \<Rightarrow> request \<Rightarrow> string list \<Rightarrow> gate" where
  "refuse_route_types u req needed s =
     refuse u req (action_for_request req) (case needed of [] \<Rightarrow> ''*'' | rt # _ \<Rightarrow> rt)
       (if needed \<noteq> []
        then ''Permission denied: need '' @ quoted (action_for_request req) @ '' on each of '' @
          py_list_text needed
        else ''Permission denied: route has no permission mapping'') s"

definition get_types :: "(string \<times> string list) list \<Rightarrow> string \<Rightarrow> string list" where
  "get_types route_types key = (case map_of route_types key of None \<Rightarrow> [] | Some ts \<Rightarrow> ts)"

definition delegate_admits :: "user \<Rightarrow> string \<Rightarrow> string \<Rightarrow> (string \<times> string list) list \<Rightarrow> bool" where
  "delegate_admits u method_action key scoped_routes \<longleftrightarrow> method_action \<noteq> ''read'' \<and>
     list_ex (\<lambda>(rt, routes). key \<in> set routes \<and> has_any_grant_for u method_action rt) scoped_routes"

definition require_any_resource_or_scoped :: "(string \<Rightarrow> string option) \<Rightarrow> string list \<Rightarrow>
    (string \<times> string list) list \<Rightarrow> (string \<times> instance_route) list \<Rightarrow>
    (string \<times> string list) list option \<Rightarrow> request \<Rightarrow> user \<Rightarrow> gate" where
  "require_any_resource_or_scoped uuid_text unscoped_types scoped_routes instance_routes route_types
     req u s =
     (let act = action_for_request req;
          key = request_route_key req ''/ipam'';
          method_action = method_action_for_request req;
          needed = (case route_types of None \<Rightarrow> unscoped_types | Some m \<Rightarrow> get_types m key)
      in if (case route_types of None \<Rightarrow> list_ex (any_action_allows u req) unscoped_types
             | Some _ \<Rightarrow> types_allowed u req needed) then (Inr u, s)
         else if delegate_admits u method_action key scoped_routes then (Inr u, s)
         else if instance_scoped_admit uuid_text req u method_action instance_routes ''/ipam''
         then (Inr u, s)
         else if route_types \<noteq> None then refuse_route_types u req needed s
         else let all_types = unscoped_types @ map fst scoped_routes
              in refuse u req act (case all_types of [] \<Rightarrow> ''*'' | rt # _ \<Rightarrow> rt)
                   (''Permission denied: need '' @ quoted act @ '' on one of '' @
                    py_list_text all_types) s)"

definition require_route_types :: "(string \<times> string list) list \<Rightarrow> string \<Rightarrow> request \<Rightarrow> user \<Rightarrow> gate" where
  "require_route_types route_types prefix req u s =
     (let needed = get_types route_types (mount_route_key (req_method req) (route_path req) prefix)
      in if types_allowed u req needed then (Inr u, s) else refuse_route_types u req needed s)"

section \<open>The contract of a gate\<close>

text \<open>A gate answers with the caller and an untouched session, or refuses through \<open>refuse\<close>.\<close>

locale audited_gate =
  fixes g :: "request \<Rightarrow> user \<Rightarrow> gate" and admits :: "request \<Rightarrow> user \<Rightarrow> bool"
  assumes admitted: "admits req u \<Longrightarrow> g req u s = (Inr u, s)"
    and refused: "\<not> admits req u \<Longrightarrow> \<exists>act rtype text. g req u s = refuse u req act rtype text s"
begin

lemma inr_iff: "fst (g req u s) = Inr v \<longleftrightarrow> admits req u \<and> v = u"
  using admitted [of req u s] refused [of req u s] by (cases "admits req u") (auto simp: refuse_def)

end

interpretation permission: audited_gate "require_permission act rtype"
    "\<lambda>req u. user_has_permission u act rtype None" for act rtype
  by unfold_locales (auto simp: require_permission_def)






definition resource_gate_admits where
  "resource_gate_admits uuid_text rtype instance_routes instance_param prefix req u \<longleftrightarrow>
     any_action_allows u req rtype \<or>
     (case (instance_routes, instance_param) of
        (Some ir, Some pname) \<Rightarrow> pname \<noteq> [] \<and>
          instance_scoped_admit uuid_text req u (method_action_for_request req) [(pname, ir)]
            (id_or prefix ''/ipam'')
      | _ \<Rightarrow> False)"

interpretation resource: audited_gate
    "require_resource_permission uuid_text rtype instance_routes instance_param prefix"
    "resource_gate_admits uuid_text rtype instance_routes instance_param prefix"
  for uuid_text rtype instance_routes instance_param prefix
  by unfold_locales (auto simp: require_resource_permission_def resource_gate_admits_def)

interpretation any_resource: audited_gate "require_any_resource_permission rtypes"
    "\<lambda>req u. list_ex (any_action_allows u req) rtypes" for rtypes
  by unfold_locales (auto simp: require_any_resource_permission_def)

definition scoped_gate_admits where
  "scoped_gate_admits uuid_text unscoped_types scoped_routes instance_routes route_types req u \<longleftrightarrow>
     (case route_types of None \<Rightarrow> list_ex (any_action_allows u req) unscoped_types
      | Some m \<Rightarrow> types_allowed u req (get_types m (request_route_key req ''/ipam''))) \<or>
     delegate_admits u (method_action_for_request req) (request_route_key req ''/ipam'') scoped_routes \<or>
     instance_scoped_admit uuid_text req u (method_action_for_request req) instance_routes ''/ipam''"

interpretation resource_or_scoped: audited_gate
    "require_any_resource_or_scoped uuid_text unscoped_types scoped_routes instance_routes route_types"
    "scoped_gate_admits uuid_text unscoped_types scoped_routes instance_routes route_types"
  for uuid_text unscoped_types scoped_routes instance_routes route_types
  by unfold_locales
    (auto simp: require_any_resource_or_scoped_def scoped_gate_admits_def refuse_route_types_def Let_def
      split: option.splits)

definition route_gate_admits where
  "route_gate_admits route_types prefix req u \<longleftrightarrow> types_allowed u req
     (get_types route_types (mount_route_key (req_method req) (route_path req) prefix))"

interpretation route_types: audited_gate "require_route_types route_types prefix"
    "route_gate_admits route_types prefix" for route_types prefix
  by unfold_locales
    (auto simp: require_route_types_def route_gate_admits_def refuse_route_types_def Let_def)

section \<open>Every refusal is a 403 with an audit row\<close>

text \<open>An answer is the caller with nothing written, or a 403 after which the log holds, if the
  database takes the commit, one more row: a denial in the caller's name.\<close>

definition answers_or_audits :: "user \<Rightarrow> session \<Rightarrow> (http_error + user) \<times> session \<Rightarrow> bool" where
  "answers_or_audits u s r = (case fst r of
     Inr v \<Rightarrow> v = u \<and> snd r = s
   | Inl e \<Rightarrow> status_code e = 403 \<and>
       (if commit_ok s
        then added (snd r) = [] \<and>
          (case drop (length (committed s @ added s)) (committed (snd r)) of
             [row] \<Rightarrow> take (length (committed s @ added s)) (committed (snd r)) = committed s @ added s \<and>
               al_result row = Some ''denied'' \<and> al_user_id row = Some (user_id u)
           | _ \<Rightarrow> False)
        else committed (snd r) = committed s))"

lemma refuse_audits: "answers_or_audits u s (refuse u req act rtype text s)"
  by (simp add: answers_or_audits_def refuse_def HTTP_403_FORBIDDEN_def record_denial_def
      add_and_commit_def db_commit_def db_add_def denial_row_def)

lemma answer_audits: "answers_or_audits u s (Inr u, s)"
  by (simp add: answers_or_audits_def)

context audited_gate
begin

lemma gate_answers: "answers_or_audits u s (g req u s)"
  using admitted refused refuse_audits answer_audits by metis

end


text \<open>A route nobody has classified is closed to everybody, superadmins included: when the route's
  key is missing from the map (or maps to no type), \<open>require_route_types\<close> answers 403 with the
  no-mapping text, and \<open>require_any_resource_or_scoped\<close> does so for every route that is on no
  delegate's and no instance's list.\<close>

theorem unclassified_route_admits_nobody:
  assumes "get_types m (mount_route_key (req_method req) (route_path req) prefix) = []"
    and "get_types m' (request_route_key req ''/ipam'') = []"
    and "list_all (\<lambda>(rt, routes). request_route_key req ''/ipam'' \<notin> set routes) scoped"
  shows "fst (require_route_types m prefix req u s) =
      Inl \<lparr>status_code = 403, detail = ''Permission denied: route has no permission mapping''\<rparr> \<and>
    fst (require_any_resource_or_scoped uuid_text unscoped scoped [] (Some m') req u s) =
      Inl \<lparr>status_code = 403, detail = ''Permission denied: route has no permission mapping''\<rparr>"
proof -
  have "\<not> delegate_admits u (method_action_for_request req) (request_route_key req ''/ipam'') scoped"
    using assms(3) by (auto simp: delegate_admits_def list_all_iff list_ex_iff)
  then show ?thesis using assms(1,2)
    by (simp add: require_route_types_def require_any_resource_or_scoped_def types_allowed_def
        refuse_route_types_def refuse_def Let_def HTTP_403_FORBIDDEN_def)
qed

definition root_user :: user where
  "root_user = (plain_user ''root'')\<lparr>is_superadmin := True\<rparr>"

definition get_req :: "string \<Rightarrow> string \<Rightarrow> request" where
  "get_req m template = \<lparr>req_method = m, url_path = template,
     scope_route = Some \<lparr>path = template, read_only_post = False\<rparr>, path_params = Map.empty,
     client_host = None, user_agent_header = None\<rparr>"

definition open_session :: session where
  "open_session = \<lparr>committed = [], added = [], commit_ok = True\<rparr>"

theorem unclassified_route_admits_nobody_witness:
  "is_superadmin root_user \<and>
   fst (require_route_types [(''GET /zones'', [''dns_zone''])] ''/dns'' (get_req ''GET'' ''/views'')
      root_user open_session) =
     Inl \<lparr>status_code = 403, detail = ''Permission denied: route has no permission mapping''\<rparr>"
proof -
  have "get_types [(''GET /zones'', [''dns_zone''])]
      (mount_route_key (req_method (get_req ''GET'' ''/views'')) (route_path (get_req ''GET'' ''/views'')) ''/dns'') = []"
    by code_simp
  moreover have "get_types [] (request_route_key (get_req ''GET'' ''/views'') ''/ipam'') = []"
    by (simp add: get_types_def)
  ultimately show ?thesis
    using unclassified_route_admits_nobody [where scoped = "[]" and m' = "[]" and u = root_user and
        s = open_session]
    by (simp add: root_user_def)
qed

section \<open>The read-only marker only widens\<close>

definition unmarked :: "request \<Rightarrow> request" where
  "unmarked req = req\<lparr>scope_route := map_option (\<lambda>r. r\<lparr>read_only_post := False\<rparr>) (scope_route req)\<rparr>"

lemma unmarked_facts [simp]:
  "method_action_for_request (unmarked req) = method_action_for_request req"
  "request_route_key (unmarked req) prefix = request_route_key req prefix"
  "route_path (unmarked req) = route_path req" "path_params (unmarked req) = path_params req"
  "req_method (unmarked req) = req_method req"
  by (auto simp: unmarked_def method_action_for_request_def request_route_key_def route_path_def
      split: option.splits)

lemma gate_actions_unmarked: "gate_actions (unmarked req) = [method_action_for_request req]"
proof -
  have "\<not> is_read_only_post (unmarked req)"
    by (simp add: is_read_only_post_def unmarked_def split: option.splits)
  then show ?thesis by (simp add: gate_actions_def action_for_request_def Let_def)
qed

lemma method_action_in_gate: "method_action_for_request req \<in> set (gate_actions req)"
  by (simp add: gate_actions_def Let_def)

lemma instance_admit_unmarked [simp]:
  "instance_scoped_admit uuid_text (unmarked req) u act irs prefix =
   instance_scoped_admit uuid_text req u act irs prefix"
  by (induction irs) (auto simp: Let_def cong: if_cong option.case_cong)

lemma any_action_mono: "any_action_allows u (unmarked req) rt \<Longrightarrow> any_action_allows u req rt"
  using method_action_in_gate by (auto simp: any_action_allows_def gate_actions_unmarked list_ex_iff)

lemma types_allowed_mono: "types_allowed u (unmarked req) ts \<Longrightarrow> types_allowed u req ts"
  using method_action_in_gate
  by (fastforce simp: types_allowed_def gate_actions_unmarked list_ex_iff list_all_iff)

text \<open>Marking a handler \<open>@read_only_post\<close> never locks anyone out. Whoever a router gate admits to
  the unmarked route it admits to the marked one, although \<open>write\<close> does not imply \<open>read\<close> in this
  model; and on a request the marker does not concern (any method but POST, or a multi-row delete)
  the gates ask for exactly the same actions with and without it.\<close>

theorem read_only_post_only_widens:
  "(resource_gate_admits uuid_text rtype ir ip prefix_opt (unmarked req) u \<longrightarrow>
      fst (require_resource_permission uuid_text rtype ir ip prefix_opt req u s) = Inr u) \<and>
   (fst (require_any_resource_permission rtypes (unmarked req) u s) = Inr u \<longrightarrow>
      fst (require_any_resource_permission rtypes req u s) = Inr u) \<and>
   (fst (require_any_resource_or_scoped uuid_text rtypes scoped irs m (unmarked req) u s) = Inr u \<longrightarrow>
      fst (require_any_resource_or_scoped uuid_text rtypes scoped irs m req u s) = Inr u) \<and>
   (fst (require_route_types routes prefix (unmarked req) u s) = Inr u \<longrightarrow>
      fst (require_route_types routes prefix req u s) = Inr u) \<and>
   (py_upper (req_method req) \<noteq> ''POST'' \<or> method_action_for_request req = ''delete'' \<longrightarrow>
      gate_actions req = gate_actions (unmarked req))"
proof (intro conjI impI)
  show "fst (require_resource_permission uuid_text rtype ir ip prefix_opt req u s) = Inr u"
    if "resource_gate_admits uuid_text rtype ir ip prefix_opt (unmarked req) u"
    unfolding resource.inr_iff using that any_action_mono
    by (auto simp: resource_gate_admits_def split: option.splits
        simp del: instance_scoped_admit.simps)
  show "fst (require_any_resource_permission rtypes req u s) = Inr u"
    if "fst (require_any_resource_permission rtypes (unmarked req) u s) = Inr u"
    using that any_action_mono unfolding any_resource.inr_iff by (auto simp: list_ex_iff)
  show "fst (require_any_resource_or_scoped uuid_text rtypes scoped irs m req u s) = Inr u"
    if "fst (require_any_resource_or_scoped uuid_text rtypes scoped irs m (unmarked req) u s) = Inr u"
    using that unfolding resource_or_scoped.inr_iff
    by (auto simp: scoped_gate_admits_def list_ex_iff split: option.splits
        dest: any_action_mono types_allowed_mono)
  show "fst (require_route_types routes prefix req u s) = Inr u"
    if "fst (require_route_types routes prefix (unmarked req) u s) = Inr u"
    using that types_allowed_mono unfolding route_types.inr_iff by (auto simp: route_gate_admits_def)
  show "gate_actions req = gate_actions (unmarked req)"
    if "py_upper (req_method req) \<noteq> ''POST'' \<or> method_action_for_request req = ''delete''"
    using that unfolding gate_actions_unmarked
    by (auto simp: gate_actions_def action_for_request_def Let_def)
qed

definition preview_req :: request where
  "preview_req = \<lparr>req_method = ''POST'', url_path = ''/api/v1/dns/preview'',
     scope_route = Some \<lparr>path = ''/preview'', read_only_post = True\<rparr>, path_params = Map.empty,
     client_host = None, user_agent_header = None\<rparr>"

definition zone_writer :: user where
  "zone_writer = user_with ''w'' [perm ''write'' ''dns_zone'' None]"

theorem read_only_post_only_widens_witness:
  "\<not> user_has_permission zone_writer ''read'' ''dns_zone'' None \<and>
   gate_actions preview_req = [''read'', ''write''] \<and>
   fst (require_any_resource_permission [''dns_zone''] preview_req zone_writer open_session) = Inr zone_writer"
proof -
  have "list_ex (any_action_allows zone_writer (unmarked preview_req)) [''dns_zone'']"
    by code_simp
  then have "fst (require_any_resource_permission [''dns_zone''] (unmarked preview_req) zone_writer open_session) = Inr zone_writer"
    unfolding any_resource.inr_iff by simp
  moreover have "\<not> user_has_permission zone_writer ''read'' ''dns_zone'' None"
    "gate_actions preview_req = [''read'', ''write'']" by code_simp+
  ultimately show ?thesis
    using read_only_post_only_widens [of _ _ _ _ _ preview_req zone_writer open_session "[''dns_zone'']"]
    by blast
qed

section \<open>Route keys and scoped admits\<close>

lemma fold_converters_plain:
  "CHR ''{'' \<notin> set a \<Longrightarrow> fold_converters (a @ b) = a @ fold_converters b"
  by (induction a) auto

lemma startswith_segment:
  "CHR ''/'' \<notin> set p \<Longrightarrow> CHR ''/'' \<notin> set q \<Longrightarrow>
   py_startswith (q @ CHR ''/'' # x) (p @ ''/'') \<longleftrightarrow> p = q"
proof (induction p arbitrary: q)
  case Nil
  then show ?case by (cases q) (auto simp: py_startswith_def)
next
  case (Cons a p)
  then show ?case by (cases q) (auto simp: py_startswith_def)
qed

lemma startswith_Cons [simp]:
  "py_startswith (c # s) (d # p) \<longleftrightarrow> c = d \<and> py_startswith s p"
  by (auto simp: py_startswith_def)

definition leads :: "string \<Rightarrow> string \<Rightarrow> bool" where
  "leads prefix template \<longleftrightarrow> (let (h, sep, t) = py_partition template (prefix @ ''/'')
     in sep \<and> (h = [] \<or> py_startswith h ''/api/''))"

text \<open>A route is classified under one key however it is looked up. For a router mounted at a single
  path segment under \<open>/api/v1\<close>, the mounted template that the application's route table lists and the
  router-relative template a matched request carries give the same key, so the classification a
  test checks is the one the gate applies.\<close>

theorem mount_route_key_mounted:
  assumes "CHR ''/'' \<notin> set p" "CHR ''{'' \<notin> set p" "p \<noteq> ''api''" "p \<noteq> ''v1''"
    and "\<not> leads (CHR ''/'' # p) (fold_converters (CHR ''/'' # rest))"
  shows "mount_route_key m (''/api/v1/'' @ p @ ''/'' @ rest) (CHR ''/'' # p) =
    mount_route_key m (CHR ''/'' # rest) (CHR ''/'' # p)"
proof -
  let ?t = "fold_converters rest"
  have slash: "fold_converters (CHR ''/'' # rest) = CHR ''/'' # ?t" by simp
  have f: "fold_converters (''/api/v1/'' @ p @ ''/'' @ rest) = ''/api/v1/'' @ p @ ''/'' @ ?t"
    using fold_converters_plain [of "''/api/v1/'' @ p @ ''/''" rest] assms(2) by simp
  have api: "\<not> py_startswith (''api/v1/'' @ p @ ''/'' @ ?t) (p @ ''/'')"
    using startswith_segment [OF assms(1), of "''api''"] assms(3) by simp
  have v1: "\<not> py_startswith (''v1/'' @ p @ ''/'' @ ?t) (p @ ''/'')"
    using startswith_segment [OF assms(1), of "''v1''"] assms(4) by simp
  have here: "py_startswith (p @ ''/'' @ ?t) (p @ ''/'')"
    using startswith_segment [OF assms(1,1)] by simp
  have "py_partition (''/api/v1/'' @ p @ ''/'' @ ?t) (CHR ''/'' # p @ ''/'') = (''/api/v1'', True, ?t)"
    using api v1 here by simp
  then show ?thesis using assms(5)
    unfolding mount_route_key_def f slash leads_def Let_def
    by (auto simp: py_startswith_def split: prod.splits)
qed

theorem mount_route_key_mounted_witness:
  "\<not> leads ''/dns'' (fold_converters ''/groups/{group_id:uuid}'') \<and>
   mount_route_key ''get'' ''/api/v1/dns/groups/{group_id:uuid}'' ''/dns'' = ''GET /groups/{group_id}'' \<and>
   mount_route_key ''get'' ''/groups/{group_id:uuid}'' ''/dns'' = ''GET /groups/{group_id}''"
proof -
  have l: "\<not> leads ''/dns'' (fold_converters ''/groups/{group_id:uuid}'')" by code_simp
  have k: "mount_route_key ''get'' ''/groups/{group_id:uuid}'' ''/dns'' = ''GET /groups/{group_id}''"
    by code_simp
  show ?thesis
    using mount_route_key_mounted [of "''dns''" "''groups/{group_id:uuid}''" "''get''"] l k by simp
qed

lemma instance_admit_sound:
  "instance_scoped_admit uuid_text req u act irs prefix \<Longrightarrow>
   \<exists>(pname, ir) \<in> set irs.
     (act = ''read'' \<and> path_params req pname = None \<and> request_route_key req prefix = list_route ir \<and>
        has_any_read_grant u (ir_type ir)) \<or>
     (\<exists>raw rid. path_params req pname = Some raw \<and> uuid_text raw = Some rid \<and>
        request_route_key req prefix \<in> set (if act = ''read'' then read_routes ir else write_routes ir) \<and>
        user_has_permission u act (ir_type ir) (Some rid))"
  by (induction irs) (auto simp: Let_def split: option.splits if_splits)

text \<open>A scoped grant reaches only the routes listed for it. Whoever the aggregate gate admits under a
  route map holds the request's action at type level on every type the route serves, or the route is
  on a delegation type's list and the request mutates, or the route is on an instance list and the
  caller holds the method's action on the very resource its path names (on the collection route:
  some read grant on the type). In particular a delegate never gains a read.\<close>

theorem scoped_grants_reach_listed_routes_only:
  assumes "fst (require_any_resource_or_scoped uuid_text unscoped scoped irs (Some m) req u s) = Inr v"
  defines "key \<equiv> request_route_key req ''/ipam''"
    and "act \<equiv> method_action_for_request req"
  shows "v = u \<and>
    (types_allowed u req (get_types m key) \<or>
     (act \<noteq> ''read'' \<and> (\<exists>(rt, routes) \<in> set scoped. key \<in> set routes \<and> has_any_grant_for u act rt)) \<or>
     (\<exists>(pname, ir) \<in> set irs.
       (act = ''read'' \<and> path_params req pname = None \<and> key = list_route ir \<and> has_any_read_grant u (ir_type ir)) \<or>
       (\<exists>raw rid. path_params req pname = Some raw \<and> uuid_text raw = Some rid \<and>
          key \<in> set (if act = ''read'' then read_routes ir else write_routes ir) \<and>
          user_has_permission u act (ir_type ir) (Some rid))))"
proof -
  have "types_allowed u req (get_types m key) \<or> delegate_admits u act key scoped \<or>
      instance_scoped_admit uuid_text req u act irs ''/ipam''" and v: "v = u"
    using assms(1) unfolding resource_or_scoped.inr_iff key_def act_def
    by (auto simp: scoped_gate_admits_def)
  moreover have "delegate_admits u act key scoped \<Longrightarrow>
      act \<noteq> ''read'' \<and> (\<exists>(rt, routes) \<in> set scoped. key \<in> set routes \<and> has_any_grant_for u act rt)"
    by (simp add: delegate_admits_def list_ex_iff)
  ultimately show ?thesis using instance_admit_sound [of uuid_text req u act irs "''/ipam''"]
    unfolding key_def by blast
qed

definition subnet_delegate :: user where
  "subnet_delegate = user_with ''d'' [perm ''read'' ''subnet'' (Some ''s1'')]"

definition subnet_routes :: instance_route where
  "subnet_routes = \<lparr>ir_type = ''subnet'', list_route = ''GET /subnets'',
     read_routes = [''GET /subnets/{subnet_id}''], write_routes = []\<rparr>"

definition subnet_req :: request where
  "subnet_req = (get_req ''GET'' ''/subnets/{subnet_id}'')\<lparr>path_params := [''subnet_id'' \<mapsto> ''s1'']\<rparr>"

theorem scoped_grants_reach_listed_routes_only_witness:
  "fst (require_any_resource_or_scoped Some [] [] [(''subnet_id'', subnet_routes)] (Some []) subnet_req
      subnet_delegate open_session) = Inr subnet_delegate \<and>
   user_has_permission subnet_delegate ''read'' ''subnet'' (Some ''s1'')"
proof -
  have "scoped_gate_admits Some [] [] [(''subnet_id'', subnet_routes)] (Some []) subnet_req subnet_delegate"
    by code_simp
  then have a: "fst (require_any_resource_or_scoped Some [] [] [(''subnet_id'', subnet_routes)] (Some [])
      subnet_req subnet_delegate open_session) = Inr subnet_delegate"
    unfolding resource_or_scoped.inr_iff by simp
  have "method_action_for_request subnet_req = ''read''" by code_simp
  then show ?thesis using scoped_grants_reach_listed_routes_only [OF a] a
    by (simp add: subnet_req_def subnet_routes_def get_types_def types_allowed_def)
qed

end
