(* ===== verification/Audit_Chain.thy ===== *)
theory Audit_Chain
  imports Audit_Log
begin

text \<open>
  \<^verbatim>\<open>backend/app/services/audit_chain.py\<close>: the canonical text of an audit row, the flush hook
  that chains new rows onto the log, and the verifier that walks the log in pages. SHA-256 is an
  argument (\<open>sha\<close>, from the text hashed to the hex digest). The table is the list of its rows
  in the order they were inserted.
\<close>

section \<open>Canonical text of a row\<close>

text \<open>\<open>str(x)\<close> of a UUID attribute.\<close>

fun str_opt :: "string option \<Rightarrow> string" where
  "str_opt None = ''None''"
| "str_opt (Some s) = s"

definition audit_payload :: "audit_log \<Rightarrow> (string \<times> pyval) list" where
  "audit_payload row =
    [(''id'', PyStr (str_opt (al_id row))),
     (''timestamp'', opt_str (map_option isoformat (timestamp row))),
     (''user_id'', opt_str (al_user_id row)),
     (''user_display_name'', PyStr (user_display_name row)),
     (''auth_source'', opt_str (al_auth_source row)),
     (''source_ip'', opt_str (source_ip row)),
     (''user_agent'', opt_str (user_agent row)),
     (''action'', PyStr (al_action row)),
     (''resource_type'', PyStr (al_resource_type row)),
     (''resource_id'', PyStr (al_resource_id row)),
     (''resource_display'', PyStr (resource_display row)),
     (''old_value'', old_value row),
     (''new_value'', new_value row),
     (''changed_fields'', changed_fields row),
     (''request_id'', opt_str (request_id row)),
     (''result'', opt_str (al_result row)),
     (''error_detail'', opt_str (error_detail row))]"

definition canonical_json :: "audit_log \<Rightarrow> string" where
  "canonical_json row = json_dumps True '','' '':'' (PyDict (audit_payload row))"

section \<open>JSONB normal form\<close>

text \<open>\<open>Decimal(token).as_tuple().exponent\<close> and the integer value of the digits without the
  point.\<close>

definition pg_number :: "string \<Rightarrow> pyval" where
  "pg_number token = (case scan_number token of None \<Rightarrow> PyFloat token
     | Some (i, f, e, r) \<Rightarrow>
        (let exponent = int_val (tl e) - int (length (tl f));
             coefficient = digits_val (filter is_digit (i @ f)) 0
         in if 0 \<le> exponent
            then PyInt ((if py_startswith i ''-'' then - 1 else 1) *
                   int coefficient * 10 ^ nat exponent)
            else if coefficient = 0 then PyFloat ''0.0'' else PyFloat token))"

definition normalise_jsonb_value :: "pyval \<Rightarrow> pyval option" where
  "normalise_jsonb_value v = (if v = PyNone then Some PyNone
     else json_loads pg_number PyStr (json_dumps False '', '' '': '' v))"

section \<open>The flush hook\<close>

definition REQUEST_ID_MAX :: nat where "REQUEST_ID_MAX = 64"

text \<open>The \<open>request_id\<close> bound in the logging context, if any.\<close>

definition current_request_id :: "string option \<Rightarrow> string option" where
  "current_request_id bound = (case bound of None \<Rightarrow> None
     | Some v \<Rightarrow> (if take REQUEST_ID_MAX v = [] then None else Some (take REQUEST_ID_MAX v)))"

definition hash_row :: "(string \<Rightarrow> string) \<Rightarrow> string option \<Rightarrow> string \<Rightarrow> string" where
  "hash_row sha prev canonical =
     sha ((case prev of None \<Rightarrow> [] | Some p \<Rightarrow> p) @ ''|'' @ canonical)"

text \<open>The table, the state of its sequence, and the fresh UUIDs still to be drawn.\<close>

record audit_db =
  rows :: "audit_log list"
  next_seq :: int

definition or_else :: "'a option \<Rightarrow> 'a \<Rightarrow> 'a option" where
  "or_else x d = (case x of None \<Rightarrow> Some d | Some v \<Rightarrow> Some v)"

text \<open>Defaults made explicit and JSON columns in their stored form, for one new row; \<open>None\<close> when
  \<open>json.loads\<close> raises.\<close>

definition materialise :: "py_datetime \<Rightarrow> string option \<Rightarrow> uuid \<Rightarrow> audit_log \<Rightarrow> audit_log option" where
  "materialise now rid fresh row =
     (let row = row\<lparr>al_id := or_else (al_id row) fresh, timestamp := or_else (timestamp row) now,
        request_id := (if request_id row = None \<and> rid \<noteq> None then rid else request_id row),
        al_auth_source := or_else (al_auth_source row) ''local'',
        al_result := or_else (al_result row) ''success''\<rparr>
      in case (normalise_jsonb_value (old_value row), normalise_jsonb_value (new_value row),
               normalise_jsonb_value (changed_fields row)) of
           (Some ov, Some nv, Some cf) \<Rightarrow>
             Some (row\<lparr>old_value := ov, new_value := nv, changed_fields := cf\<rparr>)
         | _ \<Rightarrow> None)"

fun materialise_all :: "py_datetime \<Rightarrow> string option \<Rightarrow> uuid list \<Rightarrow> audit_log list \<Rightarrow>
    audit_log list option" where
  "materialise_all now rid fresh [] = Some []"
| "materialise_all now rid [] (row # rws) = None"
| "materialise_all now rid (u # us) (row # rws) =
     (case materialise now rid u row of None \<Rightarrow> None
      | Some r \<Rightarrow> map_option (Cons r) (materialise_all now rid us rws))"

text \<open>The hash of the newest persisted row, \<open>ORDER BY seq DESC LIMIT 1\<close>.\<close>

definition in_seq_order :: "audit_log list \<Rightarrow> audit_log list" where
  "in_seq_order rs = sort_key seq rs"

definition last_hash_of :: "audit_log list \<Rightarrow> string option" where
  "last_hash_of rs = (case rev (filter (\<lambda>r. row_hash r \<noteq> None) (in_seq_order rs)) of
     [] \<Rightarrow> None | r # _ \<Rightarrow> row_hash r)"

fun chain_rows :: "(string \<Rightarrow> string) \<Rightarrow> string option \<Rightarrow> audit_log list \<Rightarrow> audit_log list" where
  "chain_rows sha prev [] = []"
| "chain_rows sha prev (row # rws) =
     (let h = hash_row sha prev (canonical_json row)
      in row\<lparr>prev_hash := prev, row_hash := Some h\<rparr> # chain_rows sha (Some h) rws)"

text \<open>\<open>not obj.row_hash\<close>\<close>

definition unhashed :: "audit_log \<Rightarrow> bool" where
  "unhashed row \<longleftrightarrow> row_hash row = None \<or> row_hash row = Some []"

text \<open>The session's new rows with the unhashed ones replaced by their hashed form, in turn.\<close>

fun put_back :: "audit_log list \<Rightarrow> audit_log list \<Rightarrow> audit_log list" where
  "put_back [] hashed = []"
| "put_back (row # session_new) hashed =
     (if unhashed row then hd hashed # put_back session_new (tl hashed)
      else row # put_back session_new hashed)"

text \<open>\<open>fresh\<close> are the UUIDs the default draws, one per row in turn. The result is the session's
  new rows as the INSERT will see them.\<close>

definition compute_audit_hashes :: "(string \<Rightarrow> string) \<Rightarrow> py_datetime \<Rightarrow> string option \<Rightarrow> uuid list \<Rightarrow>
    audit_db \<Rightarrow> audit_log list \<Rightarrow> audit_log list option" where
  "compute_audit_hashes sha now bound fresh db session_new =
     (let new_rows = filter unhashed session_new in
      if new_rows = [] then Some session_new
      else map_option (\<lambda>rws. put_back session_new (chain_rows sha (last_hash_of (rows db)) rws))
             (materialise_all now (current_request_id bound) fresh new_rows))"

text \<open>The INSERT: the sequence hands each row the next value.\<close>

fun insert_rows :: "audit_log list \<Rightarrow> audit_db \<Rightarrow> audit_db" where
  "insert_rows [] db = db"
| "insert_rows (row # rws) db = insert_rows rws
     (db\<lparr>rows := rows db @ [row\<lparr>seq := next_seq db\<rparr>], next_seq := next_seq db + 1\<rparr>)"

definition flush :: "(string \<Rightarrow> string) \<Rightarrow> py_datetime \<Rightarrow> string option \<Rightarrow> uuid list \<Rightarrow>
    audit_log list \<Rightarrow> audit_db \<Rightarrow> audit_db option" where
  "flush sha now bound fresh session_new db =
     map_option (\<lambda>rws. insert_rows rws db)
       (compute_audit_hashes sha now bound fresh db session_new)"

section \<open>The verifier\<close>

record chain_break =
  cb_seq :: int
  audit_id :: string
  expected_hash :: string
  actual_hash :: string
  reason :: string
  cb_action :: string
  cb_resource_type :: string
  cb_resource_id :: string

record chain_verify_result =
  ok :: bool
  rows_checked :: nat
  breaks :: "chain_break list"
  first_seq :: "int option"
  last_seq :: "int option"
  last_hash :: "string option"
  partial :: bool

definition complete :: "chain_verify_result \<Rightarrow> bool" where
  "complete r \<longleftrightarrow> \<not> partial r"

text \<open>\<open>x or ""\<close>\<close>

definition or_blank :: "string option \<Rightarrow> string" where
  "or_blank x = (case x of None \<Rightarrow> [] | Some s \<Rightarrow> s)"

definition break_at :: "audit_log \<Rightarrow> string \<Rightarrow> string \<Rightarrow> string \<Rightarrow> chain_break" where
  "break_at row e a why = \<lparr>cb_seq = seq row, audit_id = str_opt (al_id row), expected_hash = e,
     actual_hash = a, reason = why, cb_action = al_action row,
     cb_resource_type = al_resource_type row, cb_resource_id = al_resource_id row\<rparr>"

text \<open>The breaks one row contributes, given the hash it should chain from.\<close>

definition row_breaks :: "(string \<Rightarrow> string) \<Rightarrow> string option \<Rightarrow> audit_log \<Rightarrow> chain_break list" where
  "row_breaks sha expected_prev row =
     (if prev_hash row \<noteq> expected_prev
      then [break_at row (or_blank expected_prev) (or_blank (prev_hash row)) ''prev_hash_mismatch'']
      else []) @
     (let recomputed = hash_row sha (prev_hash row) (canonical_json row) in
      if Some recomputed \<noteq> row_hash row
      then [break_at row recomputed (or_blank (row_hash row)) ''row_hash_mismatch''] else [])"

record walk =
  w_breaks :: "chain_break list"
  w_expected_prev :: "string option"
  w_last_seq :: int
  w_rows_checked :: nat
  w_last_hash :: "string option"
  w_seen_seq :: "int option"
  w_first_seq :: "int option"
  w_on_chunk :: "(int \<times> string option \<times> nat \<times> nat) list"

fun walk_page :: "(string \<Rightarrow> string) \<Rightarrow> audit_log list \<Rightarrow> walk \<Rightarrow> walk" where
  "walk_page sha [] w = w"
| "walk_page sha (row # page) w = walk_page sha page
     (w\<lparr>w_rows_checked := w_rows_checked w + 1,
        w_first_seq := or_else (w_first_seq w) (seq row),
        w_breaks := w_breaks w @ row_breaks sha (w_expected_prev w) row,
        w_expected_prev := row_hash row\<rparr>)"

text \<open>After a page that is not empty: the cursor moves and the callback is told.\<close>

definition end_page :: "audit_log list \<Rightarrow> walk \<Rightarrow> walk" where
  "end_page page w = (if page = [] then w
     else w\<lparr>w_last_seq := seq (last page), w_seen_seq := Some (seq (last page)),
            w_last_hash := row_hash (last page),
            w_on_chunk := w_on_chunk w @ [(seq (last page), row_hash (last page),
              w_rows_checked w, length (w_breaks w))]\<rparr>)"

definition select_page :: "audit_log list \<Rightarrow> int \<Rightarrow> nat \<Rightarrow> audit_log list" where
  "select_page rs after limit = take limit (in_seq_order (filter (\<lambda>r. after < seq r) rs))"

definition page_limit :: "nat option \<Rightarrow> nat \<Rightarrow> walk \<Rightarrow> nat" where
  "page_limit max_rows chunk_size w = (case max_rows of None \<Rightarrow> chunk_size
     | Some m \<Rightarrow> min chunk_size (m - w_rows_checked w))"

text \<open>The \<open>while True\<close> loop, with whether it ended on a short page. The chunk size is at least
  one, as the caller makes it.\<close>

function verify_loop :: "(string \<Rightarrow> string) \<Rightarrow> audit_log list \<Rightarrow> nat option \<Rightarrow> nat \<Rightarrow> walk \<Rightarrow>
    walk \<times> bool" where
  "verify_loop sha rs max_rows chunk_size w =
     (let limit = page_limit max_rows (max 1 chunk_size) w in
      if limit = 0 then (w, False)
      else let page = select_page rs (w_last_seq w) limit;
               w' = end_page page (walk_page sha page w)
           in if length page < limit then (w', True)
              else verify_loop sha rs max_rows chunk_size w')"
  by pat_completeness auto

lemma walk_page_cursor [simp]: "w_last_seq (walk_page sha page w) = w_last_seq w"
  by (induction page arbitrary: w) auto

lemma last_select_page:
  assumes "select_page rs a n \<noteq> []"
  shows "last (select_page rs a n) \<in> set rs" "a < seq (last (select_page rs a n))"
proof -
  have "last (select_page rs a n) \<in> set (select_page rs a n)" using assms by simp
  then have "last (select_page rs a n) \<in> set (filter (\<lambda>r. a < seq r) rs)"
    by (auto simp: select_page_def in_seq_order_def dest: in_set_takeD)
  then show "last (select_page rs a n) \<in> set rs" "a < seq (last (select_page rs a n))" by auto
qed

lemma fewer_after: "r \<in> set rs \<Longrightarrow> a < seq r \<Longrightarrow>
  length (filter (\<lambda>x. seq r < seq x) rs) < length (filter (\<lambda>x. a < seq x) rs)"
  for rs :: "audit_log list"
proof (induction rs)
  case (Cons x rs)
  have le: "length (filter (\<lambda>x. seq r < seq x) rs) \<le> length (filter (\<lambda>x. a < seq x) rs)"
    using Cons.prems(2) by (intro length_filter_le_filter) auto
  show ?case using Cons le by (cases "x = r") auto
qed simp

termination verify_loop
proof (relation "measure (\<lambda>(_, rs, _, _, w). length (filter (\<lambda>r. w_last_seq w < seq r) rs))",
    goal_cases)
  case (2 sha rs max_rows chunk_size w limit page w')
  then have "page \<noteq> []" by auto
  then show ?case using 2 last_select_page [of rs "w_last_seq w" limit] fewer_after
    by (auto simp: end_page_def)
qed simp

declare verify_loop.simps [simp del]

text \<open>The anchor of the newest window: the row before the first row of the window, with \<open>OFFSET\<close>
  and \<open>LIMIT\<close> on the rows in descending order. The code reads it only for \<open>max_rows\<close> of at
  least one, PostgreSQL refusing a negative \<open>OFFSET\<close>.\<close>

definition first_in_window :: "audit_log list \<Rightarrow> nat \<Rightarrow> int option" where
  "first_in_window rs m = (case drop (m - 1) (rev (in_seq_order rs)) of
     [] \<Rightarrow> None | r # _ \<Rightarrow> Some (seq r))"

definition row_before :: "audit_log list \<Rightarrow> int \<Rightarrow> audit_log option" where
  "row_before rs s = (case rev (in_seq_order (filter (\<lambda>r. seq r < s) rs)) of
     [] \<Rightarrow> None | r # _ \<Rightarrow> Some r)"

definition window_anchor :: "audit_log list \<Rightarrow> nat \<Rightarrow> (int \<times> string option) option" where
  "window_anchor rs m = (case first_in_window rs m of None \<Rightarrow> None
     | Some s \<Rightarrow> map_option (\<lambda>r. (seq r, row_hash r)) (row_before rs s))"

definition start_walk :: "(int \<times> string option) option \<Rightarrow> walk" where
  "start_walk start_after = \<lparr>w_breaks = [],
     w_expected_prev = (case start_after of None \<Rightarrow> None | Some (_, h) \<Rightarrow> h),
     w_last_seq = (case start_after of None \<Rightarrow> 0 | Some (s, _) \<Rightarrow> s), w_rows_checked = 0,
     w_last_hash = (case start_after of None \<Rightarrow> None | Some (_, h) \<Rightarrow> h),
     w_seen_seq = map_option fst start_after, w_first_seq = None, w_on_chunk = []\<rparr>"

text \<open>The walk from a start to the result; \<open>complete\<close> when it ended on a short page or nothing
  follows.\<close>

definition verify_from :: "(string \<Rightarrow> string) \<Rightarrow> audit_log list \<Rightarrow> nat option \<Rightarrow>
    (int \<times> string option) option \<Rightarrow> bool \<Rightarrow> nat \<Rightarrow> chain_verify_result" where
  "verify_from sha rs max_rows start_after window_anchored chunk_size =
     (let (w, short) = verify_loop sha rs max_rows chunk_size (start_walk start_after);
          whole = short \<or> filter (\<lambda>r. w_last_seq w < seq r) rs = []
      in \<lparr>ok = (w_breaks w = []), rows_checked = w_rows_checked w, breaks = w_breaks w,
          first_seq = w_first_seq w, last_seq = w_seen_seq w, last_hash = w_last_hash w,
          partial = (window_anchored \<or> \<not> whole)\<rparr>)"

definition VERIFY_CHUNK_SIZE :: nat where "VERIFY_CHUNK_SIZE = 5000"

definition verify_chain :: "(string \<Rightarrow> string) \<Rightarrow> audit_db \<Rightarrow> nat option \<Rightarrow>
    (int \<times> string option) option \<Rightarrow> nat \<Rightarrow> bool \<Rightarrow> chain_verify_result" where
  "verify_chain sha db max_rows start_after chunk_size newest =
     (case (newest, max_rows, start_after) of
        (True, Some m, None) \<Rightarrow>
          verify_from sha (rows db) None (window_anchor (rows db) m)
            (window_anchor (rows db) m \<noteq> None) chunk_size
      | _ \<Rightarrow> verify_from sha (rows db) max_rows start_after False chunk_size)"

definition checkpoint_still_valid :: "audit_db \<Rightarrow> int \<Rightarrow> string \<Rightarrow> bool" where
  "checkpoint_still_valid db s h =
     (case filter (\<lambda>r. seq r = s) (rows db) of [] \<Rightarrow> False | r # _ \<Rightarrow> row_hash r = Some h)"

section \<open>What a walk reports\<close>

fun chain_breaks :: "(string \<Rightarrow> string) \<Rightarrow> string option \<Rightarrow> audit_log list \<Rightarrow> chain_break list" where
  "chain_breaks sha prev [] = []"
| "chain_breaks sha prev (row # rws) = row_breaks sha prev row @ chain_breaks sha (row_hash row) rws"

text \<open>The hash the row after \<open>rws\<close> has to chain from.\<close>

definition end_hash :: "string option \<Rightarrow> audit_log list \<Rightarrow> string option" where
  "end_hash prev rws = (if rws = [] then prev else row_hash (last rws))"

lemma chain_breaks_append:
  "chain_breaks sha prev (xs @ ys) = chain_breaks sha prev xs @ chain_breaks sha (end_hash prev xs) ys"
  by (induction xs arbitrary: prev) (auto simp: end_hash_def)

text \<open>\<open>w'\<close> is \<open>w\<close> after walking the rows \<open>rws\<close>, whatever the pages.\<close>

definition walked :: "(string \<Rightarrow> string) \<Rightarrow> audit_log list \<Rightarrow> walk \<Rightarrow> walk \<Rightarrow> bool" where
  "walked sha rws w w' \<longleftrightarrow>
     w_breaks w' = w_breaks w @ chain_breaks sha (w_expected_prev w) rws \<and>
     w_rows_checked w' = w_rows_checked w + length rws \<and>
     w_expected_prev w' = end_hash (w_expected_prev w) rws \<and>
     w_last_hash w' = end_hash (w_last_hash w) rws \<and>
     w_last_seq w' = (if rws = [] then w_last_seq w else seq (last rws)) \<and>
     w_seen_seq w' = (if rws = [] then w_seen_seq w else Some (seq (last rws))) \<and>
     w_first_seq w' = (if rws = [] then w_first_seq w else or_else (w_first_seq w) (seq (hd rws)))"

lemma walk_page_fields:
  "w_breaks (walk_page sha page w) = w_breaks w @ chain_breaks sha (w_expected_prev w) page"
  "w_rows_checked (walk_page sha page w) = w_rows_checked w + length page"
  "w_expected_prev (walk_page sha page w) = end_hash (w_expected_prev w) page"
  "w_last_hash (walk_page sha page w) = w_last_hash w"
  "w_seen_seq (walk_page sha page w) = w_seen_seq w"
  "w_first_seq (walk_page sha page w) =
     (if page = [] then w_first_seq w else or_else (w_first_seq w) (seq (hd page)))"
  by (induction page arbitrary: w)
    (auto simp: end_hash_def or_else_def split: option.splits)

lemma walked_page: "walked sha page w (end_page page (walk_page sha page w))"
  by (auto simp: walked_def end_page_def walk_page_fields end_hash_def)

lemma walked_Nil [simp]: "walked sha [] w w"
  by (simp add: walked_def end_hash_def)

lemma walked_append: "walked sha xs w w1 \<Longrightarrow> walked sha ys w1 w2 \<Longrightarrow> walked sha (xs @ ys) w w2"
  by (cases "xs = []"; cases "ys = []")
    (auto simp: walked_def chain_breaks_append end_hash_def or_else_def split: option.splits)

text \<open>The rows still to walk, and the share of them a cap leaves.\<close>

definition pending :: "audit_log list \<Rightarrow> int \<Rightarrow> audit_log list" where
  "pending rs s = in_seq_order (filter (\<lambda>r. s < seq r) rs)"

definition budget :: "nat option \<Rightarrow> walk \<Rightarrow> audit_log list \<Rightarrow> nat" where
  "budget max_rows w rws = (case max_rows of None \<Rightarrow> length rws | Some m \<Rightarrow> m - w_rows_checked w)"

lemma pending_sorted: "distinct (map seq rs) \<Longrightarrow> sorted_wrt (<) (map seq (pending rs s))"
proof -
  assume "distinct (map seq rs)"
  then have "distinct (map seq (pending rs s))"
    by (auto simp: pending_def in_seq_order_def distinct_map inj_on_def)
  then show ?thesis by (simp add: pending_def in_seq_order_def strict_sorted_iff)
qed

lemma filter_after_last:
  assumes "sorted_wrt (<) (map seq ps)" "0 < k" "k \<le> length ps"
  shows "filter (\<lambda>r. seq (last (take k ps)) < seq r) ps = drop k ps"
proof -
  have ps: "ps = take k ps @ drop k ps" by simp
  let ?x = "last (take k ps)"
  have ne: "take k ps \<noteq> []" using assms(2,3) by auto
  then have t: "take k ps = butlast (take k ps) @ [?x]" by simp
  have s: "sorted_wrt (<) (map seq (butlast (take k ps) @ [?x] @ drop k ps))"
    using assms(1) ps t by (metis append.assoc)
  have "filter (\<lambda>r. seq ?x < seq r) (butlast (take k ps) @ [?x]) = []"
    using s by (auto simp: sorted_wrt_append filter_empty_conv)
  then have "filter (\<lambda>r. seq ?x < seq r) (take k ps) = []" using t by metis
  moreover have "filter (\<lambda>r. seq ?x < seq r) (drop k ps) = drop k ps"
    using s by (auto simp: sorted_wrt_append)
  ultimately show ?thesis by (metis ps filter_append self_append_conv2)
qed

lemma pending_pending:
  "s \<le> s' \<Longrightarrow> pending rs s' = filter (\<lambda>r. s' < seq r) (pending rs s)"
  unfolding pending_def in_seq_order_def filter_sort filter_filter
  by (rule arg_cong [where f = "sort_key seq"], rule filter_cong) auto

lemma pending_after_page:
  assumes "distinct (map seq rs)" "0 < k" "k \<le> length (pending rs s)"
  shows "pending rs (seq (last (take k (pending rs s)))) = drop k (pending rs s)"
proof -
  have "last (take k (pending rs s)) \<in> set (pending rs s)"
    using assms(2,3) by (metis in_set_takeD last_in_set length_greater_0_conv length_take min.absorb2)
  then have "s \<le> seq (last (take k (pending rs s)))" by (auto simp: pending_def in_seq_order_def)
  then show ?thesis using pending_pending filter_after_last [OF pending_sorted] assms by metis
qed

lemma verify_loop_walks:
  assumes "distinct (map seq rs)" "verify_loop sha rs max_rows chunk w = (w', short)"
  shows "walked sha (take (budget max_rows w (pending rs (w_last_seq w))) (pending rs (w_last_seq w))) w w' \<and>
    ((short \<or> pending rs (w_last_seq w') = []) \<longleftrightarrow>
      length (pending rs (w_last_seq w)) \<le> budget max_rows w (pending rs (w_last_seq w)))"
  using assms
proof (induction sha rs max_rows chunk w arbitrary: w' short rule: verify_loop.induct)
  case (1 sha rs max_rows chunk w)
  let ?P = "pending rs (w_last_seq w)"
  let ?limit = "page_limit max_rows (max 1 chunk) w"
  let ?page = "select_page rs (w_last_seq w) ?limit"
  let ?w1 = "end_page ?page (walk_page sha ?page w)"
  let ?b = "budget max_rows w ?P"
  have page: "?page = take ?limit ?P" by (simp add: select_page_def pending_def)
  have lb: "max_rows = None \<and> ?limit = max 1 chunk \<or>
      (\<exists>m. max_rows = Some m \<and> ?limit = min (max 1 chunk) (m - w_rows_checked w))"
    by (auto simp: page_limit_def split: option.splits)
  show ?case
  proof (cases "?limit = 0")
    case True
    then have "w' = w" "\<not> short" "?b = 0" using 1(3) lb
      by (auto simp: verify_loop.simps [of sha] budget_def Let_def)
    then show ?thesis by simp
  next
    case False
    show ?thesis
    proof (cases "length ?page < ?limit")
      case True
      then have "w' = ?w1" "short" using 1(3) False by (auto simp: verify_loop.simps [of sha] Let_def)
      moreover have "length ?P < ?limit" using True page by simp
      then have "?page = ?P" "length ?P \<le> ?b" using page lb by (auto simp: budget_def)
      ultimately show ?thesis using walked_page by simp
    next
      case again: False
      have len: "?limit \<le> length ?P" using again page by simp
      obtain v where v: "v = ?w1" by simp
      have w1: "walked sha (take ?limit ?P) w v" using walked_page page v by metis
      have ne: "take ?limit ?P \<noteq> []" using len False by auto
      have P1: "pending rs (w_last_seq v) = drop ?limit ?P"
        using pending_after_page [OF 1(2) _ len] False w1 ne by (simp add: walked_def)
      have rec: "verify_loop sha rs max_rows chunk v = (w', short)"
        using 1(3) False again v
        by (simp add: verify_loop.simps [of sha rs max_rows chunk w] Let_def)
      have "w_rows_checked v = w_rows_checked w + ?limit" using w1 len by (simp add: walked_def)
      then have b1: "budget max_rows v (drop ?limit ?P) = ?b - ?limit" "?limit \<le> ?b"
        using len lb by (auto simp: budget_def)
      note IH = 1(1) [OF refl False refl refl again 1(2) rec [unfolded v], folded v, unfolded P1 b1]
      have t: "take ?limit ?P @ take (?b - ?limit) (drop ?limit ?P) = take ?b ?P"
        using b1(2) by (metis le_add_diff_inverse take_add)
      have "walked sha (take ?b ?P) w w'" using walked_append [OF w1 conjunct1 [OF IH]] t by simp
      moreover have "length (drop ?limit ?P) \<le> ?b - ?limit \<longleftrightarrow> length ?P \<le> ?b"
        using b1(2) len by auto
      ultimately show ?thesis using conjunct2 [OF IH] by blast
    qed
  qed
qed

text \<open>The result of a walk from \<open>start\<close>, in terms of the rows it covers.\<close>

definition walk_result :: "(string \<Rightarrow> string) \<Rightarrow> (int \<times> string option) option \<Rightarrow> audit_log list \<Rightarrow> bool \<Rightarrow>
    chain_verify_result" where
  "walk_result sha start rws part =
     (let h = (case start of None \<Rightarrow> None | Some (_, h) \<Rightarrow> h); brs = chain_breaks sha h rws in
      \<lparr>ok = (brs = []), rows_checked = length rws, breaks = brs,
       first_seq = (if rws = [] then None else Some (seq (hd rws))),
       last_seq = (if rws = [] then map_option fst start else Some (seq (last rws))),
       last_hash = end_hash h rws, partial = part\<rparr>)"

abbreviation start_seq :: "(int \<times> string option) option \<Rightarrow> int" where
  "start_seq start \<equiv> (case start of None \<Rightarrow> 0 | Some (s, _) \<Rightarrow> s)"

lemma verify_from_result:
  assumes "distinct (map seq rs)"
  shows "verify_from sha rs max_rows start anchored chunk =
    (let R = pending rs (start_seq start); b = (case max_rows of None \<Rightarrow> length R | Some m \<Rightarrow> m) in
     walk_result sha start (take b R) (anchored \<or> b < length R))"
proof -
  let ?w = "start_walk start"
  obtain w' short where v: "verify_loop sha rs max_rows chunk ?w = (w', short)" by force
  have s: "w_last_seq ?w = start_seq start" by (simp add: start_walk_def split: option.splits)
  have p: "pending rs (w_last_seq w') = [] \<longleftrightarrow> filter (\<lambda>r. w_last_seq w' < seq r) rs = []"
    unfolding pending_def in_seq_order_def by (metis length_0_conv length_sort)
  let ?R = "pending rs (start_seq start)"
  let ?b = "budget max_rows ?w ?R" and ?h = "case start of None \<Rightarrow> None | Some (_, h) \<Rightarrow> h"
  have b: "?b = (case max_rows of None \<Rightarrow> length ?R | Some m \<Rightarrow> m)"
    by (simp add: budget_def start_walk_def split: option.splits)
  have "walked sha (take ?b ?R) ?w w'"
    and short: "(short \<or> filter (\<lambda>r. w_last_seq w' < seq r) rs = []) = (\<not> ?b < length ?R)"
    using verify_loop_walks [OF assms v] unfolding s p not_less by auto
  then have "w_breaks w' = chain_breaks sha ?h (take ?b ?R)"
    "w_rows_checked w' = length (take ?b ?R)" "w_last_hash w' = end_hash ?h (take ?b ?R)"
    "w_seen_seq w' = (if take ?b ?R = [] then map_option fst start
       else Some (seq (last (take ?b ?R))))"
    "w_first_seq w' = (if take ?b ?R = [] then None else Some (seq (hd (take ?b ?R))))"
    unfolding walked_def by (simp_all add: start_walk_def or_else_def)
  then show ?thesis using short unfolding Let_def b [symmetric]
    by (simp add: verify_from_def v walk_result_def Let_def del: take_eq_Nil take_eq_Nil2 length_take)
      blast
qed

text \<open>A table whose sequence numbers came from the sequence.\<close>

definition sequenced :: "audit_db \<Rightarrow> bool" where
  "sequenced db \<longleftrightarrow> distinct (map seq (rows db)) \<and> list_all (\<lambda>r. 0 < seq r) (rows db)"

abbreviation chain :: "audit_db \<Rightarrow> audit_log list" where
  "chain db \<equiv> in_seq_order (rows db)"

lemma pending_all: "sequenced db \<Longrightarrow> pending (rows db) 0 = chain db"
  by (simp add: sequenced_def pending_def list_all_iff)

lemma verify_chain_whole:
  "sequenced db \<Longrightarrow>
   verify_chain sha db None None chunk_size newest = walk_result sha None (chain db) False"
  using verify_from_result [of "rows db" sha None None False chunk_size] pending_all [of db]
  by (auto simp: verify_chain_def sequenced_def Let_def split: bool.splits)

text \<open>A verification without a cap reports exactly the breaks of the whole log read in
  sequence order: one per row whose stored \<open>prev_hash\<close> is not its predecessor's hash and one per
  row whose content no longer gives its hash. The page size changes nothing, every row is
  counted, and the result is complete.\<close>

theorem verify_chain_whole_log:
  assumes "sequenced db"
  shows "verify_chain sha db None None chunk_size newest = walk_result sha None (chain db) False"
  using assms by (rule verify_chain_whole)

lemma window_split:
  assumes "sequenced db" "0 < m" "m < length (chain db)"
  defines "k \<equiv> length (chain db) - m"
  shows "window_anchor (rows db) m = Some (seq (chain db ! (k - 1)), row_hash (chain db ! (k - 1)))"
    and "pending (rows db) (seq (chain db ! (k - 1))) = drop k (chain db)"
proof -
  let ?C = "chain db"
  have srt: "sorted_wrt (<) (map seq ?C)"
    using pending_sorted assms(1) pending_all by (metis sequenced_def)
  have k: "0 < k" "k < length ?C" using assms by auto
  have "drop (m - 1) (rev ?C) = rev (take (Suc k) ?C)"
    using assms(2,3) k_def by (simp add: rev_drop [symmetric] drop_rev Suc_diff_le)
  then have first: "first_in_window (rows db) m = Some (seq (?C ! k))"
    using k by (simp add: first_in_window_def take_Suc_conv_app_nth)
  have lt: "seq (?C ! i) < seq (?C ! j)" if "i < j" "j < length ?C" for i j
    using sorted_wrt_nth_less [OF srt that(1)] that by simp
  have "filter (\<lambda>r. seq r < seq (?C ! k)) (take k ?C) = take k ?C"
    using lt k by (auto simp: in_set_conv_nth intro!: filter_True)
  moreover have "filter (\<lambda>r. seq r < seq (?C ! k)) (drop k ?C) = []"
  proof -
    have "seq (?C ! k) \<le> seq (?C ! (k + i))" if "k + i < length ?C" for i
      using lt [of k "k + i"] that by (cases i) auto
    then show ?thesis by (auto simp: filter_empty_conv in_set_conv_nth not_less)
  qed
  ultimately have "filter (\<lambda>r. seq r < seq (?C ! k)) ?C = take k ?C"
    by (metis append_take_drop_id filter_append append_Nil2)
  then have "in_seq_order (filter (\<lambda>r. seq r < seq (?C ! k)) (rows db)) = take k ?C"
    by (simp add: in_seq_order_def filter_sort [symmetric])
  then have "row_before (rows db) (seq (?C ! k)) = Some (?C ! (k - 1))"
    using k by (cases k) (auto simp: row_before_def take_Suc_conv_app_nth)
  with first show "window_anchor (rows db) m = Some (seq (?C ! (k - 1)), row_hash (?C ! (k - 1)))"
    by (simp add: window_anchor_def)
  have "last (take k ?C) = ?C ! (k - 1)" using k by (cases k) (auto simp: take_Suc_conv_app_nth)
  then show "pending (rows db) (seq (?C ! (k - 1))) = drop k ?C"
    using pending_after_page [of "rows db" k 0] assms(1) pending_all [OF assms(1)] k
    by (simp add: sequenced_def)
qed

lemma window_whole: "sequenced db \<Longrightarrow> length (chain db) \<le> m \<Longrightarrow> window_anchor (rows db) m = None"
proof -
  assume s: "sequenced db" and m: "length (chain db) \<le> m"
  show ?thesis
  proof (cases "length (chain db) = m \<and> chain db \<noteq> []")
    case True
    then have "drop (m - 1) (rev (chain db)) = [hd (chain db)]"
      by (cases "chain db") auto
    then have f: "first_in_window (rows db) m = Some (seq (hd (chain db)))"
      by (simp add: first_in_window_def)
    have "seq (hd (chain db)) \<le> seq r" if "r \<in> set (rows db)" for r
    proof -
      have "sorted (map seq (chain db))" by (simp add: in_seq_order_def)
      moreover have "r \<in> set (chain db)" using that by (simp add: in_seq_order_def)
      ultimately show ?thesis by (cases "chain db") auto
    qed
    then have "filter (\<lambda>r. seq r < seq (hd (chain db))) (rows db) = []"
      by (auto simp: filter_empty_conv not_less)
    then show ?thesis using f by (simp add: window_anchor_def row_before_def in_seq_order_def)
  next
    case False
    then have "drop (m - 1) (rev (chain db)) = []" using m by (cases "chain db = []") auto
    then show ?thesis by (simp add: window_anchor_def first_in_window_def)
  qed
qed

text \<open>With \<open>newest=True\<close> a capped verification covers exactly the newest \<open>max_rows\<close> rows, and
  the first of them is still checked against the hash of the row before the window. The result is
  marked partial precisely when older rows exist.\<close>

theorem verify_chain_newest_window:
  assumes "sequenced db" "0 < m"
  shows "let v = verify_chain sha db (Some m) None chunk_size True; k = length (rows db) - m in
    rows_checked v = min m (length (rows db)) \<and>
    breaks v = chain_breaks sha (if k = 0 then None else row_hash (chain db ! (k - 1)))
      (drop k (chain db)) \<and>
    (partial v \<longleftrightarrow> m < length (rows db))"
proof -
  have l: "length (chain db) = length (rows db)" by (simp add: in_seq_order_def)
  have d: "distinct (map seq (rows db))" using assms(1) by (simp add: sequenced_def)
  show ?thesis
    using window_split [OF assms] window_whole [OF assms(1), of m] l pending_all [OF assms(1)]
    by (cases "m < length (rows db)")
      (simp_all add: verify_chain_def verify_from_result [OF d] walk_result_def Let_def)
qed

section \<open>The JSONB normal form\<close>

text \<open>What a number, a dict or an unknown object is stored as.\<close>

abbreviation jsonb_form :: "pyval \<Rightarrow> pyval" where
  "jsonb_form \<equiv> reloaded pg_number PyStr"

lemma normalise_reloaded:
  "dumpable v \<Longrightarrow> normalise_jsonb_value v = Some (jsonb_form v)"
  by (auto simp: normalise_jsonb_value_def is_sep_def is_ws_def intro!: json_loads_dumps)

lemma constant_not_float: "float_token t \<Longrightarrow> t \<notin> set json_constants"
  by (auto simp: json_constants_def float_token_def scan_number_def scan_minus_def scan_int_def
      is_digit_def)

lemma zero_float: "float_token ''0.0''" "pg_number ''0.0'' = PyFloat ''0.0''"
  by code_simp+

lemma pg_number_cases: "(\<exists>i. pg_number t = PyInt i) \<or> pg_number t = PyFloat ''0.0'' \<or> pg_number t = PyFloat t"
  by (auto simp: pg_number_def Let_def split: option.splits)

lemma pg_number_normal:
  "float_token t \<Longrightarrow> jsonable (pg_number t) \<and> jsonb_form (pg_number t) = pg_number t"
  using pg_number_cases [of t] zero_float constant_not_float [of t] constant_not_float [of "''0.0''"]
  by auto

lemma jsonb_form_normal:
  "dumpable v \<Longrightarrow> jsonable (jsonb_form v) \<and> jsonb_form (jsonb_form v) = jsonb_form v"
proof (induction v)
  case (PyFloat t)
  then show ?case using pg_number_normal constant_not_float by auto
next
  case (PyDict kvs)
  have "jsonable (jsonb_form v)" "jsonb_form (jsonb_form v) = jsonb_form v" if "(k, v) \<in> set kvs" for k v
    using PyDict that by (auto simp: list_all_iff snds.simps)
  with PyDict.prems show ?case by (auto simp: list_all_iff comp_def case_prod_beta')
qed (auto simp: list_all_iff)

text \<open>Normalising a payload before it is hashed reaches a fixed point in one step: any value the
  encoder can dump is accepted, and normalising the stored value again changes nothing, so the
  text hashed before the INSERT and the text hashed by the verifier agree.\<close>

theorem normalise_jsonb_value_idempotent:
  assumes "dumpable v"
  shows "\<exists>w. normalise_jsonb_value v = Some w \<and> jsonable w \<and> normalise_jsonb_value w = Some w"
  using assms jsonb_form_normal normalise_reloaded jsonable_dumpable by metis

theorem normalise_jsonb_value_idempotent_witness:
  "dumpable (PyDict [(''ttl'', PyFloat ''1e+16''), (''id'', PyOther ''7f''), (''x'', PyFloat ''NaN'')]) \<and>
   normalise_jsonb_value (PyDict [(''ttl'', PyFloat ''1e+16''), (''id'', PyOther ''7f''),
      (''x'', PyFloat ''NaN'')]) =
     Some (PyDict [(''ttl'', PyInt 10000000000000000), (''id'', PyStr ''7f''), (''x'', PyStr ''NaN'')]) \<and>
   (\<exists>w. normalise_jsonb_value (PyDict [(''ttl'', PyFloat ''1e+16''), (''id'', PyOther ''7f''),
      (''x'', PyFloat ''NaN'')]) = Some w \<and> jsonable w \<and> normalise_jsonb_value w = Some w)"
proof (intro conjI)
  show d: "dumpable (PyDict [(''ttl'', PyFloat ''1e+16''), (''id'', PyOther ''7f''), (''x'', PyFloat ''NaN'')])"
    by code_simp
  show "normalise_jsonb_value (PyDict [(''ttl'', PyFloat ''1e+16''), (''id'', PyOther ''7f''),
      (''x'', PyFloat ''NaN'')]) =
     Some (PyDict [(''ttl'', PyInt 10000000000000000), (''id'', PyStr ''7f''), (''x'', PyStr ''NaN'')])"
    by code_simp
qed (rule normalise_jsonb_value_idempotent, code_simp)

section \<open>An honest log stays verifiable\<close>

text \<open>The row as the database returns it, when a JSONB column reads a stored value \<open>v\<close> back as
  \<open>jsonb v\<close>.\<close>

definition read_back :: "(pyval \<Rightarrow> pyval) \<Rightarrow> audit_log \<Rightarrow> audit_log" where
  "read_back jsonb row = row\<lparr>old_value := jsonb (old_value row), new_value := jsonb (new_value row),
     changed_fields := jsonb (changed_fields row)\<rparr>"

text \<open>PostgreSQL keeps a value in normal form up to the order of object keys.\<close>

definition jsonb_faithful :: "(pyval \<Rightarrow> pyval) \<Rightarrow> bool" where
  "jsonb_faithful jsonb \<longleftrightarrow> (\<forall>v. normalise_jsonb_value v = Some v \<longrightarrow> same_json v (jsonb v))"

definition json_columns :: "audit_log \<Rightarrow> pyval list" where
  "json_columns row = [old_value row, new_value row, changed_fields row]"

definition stored_row :: "audit_log \<Rightarrow> bool" where
  "stored_row row \<longleftrightarrow> row_hash row \<noteq> None \<and> list_all (\<lambda>v. normalise_jsonb_value v = Some v) (json_columns row)"

lemma canonical_read_back:
  assumes "jsonb_faithful jsonb" "stored_row row"
  shows "canonical_json (read_back jsonb row) = canonical_json row"
proof -
  have "sort_keys (jsonb v) = sort_keys v" if "v \<in> set (json_columns row)" for v
    using assms that by (auto simp: jsonb_faithful_def stored_row_def list_all_iff same_json_def)
  then show ?thesis
    by (simp add: canonical_json_def json_dumps_sorted audit_payload_def read_back_def json_columns_def)
qed

lemma break_at_read_back [simp]: "break_at (read_back jsonb row) = break_at row"
  by (simp add: break_at_def read_back_def fun_eq_iff)

lemma chain_breaks_read_back:
  assumes "jsonb_faithful jsonb" "list_all stored_row rws"
  shows "chain_breaks sha prev (map (read_back jsonb) rws) = chain_breaks sha prev rws"
  using assms(2)
proof (induction rws arbitrary: prev)
  case (Cons row rws)
  have "prev_hash (read_back jsonb row) = prev_hash row" "row_hash (read_back jsonb row) = row_hash row"
    by (simp_all add: read_back_def)
  with Cons canonical_read_back [OF assms(1)] show ?case by (simp add: row_breaks_def Let_def)
qed simp

definition chain_ok :: "(string \<Rightarrow> string) \<Rightarrow> audit_db \<Rightarrow> bool" where
  "chain_ok sha db \<longleftrightarrow> chain_breaks sha None (rows db) = [] \<and> list_all stored_row (rows db) \<and>
     sorted_wrt (<) (map seq (rows db)) \<and> list_all (\<lambda>r. 0 < seq r \<and> seq r < next_seq db) (rows db) \<and>
     0 < next_seq db"

lemma chain_ok_order: "chain_ok sha db \<Longrightarrow> chain db = rows db"
  by (auto simp: chain_ok_def in_seq_order_def strict_sorted_iff sort_key_id_if_sorted)

lemma chain_ok_sequenced: "chain_ok sha db \<Longrightarrow> sequenced db"
  by (auto simp: chain_ok_def sequenced_def strict_sorted_iff list_all_iff)

lemma last_hash_end: "chain_ok sha db \<Longrightarrow> last_hash_of (rows db) = end_hash None (rows db)"
proof -
  assume c: "chain_ok sha db"
  then have "filter (\<lambda>r. row_hash r \<noteq> None) (chain db) = rows db"
    using chain_ok_order by (auto simp: chain_ok_def stored_row_def list_all_iff intro: filter_True)
  then show ?thesis by (cases "rows db" rule: rev_cases) (auto simp: last_hash_of_def end_hash_def)
qed

lemma chain_rows_clean: "chain_breaks sha prev (chain_rows sha prev rws) = []"
proof (induction rws arbitrary: prev)
  case (Cons row rws)
  have "canonical_json (row\<lparr>prev_hash := p, row_hash := h\<rparr>) = canonical_json row" for p h
    by (simp add: canonical_json_def audit_payload_def)
  with Cons show ?case by (simp add: Let_def row_breaks_def)
qed simp
lemma insert_rows_ok:
  assumes "chain_ok sha db" "chain_breaks sha (end_hash None (rows db)) rws = []" "list_all stored_row rws"
  shows "chain_ok sha (insert_rows rws db) \<and> length (rows (insert_rows rws db)) = length (rows db) + length rws"
  using assms
proof (induction rws arbitrary: db)
  case (Cons row rws)
  let ?row = "row\<lparr>seq := next_seq db\<rparr>"
  let ?db = "db\<lparr>rows := rows db @ [?row], next_seq := next_seq db + 1\<rparr>"
  have c: "canonical_json ?row = canonical_json row" by (simp add: canonical_json_def audit_payload_def)
  have "row_breaks sha p ?row = [] \<longleftrightarrow> row_breaks sha p row = []" for p
    unfolding row_breaks_def c by (simp add: Let_def)
  then have "chain_ok sha ?db" using Cons.prems
    by (auto simp: chain_ok_def chain_breaks_append sorted_wrt_append stored_row_def json_columns_def
        list_all_iff)
  moreover have "end_hash None (rows ?db) = row_hash row" by (simp add: end_hash_def)
  ultimately show ?case using Cons.IH [of ?db] Cons.prems by simp
qed simp

definition flushable :: "audit_log \<Rightarrow> bool" where
  "flushable row \<longleftrightarrow> unhashed row \<and> list_all dumpable (json_columns row)"

lemma materialise_Some:
  assumes "flushable row"
  shows "\<exists>r. materialise now rid u row = Some r \<and>
    list_all (\<lambda>v. normalise_jsonb_value v = Some v) (json_columns r)"
proof -
  have n: "normalise_jsonb_value v = Some (jsonb_form v)" "normalise_jsonb_value (jsonb_form v) = Some (jsonb_form v)"
    if "v \<in> set (json_columns row)" for v
    using that assms jsonb_form_normal normalise_reloaded jsonable_dumpable
    by (auto simp: flushable_def list_all_iff)
  then show ?thesis by (simp add: materialise_def json_columns_def)
qed

lemma materialise_all_Some:
  assumes "list_all flushable rws" "length rws \<le> length fresh"
  shows "\<exists>rs. materialise_all now rid fresh rws = Some rs \<and> length rs = length rws \<and>
    list_all (\<lambda>r. list_all (\<lambda>v. normalise_jsonb_value v = Some v) (json_columns r)) rs"
  using assms
proof (induction rws arbitrary: fresh)
  case (Cons row rws)
  then obtain u us where fresh: "fresh = u # us" by (cases fresh) auto
  from Cons.IH [of us] Cons.prems fresh obtain rs where
    "materialise_all now rid us rws = Some rs" "length rs = length rws"
    "list_all (\<lambda>r. list_all (\<lambda>v. normalise_jsonb_value v = Some v) (json_columns r)) rs" by auto
  moreover from materialise_Some Cons.prems obtain r where "materialise now rid u row = Some r"
    "list_all (\<lambda>v. normalise_jsonb_value v = Some v) (json_columns r)" by fastforce
  ultimately show ?case using fresh by simp
qed simp

lemma chain_rows_stored:
  "list_all (\<lambda>r. list_all (\<lambda>v. normalise_jsonb_value v = Some v) (json_columns r)) rws \<Longrightarrow>
   list_all stored_row (chain_rows sha prev rws)"
  by (induction rws arbitrary: prev) (auto simp: Let_def stored_row_def json_columns_def)

lemma length_chain_rows [simp]: "length (chain_rows sha prev rws) = length rws"
  by (induction rws arbitrary: prev) (auto simp: Let_def)

lemma put_back_all: "list_all unhashed new \<Longrightarrow> length hs = length new \<Longrightarrow> put_back new hs = hs"
  by (induction new arbitrary: hs) (auto simp: length_Suc_conv)

lemma flush_ok:
  assumes "chain_ok sha db" "list_all flushable new" "length new \<le> length fresh"
  shows "\<exists>db'. flush sha now bound fresh new db = Some db' \<and> chain_ok sha db' \<and>
    length (rows db') = length (rows db) + length new"
proof (cases "new = []")
  case True
  then show ?thesis using assms(1) by (simp add: flush_def compute_audit_hashes_def)
next
  case False
  have u: "list_all unhashed new" using assms(2) by (simp add: list_all_iff flushable_def)
  then have f: "filter unhashed new = new" by (simp add: list_all_iff)
  from materialise_all_Some [OF assms(2,3)] obtain rs where rs:
    "materialise_all now (current_request_id bound) fresh new = Some rs" "length rs = length new"
    "list_all (\<lambda>r. list_all (\<lambda>v. normalise_jsonb_value v = Some v) (json_columns r)) rs" by blast
  let ?hs = "chain_rows sha (end_hash None (rows db)) rs"
  have "flush sha now bound fresh new db = Some (insert_rows ?hs db)"
    using False f rs(1,2) u last_hash_end [OF assms(1)]
    by (simp add: flush_def compute_audit_hashes_def Let_def put_back_all)
  then show ?thesis
    using insert_rows_ok [OF assms(1) chain_rows_clean chain_rows_stored [OF rs(3)]] rs(2) by simp
qed

text \<open>The life of the table: a transaction flushes audit rows, or rolls back after the sequence
  has moved.\<close>

inductive audit_reachable :: "(string \<Rightarrow> string) \<Rightarrow> audit_db \<Rightarrow> bool" for sha where
  empty_log: "audit_reachable sha \<lparr>rows = [], next_seq = 1\<rparr>"
| commit: "audit_reachable sha db \<Longrightarrow> list_all flushable new \<Longrightarrow>
    flush sha now bound fresh new db = Some db' \<Longrightarrow> length new \<le> length fresh \<Longrightarrow>
    audit_reachable sha db'"
| rolled_back: "audit_reachable sha db \<Longrightarrow> 0 \<le> k \<Longrightarrow>
    audit_reachable sha (db\<lparr>next_seq := next_seq db + k\<rparr>)"

lemma audit_reachable_ok: "audit_reachable sha db \<Longrightarrow> chain_ok sha db"
proof (induction rule: audit_reachable.induct)
  case (commit db new now bound fresh db')
  then show ?case using flush_ok [of sha db new fresh now bound] by auto
qed (auto simp: chain_ok_def list_all_iff)

definition read_back_db :: "(pyval \<Rightarrow> pyval) \<Rightarrow> audit_db \<Rightarrow> audit_db" where
  "read_back_db jsonb db = db\<lparr>rows := map (read_back jsonb) (rows db)\<rparr>"

text \<open>C2: A log written only through the flush hook always verifies. Whatever rows transactions
  flush together, with whatever payloads the encoder accepts, and however many sequence numbers
  rolled-back transactions burn, a full verification of what the database returns (JSON columns
  with their keys in any order) reports no break, counts every row and is complete, at every page
  size.\<close>

theorem honest_log_verifies:
  assumes "audit_reachable sha db" "jsonb_faithful jsonb"
  shows "verify_chain sha (read_back_db jsonb db) None None chunk_size newest =
    walk_result sha None (map (read_back jsonb) (rows db)) False \<and>
    ok (verify_chain sha (read_back_db jsonb db) None None chunk_size newest) \<and>
    rows_checked (verify_chain sha (read_back_db jsonb db) None None chunk_size newest) = length (rows db)"
proof -
  note c = audit_reachable_ok [OF assms(1)]
  let ?db = "read_back_db jsonb db"
  have s: "map seq (rows ?db) = map seq (rows db)" by (simp add: read_back_db_def read_back_def)
  have seqd: "sequenced ?db" using chain_ok_sequenced [OF c] s
    by (auto simp: sequenced_def list_all_iff read_back_db_def read_back_def comp_def)
  have ch: "chain ?db = rows ?db" using c s
    by (auto simp: chain_ok_def in_seq_order_def strict_sorted_iff intro: sort_key_id_if_sorted)
  have b: "chain_breaks sha None (rows ?db) = []"
    using chain_breaks_read_back [OF assms(2)] c by (simp add: read_back_db_def chain_ok_def)
  then show ?thesis
    using verify_chain_whole [OF seqd, of sha chunk_size newest] ch
    by (simp add: walk_result_def Let_def read_back_db_def)
qed
section \<open>Tamper evidence\<close>

text \<open>A SHA-256 hex digest: 64 hexadecimal characters.\<close>

definition hex_digest :: "(string \<Rightarrow> string) \<Rightarrow> bool" where
  "hex_digest sha \<longleftrightarrow> (\<forall>s. length (sha s) = 64 \<and> list_all (\<lambda>c. hex_val c \<noteq> None) (sha s))"

text \<open>The text a row's hash is the digest of.\<close>

definition hashed_text :: "audit_log \<Rightarrow> string" where
  "hashed_text row = (case prev_hash row of None \<Rightarrow> [] | Some p \<Rightarrow> p) @ ''|'' @ canonical_json row"

text \<open>Two rows that record the same: every column but the chain position, JSON columns up to key
  order.\<close>

definition same_record :: "audit_log \<Rightarrow> audit_log \<Rightarrow> bool" where
  "same_record r r' \<longleftrightarrow> al_id r = al_id r' \<and> timestamp r = timestamp r' \<and> al_user_id r = al_user_id r' \<and>
     user_display_name r = user_display_name r' \<and> al_auth_source r = al_auth_source r' \<and>
     source_ip r = source_ip r' \<and> user_agent r = user_agent r' \<and> al_action r = al_action r' \<and>
     al_resource_type r = al_resource_type r' \<and> al_resource_id r = al_resource_id r' \<and>
     resource_display r = resource_display r' \<and> request_id r = request_id r' \<and>
     al_result r = al_result r' \<and> error_detail r = error_detail r' \<and>
     list_all2 same_json (json_columns r) (json_columns r')"

text \<open>Rows as the table's columns allow them.\<close>

definition proper_row :: "audit_log \<Rightarrow> bool" where
  "proper_row row \<longleftrightarrow> al_id row \<noteq> None \<and> list_all jsonable (json_columns row) \<and>
     (case timestamp row of None \<Rightarrow> False | Some d \<Rightarrow> valid_datetime d)"

lemma opt_str_eq [simp]: "opt_str x = opt_str y \<longleftrightarrow> x = y"
  by (cases x; cases y) auto

lemma sort_keys_simple [simp]: "sort_keys (opt_str x) = opt_str x"
  by (cases x) auto

lemma dict_same_values:
  assumes "same_json (PyDict kvs) (PyDict kvs')" "distinct (map fst kvs)" "distinct (map fst kvs')"
  shows "map_option sort_keys (map_of kvs k) = map_option sort_keys (map_of kvs' k)"
proof -
  let ?s = "\<lambda>kvs. map (\<lambda>(k, v). (k, sort_keys v)) kvs"
  have "sort_key fst (?s kvs) = sort_key fst (?s kvs')"
    using assms(1) by (simp add: same_json_def)
  then have "set (?s kvs) = set (?s kvs')" using set_sort by metis
  moreover have "distinct (map fst (?s kvs))" "distinct (map fst (?s kvs'))"
    using assms(2,3) by (simp_all add: comp_def case_prod_beta')
  ultimately have "map_of (?s kvs) = map_of (?s kvs')" by (simp add: map_of_inject_set)
  then have "map_of (?s kvs) k = map_of (?s kvs') k" by simp
  then show ?thesis by (simp add: map_of_map)
qed

lemma canonical_json_injective:
  assumes "proper_row r" "proper_row r'" "canonical_json r = canonical_json r'"
  shows "same_record r r'"
proof -
  have d: "distinct (map fst (audit_payload r))" for r by (simp add: audit_payload_def)
  have o: "jsonable (opt_str x)" for x by (cases x) auto
  have "jsonable (PyDict (audit_payload r))" "jsonable (PyDict (audit_payload r'))"
    using assms(1,2) d by (simp_all add: audit_payload_def proper_row_def json_columns_def o)
  then have "same_json (PyDict (audit_payload r)) (PyDict (audit_payload r'))"
    using canonical_dump_injective assms(3) by (simp add: canonical_json_def)
  from dict_same_values [OF this d d]
  have v: "\<And>k. map_option sort_keys (map_of (audit_payload r) k) =
      map_option sort_keys (map_of (audit_payload r') k)" .
  show ?thesis
    using assms(1,2) v [of "''id''"] v [of "''timestamp''"] v [of "''user_id''"]
      v [of "''user_display_name''"] v [of "''auth_source''"] v [of "''source_ip''"]
      v [of "''user_agent''"] v [of "''action''"] v [of "''resource_type''"]
      v [of "''resource_id''"] v [of "''resource_display''"] v [of "''old_value''"]
      v [of "''new_value''"] v [of "''changed_fields''"] v [of "''request_id''"]
      v [of "''result''"] v [of "''error_detail''"]
    by (auto simp: audit_payload_def same_record_def proper_row_def json_columns_def same_json_def
        split: option.splits dest: isoformat_inj)
qed

lemma no_bar: "hex_digest sha \<Longrightarrow> CHR ''|'' \<notin> set (sha s)" "hex_digest sha \<Longrightarrow> sha s \<noteq> []"
proof -
  assume "hex_digest sha"
  then have h: "length (sha s) = 64" "\<forall>c \<in> set (sha s). hex_val c \<noteq> None"
    by (auto simp: hex_digest_def list_all_iff)
  have "hex_val (CHR ''|'') = None" by (simp add: hex_val_def)
  with h show "CHR ''|'' \<notin> set (sha s)" "sha s \<noteq> []" by auto
qed

lemma split_at_bar: "CHR ''|'' \<notin> set p \<Longrightarrow> CHR ''|'' \<notin> set q \<Longrightarrow>
  p @ ''|'' @ s = q @ ''|'' @ t \<Longrightarrow> p = q \<and> s = t"
  by (induction p arbitrary: q) (auto simp: append_eq_Cons_conv Cons_eq_append_conv split: list.splits)

text \<open>A hash a chain can end in.\<close>

definition chain_hash :: "(string \<Rightarrow> string) \<Rightarrow> string option \<Rightarrow> bool" where
  "chain_hash sha h \<longleftrightarrow> h = None \<or> (\<exists>s. h = Some (sha s))"

lemma clean_snoc:
  assumes "chain_breaks sha None (xs @ [x]) = []"
  shows "chain_breaks sha None xs = []" "prev_hash x = end_hash None xs"
    "row_hash x = Some (sha (hashed_text x))"
  using assms by (auto simp: chain_breaks_append row_breaks_def hash_row_def hashed_text_def Let_def
      split: if_splits)

lemma clean_end_hash: "chain_breaks sha None xs = [] \<Longrightarrow> chain_hash sha (end_hash None xs)"
  by (cases xs rule: rev_cases) (auto simp: end_hash_def chain_hash_def dest: clean_snoc)

lemma same_hashed_text:
  assumes "hex_digest sha" "chain_hash sha (prev_hash r)" "chain_hash sha (prev_hash r')"
    "hashed_text r = hashed_text r'"
  shows "prev_hash r = prev_hash r' \<and> canonical_json r = canonical_json r'"
proof -
  let ?p = "\<lambda>r. case prev_hash r of None \<Rightarrow> [] | Some p \<Rightarrow> p"
  have "CHR ''|'' \<notin> set (?p r)" "CHR ''|'' \<notin> set (?p r')"
    using assms(2,3) no_bar(1) [OF assms(1)] by (auto simp: chain_hash_def)
  then have "?p r = ?p r' \<and> canonical_json r = canonical_json r'"
    by (rule split_at_bar) (use assms(4) in \<open>simp add: hashed_text_def\<close>)
  then show ?thesis using assms(2,3) no_bar(2) [OF assms(1)] no_bar(2) [OF assms(1), symmetric]
    by (auto simp: chain_hash_def split: option.splits)
qed

definition collision_between :: "(string \<Rightarrow> string) \<Rightarrow> audit_log list \<Rightarrow> audit_log list \<Rightarrow> bool" where
  "collision_between sha xs ys \<longleftrightarrow>
     list_ex (\<lambda>x. list_ex (\<lambda>y. hashed_text x \<noteq> hashed_text y \<and>
       sha (hashed_text x) = sha (hashed_text y)) ys) xs"

lemma collision_append:
  "collision_between sha xs ys \<Longrightarrow> collision_between sha (xs @ xs') (ys @ ys')"
  by (auto simp: collision_between_def list_ex_iff)

lemma same_end_same_chain:
  assumes "hex_digest sha" "chain_breaks sha None xs = []" "chain_breaks sha None ys = []"
    "list_all proper_row xs" "list_all proper_row ys" "end_hash None xs = end_hash None ys"
  shows "list_all2 same_record xs ys \<or> collision_between sha xs ys"
  using assms(2-)
proof (induction xs arbitrary: ys rule: rev_induct)
  case Nil
  then show ?case by (cases ys rule: rev_cases) (auto simp: end_hash_def dest: clean_snoc)
next
  case (snoc x xs)
  note cx = clean_snoc [OF snoc.prems(1)]
  have "ys \<noteq> []" using snoc.prems(5) cx(3) by (auto simp: end_hash_def)
  then obtain ys' y where ys: "ys = ys' @ [y]" by (cases ys rule: rev_cases) auto
  note cy = clean_snoc [OF snoc.prems(2) [unfolded ys]]
  have eq: "sha (hashed_text x) = sha (hashed_text y)"
    using snoc.prems(5) cx(3) cy(3) by (simp add: end_hash_def ys)
  show ?case
  proof (cases "hashed_text x = hashed_text y")
    case True
    then have same: "prev_hash x = prev_hash y" "canonical_json x = canonical_json y"
      using same_hashed_text [OF assms(1), of x y] clean_end_hash [OF cx(1)] clean_end_hash [OF cy(1)]
        cx(2) cy(2) by simp_all
    then have "same_record x y" using canonical_json_injective snoc.prems(3,4) ys by simp
    moreover have "list_all2 same_record xs ys' \<or> collision_between sha xs ys'"
      using snoc.IH [OF cx(1) cy(1)] snoc.prems(3,4) ys same(1) cx(2) cy(2) by simp
    ultimately show ?thesis using collision_append ys by (auto simp: list_all2_appendI)
  next
    case False
    with eq show ?thesis by (auto simp: collision_between_def ys)
  qed
qed

text \<open>C1: The chain is tamper-evident. If two versions of the table both pass a full verification
  and end in the same hash, they hold the same records in the same order (every hashed column
  equal, JSON columns up to key order), or two of their rows exhibit two different texts with the
  same SHA-256 digest. Rewriting, inserting, removing or reordering rows without changing the
  last hash is therefore as hard as finding a collision.\<close>

theorem verified_log_tamper_evident:
  assumes "hex_digest sha" "sequenced db" "sequenced db'"
    "list_all proper_row (rows db)" "list_all proper_row (rows db')"
    "ok (verify_chain sha db None None chunk_size newest)"
    "ok (verify_chain sha db' None None chunk_size' newest')"
    "last_hash (verify_chain sha db None None chunk_size newest) =
     last_hash (verify_chain sha db' None None chunk_size' newest')"
  shows "list_all2 same_record (chain db) (chain db') \<or> collision_between sha (chain db) (chain db')"
proof -
  have p: "list_all proper_row (chain db)" "list_all proper_row (chain db')"
    using assms(4,5) by (simp_all add: list_all_iff in_seq_order_def)
  show ?thesis
    using assms(6-8) same_end_same_chain [OF assms(1) _ _ p]
    unfolding verify_chain_whole [OF assms(2)] verify_chain_whole [OF assms(3)]
    by (simp add: walk_result_def Let_def)
qed

section \<open>Checkpoints\<close>

lemma filter_upto_last:
  assumes "sorted_wrt (<) (map seq ps)" "0 < k" "k \<le> length ps"
  shows "filter (\<lambda>r. seq r \<le> seq (last (take k ps))) ps = take k ps"
proof -
  let ?x = "last (take k ps)"
  have nd: "sorted_wrt (<) (map seq (take k ps) @ map seq (drop k ps))"
    using assms(1) by (metis append_take_drop_id map_append)
  have x: "?x \<in> set (take k ps)" using assms(2,3) by (intro last_in_set) auto
  have "\<forall>r \<in> set (take k ps). seq r \<le> seq ?x"
  proof -
    have "sorted (map seq (take k ps))" using nd by (auto simp: sorted_wrt_append strict_sorted_iff)
    then show ?thesis by (cases "take k ps" rule: rev_cases) (auto simp: sorted_append)
  qed
  moreover have "\<forall>r \<in> set (drop k ps). \<not> seq r \<le> seq ?x"
    using nd x by (auto simp: sorted_wrt_append not_le)
  ultimately have "filter (\<lambda>r. seq r \<le> seq ?x) (take k ps @ drop k ps) = take k ps"
    unfolding filter_append by (auto simp: filter_empty_conv)
  then show ?thesis by simp
qed

definition truncate_after :: "int \<Rightarrow> audit_db \<Rightarrow> audit_db" where
  "truncate_after s db = db\<lparr>rows := filter (\<lambda>r. seq r \<le> s) (rows db)\<rparr>"

lemma truncate_sequenced: "sequenced db \<Longrightarrow> sequenced (truncate_after s db)"
  by (auto simp: sequenced_def truncate_after_def list_all_iff distinct_map intro: inj_on_subset)

lemma chain_split_at:
  assumes "sequenced db" "r \<in> set (rows db)"
  shows "chain db = chain (truncate_after (seq r) db) @ pending (rows db) (seq r)"
    and "end_hash None (chain (truncate_after (seq r) db)) = row_hash r"
proof -
  have "r \<in> set (chain db)" using assms(2) by (simp add: in_seq_order_def)
  then obtain i where i: "i < length (chain db)" "chain db ! i = r" by (metis in_set_conv_nth)
  have l: "last (take (Suc i) (chain db)) = r" using i by (simp add: take_Suc_conv_app_nth)
  have srt: "sorted_wrt (<) (map seq (chain db))"
    using pending_sorted assms(1) pending_all by (metis sequenced_def)
  have t: "chain (truncate_after (seq r) db) = take (Suc i) (chain db)"
    using filter_upto_last [OF srt, of "Suc i"] i(1) l
    by (simp add: truncate_after_def in_seq_order_def filter_sort)
  moreover have "pending (rows db) (seq r) = drop (Suc i) (chain db)"
    using pending_after_page [of "rows db" "Suc i" 0] assms(1) pending_all [OF assms(1)] i(1) l
    by (simp add: sequenced_def)
  ultimately show "chain db = chain (truncate_after (seq r) db) @ pending (rows db) (seq r)" by simp
  show "end_hash None (chain (truncate_after (seq r) db)) = row_hash r"
    using t l i(1) by (auto simp: end_hash_def)
qed

lemma checkpoint_row:
  "checkpoint_still_valid db s h \<Longrightarrow> \<exists>r \<in> set (rows db). seq r = s \<and> row_hash r = Some h"
  by (auto simp: checkpoint_still_valid_def split: list.splits dest!: filter_eq_ConsD)

lemma verify_resumed:
  assumes "sequenced db"
  shows "verify_chain sha db None (Some (s, h)) chunk_size newest =
    walk_result sha (Some (s, h)) (pending (rows db) s) False"
  using assms verify_from_result [of "rows db" sha None "Some (s, h)" False chunk_size]
  by (auto simp: verify_chain_def sequenced_def Let_def split: bool.splits)

text \<open>C8: Resuming from a valid checkpoint is as good as walking the whole log. When the row the
  checkpoint names still has its hash, a full verification succeeds exactly when the rows up to
  the checkpoint verify and the walk started after the checkpoint succeeds, and the two walks
  together count every row.\<close>

theorem checkpoint_resume_equals_full_walk:
  assumes "sequenced db" "checkpoint_still_valid db s h"
  shows "(ok (verify_chain sha db None None c n) \<longleftrightarrow>
      ok (verify_chain sha (truncate_after s db) None None c n) \<and>
      ok (verify_chain sha db None (Some (s, Some h)) c n)) \<and>
    rows_checked (verify_chain sha (truncate_after s db) None None c n) +
      rows_checked (verify_chain sha db None (Some (s, Some h)) c n) = length (rows db)"
proof -
  obtain r where r: "r \<in> set (rows db)" "seq r = s" "row_hash r = Some h"
    using checkpoint_row [OF assms(2)] by blast
  note sp = chain_split_at [OF assms(1) r(1), unfolded r(2,3)]
  have "length (rows db) = length (chain db)" by (simp add: in_seq_order_def)
  also have "\<dots> = length (chain (truncate_after s db)) + length (pending (rows db) s)"
    using sp(1) by (metis length_append)
  finally have l: "length (chain (truncate_after s db)) + length (pending (rows db) s) = length (rows db)" ..
  have "chain_breaks sha None (chain db) = chain_breaks sha None (chain (truncate_after s db)) @
      chain_breaks sha (Some h) (pending (rows db) s)"
    using sp chain_breaks_append by metis
  then show ?thesis
    unfolding verify_chain_whole [OF assms(1)] verify_chain_whole [OF truncate_sequenced [OF assms(1)]]
      verify_resumed [OF assms(1)]
    using l by (simp add: walk_result_def Let_def)
qed

text \<open>What the hash chain alone cannot see, and what the checkpoint adds. Dropping every row
  after some row leaves a log that still verifies, but a checkpoint taken on one of the dropped rows
  is no longer valid, so the next run walks from the start instead of trusting it.\<close>

theorem truncation_needs_checkpoint:
  assumes "sequenced db" "ok (verify_chain sha db None None c n)"
    "r \<in> set (rows db)" "checkpoint_still_valid db s h" "seq r < s"
  shows "ok (verify_chain sha (truncate_after (seq r) db) None None c n) \<and>
    \<not> checkpoint_still_valid (truncate_after (seq r) db) s h"
proof -
  note sp = chain_split_at [OF assms(1,3)]
  have "chain_breaks sha None (chain db) = chain_breaks sha None (chain (truncate_after (seq r) db)) @
      chain_breaks sha (row_hash r) (pending (rows db) (seq r))"
    using sp chain_breaks_append by metis
  then have "ok (verify_chain sha (truncate_after (seq r) db) None None c n)"
    using assms(2)
    unfolding verify_chain_whole [OF assms(1)] verify_chain_whole [OF truncate_sequenced [OF assms(1)]]
    by (simp add: walk_result_def Let_def)
  moreover have "\<not> checkpoint_still_valid (truncate_after (seq r) db) s h"
    using assms(5) by (auto simp: checkpoint_still_valid_def truncate_after_def filter_empty_conv
        split: list.splits dest: filter_eq_ConsD)
  ultimately show ?thesis by blast
qed
section \<open>The rows a flush writes\<close>

definition timed :: "audit_log \<Rightarrow> bool" where
  "timed row \<longleftrightarrow> (case timestamp row of None \<Rightarrow> True | Some d \<Rightarrow> valid_datetime d)"

lemma materialise_proper:
  assumes "materialise now rid u row = Some r" "flushable row" "timed row" "valid_datetime now"
  shows "proper_row r"
proof -
  have n: "normalise_jsonb_value v = Some (jsonb_form v)" and j: "jsonable (jsonb_form v)"
    if "v \<in> set (json_columns row)" for v
    using that assms(2) jsonb_form_normal normalise_reloaded by (auto simp: flushable_def list_all_iff)
  have "json_columns r = map jsonb_form (json_columns row)"
    "al_id r = or_else (al_id row) u" "timestamp r = or_else (timestamp row) now"
    using assms(1) n by (auto simp: materialise_def json_columns_def Let_def)
  then show ?thesis using j assms(3,4)
    by (auto simp: proper_row_def timed_def or_else_def list_all_iff split: option.splits)
qed

lemma materialise_all_proper:
  "materialise_all now rid fresh rws = Some rs \<Longrightarrow> list_all flushable rws \<Longrightarrow> list_all timed rws \<Longrightarrow>
   valid_datetime now \<Longrightarrow> list_all proper_row rs \<and> length rs = length rws"
proof (induction now rid fresh rws arbitrary: rs rule: materialise_all.induct)
  case (3 now rid u us row rws)
  then show ?case using materialise_proper [of now rid u row] by (auto split: option.splits)
qed auto

lemma chain_rows_proper: "list_all proper_row rws \<Longrightarrow> list_all proper_row (chain_rows sha prev rws)"
  by (induction rws arbitrary: prev) (auto simp: Let_def proper_row_def json_columns_def)

lemma insert_rows_proper:
  "list_all proper_row rws \<Longrightarrow> list_all proper_row (rows db) \<Longrightarrow> list_all proper_row (rows (insert_rows rws db))"
  by (induction rws arbitrary: db) (auto simp: proper_row_def json_columns_def)

lemma insert_rows_seqs:
  "map seq (rows (insert_rows rws db)) = map seq (rows db) @ map (\<lambda>i. next_seq db + int i) [0..<length rws]"
  by (induction rws arbitrary: db)
    (auto simp: upt_conv_Cons map_Suc_upt [symmetric] comp_def simp del: upt_Suc)

lemma flush_rows:
  assumes "flush sha now bound fresh new db = Some db'" "list_all flushable new" "new \<noteq> []"
    "list_all timed new" "valid_datetime now" "list_all proper_row (rows db)"
  shows "list_all proper_row (rows db') \<and>
    map seq (rows db') = map seq (rows db) @ map (\<lambda>i. next_seq db + int i) [0..<length new]"
proof -
  have u: "list_all unhashed new" using assms(2) by (simp add: list_all_iff flushable_def)
  then have f: "filter unhashed new = new" by (simp add: list_all_iff)
  obtain rs where rs: "materialise_all now (current_request_id bound) fresh new = Some rs"
    using assms(1,3) f by (auto simp: flush_def compute_audit_hashes_def)
  note p = materialise_all_proper [OF rs assms(2,4,5)]
  have "db' = insert_rows (chain_rows sha (last_hash_of (rows db)) rs) db"
    using assms(1,3) f rs p u by (simp add: flush_def compute_audit_hashes_def Let_def put_back_all)
  then show ?thesis using insert_rows_proper chain_rows_proper p assms(6) by (simp add: insert_rows_seqs)
qed

section \<open>A concrete log\<close>

text \<open>A short checksum with the format of a digest, to run the chain on.\<close>

definition checksum_hex :: "string \<Rightarrow> string" where
  "checksum_hex s = (let n = fold (\<lambda>c n. (31 * n + of_char c) mod 65521) s (7 :: nat) in
     map (\<lambda>i. hex_digit ((n div (i + 1)) mod 16)) [0..<64])"

lemma checksum_hex_digest: "hex_digest checksum_hex"
  by (auto simp: hex_digest_def checksum_hex_def Let_def list_all_iff)

definition demo_now :: py_datetime where
  "demo_now = \<lparr>year = 2025, month = 1, day = 2, hour = 3, minute = 4, second = 5, microsecond = 0\<rparr>"

definition demo_rows :: "audit_log list" where
  "demo_rows = [(new_audit_log ''Ada'' ''create'' ''subnet'' ''s1'' ''10.0.0.0/24'')
       \<lparr>new_value := PyDict [(''vlan'', PyInt 7), (''cidr'', PyStr ''10.0.0.0/24'')]\<rparr>,
     new_audit_log ''Ada'' ''delete'' ''subnet'' ''s1'' ''10.0.0.0/24'']"

definition empty_db :: audit_db where "empty_db = \<lparr>rows = [], next_seq = 1\<rparr>"

definition demo_log :: audit_db where
  "demo_log = the (flush checksum_hex demo_now None [''u1'', ''u2''] demo_rows empty_db)"

lemma demo_flushable: "list_all flushable demo_rows"
  by (simp add: demo_rows_def flushable_def unhashed_def json_columns_def new_audit_log_def)

lemma demo_flush: "flush checksum_hex demo_now None [''u1'', ''u2''] demo_rows empty_db = Some demo_log"
proof -
  have "chain_ok checksum_hex empty_db"
    using audit_reachable_ok [OF audit_reachable.empty_log] by (simp add: empty_db_def)
  from flush_ok [OF this demo_flushable, of "[''u1'', ''u2'']" demo_now None] show ?thesis
    by (auto simp: demo_rows_def demo_log_def)
qed

lemma demo_reachable: "audit_reachable checksum_hex demo_log"
  using audit_reachable.commit [OF audit_reachable.empty_log demo_flushable,
      where now = demo_now and bound = None and fresh = "[''u1'', ''u2'']"] demo_flush
  by (simp add: empty_db_def demo_rows_def)

lemma demo_sequenced: "sequenced demo_log"
  using demo_reachable audit_reachable_ok chain_ok_sequenced by blast

lemma demo_clean: "ok (verify_chain checksum_hex demo_log None None c n)"
  using audit_reachable_ok [OF demo_reachable] verify_chain_whole [OF demo_sequenced]
    chain_ok_order [OF audit_reachable_ok [OF demo_reachable]]
  by (simp add: walk_result_def chain_ok_def Let_def)

lemma demo_shape: "list_all proper_row (rows demo_log) \<and> map seq (rows demo_log) = [1, 2]"
proof -
  have "list_all timed demo_rows" "demo_rows \<noteq> []" "length demo_rows = 2"
    by (simp_all add: demo_rows_def timed_def new_audit_log_def)
  moreover have "valid_datetime demo_now" by (simp add: demo_now_def valid_datetime_def)
  ultimately show ?thesis using flush_rows [OF demo_flush demo_flushable]
    by (simp add: empty_db_def upt_conv_Cons numeral_2_eq_2)
qed

theorem verify_chain_whole_log_witness:
  "sequenced demo_log \<and>
   verify_chain checksum_hex demo_log None None 1 False = walk_result checksum_hex None (chain demo_log) False"
  using demo_sequenced verify_chain_whole_log [OF demo_sequenced] by blast

theorem verify_chain_newest_window_witness:
  "sequenced demo_log \<and>
   (let v = verify_chain checksum_hex demo_log (Some 1) None 5000 True in
    rows_checked v = 1 \<and> partial v)"
proof -
  have "length (rows demo_log) = 2" using arg_cong [OF conjunct2 [OF demo_shape], of length] by simp
  then show ?thesis
    using demo_sequenced verify_chain_newest_window [OF demo_sequenced, of 1 checksum_hex 5000]
    by (simp add: Let_def)
qed

theorem honest_log_verifies_witness:
  "audit_reachable checksum_hex demo_log \<and> jsonb_faithful sort_keys \<and>
   ok (verify_chain checksum_hex (read_back_db sort_keys demo_log) None None 5000 False)"
proof -
  have "jsonb_faithful sort_keys" by (simp add: jsonb_faithful_def same_json_def sort_keys_idem)
  with demo_reachable honest_log_verifies [OF demo_reachable this] show ?thesis by blast
qed

theorem verified_log_tamper_evident_witness:
  "hex_digest checksum_hex \<and> sequenced demo_log \<and> list_all proper_row (rows demo_log) \<and>
   ok (verify_chain checksum_hex demo_log None None 5000 False) \<and>
   (list_all2 same_record (chain demo_log) (chain demo_log) \<or>
    collision_between checksum_hex (chain demo_log) (chain demo_log))"
  using verified_log_tamper_evident [OF checksum_hex_digest demo_sequenced demo_sequenced
      conjunct1 [OF demo_shape] conjunct1 [OF demo_shape] demo_clean demo_clean refl]
    checksum_hex_digest demo_sequenced demo_shape demo_clean by blast

lemma demo_two_rows: "\<exists>r1 r2. rows demo_log = [r1, r2] \<and> seq r1 = 1 \<and> seq r2 = 2 \<and>
  row_hash r1 \<noteq> None \<and> row_hash r2 \<noteq> None"
  using conjunct2 [OF demo_shape] audit_reachable_ok [OF demo_reachable]
  by (auto simp: map_eq_Cons_conv chain_ok_def stored_row_def)

lemma demo_checkpoint: "\<exists>h. checkpoint_still_valid demo_log 2 h"
  using demo_two_rows by (auto simp: checkpoint_still_valid_def)

theorem checkpoint_resume_equals_full_walk_witness:
  "\<exists>h. checkpoint_still_valid demo_log 2 h \<and>
     ok (verify_chain checksum_hex demo_log None (Some (2, Some h)) 5000 False)"
  using demo_checkpoint demo_clean
    checkpoint_resume_equals_full_walk [OF demo_sequenced, of 2 _ checksum_hex 5000 False] by blast

theorem truncation_needs_checkpoint_witness:
  "\<exists>h. checkpoint_still_valid demo_log 2 h \<and>
     ok (verify_chain checksum_hex (truncate_after 1 demo_log) None None 5000 False) \<and>
     \<not> checkpoint_still_valid (truncate_after 1 demo_log) 2 h"
proof -
  obtain h where h: "checkpoint_still_valid demo_log 2 h" using demo_checkpoint by blast
  obtain r where r: "r \<in> set (rows demo_log)" "seq r = 1" using demo_two_rows by fastforce
  show ?thesis
    using truncation_needs_checkpoint [OF demo_sequenced demo_clean r(1) h] h r(2) by auto
qed

end
