(* ===== verification/Lockout.thy ===== *)
theory Lockout
  imports Accounts
begin

text \<open>
  \<^verbatim>\<open>backend/app/services/account_lockout.py\<close>: the failed-login counter and lock of an account,
  and the budget of wrong second-factor answers. Each function of the module mutates the user row;
  here it returns the row, with the function's own result beside it. \<open>now\<close> is always given.
\<close>

section \<open>Policy and operations\<close>

definition MFA_FAIL_MAX :: int where "MFA_FAIL_MAX = 5"

definition MFA_FAIL_WINDOW_MINUTES :: int where "MFA_FAIL_WINDOW_MINUTES = 15"

record lockout_policy =
  threshold :: int
  duration_minutes :: int
  reset_minutes :: int

definition enabled :: "lockout_policy \<Rightarrow> bool" where
  "enabled p \<longleftrightarrow> threshold p > 0"

text \<open>The columns of \<open>PlatformSettings\<close> and their defaults.\<close>

record platform_settings =
  lockout_threshold :: int
  lockout_duration_minutes :: int
  lockout_reset_minutes :: int

definition platform_setting_default :: platform_settings where
  "platform_setting_default = \<lparr>lockout_threshold = 0, lockout_duration_minutes = 15,
     lockout_reset_minutes = 15\<rparr>"

definition from_row :: "platform_settings option \<Rightarrow> lockout_policy" where
  "from_row row = (case row of
     None \<Rightarrow> \<lparr>threshold = lockout_threshold platform_setting_default,
        duration_minutes = lockout_duration_minutes platform_setting_default,
        reset_minutes = lockout_reset_minutes platform_setting_default\<rparr>
   | Some r \<Rightarrow> \<lparr>threshold = lockout_threshold r, duration_minutes = lockout_duration_minutes r,
        reset_minutes = lockout_reset_minutes r\<rparr>)"

definition is_locked :: "user \<Rightarrow> datetime \<Rightarrow> bool" where
  "is_locked u now = (case failed_login_locked_until u of None \<Rightarrow> False | Some t \<Rightarrow> now < t)"

definition register_failure :: "user \<Rightarrow> lockout_policy \<Rightarrow> datetime \<Rightarrow> user \<times> bool" where
  "register_failure u p now =
     (if \<not> enabled p then (u, False)
      else let u1 = (case last_failed_login_at u of
               None \<Rightarrow> u
             | Some t \<Rightarrow> (if minutes (reset_minutes p) < now - t then u\<lparr>failed_login_count := 0\<rparr> else u));
               u2 = u1\<lparr>failed_login_count := failed_login_count u1 + 1, last_failed_login_at := Some now\<rparr>
           in if threshold p \<le> failed_login_count u2
              then (u2\<lparr>failed_login_locked_until := Some (now + minutes (duration_minutes p))\<rparr>, True)
              else (u2, False))"

definition register_success :: "user \<Rightarrow> user" where
  "register_success u =
     (let u1 = (if failed_login_count u \<noteq> 0 \<or> failed_login_locked_until u \<noteq> None
          then u\<lparr>failed_login_count := 0, failed_login_locked_until := None,
                 last_failed_login_at := None\<rparr> else u)
      in if mfa_failed_count u1 \<noteq> 0 \<or> mfa_last_failed_at u1 \<noteq> None
         then u1\<lparr>mfa_failed_count := 0, mfa_last_failed_at := None\<rparr> else u1)"

definition mfa_window_open :: "user \<Rightarrow> datetime \<Rightarrow> bool" where
  "mfa_window_open u now = (case mfa_last_failed_at u of None \<Rightarrow> False
     | Some t \<Rightarrow> now - t \<le> minutes MFA_FAIL_WINDOW_MINUTES)"

definition mfa_attempts_exhausted :: "user \<Rightarrow> datetime \<Rightarrow> bool" where
  "mfa_attempts_exhausted u now \<longleftrightarrow> MFA_FAIL_MAX \<le> mfa_failed_count u \<and> mfa_window_open u now"

text \<open>\<open>int(d.total_seconds())\<close> rounds towards zero.\<close>

definition whole_seconds :: "timedelta \<Rightarrow> int" where
  "whole_seconds d = (if 0 \<le> d then d div 1000000 else - ((- d) div 1000000))"

definition mfa_retry_after_seconds :: "user \<Rightarrow> datetime \<Rightarrow> int" where
  "mfa_retry_after_seconds u now = (case mfa_last_failed_at u of None \<Rightarrow> 0
     | Some t \<Rightarrow> max 1 (whole_seconds (t + minutes MFA_FAIL_WINDOW_MINUTES - now) + 1))"

definition register_mfa_failure :: "user \<Rightarrow> datetime \<Rightarrow> user \<times> bool" where
  "register_mfa_failure u now =
     (let u1 = (if \<not> mfa_window_open u now then u\<lparr>mfa_failed_count := 0\<rparr> else u);
          u2 = u1\<lparr>mfa_failed_count := mfa_failed_count u1 + 1, mfa_last_failed_at := Some now\<rparr>
      in (u2, mfa_failed_count u2 = MFA_FAIL_MAX))"

definition unlock :: "user \<Rightarrow> user \<times> bool" where
  "unlock u =
     (if failed_login_count u = 0 \<and> failed_login_locked_until u = None \<and>
         last_failed_login_at u = None \<and> mfa_failed_count u = 0 \<and> mfa_last_failed_at u = None
      then (u, False)
      else (u\<lparr>failed_login_count := 0, failed_login_locked_until := None,
              last_failed_login_at := None, mfa_failed_count := 0, mfa_last_failed_at := None\<rparr>, True))"

section \<open>What the counter counts\<close>

text \<open>A history of failures, newest first, and the failures of it that follow each other within the
  reset window up to the newest.\<close>

fun fail_history :: "lockout_policy \<Rightarrow> datetime list \<Rightarrow> user \<Rightarrow> user \<times> bool" where
  "fail_history p [] u = (u, False)"
| "fail_history p (t # ts) u = register_failure (fst (fail_history p ts u)) p t"

fun trailing_run :: "timedelta \<Rightarrow> datetime list \<Rightarrow> int" where
  "trailing_run w [] = 0"
| "trailing_run w [t] = 1"
| "trailing_run w (t # t' # ts) = (if w < t - t' then 1 else trailing_run w (t' # ts) + 1)"

definition fresh_counter :: "user \<Rightarrow> bool" where
  "fresh_counter u \<longleftrightarrow> failed_login_count u = 0 \<and> last_failed_login_at u = None"

lemma fail_history_state:
  assumes "enabled p" "fresh_counter u"
  shows "failed_login_count (fst (fail_history p ts u)) = trailing_run (minutes (reset_minutes p)) ts \<and>
    last_failed_login_at (fst (fail_history p ts u)) = (case ts of [] \<Rightarrow> None | t # _ \<Rightarrow> Some t)"
proof (induction ts)
  case Nil
  then show ?case using assms(2) by (simp add: fresh_counter_def)
next
  case (Cons t ts)
  then show ?case using assms(1)
    by (cases ts) (auto simp: register_failure_def Let_def split: option.splits)
qed

lemma lockout_run:
  assumes "enabled p" "fresh_counter u"
  shows "failed_login_count (fst (fail_history p (t # ts) u)) = trailing_run (minutes (reset_minutes p)) (t # ts)"
    and "snd (fail_history p (t # ts) u) \<longleftrightarrow>
      threshold p \<le> failed_login_count (fst (fail_history p (t # ts) u))"
    and "snd (fail_history p (t # ts) u) \<Longrightarrow>
      is_locked (fst (fail_history p (t # ts) u)) now \<longleftrightarrow> now < t + minutes (duration_minutes p)"
proof -
  show "failed_login_count (fst (fail_history p (t # ts) u)) = trailing_run (minutes (reset_minutes p)) (t # ts)"
    using fail_history_state [OF assms, of "t # ts"] by blast
qed (use assms(1) in \<open>auto simp: register_failure_def Let_def is_locked_def split: option.splits if_splits\<close>)


definition strict_policy :: lockout_policy where
  "strict_policy = from_row (Some \<lparr>lockout_threshold = 5, lockout_duration_minutes = 15,
     lockout_reset_minutes = 15\<rparr>)"

definition every_six_minutes :: "datetime list" where
  "every_six_minutes = [minutes 24, minutes 18, minutes 12, minutes 6, 0]"


text \<open>Slow guessing does lock the account. With a threshold of five and the shipped windows of
  fifteen minutes, one failure every six minutes reaches the lock at the fifth failure.\<close>

theorem slow_failures_lock:
  "snd (fail_history strict_policy every_six_minutes (plain_user ''u'')) \<and>
   is_locked (fst (fail_history strict_policy every_six_minutes (plain_user ''u''))) (minutes 25)"
proof -
  have e: "enabled strict_policy" "fresh_counter (plain_user ''u'')" by code_simp+
  have "trailing_run (minutes (reset_minutes strict_policy)) every_six_minutes = 5"
    "threshold strict_policy = 5" "minutes 25 < minutes 24 + minutes (duration_minutes strict_policy)"
    by code_simp+
  then show ?thesis
    using lockout_run [OF e, of "minutes 24" "[minutes 18, minutes 12, minutes 6, 0]"]
    unfolding every_six_minutes_def by simp
qed

section \<open>The second-factor budget\<close>

text \<open>The wrong answers that are checked: an attempt while the budget is exhausted is refused before
  the code is looked at.\<close>

fun mfa_run :: "user \<Rightarrow> datetime list \<Rightarrow> user \<times> datetime list" where
  "mfa_run u [] = (u, [])"
| "mfa_run u (t # ts) =
     (if mfa_attempts_exhausted u t then mfa_run u ts
      else let (u', checked) = mfa_run (fst (register_mfa_failure u t)) ts in (u', t # checked))"

text \<open>The history of checked answers, newest first, that the row's two columns summarise: the newest
  \<open>mfa_failed_count\<close> answers, and the one before them is out of the window.\<close>

definition mfa_summary :: "user \<Rightarrow> datetime list \<Rightarrow> bool" where
  "mfa_summary u hist \<longleftrightarrow>
     mfa_last_failed_at u = (case hist of [] \<Rightarrow> None | t # _ \<Rightarrow> Some t) \<and>
     sorted_wrt (\<ge>) hist \<and> 0 \<le> mfa_failed_count u \<and> mfa_failed_count u \<le> MFA_FAIL_MAX \<and>
     nat (mfa_failed_count u) \<le> length hist \<and> (hist \<noteq> [] \<longrightarrow> 0 < mfa_failed_count u) \<and>
     (nat (mfa_failed_count u) < length hist \<longrightarrow>
        hist ! nat (mfa_failed_count u) + minutes 15 < hist ! (nat (mfa_failed_count u) - 1))"

definition spaced :: "datetime list \<Rightarrow> bool" where
  "spaced hist \<longleftrightarrow> (\<forall>i j. j = i + 5 \<longrightarrow> j < length hist \<longrightarrow> hist ! j + minutes 15 < hist ! i)"

lemma mfa_failure_summary:
  assumes "mfa_summary u hist" "\<not> mfa_attempts_exhausted u t" "\<forall>x \<in> set hist. x \<le> t"
  shows "mfa_summary (fst (register_mfa_failure u t)) (t # hist) \<and>
    (4 < length hist \<longrightarrow> hist ! 4 + minutes 15 < t)"
proof (cases "mfa_window_open u t")
  case False
  have gap: "hist \<noteq> [] \<Longrightarrow> hist ! 0 + minutes 15 < t"
    using False assms(1) by (cases hist)
      (auto simp: mfa_window_open_def mfa_summary_def MFA_FAIL_WINDOW_MINUTES_def)
  have "4 < length hist \<Longrightarrow> hist ! 4 \<le> hist ! 0"
    using assms(1) sorted_wrt_nth_less [of "(\<ge>)" hist 0 4] by (auto simp: mfa_summary_def)
  then have far: "4 < length hist \<longrightarrow> hist ! 4 + minutes 15 < t" using gap by fastforce
  show ?thesis using False assms(1,3) gap far
    by (cases hist) (auto simp: register_mfa_failure_def mfa_summary_def Let_def MFA_FAIL_MAX_def)
next
  case True
  then have c: "mfa_failed_count u < 5" "hist \<noteq> []" using assms(1,2)
    by (auto simp: mfa_attempts_exhausted_def MFA_FAIL_MAX_def mfa_window_open_def mfa_summary_def)
  let ?k = "nat (mfa_failed_count u)"
  have k: "0 < ?k" "?k \<le> 4" using c assms(1) by (auto simp: mfa_summary_def)
  have le: "hist ! 4 \<le> hist ! ?k" if "4 < length hist"
    using that k assms(1) sorted_wrt_nth_less [of "(\<ge>)" hist ?k 4]
    by (cases "?k = 4") (auto simp: mfa_summary_def)
  have "?k < length hist \<Longrightarrow> hist ! ?k + minutes 15 < hist ! (?k - 1)"
    using assms(1) by (simp add: mfa_summary_def)
  moreover have "?k \<le> length hist" using assms(1) by (simp add: mfa_summary_def)
  then have "hist ! (?k - 1) \<le> t" using assms(3) k by (intro bspec [OF assms(3)] nth_mem) auto
  ultimately have far: "4 < length hist \<longrightarrow> hist ! 4 + minutes 15 < t" using le k by fastforce
  have "mfa_failed_count (fst (register_mfa_failure u t)) = mfa_failed_count u + 1"
    "mfa_last_failed_at (fst (register_mfa_failure u t)) = Some t"
    using True by (simp_all add: register_mfa_failure_def Let_def)
  moreover have "nat (mfa_failed_count u + 1) = Suc ?k" using k by simp
  ultimately show ?thesis using assms(1,3) c k far
    by (cases ?k) (auto simp: mfa_summary_def MFA_FAIL_MAX_def)
qed

lemma mfa_run_spaced:
  "mfa_summary u hist \<Longrightarrow> spaced hist \<Longrightarrow> sorted ts \<Longrightarrow> \<forall>x \<in> set hist. \<forall>t \<in> set ts. x \<le> t \<Longrightarrow>
   spaced (rev (snd (mfa_run u ts)) @ hist)"
proof (induction ts arbitrary: u hist)
  case (Cons t ts)
  show ?case
  proof (cases "mfa_attempts_exhausted u t")
    case True
    then show ?thesis using Cons by simp
  next
    case False
    note s = mfa_failure_summary [OF Cons.prems(1) False]
    have "spaced (t # hist)" unfolding spaced_def
    proof (intro allI impI)
      fix i j assume "j = i + 5" "j < length (t # hist)"
      then show "(t # hist) ! j + minutes 15 < (t # hist) ! i"
        using s Cons.prems(2,4) by (cases i) (auto simp: spaced_def add.commute)
    qed
    then have "spaced (rev (snd (mfa_run (fst (register_mfa_failure u t)) ts)) @ t # hist)"
      using Cons.IH [of "fst (register_mfa_failure u t)" "t # hist"] s Cons.prems by auto
    then show ?thesis using False by (simp add: case_prod_beta' Let_def)
  qed
qed simp

text \<open>No account has more than five wrong second-factor answers checked in any fifteen minutes.
  However the attempts are timed, among the answers that get past the budget check any six
  consecutive ones span more than the window.\<close>

theorem mfa_budget_bounds_every_window:
  assumes "mfa_failed_count u = 0" "mfa_last_failed_at u = None" "sorted ts"
    and "i + 5 < length (snd (mfa_run u ts))"
  shows "snd (mfa_run u ts) ! i + minutes MFA_FAIL_WINDOW_MINUTES < snd (mfa_run u ts) ! (i + 5)"
proof -
  let ?c = "snd (mfa_run u ts)"
  have "spaced (rev ?c)"
    using mfa_run_spaced [of u "[]" ts] assms(1-3)
    by (simp add: mfa_summary_def spaced_def MFA_FAIL_MAX_def)
  moreover have "length ?c - Suc i = length ?c - (6 + i) + 5" "length ?c - Suc i < length (rev ?c)"
    using assms(4) by auto
  ultimately have "rev ?c ! (length ?c - Suc i) + minutes 15 < rev ?c ! (length ?c - (6 + i))"
    unfolding spaced_def by blast
  then show ?thesis using assms(4) by (simp add: rev_nth MFA_FAIL_WINDOW_MINUTES_def add.commute)
qed

theorem mfa_budget_bounds_every_window_witness:
  "snd (mfa_run (plain_user ''u'') (map minutes [0, 1, 2, 3, 4, 5, 20])) = map minutes [0, 1, 2, 3, 4, 20] \<and>
   minutes 0 + minutes MFA_FAIL_WINDOW_MINUTES < minutes 20"
proof -
  have r: "snd (mfa_run (plain_user ''u'') (map minutes [0, 1, 2, 3, 4, 5, 20])) =
      map minutes [0, 1, 2, 3, 4, 20]" by code_simp
  have "sorted (map minutes [0, 1, 2, 3, 4, 5, 20])" by (simp add: minutes_def seconds_def)
  then show ?thesis
    using mfa_budget_bounds_every_window [of "plain_user ''u''" "map minutes [0, 1, 2, 3, 4, 5, 20]" 0] r
    by (simp add: plain_user_def)
qed

text \<open>The wait an exhausted account is told is enough and never long: after that many seconds the
  budget is free again, and it is between one second and one second over the window.\<close>

theorem mfa_retry_after_suffices:
  assumes "mfa_attempts_exhausted u now" "\<And>t. mfa_last_failed_at u = Some t \<Longrightarrow> t \<le> now"
  shows "\<not> mfa_attempts_exhausted u (now + seconds (mfa_retry_after_seconds u now)) \<and>
    1 \<le> mfa_retry_after_seconds u now \<and>
    mfa_retry_after_seconds u now \<le> MFA_FAIL_WINDOW_MINUTES * 60 + 1"
proof -
  obtain t where t: "mfa_last_failed_at u = Some t" "now - t \<le> minutes MFA_FAIL_WINDOW_MINUTES"
    using assms(1) by (auto simp: mfa_attempts_exhausted_def mfa_window_open_def split: option.splits)
  let ?left = "t + minutes MFA_FAIL_WINDOW_MINUTES - now"
  have "0 \<le> ?left" "?left \<le> 900000000" using t assms(2)
    by (auto simp: minutes_def seconds_def MFA_FAIL_WINDOW_MINUTES_def)
  then have w: "whole_seconds ?left = ?left div 1000000" "0 \<le> ?left div 1000000" "?left div 1000000 \<le> 900"
    by (auto simp: whole_seconds_def)
  have "?left < seconds (?left div 1000000 + 1)" by (simp add: seconds_def)
  then show ?thesis using t w
    by (auto simp: mfa_attempts_exhausted_def mfa_window_open_def mfa_retry_after_seconds_def
        MFA_FAIL_WINDOW_MINUTES_def)
qed

theorem mfa_retry_after_suffices_witness:
  "let u = (plain_user ''u'')\<lparr>mfa_failed_count := 5, mfa_last_failed_at := Some 0\<rparr> in
   mfa_attempts_exhausted u (minutes 10) \<and> mfa_retry_after_seconds u (minutes 10) = 301 \<and>
   \<not> mfa_attempts_exhausted u (minutes 10 + seconds 301)"
proof -
  let ?u = "(plain_user ''u'')\<lparr>mfa_failed_count := 5, mfa_last_failed_at := Some 0\<rparr>"
  have e: "mfa_attempts_exhausted ?u (minutes 10)" "mfa_retry_after_seconds ?u (minutes 10) = 301"
    by code_simp+
  have "0 \<le> minutes 10" by (simp add: minutes_def seconds_def)
  then show ?thesis using mfa_retry_after_suffices [OF e(1)] e by (simp add: Let_def)
qed

text \<open>Unlocking and signing in clear every trace of failure, and the reported flag is exact:
  \<open>unlock\<close> says True precisely when it changed the row, after either operation the account is neither
  locked nor out of second-factor attempts at any time, and the next failure starts counting at one.\<close>

theorem unlock_and_success_clear:
  "(snd (unlock u) \<longleftrightarrow> fst (unlock u) \<noteq> u) \<and>
   \<not> is_locked (fst (unlock u)) now \<and> \<not> is_locked (register_success u) now \<and>
   \<not> mfa_attempts_exhausted (fst (unlock u)) now \<and> \<not> mfa_attempts_exhausted (register_success u) now \<and>
   unlock (fst (unlock u)) = (fst (unlock u), False) \<and>
   failed_login_count (fst (register_failure (fst (unlock u)) p now)) = (if enabled p then 1 else 0) \<and>
   failed_login_count (fst (register_failure (register_success u) p now)) = (if enabled p then 1 else 0)"
proof -
  have "\<not> snd (unlock u)" if same: "fst (unlock u) = u"
  proof
    assume "snd (unlock u)"
    then have eq: "u\<lparr>failed_login_count := 0, failed_login_locked_until := None,
        last_failed_login_at := None, mfa_failed_count := 0, mfa_last_failed_at := None\<rparr> = u"
      using same by (simp add: unlock_def split: if_splits)
    have "failed_login_count u = 0" "failed_login_locked_until u = None"
      "last_failed_login_at u = None" "mfa_failed_count u = 0" "mfa_last_failed_at u = None"
      using arg_cong [OF eq, of failed_login_count] arg_cong [OF eq, of failed_login_locked_until]
        arg_cong [OF eq, of last_failed_login_at] arg_cong [OF eq, of mfa_failed_count]
        arg_cong [OF eq, of mfa_last_failed_at] by simp_all
    with \<open>snd (unlock u)\<close> show False by (simp add: unlock_def)
  qed
  moreover have "\<not> snd (unlock u) \<Longrightarrow> fst (unlock u) = u" by (simp add: unlock_def split: if_splits)
  ultimately have "snd (unlock u) \<longleftrightarrow> fst (unlock u) \<noteq> u" by blast
  then show ?thesis
    by (auto simp: unlock_def register_success_def is_locked_def mfa_attempts_exhausted_def
        mfa_window_open_def register_failure_def Let_def split: option.splits)
qed

end
