(* ===== verification/Throttle.thy ===== *)
theory Throttle
  imports Prelude
begin

text \<open>
  \<^verbatim>\<open>backend/app/core/auth_throttle.py\<close>: the Redis-backed budgets of the sign-in, step-up, pairing
  and E911 surfaces. Redis is not part of the program: its commands are the fields of an argument
  of type \<open>redis_ops\<close>, and the locale \<open>redis\<close> states what their documentation promises in terms
  of a view of the store. A Lua script runs on the server as one step; what separates two client
  calls of one function (another client, the passing of time) is an argument as well.
\<close>

section \<open>Redis as the code sees it\<close>

text \<open>Counters only: every key the module uses holds an integer. \<open>cmd_set k v ex nx\<close> is
  \<open>SET k v EX ex [NX]\<close> and answers whether it was done.\<close>

record 's redis_ops =
  cmd_get :: "string \<Rightarrow> 's \<Rightarrow> int option"
  cmd_incr :: "string \<Rightarrow> 's \<Rightarrow> int \<times> 's"
  cmd_decr :: "string \<Rightarrow> 's \<Rightarrow> int \<times> 's"
  cmd_ttl :: "string \<Rightarrow> 's \<Rightarrow> int"
  cmd_pttl :: "string \<Rightarrow> 's \<Rightarrow> int"
  cmd_expire :: "string \<Rightarrow> int \<Rightarrow> 's \<Rightarrow> 's"
  cmd_exists :: "string \<Rightarrow> 's \<Rightarrow> bool"
  cmd_set :: "string \<Rightarrow> int \<Rightarrow> int \<Rightarrow> bool \<Rightarrow> 's \<Rightarrow> bool \<times> 's"

text \<open>The fate of one client call: answered, failed before the server saw it, or executed with the
  answer lost. In the last two the client raises.\<close>

datatype reply = Answered | LostBefore | LostAfter

definition rcall :: "reply \<Rightarrow> ('s \<Rightarrow> 'a \<times> 's) \<Rightarrow> 's \<Rightarrow> 'a option \<times> 's" where
  "rcall r f s = (case r of Answered \<Rightarrow> (Some (fst (f s)), snd (f s))
     | LostBefore \<Rightarrow> (None, s) | LostAfter \<Rightarrow> (None, snd (f s)))"

text \<open>A call that only reads.\<close>

definition rread :: "reply \<Rightarrow> ('s \<Rightarrow> 'a) \<Rightarrow> 's \<Rightarrow> 'a option" where
  "rread r f s = (case r of Answered \<Rightarrow> Some (f s) | _ \<Rightarrow> None)"

section \<open>Constants\<close>

definition LOGIN_RL_MAX :: int where "LOGIN_RL_MAX = 30"
definition LOGIN_RL_WINDOW_SECONDS :: int where "LOGIN_RL_WINDOW_SECONDS = 60"
definition MFA_USED_TTL_SECONDS :: int where "MFA_USED_TTL_SECONDS = 5 * 60"
definition MFA_CHALLENGE_FAIL_MAX :: int where "MFA_CHALLENGE_FAIL_MAX = 3"
definition STEPUP_FAIL_MAX :: int where "STEPUP_FAIL_MAX = 5"
definition STEPUP_FAIL_WINDOW_SECONDS :: int where "STEPUP_FAIL_WINDOW_SECONDS = 15 * 60"
definition E911_SELF_RL_MAX :: int where "E911_SELF_RL_MAX = 10"
definition E911_SELF_RL_WINDOW_SECONDS :: int where "E911_SELF_RL_WINDOW_SECONDS = 300"
definition E911_LOG_RL_WINDOW_SECONDS :: int where "E911_LOG_RL_WINDOW_SECONDS = 60"
definition LOGIN_FAIL_WINDOW_SECONDS :: int where "LOGIN_FAIL_WINDOW_SECONDS = 15 * 60"
definition LOGIN_FAIL_GLOBAL_KEY :: string where "LOGIN_FAIL_GLOBAL_KEY = ''login_fail:global''"
definition PAIRING_FAIL_MAX_PER_IP :: int where "PAIRING_FAIL_MAX_PER_IP = 10"
definition PAIRING_FAIL_MAX_GLOBAL :: int where "PAIRING_FAIL_MAX_GLOBAL = 100"
definition PAIRING_FAIL_WINDOW_SECONDS :: int where "PAIRING_FAIL_WINDOW_SECONDS = 15 * 60"

lemmas window_constants = LOGIN_RL_WINDOW_SECONDS_def MFA_USED_TTL_SECONDS_def
  STEPUP_FAIL_WINDOW_SECONDS_def E911_SELF_RL_WINDOW_SECONDS_def E911_LOG_RL_WINDOW_SECONDS_def
  LOGIN_FAIL_WINDOW_SECONDS_def PAIRING_FAIL_WINDOW_SECONDS_def

section \<open>The Lua scripts\<close>

text \<open>\<open>_INCR_WINDOW_LUA\<close>, which is also the \<open>bump\<close> function of the two claim scripts.\<close>

definition incr_window_lua :: "'s redis_ops \<Rightarrow> string \<Rightarrow> int \<Rightarrow> 's \<Rightarrow> int \<times> 's" where
  "incr_window_lua R key window s =
     (let (n, s1) = cmd_incr R key s in
      (n, if cmd_ttl R key s1 < 0 then cmd_expire R key window s1 else s1))"

definition claim_lua :: "'s redis_ops \<Rightarrow> string \<Rightarrow> string \<Rightarrow> int \<Rightarrow> int \<Rightarrow> int \<Rightarrow> 's \<Rightarrow>
    (int \<times> int) \<times> 's" where
  "claim_lua R k1 k2 window m1 m2 s =
     (let (ip, s1) = incr_window_lua R k1 window s in
      if ip > m1 then ((ip, - 1), s1)
      else let (g, s2) = incr_window_lua R k2 window s1 in
           if g > m2 then let (ip', s3) = cmd_decr R k1 s2 in ((ip', g), s3)
           else ((ip, g), s2))"

definition refund_lua :: "'s redis_ops \<Rightarrow> string \<Rightarrow> 's \<Rightarrow> int \<times> 's" where
  "refund_lua R key s = (case cmd_get R key s of
     Some v \<Rightarrow> (if v > 0 then cmd_decr R key s else (0, s)) | None \<Rightarrow> (0, s))"

text \<open>Allowed, username charged, install-wide charged, milliseconds left of the refusing window.\<close>

definition login_claim_lua :: "'s redis_ops \<Rightarrow> string \<Rightarrow> string \<Rightarrow> int \<Rightarrow> int \<Rightarrow> int \<Rightarrow> 's \<Rightarrow>
    (bool \<times> bool \<times> bool \<times> int) \<times> 's" where
  "login_claim_lua R k1 k2 window mu mg s =
     (let (n1, s1) = (if mu > 0 then incr_window_lua R k1 window s else (0, s)) in
      if mu > 0 \<and> n1 > mu then ((False, False, False, cmd_pttl R k1 s1), s1)
      else let uc = mu > 0 in
        if mg > 0 then
          let (n2, s2) = incr_window_lua R k2 window s1 in
          if n2 > mg then
            let s3 = (if uc then snd (cmd_decr R k1 s2) else s2)
            in ((False, False, False, cmd_pttl R k2 s3), s3)
          else ((True, uc, True, 0), s2)
        else ((True, uc, False, 0), s1))"

definition stepup_refund_lua :: "'s redis_ops \<Rightarrow> string \<Rightarrow> 's \<Rightarrow> int \<times> 's" where
  "stepup_refund_lua R key s = (if cmd_exists R key s then cmd_decr R key s else (0, s))"

section \<open>The throttles\<close>

definition incr_with_window :: "'s redis_ops \<Rightarrow> reply \<Rightarrow> string \<Rightarrow> int \<Rightarrow> 's \<Rightarrow> int option \<times> 's" where
  "incr_with_window R r key window = rcall r (incr_window_lua R key window)"

text \<open>An address as \<open>ipaddress\<close> parses it: IPv4, or IPv6 with its mapped IPv4 address if it has
  one, each with the texts the key is built from (the address, the /64 it sits in).\<close>

datatype ip_addr = IPv4 (v4_text: string) | IPv6 (ipv4_mapped: "string option") (net64_text: string)

definition login_throttle_key :: "(string \<Rightarrow> ip_addr option) \<Rightarrow> string \<Rightarrow> string" where
  "login_throttle_key ip_address ip = (case ip_address (py_strip ip) of
     None \<Rightarrow> ip
   | Some (IPv6 mapped net) \<Rightarrow> (case mapped of Some v4 \<Rightarrow> v4 | None \<Rightarrow> net)
   | Some (IPv4 t) \<Rightarrow> t)"

definition login_rate_limited :: "'s redis_ops \<Rightarrow> (string \<Rightarrow> ip_addr option) \<Rightarrow> reply \<Rightarrow> string option \<Rightarrow>
    's \<Rightarrow> bool \<times> 's" where
  "login_rate_limited R ip_address r ip s = (case ip of None \<Rightarrow> (False, s) | Some a \<Rightarrow>
     (if a = [] then (False, s)
      else case incr_with_window R r (''login_rl:'' @ login_throttle_key ip_address a)
               LOGIN_RL_WINDOW_SECONDS s of
          (Some count, s') \<Rightarrow> (count > LOGIN_RL_MAX, s') | (None, s') \<Rightarrow> (False, s')))"

definition retry_after_from_pttl_ms :: "int \<Rightarrow> int \<Rightarrow> int" where
  "retry_after_from_pttl_ms pttl_ms fallback =
     (if pttl_ms < 0 then fallback else max 1 (- ((- pttl_ms) div 1000)))"

record login_claim =
  allowed :: bool
  retry_after :: int
  username_charged :: bool
  global_charged :: bool

definition LOGIN_CLAIM_OPEN :: login_claim where
  "LOGIN_CLAIM_OPEN = \<lparr>allowed = True, retry_after = 0, username_charged = False, global_charged = False\<rparr>"

definition login_fail_keys :: "(string \<Rightarrow> string) \<Rightarrow> string \<Rightarrow> string \<times> string" where
  "login_fail_keys sha name =
     (''login_fail:user:'' @ take 32 (sha (py_lower name)), LOGIN_FAIL_GLOBAL_KEY)"

text \<open>\<open>max_user\<close> and \<open>max_global\<close> are the two settings.\<close>

definition claim_login_attempt :: "'s redis_ops \<Rightarrow> (string \<Rightarrow> string) \<Rightarrow> int \<Rightarrow> int \<Rightarrow> reply \<Rightarrow> string \<Rightarrow>
    's \<Rightarrow> login_claim \<times> 's" where
  "claim_login_attempt R sha max_user max_global r name s =
     (if max_user \<le> 0 \<and> max_global \<le> 0 then (LOGIN_CLAIM_OPEN, s)
      else let (user_key, global_key) = login_fail_keys sha name in
        case rcall r (login_claim_lua R user_key global_key LOGIN_FAIL_WINDOW_SECONDS
               max_user max_global) s of
          (None, s') \<Rightarrow> (LOGIN_CLAIM_OPEN, s')
        | (Some (ok, uc, gc, ttl), s') \<Rightarrow>
            (if ok then (\<lparr>allowed = True, retry_after = 0, username_charged = uc, global_charged = gc\<rparr>, s')
             else (\<lparr>allowed = False,
                    retry_after = retry_after_from_pttl_ms ttl LOGIN_FAIL_WINDOW_SECONDS,
                    username_charged = False, global_charged = False\<rparr>, s')))"

text \<open>The refund of each key in turn; a call that raises ends the loop. \<open>rs\<close> are the replies.\<close>

fun refund_keys :: "('s \<Rightarrow> string \<Rightarrow> int \<times> 's) \<Rightarrow> reply list \<Rightarrow> string list \<Rightarrow> 's \<Rightarrow> 's" where
  "refund_keys f rs [] s = s"
| "refund_keys f [] (k # ks) s = s"
| "refund_keys f (r # rs) (k # ks) s = (case rcall r (\<lambda>s. f s k) s of
     (Some _, s') \<Rightarrow> refund_keys f rs ks s' | (None, s') \<Rightarrow> s')"

definition refund_login_attempt :: "'s redis_ops \<Rightarrow> (string \<Rightarrow> string) \<Rightarrow> reply list \<Rightarrow> string \<Rightarrow>
    login_claim \<Rightarrow> 's \<Rightarrow> 's" where
  "refund_login_attempt R sha rs name claim s =
     (let (user_key, global_key) = login_fail_keys sha name;
          keys = (if username_charged claim then [user_key] else []) @
                 (if global_charged claim then [global_key] else [])
      in refund_keys (\<lambda>s k. refund_lua R k s) rs keys s)"

definition e911_self_query_rate_limited :: "'s redis_ops \<Rightarrow> reply \<Rightarrow> string option \<Rightarrow> 's \<Rightarrow> bool \<times> 's" where
  "e911_self_query_rate_limited R r ip s = (case ip of None \<Rightarrow> (True, s) | Some a \<Rightarrow>
     (if a = [] then (True, s)
      else case incr_with_window R r (''e911_self_rl:'' @ a) E911_SELF_RL_WINDOW_SECONDS s of
          (Some count, s') \<Rightarrow> (count > E911_SELF_RL_MAX, s') | (None, s') \<Rightarrow> (True, s')))"

definition e911_lookup_log_rate_limited :: "'s redis_ops \<Rightarrow> reply \<Rightarrow> string \<Rightarrow> int \<Rightarrow> 's \<Rightarrow> bool \<times> 's" where
  "e911_lookup_log_rate_limited R r actor budget s =
     (case incr_with_window R r (''e911_log_rl:'' @ actor) E911_LOG_RL_WINDOW_SECONDS s of
        (Some count, s') \<Rightarrow> (count > budget, s') | (None, s') \<Rightarrow> (False, s'))"

definition e911_lookup_retry_after :: "'s redis_ops \<Rightarrow> reply \<Rightarrow> string \<Rightarrow> 's \<Rightarrow> int" where
  "e911_lookup_retry_after R r actor s =
     (case rread r (cmd_pttl R (''e911_log_rl:'' @ actor)) s of
        None \<Rightarrow> E911_LOG_RL_WINDOW_SECONDS
      | Some pttl \<Rightarrow> retry_after_from_pttl_ms pttl E911_LOG_RL_WINDOW_SECONDS)"

definition mfa_challenge_used_key :: "string \<Rightarrow> string" where
  "mfa_challenge_used_key jti = ''mfa_challenge:'' @ jti @ '':used''"

definition mfa_challenge_fail_key :: "string \<Rightarrow> string" where
  "mfa_challenge_fail_key jti = ''mfa_challenge:'' @ jti @ '':fails''"

text \<open>\<open>not jti\<close>: a missing or empty id.\<close>

definition no_id :: "string option \<Rightarrow> bool" where
  "no_id jti \<longleftrightarrow> jti = None \<or> jti = Some []"

definition mfa_challenge_consume :: "'s redis_ops \<Rightarrow> reply \<Rightarrow> string option \<Rightarrow> 's \<Rightarrow> bool \<times> 's" where
  "mfa_challenge_consume R r jti s =
     (if no_id jti then (True, s)
      else case rcall r (cmd_set R (mfa_challenge_used_key (the jti)) 1 MFA_USED_TTL_SECONDS True) s of
          (Some done, s') \<Rightarrow> (done, s') | (None, s') \<Rightarrow> (True, s'))"

text \<open>\<open>env\<close> is what happens to the store between two client calls.\<close>

definition mfa_challenge_spent :: "'s redis_ops \<Rightarrow> reply \<Rightarrow> reply \<Rightarrow> ('s \<Rightarrow> 's) \<Rightarrow> string option \<Rightarrow>
    's \<Rightarrow> bool" where
  "mfa_challenge_spent R r1 r2 env jti s =
     (if no_id jti then False
      else case rread r1 (cmd_exists R (mfa_challenge_used_key (the jti))) s of
          None \<Rightarrow> False
        | Some True \<Rightarrow> True
        | Some False \<Rightarrow>
            (case rread r2 (cmd_get R (mfa_challenge_fail_key (the jti))) (env s) of
               None \<Rightarrow> False
             | Some fails \<Rightarrow> (case fails of None \<Rightarrow> False | Some n \<Rightarrow> MFA_CHALLENGE_FAIL_MAX \<le> n)))"

definition record_mfa_challenge_failure :: "'s redis_ops \<Rightarrow> reply \<Rightarrow> reply \<Rightarrow> reply \<Rightarrow> ('s \<Rightarrow> 's) \<Rightarrow>
    ('s \<Rightarrow> 's) \<Rightarrow> string option \<Rightarrow> 's \<Rightarrow> bool \<times> 's" where
  "record_mfa_challenge_failure R r1 r2 r3 env1 env2 jti s =
     (if no_id jti then (False, s)
      else let key = mfa_challenge_fail_key (the jti) in
        case rcall r1 (cmd_set R key 0 MFA_USED_TTL_SECONDS True) s of
          (None, s1) \<Rightarrow> (False, s1)
        | (Some _, s1) \<Rightarrow>
            (case rcall r2 (cmd_incr R key) (env1 s1) of
               (None, s2) \<Rightarrow> (False, s2)
             | (Some count, s2) \<Rightarrow>
                 (if MFA_CHALLENGE_FAIL_MAX \<le> count then
                    (case rcall r3 (cmd_set R (mfa_challenge_used_key (the jti)) 1
                         MFA_USED_TTL_SECONDS False) (env2 s2) of
                       (Some _, s3) \<Rightarrow> (True, s3) | (None, s3) \<Rightarrow> (False, s3))
                  else (False, s2))))"

text \<open>The two exceptions the callers turn into a 503.\<close>

datatype throttle_error = StepupThrottleUnavailable | PairingThrottleUnavailable

definition stepup_key :: "string \<Rightarrow> string" where
  "stepup_key uid = ''stepup_fail:'' @ uid"

definition stepup_password_blocked :: "'s redis_ops \<Rightarrow> reply \<Rightarrow> string \<Rightarrow> 's \<Rightarrow> throttle_error + bool" where
  "stepup_password_blocked R r uid s = (case rread r (cmd_get R (stepup_key uid)) s of
     None \<Rightarrow> Inl StepupThrottleUnavailable
   | Some count \<Rightarrow> Inr (case count of None \<Rightarrow> False | Some n \<Rightarrow> STEPUP_FAIL_MAX \<le> n))"

definition claim_stepup_attempt :: "'s redis_ops \<Rightarrow> reply \<Rightarrow> string \<Rightarrow> 's \<Rightarrow>
    (throttle_error + bool) \<times> 's" where
  "claim_stepup_attempt R r uid s =
     (case incr_with_window R r (stepup_key uid) STEPUP_FAIL_WINDOW_SECONDS s of
        (Some count, s') \<Rightarrow> (Inr (count \<le> STEPUP_FAIL_MAX), s')
      | (None, s') \<Rightarrow> (Inl StepupThrottleUnavailable, s'))"

definition refund_stepup_attempt :: "'s redis_ops \<Rightarrow> reply \<Rightarrow> string \<Rightarrow> 's \<Rightarrow> 's" where
  "refund_stepup_attempt R r uid s = snd (rcall r (stepup_refund_lua R (stepup_key uid)) s)"

definition stepup_block_seconds_left :: "'s redis_ops \<Rightarrow> reply \<Rightarrow> string \<Rightarrow> 's \<Rightarrow> int" where
  "stepup_block_seconds_left R r uid s = (case rread r (cmd_pttl R (stepup_key uid)) s of
     None \<Rightarrow> STEPUP_FAIL_WINDOW_SECONDS
   | Some pttl \<Rightarrow> retry_after_from_pttl_ms pttl STEPUP_FAIL_WINDOW_SECONDS)"

definition record_stepup_password_failure :: "'s redis_ops \<Rightarrow> reply \<Rightarrow> string \<Rightarrow> 's \<Rightarrow> 's" where
  "record_stepup_password_failure R r uid s =
     snd (incr_with_window R r (stepup_key uid) STEPUP_FAIL_WINDOW_SECONDS s)"

definition pairing_keys :: "string option \<Rightarrow> string \<times> string" where
  "pairing_keys ip =
     (''pair_rl:ip:'' @ (case ip of None \<Rightarrow> ''unknown'' | Some a \<Rightarrow> (if a = [] then ''unknown'' else a)),
      ''pair_rl:global'')"

definition claim_pairing_attempt :: "'s redis_ops \<Rightarrow> reply \<Rightarrow> string option \<Rightarrow> 's \<Rightarrow>
    (throttle_error + bool \<times> int \<times> int) \<times> 's" where
  "claim_pairing_attempt R r ip s =
     (let (ip_key, global_key) = pairing_keys ip in
      case rcall r (claim_lua R ip_key global_key PAIRING_FAIL_WINDOW_SECONDS
             PAIRING_FAIL_MAX_PER_IP PAIRING_FAIL_MAX_GLOBAL) s of
        (None, s') \<Rightarrow> (Inl PairingThrottleUnavailable, s')
      | (Some (ip_count, global_count), s') \<Rightarrow>
          (Inr (0 \<le> global_count \<and> global_count \<le> PAIRING_FAIL_MAX_GLOBAL \<and>
                ip_count \<le> PAIRING_FAIL_MAX_PER_IP, ip_count, global_count), s'))"

definition refund_pairing_attempt :: "'s redis_ops \<Rightarrow> reply list \<Rightarrow> string option \<Rightarrow> 's \<Rightarrow> 's" where
  "refund_pairing_attempt R rs ip s =
     (let (ip_key, global_key) = pairing_keys ip
      in refund_keys (\<lambda>s k. refund_lua R k s) rs [ip_key, global_key] s)"

section \<open>The contract with Redis\<close>

text \<open>\<open>view s k\<close> is the live key \<open>k\<close>: its value and the milliseconds left to it, \<open>None\<close> for a key
  that never expires.\<close>

type_synonym 's redis_view = "'s \<Rightarrow> string \<rightharpoonup> int \<times> int option"

definition key_count :: "'s redis_view \<Rightarrow> 's \<Rightarrow> string \<Rightarrow> int" where
  "key_count view s k = (case view s k of None \<Rightarrow> 0 | Some (n, _) \<Rightarrow> n)"

definition key_expiry :: "'s redis_view \<Rightarrow> 's \<Rightarrow> string \<Rightarrow> int option" where
  "key_expiry view s k = (case view s k of None \<Rightarrow> None | Some (_, e) \<Rightarrow> e)"

locale redis =
  fixes R :: "'s redis_ops" and view :: "'s redis_view"
  assumes get: "cmd_get R k s = map_option fst (view s k)"
    and exists: "cmd_exists R k s \<longleftrightarrow> view s k \<noteq> None"
    and incr: "fst (cmd_incr R k s) = key_count view s k + 1"
      "view (snd (cmd_incr R k s)) = (view s)(k \<mapsto> (key_count view s k + 1, key_expiry view s k))"
    and decr: "fst (cmd_decr R k s) = key_count view s k - 1"
      "view (snd (cmd_decr R k s)) = (view s)(k \<mapsto> (key_count view s k - 1, key_expiry view s k))"
    and ttl: "cmd_ttl R k s < 0 \<longleftrightarrow> key_expiry view s k = None"
    and pttl: "cmd_pttl R k s = (case view s k of None \<Rightarrow> - 2 | Some (_, None) \<Rightarrow> - 1 | Some (_, Some e) \<Rightarrow> e)"
    and live: "key_expiry view s k = Some e \<Longrightarrow> 0 \<le> e"
    and expire: "0 < w \<Longrightarrow> view (cmd_expire R k w s) = (case view s k of None \<Rightarrow> view s
      | Some (n, _) \<Rightarrow> (view s)(k \<mapsto> (n, Some (w * 1000))))"
    and set: "fst (cmd_set R k v ex nx s) \<longleftrightarrow> \<not> (nx \<and> view s k \<noteq> None)"
      "0 < ex \<Longrightarrow> view (snd (cmd_set R k v ex nx s)) =
         (if nx \<and> view s k \<noteq> None then view s else (view s)(k \<mapsto> (v, Some (ex * 1000))))"
begin

definition opened :: "int \<Rightarrow> string \<Rightarrow> 's \<Rightarrow> int" where
  "opened w k s = (case key_expiry view s k of None \<Rightarrow> w * 1000 | Some e \<Rightarrow> e)"

lemma bump:
  assumes "0 < w"
  shows "fst (incr_window_lua R k w s) = key_count view s k + 1"
    and "view (snd (incr_window_lua R k w s)) =
      (view s)(k \<mapsto> (key_count view s k + 1, Some (opened w k s)))"
proof -
  let ?s1 = "snd (cmd_incr R k s)"
  have v: "view ?s1 = (view s)(k \<mapsto> (key_count view s k + 1, key_expiry view s k))"
    by (rule incr)
  have e: "key_expiry view ?s1 k = key_expiry view s k" using v by (simp add: key_expiry_def)
  show "fst (incr_window_lua R k w s) = key_count view s k + 1"
    by (simp add: incr_window_lua_def incr case_prod_beta' Let_def)
  show "view (snd (incr_window_lua R k w s)) =
      (view s)(k \<mapsto> (key_count view s k + 1, Some (opened w k s)))"
  proof (cases "key_expiry view s k")
    case None
    then have "cmd_ttl R k ?s1 < 0" using ttl e by simp
    then have "snd (incr_window_lua R k w s) = cmd_expire R k w ?s1"
      by (simp add: incr_window_lua_def case_prod_beta' Let_def)
    then show ?thesis using expire [OF assms, of k ?s1] v None by (simp add: opened_def)
  next
    case (Some x)
    then have "\<not> cmd_ttl R k ?s1 < 0" using ttl e by simp
    then have "snd (incr_window_lua R k w s) = ?s1"
      by (simp add: incr_window_lua_def case_prod_beta' Let_def)
    then show ?thesis using v Some by (simp add: opened_def)
  qed
qed

lemma bump_count:
  "0 < w \<Longrightarrow> key_count view (snd (incr_window_lua R k w s)) k' =
     (if k' = k then key_count view s k + 1 else key_count view s k')"
  by (simp add: key_count_def [of view _ k'] bump)

lemma decr_count:
  "key_count view (snd (cmd_decr R k s)) k' =
     (if k' = k then key_count view s k - 1 else key_count view s k')"
  by (simp add: key_count_def [of view _ k'] decr)

end

section \<open>No counter outlives its window\<close>

definition all_expire :: "'s redis_view \<Rightarrow> 's \<Rightarrow> bool" where
  "all_expire view s \<longleftrightarrow> (\<forall>k n. view s k \<noteq> Some (n, None))"

context redis
begin

lemma bump_expires: "0 < w \<Longrightarrow> all_expire view s \<Longrightarrow> all_expire view (snd (incr_window_lua R k w s))"
  by (auto simp: all_expire_def bump)

lemma decr_expires: "all_expire view s \<Longrightarrow> view s k \<noteq> None \<Longrightarrow> all_expire view (snd (cmd_decr R k s))"
  by (auto simp: all_expire_def decr key_expiry_def split: option.splits) (metis not_None_eq)

lemma set_expires: "0 < ex \<Longrightarrow> all_expire view s \<Longrightarrow> all_expire view (snd (cmd_set R k v ex nx s))"
  by (auto simp: all_expire_def set split: if_splits)

lemma refund_expires: "all_expire view s \<Longrightarrow> all_expire view (snd (refund_lua R k s))"
  by (auto simp: refund_lua_def get intro!: decr_expires split: option.splits)

lemma stepup_refund_expires: "all_expire view s \<Longrightarrow> all_expire view (snd (stepup_refund_lua R k s))"
  by (auto simp: stepup_refund_lua_def exists intro!: decr_expires)

lemma claim_expires:
  "0 < w \<Longrightarrow> all_expire view s \<Longrightarrow> all_expire view (snd (claim_lua R k1 k2 w m1 m2 s))"
  by (auto simp: claim_lua_def case_prod_beta' Let_def bump intro!: bump_expires decr_expires)

lemma login_claim_expires:
  "0 < w \<Longrightarrow> all_expire view s \<Longrightarrow> all_expire view (snd (login_claim_lua R k1 k2 w mu mg s))"
  by (auto simp: login_claim_lua_def case_prod_beta' Let_def bump intro!: bump_expires decr_expires)

lemma rcall_expires:
  "all_expire view s \<Longrightarrow> all_expire view (snd (f s)) \<Longrightarrow> all_expire view (snd (rcall r f s))"
  by (simp add: rcall_def split: reply.splits)

lemma refund_keys_expire:
  "all_expire view s \<Longrightarrow> all_expire view (refund_keys (\<lambda>s k. refund_lua R k s) rs ks s)"
proof (induction "\<lambda>s k. refund_lua R k s" rs ks s rule: refund_keys.induct)
  case (3 r rs k ks s)
  have "all_expire view (snd (rcall r (refund_lua R k) s))"
    using 3 rcall_expires refund_expires by blast
  then show ?case using 3 by (auto split: prod.splits option.splits)
qed auto

lemma rcalls_expire:
  assumes "all_expire view s"
  shows "0 < w \<Longrightarrow> all_expire view (snd (rcall r (incr_window_lua R k w) s))"
    "0 < w \<Longrightarrow> all_expire view (snd (rcall r (login_claim_lua R k k' w m m') s))"
    "0 < w \<Longrightarrow> all_expire view (snd (rcall r (claim_lua R k k' w m m') s))"
    "0 < w \<Longrightarrow> all_expire view (snd (rcall r (cmd_set R k v w nx) s))"
    "all_expire view (snd (rcall r (stepup_refund_lua R k) s))"
  using assms by (auto intro: rcall_expires bump_expires login_claim_expires claim_expires set_expires
      stepup_refund_expires)

end
text \<open>No throttle leaves a counter without an expiry. If every live key has one, then so it is after
  each of the module's one-call operations, whichever keys and budgets it is run with and whether
  its call is answered, lost before it reaches the server, or executed with the answer lost: nobody
  stays throttled for ever.\<close>

theorem throttles_keep_expiry:
  assumes "redis R view" "all_expire view s"
  shows "list_all (all_expire view)
    [snd (login_rate_limited R ip_address r ip s),
     snd (claim_login_attempt R sha max_user max_global r name s),
     refund_login_attempt R sha rs name claim s,
     snd (e911_self_query_rate_limited R r ip s),
     snd (e911_lookup_log_rate_limited R r actor budget s),
     snd (mfa_challenge_consume R r jti s),
     snd (claim_stepup_attempt R r uid s), refund_stepup_attempt R r uid s,
     record_stepup_password_failure R r uid s,
     snd (claim_pairing_attempt R r ip s), refund_pairing_attempt R rs ip s]"
proof -
  note c = redis.rcalls_expire [OF assms] redis.refund_keys_expire [OF assms]
  have i: "0 < w \<Longrightarrow> all_expire view (snd (incr_with_window R r k w s))" for k w
    using c(1) by (simp add: incr_with_window_def)
  have snd_case: "snd (case x of (Some n, s') \<Rightarrow> (f n, s') | (None, s') \<Rightarrow> (d, s')) = snd x"
    for x :: "'x option \<times> 's" and f :: "'x \<Rightarrow> 'y" and d
    by (simp split: prod.splits option.splits)
  have claim: "snd (claim_login_attempt R sha max_user max_global r name s) =
      (if max_user \<le> 0 \<and> max_global \<le> 0 then s
       else snd (rcall r (login_claim_lua R (fst (login_fail_keys sha name)) (snd (login_fail_keys sha name))
         LOGIN_FAIL_WINDOW_SECONDS max_user max_global) s))"
    by (simp add: claim_login_attempt_def case_prod_beta' Let_def split: option.splits)
  have pair: "snd (claim_pairing_attempt R r ip s) = snd (rcall r (claim_lua R (fst (pairing_keys ip))
      (snd (pairing_keys ip)) PAIRING_FAIL_WINDOW_SECONDS PAIRING_FAIL_MAX_PER_IP PAIRING_FAIL_MAX_GLOBAL) s)"
    by (simp add: claim_pairing_attempt_def case_prod_beta' Let_def split: option.splits)
  show ?thesis
    using assms(2) i c
    by (simp add: login_rate_limited_def e911_self_query_rate_limited_def claim pair
        e911_lookup_log_rate_limited_def mfa_challenge_consume_def claim_stepup_attempt_def
        refund_stepup_attempt_def record_stepup_password_failure_def refund_login_attempt_def
        refund_pairing_attempt_def snd_case window_constants case_prod_beta' Let_def split: option.splits)
qed

section \<open>A reference store\<close>

text \<open>Redis as its documentation describes it: a map from live keys to their value and remaining
  time.\<close>

type_synonym mem = "string \<rightharpoonup> int \<times> int option"

definition mem_bump :: "int \<Rightarrow> string \<Rightarrow> mem \<Rightarrow> int \<times> mem" where
  "mem_bump d k m = (case m k of None \<Rightarrow> (d, m(k \<mapsto> (d, None)))
     | Some (n, e) \<Rightarrow> (n + d, m(k \<mapsto> (n + d, e))))"

definition mem_pttl :: "string \<Rightarrow> mem \<Rightarrow> int" where
  "mem_pttl k m = (case m k of None \<Rightarrow> - 2 | Some (_, None) \<Rightarrow> - 1 | Some (_, Some e) \<Rightarrow> max 0 e)"

definition mem_expire :: "string \<Rightarrow> int \<Rightarrow> mem \<Rightarrow> mem" where
  "mem_expire k w m = (case m k of None \<Rightarrow> m | Some (n, _) \<Rightarrow> m(k \<mapsto> (n, Some (w * 1000))))"

definition mem_set :: "string \<Rightarrow> int \<Rightarrow> int \<Rightarrow> bool \<Rightarrow> mem \<Rightarrow> bool \<times> mem" where
  "mem_set k v ex nx m = (if nx \<and> m k \<noteq> None then (False, m) else (True, m(k \<mapsto> (v, Some (ex * 1000)))))"

definition mem_ops :: "mem redis_ops" where
  "mem_ops = \<lparr>cmd_get = (\<lambda>k m. map_option fst (m k)), cmd_incr = mem_bump 1, cmd_decr = mem_bump (- 1),
     cmd_ttl = (\<lambda>k m. let p = mem_pttl k m in if p < 0 then p else (p + 500) div 1000),
     cmd_pttl = mem_pttl, cmd_expire = mem_expire, cmd_exists = (\<lambda>k m. m k \<noteq> None),
     cmd_set = mem_set\<rparr>"

definition mem_view :: "mem redis_view" where
  "mem_view m k = map_option (map_prod id (map_option (max 0))) (m k)"

interpretation mem: redis mem_ops mem_view
proof
  fix k v ex w e :: int and s :: mem and key :: string and nx :: bool
  show "cmd_get mem_ops key s = map_option fst (mem_view s key)"
    by (simp add: mem_ops_def mem_view_def option.map_comp comp_def)
  show "cmd_exists mem_ops key s \<longleftrightarrow> mem_view s key \<noteq> None" by (simp add: mem_ops_def mem_view_def)
  show "fst (cmd_incr mem_ops key s) = key_count mem_view s key + 1"
    by (auto simp: mem_ops_def mem_view_def mem_bump_def key_count_def split: option.splits)
  show "mem_view (snd (cmd_incr mem_ops key s)) =
      (mem_view s)(key \<mapsto> (key_count mem_view s key + 1, key_expiry mem_view s key))"
    by (auto simp: mem_ops_def mem_view_def mem_bump_def key_count_def key_expiry_def fun_eq_iff
        split: option.splits)
  show "fst (cmd_decr mem_ops key s) = key_count mem_view s key - 1"
    by (auto simp: mem_ops_def mem_view_def mem_bump_def key_count_def split: option.splits)
  show "mem_view (snd (cmd_decr mem_ops key s)) =
      (mem_view s)(key \<mapsto> (key_count mem_view s key - 1, key_expiry mem_view s key))"
    by (auto simp: mem_ops_def mem_view_def mem_bump_def key_count_def key_expiry_def fun_eq_iff
        split: option.splits)
  show "cmd_ttl mem_ops key s < 0 \<longleftrightarrow> key_expiry mem_view s key = None"
    by (auto simp: mem_ops_def mem_view_def mem_pttl_def key_expiry_def Let_def split: option.splits)
  show "cmd_pttl mem_ops key s = (case mem_view s key of None \<Rightarrow> - 2 | Some (_, None) \<Rightarrow> - 1 | Some (_, Some e) \<Rightarrow> e)"
    by (auto simp: mem_ops_def mem_view_def mem_pttl_def split: option.splits)
  show "0 \<le> e" if "key_expiry mem_view s key = Some e"
    using that by (auto simp: mem_view_def key_expiry_def split: option.splits)
  show "mem_view (cmd_expire mem_ops key w s) = (case mem_view s key of None \<Rightarrow> mem_view s
      | Some (n, _) \<Rightarrow> (mem_view s)(key \<mapsto> (n, Some (w * 1000))))" if "0 < w"
    using that by (auto simp: mem_ops_def mem_view_def mem_expire_def fun_eq_iff split: option.splits)
  show "fst (cmd_set mem_ops key v ex nx s) \<longleftrightarrow> \<not> (nx \<and> mem_view s key \<noteq> None)"
    by (simp add: mem_ops_def mem_view_def mem_set_def)
  show "mem_view (snd (cmd_set mem_ops key v ex nx s)) =
      (if nx \<and> mem_view s key \<noteq> None then mem_view s else (mem_view s)(key \<mapsto> (v, Some (ex * 1000))))"
    if "0 < ex"
    using that by (auto simp: mem_ops_def mem_view_def mem_set_def fun_eq_iff)
qed
theorem throttles_keep_expiry_witness:
  "all_expire mem_view Map.empty \<and>
   all_expire mem_view (snd (claim_pairing_attempt mem_ops Answered (Some ''10.0.0.9'') Map.empty)) \<and>
   mem_view (snd (claim_pairing_attempt mem_ops Answered (Some ''10.0.0.9'') Map.empty)) ''pair_rl:global'' =
     Some (1, Some 900000)"
proof -
  have e: "all_expire mem_view Map.empty" by (simp add: all_expire_def mem_view_def)
  have v: "mem_view (snd (claim_pairing_attempt mem_ops Answered (Some ''10.0.0.9'') Map.empty)) ''pair_rl:global'' =
     Some (1, Some 900000)" by code_simp
  show ?thesis
    using throttles_keep_expiry [OF mem.redis_axioms e, where r = Answered and ip = "Some ''10.0.0.9''"] e v
    by simp
qed

text \<open>The wrong-code counter of an MFA challenge can be left without an expiry. Its window is opened
  by one call and counted by the next; when the key expires between the two, the count recreates it
  with no expiry, although every key had one before and every call was answered. The scripts of the
  other throttles exclude this by doing both in one step.\<close>

theorem mfa_failure_can_lose_expiry:
  "let s = [mfa_challenge_fail_key ''j'' \<mapsto> (1, Some 1)];
       lapse = (\<lambda>m. m(mfa_challenge_fail_key ''j'' := None));
       s' = snd (record_mfa_challenge_failure mem_ops Answered Answered Answered lapse id (Some ''j'') s)
   in all_expire mem_view s \<and> mem_view s' (mfa_challenge_fail_key ''j'') = Some (1, None)"
proof -
  have "all_expire mem_view [mfa_challenge_fail_key ''j'' \<mapsto> (1, Some 1)]"
    by (auto simp: all_expire_def mem_view_def)
  then show ?thesis
    by (simp add: Let_def record_mfa_challenge_failure_def no_id_def rcall_def mem_ops_def mem_set_def
        mem_bump_def mem_view_def MFA_CHALLENGE_FAIL_MAX_def)
qed

section \<open>Budgets\<close>

text \<open>The answers of one throttle asked \<open>n\<close> times, with whatever \<open>env\<close> does in between.\<close>

fun answers :: "('s \<Rightarrow> 'a \<times> 's) \<Rightarrow> ('s \<Rightarrow> 's) \<Rightarrow> nat \<Rightarrow> 's \<Rightarrow> 'a list" where
  "answers f env 0 s = []"
| "answers f env (Suc n) s = fst (f s) # answers f env n (env (snd (f s)))"

lemma answers_map:
  "(\<And>s. f s = (g (fst (h s)), snd (h s))) \<Longrightarrow> answers f env n s = map g (answers h env n s)"
  by (induction n arbitrary: s) auto

text \<open>The environment leaves the count of a key alone: its window stays open and nobody else hits it.\<close>

definition keeps_count :: "'s redis_view \<Rightarrow> string \<Rightarrow> ('s \<Rightarrow> 's) \<Rightarrow> bool" where
  "keeps_count view k env \<longleftrightarrow> (\<forall>s. key_count view (env s) k = key_count view s k)"

context redis
begin

lemma bump_answers:
  assumes "0 < w" "keeps_count view k env"
  shows "answers (incr_window_lua R k w) env n s = map (\<lambda>i. key_count view s k + 1 + int i) [0..<n]"
proof (induction n arbitrary: s)
  case (Suc n)
  have c: "key_count view (env (snd (incr_window_lua R k w s))) k = key_count view s k + 1"
    using assms by (simp add: keeps_count_def bump_count)
  have "map (\<lambda>i. key_count view s k + 1 + int i) [0..<Suc n] =
      (key_count view s k + 1) # map (\<lambda>i. key_count view s k + 1 + 1 + int i) [0..<n]"
    by (simp add: upt_conv_Cons map_Suc_upt [symmetric] del: upt_Suc)
  then show ?case using Suc [of "env (snd (incr_window_lua R k w s))"] assms(1) by (simp add: bump c)
qed simp

end

lemma window_shape: "map (\<lambda>i. int m < 1 + int i) [0..<n] = replicate (min m n) False @ replicate (n - m) True"
proof (induction n)
  case (Suc n)
  then show ?case by (cases "m \<le> n"; cases "m = Suc n") (auto simp: replicate_append_same Suc_diff_le min_def)
qed simp

text \<open>Exactly thirty sign-in attempts a minute. However many attempts reach the per-source throttle
  within one window, from a source not yet counted, the first thirty pass and every later one is
  refused; and the E911 self-query does the same with ten. What other clients do to other keys
  makes no difference.\<close>

theorem source_budget_is_exact:
  assumes "redis R view" "a \<noteq> []"
    and "key_count view s (''login_rl:'' @ login_throttle_key ip_address a) = 0"
    and "keeps_count view (''login_rl:'' @ login_throttle_key ip_address a) env"
    and "key_count view s (''e911_self_rl:'' @ a) = 0" and "keeps_count view (''e911_self_rl:'' @ a) env"
  shows "answers (login_rate_limited R ip_address Answered (Some a)) env n s =
      replicate (min 30 n) False @ replicate (n - 30) True \<and>
    answers (e911_self_query_rate_limited R Answered (Some a)) env n s =
      replicate (min 10 n) False @ replicate (n - 10) True"
proof -
  let ?k = "''login_rl:'' @ login_throttle_key ip_address a" and ?e = "''e911_self_rl:'' @ a"
  have l: "login_rate_limited R ip_address Answered (Some a) s =
      (LOGIN_RL_MAX < fst (incr_window_lua R ?k LOGIN_RL_WINDOW_SECONDS s),
       snd (incr_window_lua R ?k LOGIN_RL_WINDOW_SECONDS s))" for s
    using assms(2) by (simp add: login_rate_limited_def incr_with_window_def rcall_def)
  have q: "e911_self_query_rate_limited R Answered (Some a) s =
      (E911_SELF_RL_MAX < fst (incr_window_lua R ?e E911_SELF_RL_WINDOW_SECONDS s),
       snd (incr_window_lua R ?e E911_SELF_RL_WINDOW_SECONDS s))" for s
    using assms(2) by (simp add: e911_self_query_rate_limited_def incr_with_window_def rcall_def)
  have w: "0 < LOGIN_RL_WINDOW_SECONDS" "0 < E911_SELF_RL_WINDOW_SECONDS"
    by (simp_all add: window_constants)
  show ?thesis
    using answers_map [where g = "\<lambda>n. LOGIN_RL_MAX < n", OF l, where env = env and n = n and s = s]
      answers_map [where g = "\<lambda>n. E911_SELF_RL_MAX < n", OF q, where env = env and n = n and s = s]
      redis.bump_answers [OF assms(1) w(1) assms(4), of n s]
      redis.bump_answers [OF assms(1) w(2) assms(6), of n s]
      assms(3,5) window_shape [of 30 n] window_shape [of 10 n]
    by (simp add: comp_def LOGIN_RL_MAX_def E911_SELF_RL_MAX_def)
qed

theorem source_budget_is_exact_witness:
  "answers (login_rate_limited mem_ops (\<lambda>_. None) Answered (Some ''10.0.0.9'')) id 32 Map.empty =
     replicate 30 False @ [True, True]"
proof -
  have "key_count mem_view Map.empty k = 0" "keeps_count mem_view k id" for k
    by (simp_all add: key_count_def mem_view_def keeps_count_def)
  then show ?thesis
    using source_budget_is_exact [OF mem.redis_axioms, where a = "''10.0.0.9''" and n = 32
        and s = Map.empty and env = id and ip_address = "\<lambda>_. None"]
    by (simp add: numeral_2_eq_2)
qed

section \<open>Claims and refunds\<close>

context redis
begin

lemma login_claim_answer:
  assumes "0 < w" "k1 \<noteq> k2"
  shows "fst (fst (login_claim_lua R k1 k2 w mu mg s)) \<longleftrightarrow>
      \<not> (mu > 0 \<and> key_count view s k1 + 1 > mu) \<and> \<not> (mg > 0 \<and> key_count view s k2 + 1 > mg)"
    and "fst (fst (login_claim_lua R k1 k2 w mu mg s)) \<Longrightarrow>
      fst (login_claim_lua R k1 k2 w mu mg s) = (True, mu > 0, mg > 0, 0)"
  using assms by (auto simp: login_claim_lua_def case_prod_beta' Let_def bump bump_count split: if_splits)

lemma login_claim_counts:
  assumes "0 < w" "k1 \<noteq> k2"
  shows "key_count view (snd (login_claim_lua R k1 k2 w mu mg s)) k =
    (if mu > 0 \<and> key_count view s k1 + 1 > mu then
       (if k = k1 then key_count view s k1 + 1 else key_count view s k)
     else if mg > 0 \<and> key_count view s k2 + 1 > mg then
       (if k = k2 then key_count view s k2 + 1 else key_count view s k)
     else key_count view s k + (if mu > 0 \<and> k = k1 \<or> mg > 0 \<and> k = k2 then 1 else 0))"
  using assms by (auto simp: login_claim_lua_def case_prod_beta' Let_def bump bump_count decr_count)

lemma refund_counts:
  "key_count view (snd (refund_lua R k s)) k' =
     (if k' = k \<and> 0 < key_count view s k then key_count view s k - 1 else key_count view s k')"
proof (cases "view s k")
  case None
  then show ?thesis by (simp add: refund_lua_def get key_count_def)
next
  case (Some x)
  then have "key_count view s k = fst x" by (cases x) (simp add: key_count_def)
  with Some show ?thesis using decr_count [of k s k'] by (auto simp: refund_lua_def get)
qed

lemma refund_both_counts:
  "key_count view (refund_keys (\<lambda>s k. refund_lua R k s) [Answered, Answered]
     ((if b1 then [k1] else []) @ (if b2 then [k2] else [])) s) k =
   (let n1 = (if b1 \<and> k = k1 \<and> 0 < key_count view s k then 1 else 0) in
    key_count view s k - n1 - (if b2 \<and> k = k2 \<and> 0 < key_count view s k - n1 then 1 else 0))"
  by (auto simp: rcall_def refund_counts case_prod_beta' Let_def)

end

lemma login_keys_differ: "fst (login_fail_keys sha name) \<noteq> snd (login_fail_keys sha name)"
  by (simp add: login_fail_keys_def LOGIN_FAIL_GLOBAL_KEY_def)

lemma retry_after_bounds:
  "0 < fallback \<Longrightarrow> 1 \<le> retry_after_from_pttl_ms p fallback \<and>
   (0 \<le> p \<longrightarrow> p \<le> retry_after_from_pttl_ms p fallback * 1000 \<and>
     retry_after_from_pttl_ms p fallback * 1000 < max 1 p + 1000)"
  by (auto simp: retry_after_from_pttl_ms_def max_def)

lemma claim_login_answered:
  fixes R :: "'s redis_ops" and sha :: "string \<Rightarrow> string" and name :: string and s :: 's
  assumes "\<not> (mu \<le> 0 \<and> mg \<le> 0)"
  defines "k1 \<equiv> fst (login_fail_keys sha name)" and "k2 \<equiv> snd (login_fail_keys sha name)"
  defines "L \<equiv> login_claim_lua R k1 k2 LOGIN_FAIL_WINDOW_SECONDS mu mg s"
  shows "snd (claim_login_attempt R sha mu mg Answered name s) = snd L"
    "allowed (fst (claim_login_attempt R sha mu mg Answered name s)) = fst (fst L)"
    "fst (fst L) \<Longrightarrow> username_charged (fst (claim_login_attempt R sha mu mg Answered name s)) = fst (snd (fst L))"
    "fst (fst L) \<Longrightarrow> global_charged (fst (claim_login_attempt R sha mu mg Answered name s)) = fst (snd (snd (fst L)))"
    "\<not> fst (fst L) \<Longrightarrow> \<exists>p. retry_after (fst (claim_login_attempt R sha mu mg Answered name s)) =
        retry_after_from_pttl_ms p LOGIN_FAIL_WINDOW_SECONDS"
  using assms(1) unfolding L_def k1_def k2_def
  by (auto simp: claim_login_attempt_def rcall_def case_prod_beta' Let_def)

text \<open>C6: The sign-in ceilings charge exactly what they should. An admitted attempt leaves the username
  and the install-wide counter within their limits, and refunding it (a right password) puts every
  counter back where it was. A refused attempt is told to wait at least a second and is charged to one
  counter at most: a name over its own limit costs the rest of the install nothing, and an attempt the
  install-wide limit refuses costs the name nothing.\<close>

theorem login_claim_charges_and_refunds:
  assumes "redis R view" "\<And>k. 0 \<le> key_count view s k"
    and claim: "claim_login_attempt R sha mu mg Answered name s = (c, s1)"
  defines "k1 \<equiv> fst (login_fail_keys sha name)" and "k2 \<equiv> snd (login_fail_keys sha name)"
  shows "(allowed c \<longrightarrow>
      (0 < mu \<longrightarrow> key_count view s1 k1 \<le> mu) \<and> (0 < mg \<longrightarrow> key_count view s1 k2 \<le> mg) \<and>
      (\<forall>k. key_count view (refund_login_attempt R sha [Answered, Answered] name c s1) k = key_count view s k)) \<and>
    (\<not> allowed c \<longrightarrow> 1 \<le> retry_after c \<and>
      (0 < mu \<and> mu \<le> key_count view s k1 \<and> (\<forall>k. k \<noteq> k1 \<longrightarrow> key_count view s1 k = key_count view s k) \<or>
       0 < mg \<and> mg \<le> key_count view s k2 \<and> (\<forall>k. k \<noteq> k2 \<longrightarrow> key_count view s1 k = key_count view s k)))"
proof (cases "mu \<le> 0 \<and> mg \<le> 0")
  case True
  then have "c = LOGIN_CLAIM_OPEN" "s1 = s" using claim by (auto simp: claim_login_attempt_def)
  then show ?thesis using True
    by (auto simp: LOGIN_CLAIM_OPEN_def refund_login_attempt_def Let_def split: prod.splits)
next
  case False
  let ?L = "login_claim_lua R k1 k2 LOGIN_FAIL_WINDOW_SECONDS mu mg s"
  have kk: "k1 \<noteq> k2" using login_keys_differ by (simp add: k1_def k2_def)
  have w: "0 < LOGIN_FAIL_WINDOW_SECONDS" by (simp add: window_constants)
  note a = claim_login_answered [OF False, of R sha name s, folded k1_def k2_def, unfolded claim fst_conv snd_conv]
  note ans = redis.login_claim_answer [OF assms(1) w kk, of mu mg s]
  note cnt = redis.login_claim_counts [OF assms(1) w kk, of mu mg s]
  show ?thesis
  proof (cases "allowed c")
    case True
    then have t: "fst (fst ?L)" "fst ?L = (True, mu > 0, mg > 0, 0)" using a(2) ans(2) by simp_all
    then have ch: "username_charged c = (mu > 0)" "global_charged c = (mg > 0)" using a(3,4) by simp_all
    have no: "\<not> (mu > 0 \<and> key_count view s k1 + 1 > mu)" "\<not> (mg > 0 \<and> key_count view s k2 + 1 > mg)"
      using ans(1) t(1) by blast+
    have k: "key_count view s1 k = key_count view s k + (if mu > 0 \<and> k = k1 \<or> mg > 0 \<and> k = k2 then 1 else 0)" for k
      unfolding a(1) cnt using no by simp
    have r: "refund_login_attempt R sha [Answered, Answered] name c s1 = refund_keys (\<lambda>s k. refund_lua R k s)
        [Answered, Answered] ((if mu > 0 then [k1] else []) @ (if mg > 0 then [k2] else [])) s1"
      by (simp add: refund_login_attempt_def ch k1_def k2_def case_prod_beta' Let_def)
    have "key_count view (refund_login_attempt R sha [Answered, Answered] name c s1) k = key_count view s k" for k
      unfolding r redis.refund_both_counts [OF assms(1)] k using assms(2) [of k] kk by (auto simp: Let_def)
    then show ?thesis using True no k kk by auto
  next
    case refused: False
    then have f: "\<not> fst (fst ?L)" using a(2) by simp
    have "1 \<le> retry_after c" using a(5) [OF f] retry_after_bounds w by auto
    moreover have "0 < mu \<and> mu \<le> key_count view s k1 \<and> (\<forall>k. k \<noteq> k1 \<longrightarrow> key_count view s1 k = key_count view s k) \<or>
       0 < mg \<and> mg \<le> key_count view s k2 \<and> (\<forall>k. k \<noteq> k2 \<longrightarrow> key_count view s1 k = key_count view s k)"
      using f ans(1) unfolding a(1) cnt by auto
    ultimately show ?thesis using refused by blast
  qed
qed

theorem login_claim_charges_and_refunds_witness:
  "let sha = (\<lambda>s. s); busy = [''login_fail:user:ann'' \<mapsto> (3, Some 90000), LOGIN_FAIL_GLOBAL_KEY \<mapsto> (9, Some 90000)];
       c = fst (claim_login_attempt mem_ops sha 5 9 Answered ''Ann'' busy);
       s1 = snd (claim_login_attempt mem_ops sha 5 9 Answered ''Ann'' busy)
   in \<not> allowed c \<and> retry_after c = 90 \<and> key_count mem_view s1 ''login_fail:user:ann'' = 3"
proof -
  let ?busy = "[''login_fail:user:ann'' \<mapsto> (3, Some 90000), LOGIN_FAIL_GLOBAL_KEY \<mapsto> (9, Some 90000)]"
  obtain c s1 where c: "claim_login_attempt mem_ops (\<lambda>s. s) 5 9 Answered ''Ann'' ?busy = (c, s1)" by force
  have r: "\<not> allowed (fst (claim_login_attempt mem_ops (\<lambda>s. s) 5 9 Answered ''Ann'' ?busy))"
    "retry_after (fst (claim_login_attempt mem_ops (\<lambda>s. s) 5 9 Answered ''Ann'' ?busy)) = 90"
    by code_simp+
  have n: "0 \<le> key_count mem_view ?busy k" for k by (auto simp: key_count_def mem_view_def)
  have k: "login_fail_keys (\<lambda>s. s) ''Ann'' = (''login_fail:user:ann'', LOGIN_FAIL_GLOBAL_KEY)" by code_simp
  have "key_count mem_view ?busy ''login_fail:user:ann'' = 3" by code_simp
  then show ?thesis
    using login_claim_charges_and_refunds [OF mem.redis_axioms n c] r unfolding c k Let_def
    by (auto simp: LOGIN_FAIL_GLOBAL_KEY_def)
qed

text \<open>What each throttle does without Redis. When a call is lost, the sign-in throttles and the
  replay guard let the attempt pass, charging nothing; the E911 lookup budget lets it pass; the
  unauthenticated E911 self-query is refused; and the step-up and pairing budgets raise, so the
  attempt they protect is refused.\<close>

theorem redis_outage_answers:
  assumes "r \<noteq> Answered"
  shows "\<not> fst (login_rate_limited R ip_address r ip s) \<and>
    fst (claim_login_attempt R sha mu mg r name s) = LOGIN_CLAIM_OPEN \<and>
    fst (mfa_challenge_consume R r jti s) \<and> \<not> mfa_challenge_spent R r r2 env jti s \<and>
    \<not> fst (e911_lookup_log_rate_limited R r actor budget s) \<and>
    fst (e911_self_query_rate_limited R r ip s) \<and>
    stepup_password_blocked R r uid s = Inl StepupThrottleUnavailable \<and>
    fst (claim_stepup_attempt R r uid s) = Inl StepupThrottleUnavailable \<and>
    fst (claim_pairing_attempt R r ip s) = Inl PairingThrottleUnavailable \<and>
    stepup_block_seconds_left R r uid s = STEPUP_FAIL_WINDOW_SECONDS \<and>
    e911_lookup_retry_after R r actor s = E911_LOG_RL_WINDOW_SECONDS"
  using assms
  by (cases r; cases ip)
    (simp_all add: login_rate_limited_def claim_login_attempt_def mfa_challenge_consume_def
      mfa_challenge_spent_def e911_lookup_log_rate_limited_def e911_self_query_rate_limited_def
      stepup_password_blocked_def claim_stepup_attempt_def claim_pairing_attempt_def
      stepup_block_seconds_left_def e911_lookup_retry_after_def incr_with_window_def rcall_def
      rread_def case_prod_beta' Let_def)

theorem redis_outage_answers_witness:
  "LostBefore \<noteq> Answered \<and>
   fst (claim_pairing_attempt mem_ops LostBefore None Map.empty) = Inl PairingThrottleUnavailable"
  using redis_outage_answers [of LostBefore mem_ops _ None] by blast

end
