(* ===== verification/Approvals.thy ===== *)
theory Approvals
  imports Permission_Gates
begin

text \<open>
  The two-person rule: \<^verbatim>\<open>backend/app/services/approvals\<close> (policy, gate, service) with the rows of
  \<^verbatim>\<open>models/change_request.py\<close>, the operation contract of \<^verbatim>\<open>services/ai/operations.py\<close> and the expiry
  sweep. A session keeps what is durable, what the open transaction sees, and every state it has
  committed, so that a crash between two commits is one of the durable states.
\<close>

section \<open>Rows\<close>

datatype cr_state = Pending | Approved | Rejected | Executed | Failed | Expired | Cancelled

fun state_text :: "cr_state \<Rightarrow> string" where
  "state_text Pending = ''pending''" | "state_text Approved = ''approved''"
| "state_text Rejected = ''rejected''" | "state_text Executed = ''executed''"
| "state_text Failed = ''failed''" | "state_text Expired = ''expired''"
| "state_text Cancelled = ''cancelled''"

record change_request =
  cr_id :: uuid
  origin :: string
  cr_operation :: string
  cr_resource_type :: string
  cr_resource_id :: "string option"
  cr_resource_display :: string
  cr_args :: pyval
  cr_preview_text :: string
  risk_reason :: string
  justification :: "string option"
  cr_state :: cr_state
  requested_by_user_id :: "uuid option"
  requested_by_display :: string
  decided_by_user_id :: "uuid option"
  decided_by_display :: "string option"
  decision_note :: "string option"
  cr_result :: "pyval option"
  cr_error :: "string option"
  expires_at :: datetime
  decided_at :: "datetime option"
  executed_at :: "datetime option"

definition CHANGE_REQUEST_ORIGINS :: "string list" where
  "CHANGE_REQUEST_ORIGINS = [''gate'', ''portal'']"

record approval_policy =
  ap_id :: uuid
  ap_name :: string
  ap_resource_type :: string
  ap_action :: string
  min_count :: "int option"
  ap_enabled :: bool
  applies_to_superadmin :: bool
  ttl_hours :: int

section \<open>Sessions\<close>

text \<open>The tables operations act on: the approval tables and settings, and everything else.\<close>

record 'w resources =
  policies :: "approval_policy list"
  approvals_module :: bool
  approvals_protect_controls :: "bool option"
  world :: 'w

record 'w tx =
  crs :: "change_request list"
  audit :: "audit_log list"
  res :: "'w resources"

record 'w db_session =
  durable :: "'w tx"
  work :: "'w tx"
  history :: "'w tx list"

definition commit :: "'w db_session \<Rightarrow> 'w db_session" where
  "commit s = s\<lparr>durable := work s, history := history s @ [work s]\<rparr>"

definition rollback :: "'w db_session \<Rightarrow> 'w db_session" where
  "rollback s = s\<lparr>work := durable s\<rparr>"

definition open_db :: "'w tx \<Rightarrow> 'w db_session" where
  "open_db t = \<lparr>durable = t, work = t, history = []\<rparr>"

definition in_work :: "('w tx \<Rightarrow> 'w tx) \<Rightarrow> 'w db_session \<Rightarrow> 'w db_session" where
  "in_work f s = s\<lparr>work := f (work s)\<rparr>"

definition get_change_request :: "uuid \<Rightarrow> 'w tx \<Rightarrow> change_request option" where
  "get_change_request i t = find (\<lambda>c. cr_id c = i) (crs t)"

definition put_cr :: "change_request \<Rightarrow> 'w tx \<Rightarrow> 'w tx" where
  "put_cr c t = t\<lparr>crs := map (\<lambda>x. if cr_id x = cr_id c then c else x) (crs t)\<rparr>"

definition add_audit :: "audit_log \<Rightarrow> 'w tx \<Rightarrow> 'w tx" where
  "add_audit row t = t\<lparr>audit := audit t @ [row]\<rparr>"

section \<open>Audit rows of a transition\<close>

text \<open>The request with the scopes of the API token it was made with.\<close>

record scoped_request =
  http :: request
  api_token_scopes :: "string list"

definition cr_audit :: "user option \<Rightarrow> scoped_request option \<Rightarrow> string \<Rightarrow> change_request \<Rightarrow> pyval \<Rightarrow> pyval \<Rightarrow>
    audit_log" where
  "cr_audit u req act c old new =
     (new_audit_log (case u of None \<Rightarrow> ''system'' | Some v \<Rightarrow> display_name v) act ''change_request''
        (cr_id c) (cr_resource_display c))
       \<lparr>al_user_id := map_option user_id u,
        al_auth_source := Some (case u of None \<Rightarrow> ''system'' | Some v \<Rightarrow> auth_source v),
        source_ip := (case req of None \<Rightarrow> None | Some r \<Rightarrow> get_trusted_client_ip (http r)),
        user_agent := (case req of None \<Rightarrow> None | Some r \<Rightarrow> clean_user_agent (user_agent_header (http r))),
        old_value := old, new_value := new\<rparr>"

definition state_dict :: "cr_state \<Rightarrow> (string \<times> pyval) list \<Rightarrow> pyval" where
  "state_dict st extra = PyDict ((''state'', PyStr (state_text st)) # extra)"

section \<open>Operations\<close>

record preview_result =
  p_ok :: bool
  p_detail :: string
  p_preview_text :: string
  idempotent :: bool
  forbidden_detail :: "string option"

text \<open>A preview or an apply raises \<open>OperationPermissionError\<close>, \<open>HTTPException\<close> (with its detail) or
  anything else.\<close>

datatype op_error = PermissionErr string | HttpErr pyval | OtherErr string

text \<open>What one run of \<open>apply()\<close> does: the states it commits, with the audit rows each commit adds, the
  uncommitted rest, and its result.\<close>

record 'w apply_run =
  commits :: "('w resources \<times> audit_log list) list"
  rest :: "'w resources \<times> audit_log list"
  outcome :: "op_error + pyval"

record 'w operation =
  op_name :: string
  validate_args :: "pyval \<Rightarrow> pyval option"
  preview :: "'w resources \<Rightarrow> user \<Rightarrow> pyval \<Rightarrow> op_error + preview_result"
  apply_op :: "'w resources \<Rightarrow> user \<Rightarrow> pyval \<Rightarrow> 'w apply_run"
  required_permission :: "(string \<times> string) option"
  scoped_grant_types :: "string list"
  requires_superadmin :: bool

text \<open>The registry: \<open>register\<close> refuses a second operation of the same name.\<close>

type_synonym 'w registry = "(string \<times> 'w operation) list"

definition register :: "'w operation \<Rightarrow> 'w registry \<Rightarrow> string + 'w registry" where
  "register op reg = (if map_of reg (op_name op) \<noteq> None
     then Inl (''Operation '' @ quoted (op_name op) @ '' already registered'')
     else Inr ((op_name op, op) # reg))"

definition get_operation :: "'w registry \<Rightarrow> string \<Rightarrow> 'w operation option" where
  "get_operation reg name = map_of reg name"

definition enforce_operation_permission :: "user \<Rightarrow> 'w operation \<Rightarrow> string + unit" where
  "enforce_operation_permission u op =
     (if requires_superadmin op \<and> \<not> is_effective_superadmin u
      then Inl (''Permission denied: operation '' @ quoted (op_name op) @
             '' is restricted to superadmin users'')
      else case required_permission op of None \<Rightarrow> Inr ()
        | Some (act, rtype) \<Rightarrow>
            (if user_has_permission u act rtype None then Inr ()
             else if list_ex (has_any_grant_for u act) (scoped_grant_types op) then Inr ()
             else Inl (need_text act rtype)))"

definition CONTROL_OPERATION_NAMES :: "string list" where
  "CONTROL_OPERATION_NAMES = [''modify_approval_control'']"

definition args_get :: "pyval \<Rightarrow> string \<Rightarrow> pyval" where
  "args_get a k = (case a of PyDict kvs \<Rightarrow> (case map_of kvs k of None \<Rightarrow> PyNone | Some v \<Rightarrow> v) | _ \<Rightarrow> PyNone)"

definition control_gate_premise_lost :: "'w resources \<Rightarrow> pyval \<Rightarrow> bool" where
  "control_gate_premise_lost r args =
     (if args_get args ''kind'' = PyStr ''unlock'' then False
      else \<not> (approvals_protect_controls r = Some True))"

section \<open>Policies\<close>

definition is_stronger :: "approval_policy \<Rightarrow> approval_policy \<Rightarrow> string \<Rightarrow> bool" where
  "is_stronger cand cur rtype =
     (let cand_exact = (ap_resource_type cand = rtype); cur_exact = (ap_resource_type cur = rtype) in
      if cand_exact \<noteq> cur_exact then cand_exact
      else case min_count cand of None \<Rightarrow> min_count cur \<noteq> None
        | Some m \<Rightarrow> (case min_count cur of None \<Rightarrow> False | Some n \<Rightarrow> m < n))"

definition threshold_met :: "approval_policy \<Rightarrow> int option \<Rightarrow> bool" where
  "threshold_met p cnt = (case min_count p of None \<Rightarrow> True
     | Some m \<Rightarrow> (case cnt of None \<Rightarrow> False | Some n \<Rightarrow> m \<le> n))"

fun best_policy :: "string \<Rightarrow> int option \<Rightarrow> approval_policy option \<Rightarrow> approval_policy list \<Rightarrow>
    approval_policy option" where
  "best_policy rtype cnt best [] = best"
| "best_policy rtype cnt best (p # ps) =
     (if \<not> threshold_met p cnt then best_policy rtype cnt best ps
      else if (case best of None \<Rightarrow> True | Some b \<Rightarrow> is_stronger p b rtype)
      then best_policy rtype cnt (Some p) ps
      else best_policy rtype cnt best ps)"

text \<open>The rows the query returns, in whatever order the database gives them.\<close>

definition candidate_policy :: "string \<Rightarrow> string \<Rightarrow> approval_policy \<Rightarrow> bool" where
  "candidate_policy rtype act p \<longleftrightarrow> ap_enabled p \<and> ap_action p = act \<and>
     (ap_resource_type p = rtype \<or> ap_resource_type p = ''*'')"

definition match_policy :: "approval_policy list \<Rightarrow> string \<Rightarrow> string \<Rightarrow> int option \<Rightarrow>
    approval_policy option" where
  "match_policy ps rtype act cnt = best_policy rtype cnt None (filter (candidate_policy rtype act) ps)"

definition GATEABLE_ACTIONS :: "string list" where
  "GATEABLE_ACTIONS = [''delete'', ''admin'']"

definition GATEABLE_RESOURCE_TYPES :: "string list" where
  "GATEABLE_RESOURCE_TYPES = [''subnet'', ''ip_block'', ''ip_space'', ''dns_zone'', ''dhcp_scope'',
     ''dhcp_server_group'', ''manage_block_sync'']"

definition RISKY_OPERATION_NAMES :: "string list" where
  "RISKY_OPERATION_NAMES = [''delete_subnet'', ''delete_block'', ''delete_space'', ''delete_zone'',
     ''delete_scope'', ''delete_group'', ''create_network_block'']"

definition gateable_pairs :: "'w registry \<Rightarrow> (string \<times> string) list" where
  "gateable_pairs reg = List.map_filter (\<lambda>n. case get_operation reg n of None \<Rightarrow> None
     | Some op \<Rightarrow> required_permission op) RISKY_OPERATION_NAMES"

text \<open>The import-time assertion: which risky operations lack a permission, and which declare one no
  policy can name.\<close>

definition risky_missing :: "'w registry \<Rightarrow> string list" where
  "risky_missing reg = filter (\<lambda>n. case get_operation reg n of None \<Rightarrow> True
     | Some op \<Rightarrow> required_permission op = None) RISKY_OPERATION_NAMES"

definition risky_non_gateable :: "'w registry \<Rightarrow> string list" where
  "risky_non_gateable reg = filter (\<lambda>n. case get_operation reg n of None \<Rightarrow> False
     | Some op \<Rightarrow> (case required_permission op of None \<Rightarrow> False
        | Some (act, rtype) \<Rightarrow> act \<notin> set GATEABLE_ACTIONS \<or> rtype \<notin> set GATEABLE_RESOURCE_TYPES))
     RISKY_OPERATION_NAMES"

definition assert_risky_ops_have_permission :: "'w registry \<Rightarrow> bool" where
  "assert_risky_ops_have_permission reg \<longleftrightarrow> risky_missing reg = [] \<and> risky_non_gateable reg = []"

section \<open>Creating and listing requests\<close>

definition MAX_PENDING_PER_USER :: nat where "MAX_PENDING_PER_USER = 50"

definition pending_of :: "uuid \<Rightarrow> 'w tx \<Rightarrow> nat" where
  "pending_of uid t = length (filter (\<lambda>c. requested_by_user_id c = Some uid \<and> cr_state c = Pending) (crs t))"

text \<open>The fields a new request is given.\<close>

record cr_input =
  in_operation :: string
  in_resource_type :: string
  in_resource_id :: "string option"
  in_resource_display :: string
  in_args :: pyval
  in_preview_text :: string
  in_risk_reason :: string
  in_ttl_hours :: int
  in_origin :: string
  in_justification :: "string option"

datatype create_error = ValueErr string | TooManyRequests string

definition new_change_request :: "uuid \<Rightarrow> datetime \<Rightarrow> user \<Rightarrow> cr_input \<Rightarrow> change_request" where
  "new_change_request i now u inp = \<lparr>cr_id = i, origin = in_origin inp, cr_operation = in_operation inp,
     cr_resource_type = in_resource_type inp, cr_resource_id = in_resource_id inp,
     cr_resource_display = in_resource_display inp, cr_args = in_args inp,
     cr_preview_text = in_preview_text inp, risk_reason = in_risk_reason inp,
     justification = in_justification inp, cr_state = Pending,
     requested_by_user_id = Some (user_id u), requested_by_display = display_name u,
     decided_by_user_id = None, decided_by_display = None, decision_note = None, cr_result = None,
     cr_error = None, expires_at = now + hours (in_ttl_hours inp), decided_at = None,
     executed_at = None\<rparr>"

definition create_change_request :: "uuid \<Rightarrow> datetime \<Rightarrow> user \<Rightarrow> scoped_request \<Rightarrow> cr_input \<Rightarrow> 'w tx \<Rightarrow>
    create_error + change_request \<times> 'w tx" where
  "create_change_request i now u req inp t =
     (if in_origin inp \<notin> set CHANGE_REQUEST_ORIGINS
      then Inl (ValueErr (''invalid change_request origin '' @ quoted (in_origin inp) @
             ''; expected one of ['' @ quoted ''gate'' @ '', '' @ quoted ''portal'' @ '']''))
      else if MAX_PENDING_PER_USER \<le> pending_of (user_id u) t
      then Inl (TooManyRequests (''You already have '' @ nat_digits (pending_of (user_id u) t) @
             '' pending change requests (max '' @ nat_digits MAX_PENDING_PER_USER @
             ''). Resolve or cancel some before submitting more.''))
      else let c = new_change_request i now u inp
           in Inr (c, add_audit (cr_audit (Some u) (Some req) ''requested'' c PyNone
                (PyDict [(''operation'', PyStr (in_operation inp)),
                   (''resource_type'', PyStr (in_resource_type inp)),
                   (''resource_id'', opt_str (in_resource_id inp)),
                   (''risk_reason'', PyStr (in_risk_reason inp)),
                   (''origin'', PyStr (in_origin inp)), (''state'', PyStr ''pending'')]))
                (t\<lparr>crs := crs t @ [c]\<rparr>)))"

text \<open>\<open>ORDER BY created_at DESC\<close>: the table keeps its rows in the order of their creation.\<close>

definition list_change_requests :: "'w tx \<Rightarrow> cr_state option \<Rightarrow> string option \<Rightarrow> uuid option \<Rightarrow>
    string option \<Rightarrow> nat \<Rightarrow> nat \<Rightarrow> change_request list" where
  "list_change_requests t st rtype uid orig limit offset =
     take limit (drop offset (rev (filter (\<lambda>c.
       (orig = None \<or> orig = Some (origin c)) \<and> (st = None \<or> st = Some (cr_state c)) \<and>
       (rtype = None \<or> rtype = Some (cr_resource_type c)) \<and>
       (uid = None \<or> uid = requested_by_user_id c)) (crs t))))"

section \<open>Transitions\<close>

text \<open>\<open>ChangeRequestStateError\<close> is the left value.\<close>

definition require_state :: "change_request \<Rightarrow> cr_state \<Rightarrow> string + unit" where
  "require_state c expected = (if cr_state c \<noteq> expected
     then Inl (''change request '' @ cr_id c @ '' is '' @ quoted (state_text (cr_state c)) @
            '', expected '' @ quoted (state_text expected))
     else Inr ())"

text \<open>The decision fields of a row.\<close>

definition decided :: "cr_state \<Rightarrow> user \<Rightarrow> string option \<Rightarrow> datetime \<Rightarrow> change_request \<Rightarrow> change_request" where
  "decided st u note now c = c\<lparr>cr_state := st, decided_by_user_id := Some (user_id u),
     decided_by_display := Some (display_name u), decision_note := note, decided_at := Some now\<rparr>"

definition stamp_approved :: "user \<Rightarrow> string option \<Rightarrow> datetime \<Rightarrow> change_request \<Rightarrow>
    string + change_request" where
  "stamp_approved u note now c = (case require_state c Pending of Inl e \<Rightarrow> Inl e
     | Inr _ \<Rightarrow> Inr (decided Approved u note now c))"

definition audit_approved :: "user \<Rightarrow> scoped_request option \<Rightarrow> string option \<Rightarrow> change_request \<Rightarrow> audit_log" where
  "audit_approved u req note c = cr_audit (Some u) req ''approved'' c (state_dict Pending [])
     (state_dict Approved [(''note'', opt_str note)])"

definition mark_approved :: "user \<Rightarrow> scoped_request option \<Rightarrow> string option \<Rightarrow> datetime \<Rightarrow>
    change_request \<Rightarrow> 'w tx \<Rightarrow> string + change_request \<times> 'w tx" where
  "mark_approved u req note now c t = (case stamp_approved u note now c of Inl e \<Rightarrow> Inl e
     | Inr c' \<Rightarrow> Inr (c', add_audit (audit_approved u req note c') (put_cr c' t)))"

definition mark_rejected :: "user \<Rightarrow> scoped_request option \<Rightarrow> string option \<Rightarrow> datetime \<Rightarrow>
    change_request \<Rightarrow> 'w tx \<Rightarrow> string + change_request \<times> 'w tx" where
  "mark_rejected u req note now c t = (case require_state c Pending of Inl e \<Rightarrow> Inl e
     | Inr _ \<Rightarrow> let c' = decided Rejected u note now c
         in Inr (c', add_audit (cr_audit (Some u) req ''rejected'' c' (state_dict Pending [])
              (state_dict Rejected [(''note'', opt_str note)])) (put_cr c' t)))"

definition mark_cancelled :: "user \<Rightarrow> scoped_request option \<Rightarrow> string option \<Rightarrow> datetime \<Rightarrow>
    change_request \<Rightarrow> 'w tx \<Rightarrow> string + change_request \<times> 'w tx" where
  "mark_cancelled u req note now c t = (case require_state c Pending of Inl e \<Rightarrow> Inl e
     | Inr _ \<Rightarrow> let c' = decided Cancelled u note now c
         in Inr (c', add_audit (cr_audit (Some u) req ''cancelled'' c' (state_dict Pending [])
              (state_dict Cancelled [(''note'', opt_str note)])) (put_cr c' t)))"

definition mark_executed :: "user \<Rightarrow> uuid option \<Rightarrow> scoped_request option \<Rightarrow> pyval \<Rightarrow> datetime \<Rightarrow>
    change_request \<Rightarrow> 'w tx \<Rightarrow> string + change_request \<times> 'w tx" where
  "mark_executed u requester req outcome_value now c t = (case require_state c Approved of Inl e \<Rightarrow> Inl e
     | Inr _ \<Rightarrow> let c' = c\<lparr>cr_state := Executed, cr_result := Some outcome_value, executed_at := Some now\<rparr>
         in Inr (c', add_audit (cr_audit (Some u) req ''executed'' c'
              (state_dict Approved [(''requested_by'', opt_str requester)])
              (state_dict Executed [(''result'', outcome_value)])) (put_cr c' t)))"

definition mark_failed :: "user \<Rightarrow> uuid option \<Rightarrow> scoped_request option \<Rightarrow> string \<Rightarrow> datetime \<Rightarrow>
    change_request \<Rightarrow> 'w tx \<Rightarrow> string + change_request \<times> 'w tx" where
  "mark_failed u requester req err now c t = (case require_state c Approved of Inl e \<Rightarrow> Inl e
     | Inr _ \<Rightarrow> let c' = c\<lparr>cr_state := Failed, cr_error := Some err, executed_at := Some now\<rparr>
         in Inr (c', add_audit (cr_audit (Some u) req ''failed'' c'
              (state_dict Approved [(''requested_by'', opt_str requester)])
              (state_dict Failed [(''error'', PyStr err)])) (put_cr c' t)))"

definition mark_expired :: "datetime \<Rightarrow> change_request \<Rightarrow> 'w tx \<Rightarrow> string + change_request \<times> 'w tx" where
  "mark_expired now c t = (case require_state c Pending of Inl e \<Rightarrow> Inl e
     | Inr _ \<Rightarrow> let c' = c\<lparr>cr_state := Expired, decided_at := Some now\<rparr>
         in Inr (c', add_audit (cr_audit None None ''expired'' c' (state_dict Pending [])
              (state_dict Expired [])) (put_cr c' t)))"

end
