(* ===== verification/Approval_Flow.thy ===== *)
theory Approval_Flow
  imports Approvals
begin

text \<open>
  The orchestration of the two-person rule: the gate in front of a risky operation
  (\<^verbatim>\<open>services/approvals/gate.py\<close>), the approve and reject spine (\<^verbatim>\<open>services/approvals/service.py\<close>),
  the cancel route, the token-scope check of \<^verbatim>\<open>services/api_token_scopes.py\<close> and the expiry sweep
  (\<^verbatim>\<open>tasks/change_request_expiry.py\<close>). Each takes the time it runs at; what other actors commit while
  the row lock is not held is the argument \<open>env\<close>. Strings are Latin-1: the long dash of some messages is
  written as a hyphen.
\<close>

section \<open>Token scopes\<close>

definition OPERATION_WRITE_SCOPE :: "(string \<times> string) list" where
  "OPERATION_WRITE_SCOPE =
     map (\<lambda>n. (n, ''ipam:write''))
       [''allocate_subnet'', ''create_ip_address'', ''create_address_set'', ''delete_subnet'',
        ''delete_block'', ''delete_space'', ''commit_netbox_import'', ''create_multicast_group'',
        ''allocate_multicast_groups'', ''create_multicast_domain'', ''update_multicast_domain'',
        ''delete_multicast_domain''] @
     map (\<lambda>n. (n, ''dns:write''))
       [''create_dns_record'', ''create_dns_zone'', ''delete_zone'', ''sign_zone_dnssec'',
        ''unsign_zone_dnssec'', ''set_zone_update_acl'', ''commit_dns_import''] @
     map (\<lambda>n. (n, ''dhcp:write''))
       [''create_dhcp_static'', ''delete_scope'', ''delete_group'', ''commit_dhcp_import'',
        ''allowlist_ra_router'', ''block_mac'']"

definition enforce_operation_token_scope :: "scoped_request \<Rightarrow> string \<Rightarrow> http_error + unit" where
  "enforce_operation_token_scope req name =
     (if api_token_scopes req = [] then Inr ()
      else let needed = map_of OPERATION_WRITE_SCOPE name in
        if (case needed of None \<Rightarrow> False | Some n \<Rightarrow> n \<in> set (api_token_scopes req)) then Inr ()
        else Inl \<lparr>status_code = HTTP_403_FORBIDDEN,
               detail = ''Token scope insufficient: operation '' @ quoted name @ '' needs '' @
                 (case needed of Some n \<Rightarrow> ''the '' @ n @ '' scope''
                  | None \<Rightarrow> ''an unrestricted token (no write scope covers this operation)'')\<rparr>)"

section \<open>Decision errors\<close>

text \<open>\<open>StateError\<close> is a \<open>ChangeRequestStateError\<close> nobody caught.\<close>

datatype decision_error = DecisionError string | DecisionNotFound string | DecisionForbidden string
  | DecisionConflict string | DecisionUnprocessable string | StateError string

fun decision_status :: "decision_error \<Rightarrow> int" where
  "decision_status (DecisionError _) = 400"
| "decision_status (DecisionNotFound _) = 404"
| "decision_status (DecisionForbidden _) = 403"
| "decision_status (DecisionConflict _) = 409"
| "decision_status (DecisionUnprocessable _) = 422"
| "decision_status (StateError _) = 500"

type_synonym 'w decision = "(decision_error + change_request) \<times> 'w db_session"

definition enforce_token_scope :: "scoped_request option \<Rightarrow> string \<Rightarrow> decision_error + unit" where
  "enforce_token_scope req name = (case req of None \<Rightarrow> Inr ()
     | Some r \<Rightarrow> (case enforce_operation_token_scope r name of
         Inl e \<Rightarrow> Inl (DecisionForbidden (detail e)) | Inr _ \<Rightarrow> Inr ()))"

definition can_approve :: "user \<Rightarrow> bool" where
  "can_approve u = user_has_permission u ''approve'' ''change_request'' None"

section \<open>The text of a refusal\<close>

text \<open>\<open>str(v)\<close>; the text of a list or dict is the argument \<open>pyrepr\<close>.\<close>

fun py_str :: "(pyval \<Rightarrow> string) \<Rightarrow> pyval \<Rightarrow> string" where
  "py_str pyrepr PyNone = ''None''"
| "py_str pyrepr (PyBool b) = (if b then ''True'' else ''False'')"
| "py_str pyrepr (PyInt i) = int_str i"
| "py_str pyrepr (PyFloat t) = t"
| "py_str pyrepr (PyStr s) = s"
| "py_str pyrepr (PyOther s) = s"
| "py_str pyrepr v = pyrepr v"

fun is_dict :: "pyval \<Rightarrow> bool" where
  "is_dict (PyDict _) = True"
| "is_dict _ = False"

definition warning_text :: "(pyval \<Rightarrow> string) \<Rightarrow> pyval \<Rightarrow> string" where
  "warning_text pyrepr w =
     (let f = (\<lambda>k. py_str pyrepr (args_get w k)); kind = args_get w ''kind'' in
      if \<not> is_dict w then py_str pyrepr w
      else if kind = PyStr ''fqdn_collision'' then
        ''The name '' @ f ''fqdn'' @ '' is already used by '' @ f ''existing_ip'' @ '' in '' @
        f ''existing_subnet'' @ ''.''
      else if kind = PyStr ''mac_collision'' then
        ''MAC '' @ f ''mac_address'' @ '' is already on '' @ f ''existing_ip'' @ '' in '' @
        f ''existing_subnet'' @ ''.''
      else if kind = PyStr ''ptr_collision'' then
        ''The reverse name '' @ f ''ptr_name'' @ '' in '' @ f ''zone'' @ '' already points to '' @
        f ''existing_value'' @ ''.''
      else if kind = PyStr ''dynamic_pool'' then
        ''The address '' @ f ''address'' @ '' now falls inside a DHCP dynamic pool'' @
        (if truthy (args_get w ''pool_start'') \<and> truthy (args_get w ''pool_end'')
         then '' ('' @ f ''pool_start'' @ '' to '' @ f ''pool_end'' @ '')'' else [])
        @ '', so the DHCP server may hand it to another device.''
      else (case args_get w ''message'' of
          PyStr m \<Rightarrow> (if m \<noteq> [] then m else json_dumps True '', '' '': '' w)
        | _ \<Rightarrow> json_dumps True '', '' '': '' w))"

definition refusal_text :: "(pyval \<Rightarrow> string) \<Rightarrow> pyval \<Rightarrow> string" where
  "refusal_text pyrepr d = (case d of
     PyStr s \<Rightarrow> s
   | _ \<Rightarrow> (if is_dict d then
        (case args_get d ''warnings'' of
           PyList ws \<Rightarrow> (if ws \<noteq> [] then py_join '' '' (map (warning_text pyrepr) ws)
                          else json_dumps True '', '' '': '' d)
         | _ \<Rightarrow> json_dumps True '', '' '': '' d)
      else json_dumps True '', '' '': '' d))"

section \<open>The gate in front of an operation\<close>

record change_request_pending =
  crp_id :: uuid
  crp_state :: string
  crp_preview_text :: string

definition resource_id_from_args :: "(pyval \<Rightarrow> string) \<Rightarrow> pyval \<Rightarrow> string option" where
  "resource_id_from_args pyrepr args =
     map_option (\<lambda>k. py_str pyrepr (args_get args k))
       (find (\<lambda>k. args_get args k \<noteq> PyNone)
         [''zone_id'', ''scope_id'', ''subnet_id'', ''block_id'', ''space_id'', ''group_id''])"

text \<open>What the gate tells its caller: run inline, queued, or the HTTP error it raises (an error of the
  preview propagates).\<close>

datatype gate_answer = RunInline | Queued change_request_pending | GateHttp int string
  | GateCreate create_error | GateOp op_error

definition gate_or_execute :: "(pyval \<Rightarrow> string) \<Rightarrow> uuid \<Rightarrow> datetime \<Rightarrow> user \<Rightarrow> scoped_request \<Rightarrow>
    'w operation \<Rightarrow> pyval \<Rightarrow> int option \<Rightarrow> 'w db_session \<Rightarrow> gate_answer \<times> 'w db_session" where
  "gate_or_execute pyrepr i now u req op args cnt s =
     (if \<not> approvals_module (res (work s)) then (RunInline, s)
      else case required_permission op of None \<Rightarrow> (RunInline, s)
      | Some (act, rtype) \<Rightarrow>
        (case match_policy (policies (res (work s))) rtype act cnt of None \<Rightarrow> (RunInline, s)
         | Some policy \<Rightarrow>
           (if is_effective_superadmin u \<and> \<not> applies_to_superadmin policy then (RunInline, s)
            else case preview op (res (work s)) u args of
              Inl e \<Rightarrow> (GateOp e, s)
            | Inr p \<Rightarrow>
              (if \<not> p_ok p then (GateHttp 409 (p_detail p), s)
               else case create_change_request i now u req
                   \<lparr>in_operation = op_name op, in_resource_type = rtype,
                    in_resource_id = resource_id_from_args pyrepr args,
                    in_resource_display = take 500 (p_preview_text p), in_args = args,
                    in_preview_text = p_preview_text p,
                    in_risk_reason = (if ap_name policy \<noteq> [] then ap_name policy else act @ '':'' @ rtype),
                    in_ttl_hours = ttl_hours policy, in_origin = ''gate'',
                    in_justification = None\<rparr> (work s) of
                   Inl e \<Rightarrow> (GateCreate e, s)
                 | Inr (c, t) \<Rightarrow>
                     (Queued \<lparr>crp_id = cr_id c, crp_state = ''pending'', crp_preview_text = cr_preview_text c\<rparr>,
                      commit (s\<lparr>work := t\<rparr>))))))"

section \<open>The approve spine\<close>

text \<open>After a rollback released the row lock: others may have committed, then the row is locked and
  read again.\<close>

definition after_others :: "('w tx \<Rightarrow> 'w tx) \<Rightarrow> 'w db_session \<Rightarrow> 'w db_session" where
  "after_others env s = s\<lparr>durable := env (durable s), work := env (durable s)\<rparr>"

definition relock_after_failed_apply :: "uuid \<Rightarrow> user \<Rightarrow> 'w db_session \<Rightarrow>
    decision_error + change_request \<times> bool" where
  "relock_after_failed_apply i u s = (case get_change_request i (work s) of
     None \<Rightarrow> Inl (DecisionConflict ''Change request vanished mid-apply - investigate'')
   | Some c \<Rightarrow>
      (if cr_state c = Pending then Inr (c, False)
       else if cr_state c = Approved \<and> decided_by_user_id c = Some (user_id u) \<and> executed_at c = None
       then Inr (c, True)
       else Inl (DecisionConflict
         (''Change request was decided by someone else while it was being applied (state='' @
          quoted (state_text (cr_state c)) @ '')''))))"

definition stamp_apply_failed :: "('w tx \<Rightarrow> 'w tx) \<Rightarrow> datetime \<Rightarrow> uuid \<Rightarrow> user \<Rightarrow> scoped_request option \<Rightarrow>
    string option \<Rightarrow> string \<Rightarrow> 'w db_session \<Rightarrow> 'w decision" where
  "stamp_apply_failed env now i u req note err s0 =
     (let s = after_others env s0 in
      case relock_after_failed_apply i u s of Inl e \<Rightarrow> (Inl e, s)
      | Inr (c, approval_committed) \<Rightarrow>
        (case (if approval_committed then Inr (c, work s) else mark_approved u req note now c (work s)) of
           Inl e \<Rightarrow> (Inl (StateError e), s)
         | Inr (c1, t1) \<Rightarrow>
           (case mark_failed u (requested_by_user_id c) req err now c1 t1 of
              Inl e \<Rightarrow> (Inl (StateError e), s)
            | Inr (c2, t2) \<Rightarrow> (Inr c2, commit (s\<lparr>work := t2\<rparr>)))))"

text \<open>The outcome of steps 1 to 4b and the validation of the stored arguments.\<close>

datatype 'w guard = Refuse decision_error | ExpireNow change_request
  | Proceed change_request "'w operation" pyval

definition approve_guards :: "'w registry \<Rightarrow> datetime \<Rightarrow> uuid \<Rightarrow> user \<Rightarrow> scoped_request option \<Rightarrow> 'w tx \<Rightarrow>
    'w guard" where
  "approve_guards reg now i u req t =
     (case get_change_request i t of
        None \<Rightarrow> Refuse (DecisionNotFound (''Change request '' @ i @ '' not found''))
      | Some c \<Rightarrow>
        (case enforce_token_scope req (cr_operation c) of Inl e \<Rightarrow> Refuse e
         | Inr _ \<Rightarrow>
           (if cr_state c \<noteq> Pending
            then Refuse (DecisionConflict (''Change request is not pending (state='' @
                   quoted (state_text (cr_state c)) @ '')''))
            else if expires_at c \<le> now then ExpireNow c
            else case requested_by_user_id c of
              None \<Rightarrow> Refuse (DecisionConflict
                ''Requester no longer exists; cancel and recreate this change request'')
            | Some r \<Rightarrow>
              (if user_id u = r
               then Refuse (DecisionForbidden ''You cannot approve your own change request'')
               else case get_operation reg (cr_operation c) of
                 None \<Rightarrow> Refuse (DecisionError (''Operation '' @ quoted (cr_operation c) @ '' is not registered''))
               | Some op \<Rightarrow>
                 (if \<not> can_approve u
                  then Refuse (DecisionForbidden (need_text ''approve'' ''change_request''))
                  else case enforce_operation_permission u op of
                    Inl m \<Rightarrow> Refuse (DecisionForbidden m)
                  | Inr _ \<Rightarrow>
                    (if cr_operation c \<in> set CONTROL_OPERATION_NAMES \<and> \<not> is_effective_superadmin u
                     then Refuse (DecisionForbidden
                       ''Approving a control-plane change to the approval workflow requires superadmin'')
                     else case validate_args op (if truthy (cr_args c) then cr_args c else PyDict []) of
                       None \<Rightarrow> Refuse (DecisionUnprocessable
                         ''Stored args no longer validate for this operation'')
                     | Some args \<Rightarrow> Proceed c op args))))))"

text \<open>Approved and executed in one commit, without running the operation.\<close>

definition resolve_without_apply :: "datetime \<Rightarrow> user \<Rightarrow> scoped_request option \<Rightarrow> string option \<Rightarrow> pyval \<Rightarrow>
    change_request \<Rightarrow> 'w db_session \<Rightarrow> 'w decision" where
  "resolve_without_apply now u req note outcome_value c s =
     (case mark_approved u req note now c (work s) of Inl e \<Rightarrow> (Inl (StateError e), s)
      | Inr (c1, t1) \<Rightarrow>
        (case mark_executed u (requested_by_user_id c) req outcome_value now c1 t1 of
           Inl e \<Rightarrow> (Inl (StateError e), s)
         | Inr (c2, t2) \<Rightarrow> (Inr c2, commit (s\<lparr>work := t2\<rparr>))))"

text \<open>The commits of one \<open>apply()\<close>: the first carries the approval's audit row as its last write.\<close>

fun play_commits :: "audit_log option \<Rightarrow> ('w resources \<times> audit_log list) list \<Rightarrow> 'w db_session \<Rightarrow>
    audit_log option \<times> 'w db_session" where
  "play_commits approval [] s = (approval, s)"
| "play_commits approval ((r, rws) # cs) s = play_commits None cs
     (commit (in_work (\<lambda>t. t\<lparr>res := r, audit := audit t @ rws @
        (case approval of None \<Rightarrow> [] | Some a \<Rightarrow> [a])\<rparr>) s))"

text \<open>After \<open>apply()\<close> returned or raised: a second permission check that fails is a refusal, any other
  error is stamped on the row, a result makes the row executed. \<open>approval\<close> is the audit row of the
  approval when no commit has carried it yet.\<close>

definition finish_apply :: "(pyval \<Rightarrow> string) \<Rightarrow> ('w tx \<Rightarrow> 'w tx) \<Rightarrow> datetime \<Rightarrow> uuid \<Rightarrow> user \<Rightarrow>
    scoped_request option \<Rightarrow> string option \<Rightarrow> uuid option \<Rightarrow> change_request \<Rightarrow> 'w apply_run \<Rightarrow>
    audit_log option \<Rightarrow> 'w db_session \<Rightarrow> 'w decision" where
  "finish_apply pyrepr env now i u req note requester c run approval s2 =
     (let s3 = in_work (\<lambda>t. t\<lparr>res := fst (rest run), audit := audit t @ snd (rest run)\<rparr>) s2 in
      case outcome run of
        Inl (PermissionErr m) \<Rightarrow> (Inl (DecisionForbidden m), rollback s3)
      | Inl (HttpErr d) \<Rightarrow>
          stamp_apply_failed env now i u req note (refusal_text pyrepr d) (rollback s3)
      | Inl (OtherErr m) \<Rightarrow> stamp_apply_failed env now i u req note m (rollback s3)
      | Inr v \<Rightarrow>
          (let t = (case approval of None \<Rightarrow> work s3 | Some a \<Rightarrow> add_audit a (work s3)) in
           case mark_executed u requester req v now c t of
             Inl e \<Rightarrow> (Inl (StateError e), s3)
           | Inr (c', t') \<Rightarrow> (Inr c', commit (s3\<lparr>work := t'\<rparr>))))"

definition run_apply :: "(pyval \<Rightarrow> string) \<Rightarrow> ('w tx \<Rightarrow> 'w tx) \<Rightarrow> datetime \<Rightarrow> uuid \<Rightarrow> user \<Rightarrow>
    scoped_request option \<Rightarrow> string option \<Rightarrow> 'w operation \<Rightarrow> pyval \<Rightarrow> change_request \<Rightarrow>
    'w db_session \<Rightarrow> 'w decision" where
  "run_apply pyrepr env now i u req note op args c0 s0 =
     (case stamp_approved u note now c0 of Inl e \<Rightarrow> (Inl (StateError e), s0)
      | Inr c \<Rightarrow>
        (let s1 = in_work (put_cr c) s0;
             run = apply_op op (res (work s1)) u args;
             (approval, s2) = play_commits (Some (audit_approved u req note c)) (commits run) s1
         in finish_apply pyrepr env now i u req note (requested_by_user_id c0) c run approval s2))"

text \<open>Steps 5 to 6, on the preview of the operation.\<close>

definition approve_previewed :: "(pyval \<Rightarrow> string) \<Rightarrow> ('w tx \<Rightarrow> 'w tx) \<Rightarrow> datetime \<Rightarrow> uuid \<Rightarrow> user \<Rightarrow>
    scoped_request option \<Rightarrow> string option \<Rightarrow> change_request \<Rightarrow> 'w operation \<Rightarrow> pyval \<Rightarrow>
    'w db_session \<Rightarrow> 'w decision" where
  "approve_previewed pyrepr env now i u req note c op args s =
     (let failed = (\<lambda>err. stamp_apply_failed env now i u req note err (rollback s)) in
      case preview op (res (work s)) u args of
        Inl (PermissionErr m) \<Rightarrow> (Inl (DecisionForbidden m), rollback s)
      | Inl (HttpErr d) \<Rightarrow> failed (refusal_text pyrepr d)
      | Inl (OtherErr m) \<Rightarrow> failed m
      | Inr p \<Rightarrow>
          (if \<not> p_ok p \<and> forbidden_detail p \<noteq> None
           then (Inl (DecisionForbidden (the (forbidden_detail p))), rollback s)
           else if \<not> p_ok p
           then failed (if p_detail p \<noteq> [] then p_detail p else ''The operation can no longer be applied.'')
           else if idempotent p
           then resolve_without_apply now u req note
                  (PyDict [(''idempotent'', PyBool True), (''note'', PyStr ''already in desired state''),
                     (''detail'', PyStr (p_detail p))])
                  (c\<lparr>cr_preview_text := p_preview_text p\<rparr>) s
           else if origin c = ''gate'' \<and> p_preview_text p \<noteq> cr_preview_text c
           then (Inl (DecisionConflict
                  (''The change'' @ squote @ ''s scope changed since it was requested - cancel and '' @
                   ''re-submit to capture the new scope.'')), s)
           else run_apply pyrepr env now i u req note op args
                  (c\<lparr>cr_preview_text := p_preview_text p\<rparr>) s))"

definition approve_change_request :: "'w registry \<Rightarrow> (pyval \<Rightarrow> string) \<Rightarrow> ('w tx \<Rightarrow> 'w tx) \<Rightarrow> datetime \<Rightarrow>
    uuid \<Rightarrow> user \<Rightarrow> scoped_request option \<Rightarrow> string option \<Rightarrow> 'w db_session \<Rightarrow> 'w decision" where
  "approve_change_request reg pyrepr env now i u req note s =
     (case approve_guards reg now i u req (work s) of
        Refuse e \<Rightarrow> (Inl e, s)
      | ExpireNow c \<Rightarrow>
          (case mark_expired now c (work s) of Inl e \<Rightarrow> (Inl (StateError e), s)
           | Inr (c', t) \<Rightarrow> (Inl (DecisionConflict ''Change request has expired''), commit (s\<lparr>work := t\<rparr>)))
      | Proceed c op args \<Rightarrow>
          (if cr_operation c \<in> set CONTROL_OPERATION_NAMES \<and>
              control_gate_premise_lost (res (work s)) args
           then resolve_without_apply now u req note
                  (PyDict [(''idempotent'', PyBool True),
                     (''note'', PyStr ''self-protection lock already off; gated change no longer applies'')])
                  c s
           else approve_previewed pyrepr env now i u req note c op args s))"

definition reject_change_request :: "datetime \<Rightarrow> uuid \<Rightarrow> user \<Rightarrow> scoped_request option \<Rightarrow> string option \<Rightarrow>
    'w db_session \<Rightarrow> 'w decision" where
  "reject_change_request now i u req note s =
     (if \<not> can_approve u then (Inl (DecisionForbidden (need_text ''approve'' ''change_request'')), s)
      else case get_change_request i (work s) of
        None \<Rightarrow> (Inl (DecisionNotFound (''Change request '' @ i @ '' not found'')), s)
      | Some c \<Rightarrow>
        (case enforce_token_scope req (cr_operation c) of Inl e \<Rightarrow> (Inl e, s)
         | Inr _ \<Rightarrow>
           (if requested_by_user_id c = Some (user_id u)
            then (Inl (DecisionForbidden ''You cannot reject your own request - cancel it instead''), s)
            else case mark_rejected u req note now c (work s) of
              Inl e \<Rightarrow> (Inl (DecisionConflict e), s)
            | Inr (c', t) \<Rightarrow> (Inr c', commit (s\<lparr>work := t\<rparr>)))))"

text \<open>The cancel route of \<^verbatim>\<open>api/v1/change_requests/router.py\<close>.\<close>

definition cancel_request :: "datetime \<Rightarrow> uuid \<Rightarrow> user \<Rightarrow> scoped_request \<Rightarrow> string option \<Rightarrow>
    'w db_session \<Rightarrow> (int \<times> string + change_request) \<times> 'w db_session" where
  "cancel_request now i u req note s = (case get_change_request i (work s) of
     None \<Rightarrow> (Inl (404, ''Not Found''), s)
   | Some c \<Rightarrow>
      (if origin c \<noteq> ''gate'' then (Inl (404, ''Not Found''), s)
       else case enforce_operation_token_scope req (cr_operation c) of
         Inl e \<Rightarrow> (Inl (status_code e, detail e), s)
       | Inr _ \<Rightarrow>
         (if requested_by_user_id c \<noteq> Some (user_id u) \<and> \<not> is_effective_superadmin u
          then (Inl (403, ''Only the requester or a superadmin can cancel this request''), s)
          else case mark_cancelled u (Some req) note now c (work s) of
            Inl e \<Rightarrow> (Inl (409, e), s)
          | Inr (c', t) \<Rightarrow> (Inr c', commit (s\<lparr>work := t\<rparr>)))))"

section \<open>The expiry sweep\<close>

definition sweep_candidates :: "datetime \<Rightarrow> 'w tx \<Rightarrow> uuid list" where
  "sweep_candidates now t = map cr_id (filter (\<lambda>c. cr_state c = Pending \<and> expires_at c \<le> now) (crs t))"

text \<open>\<open>broken i\<close>: handling row \<open>i\<close> raises, is logged and rolled back. The result counts the rows
  checked, expired and skipped.\<close>

fun sweep_rows :: "datetime \<Rightarrow> (uuid \<Rightarrow> bool) \<Rightarrow> uuid list \<Rightarrow> 'w db_session \<Rightarrow> (nat \<times> nat \<times> nat) \<Rightarrow>
    (nat \<times> nat \<times> nat) \<times> 'w db_session" where
  "sweep_rows now broken [] s counts = (counts, s)"
| "sweep_rows now broken (i # is) s (checked, expired, skipped) =
     (if broken i then sweep_rows now broken is (rollback s) (checked + 1, expired, skipped + 1)
      else case get_change_request i (work s) of
        None \<Rightarrow> sweep_rows now broken is (commit s) (checked + 1, expired, skipped + 1)
      | Some c \<Rightarrow>
        (if cr_state c \<noteq> Pending \<or> now < expires_at c
         then sweep_rows now broken is (commit s) (checked + 1, expired, skipped + 1)
         else case mark_expired now c (work s) of
           Inl e \<Rightarrow> sweep_rows now broken is (rollback s) (checked + 1, expired, skipped + 1)
         | Inr (c', t) \<Rightarrow> sweep_rows now broken is (commit (s\<lparr>work := t\<rparr>)) (checked + 1, expired + 1, skipped)))"

definition sweep :: "datetime \<Rightarrow> (uuid \<Rightarrow> bool) \<Rightarrow> 'w db_session \<Rightarrow> (nat \<times> nat \<times> nat) \<times> 'w db_session" where
  "sweep now broken s = sweep_rows now broken (sweep_candidates now (work s)) s (0, 0, 0)"

end
