(* ===== verification/Approval_Safety.thy ===== *)
theory Approval_Safety
  imports Approval_Flow
begin

text \<open>
  What the two-person rule guarantees: the audit trail of a request replays to its state, a request
  that was approved has two different people on it, an operation's effect is never durable without
  the approval that allowed it, and policies are matched by strength.
\<close>

section \<open>Replaying an audit trail\<close>

text \<open>The legal transitions, by the audit action that records them.\<close>

fun edge :: "cr_state \<Rightarrow> string \<Rightarrow> cr_state option" where
  "edge Pending act = (if act = ''approved'' then Some Approved else if act = ''rejected'' then Some Rejected
     else if act = ''cancelled'' then Some Cancelled else if act = ''expired'' then Some Expired else None)"
| "edge Approved act = (if act = ''executed'' then Some Executed
     else if act = ''failed'' then Some Failed else None)"
| "edge _ act = None"

fun run_trail :: "cr_state \<Rightarrow> string list \<Rightarrow> cr_state option" where
  "run_trail st [] = Some st"
| "run_trail st (a # as) = (case edge st a of None \<Rightarrow> None | Some st' \<Rightarrow> run_trail st' as)"

definition replay :: "string list \<Rightarrow> cr_state option" where
  "replay acts = (case acts of [] \<Rightarrow> None | a # as \<Rightarrow> (if a = ''requested'' then run_trail Pending as else None))"

definition about :: "uuid \<Rightarrow> audit_log \<Rightarrow> bool" where
  "about i row \<longleftrightarrow> al_resource_type row = ''change_request'' \<and> al_resource_id row = i"

definition actions_of :: "uuid \<Rightarrow> audit_log list \<Rightarrow> string list" where
  "actions_of i rws = map al_action (filter (about i) rws)"

lemma actions_of_append [simp]: "actions_of i (xs @ ys) = actions_of i xs @ actions_of i ys"
  by (simp add: actions_of_def)

lemma run_trail_append: "run_trail st (xs @ [a]) =
  (case run_trail st xs of None \<Rightarrow> None | Some st' \<Rightarrow> edge st' a)"
  by (induction xs arbitrary: st) (auto split: option.splits)

lemma replay_append: "replay acts = Some st \<Longrightarrow> edge st a = Some st' \<Longrightarrow> replay (acts @ [a]) = Some st'"
  by (cases acts) (auto simp: replay_def run_trail_append split: if_splits)

section \<open>The invariant of the table\<close>

text \<open>An approved request has a requester and a different person who decided it.\<close>

definition two_people :: "change_request \<Rightarrow> bool" where
  "two_people c = (if cr_state c \<in> {Approved, Executed, Failed}
     then (case (requested_by_user_id c, decided_by_user_id c) of
             (Some r, Some d) \<Rightarrow> r \<noteq> d | _ \<Rightarrow> False)
     else True)"

definition trail_ok :: "'w tx \<Rightarrow> bool" where
  "trail_ok t \<longleftrightarrow> distinct (map cr_id (crs t)) \<and>
     list_all (\<lambda>c. replay (actions_of (cr_id c) (audit t)) = Some (cr_state c) \<and> two_people c) (crs t)"

lemma get_change_requestD:
  "get_change_request i t = Some c \<Longrightarrow> c \<in> set (crs t) \<and> cr_id c = i"
  unfolding get_change_request_def by (drule find_SomeD) auto

lemma cr_audit_about [simp]:
  "about i (cr_audit u req act c old new) \<longleftrightarrow> cr_id c = i" "al_action (cr_audit u req act c old new) = act"
  by (auto simp: about_def cr_audit_def new_audit_log_def)

lemma actions_of_cr_audit [simp]:
  "actions_of i [cr_audit u req act c old new] = (if cr_id c = i then [act] else [])"
  by (simp add: actions_of_def)

lemma put_cr_ids [simp]: "map cr_id (crs (put_cr c t)) = map cr_id (crs t)"
  by (simp add: put_cr_def)

lemma put_cr_fields [simp]: "audit (put_cr c t) = audit t" "res (put_cr c t) = res t"
  by (simp_all add: put_cr_def)

lemma add_audit_fields [simp]: "crs (add_audit row t) = crs t" "audit (add_audit row t) = audit t @ [row]"
  "res (add_audit row t) = res t"
  by (simp_all add: add_audit_def)

text \<open>One transition with its audit row, with other rows that are not about requests beside it.\<close>

lemma transition_ok:
  assumes "trail_ok t" "c \<in> set (crs t)" "cr_id c' = cr_id c"
    "edge (cr_state c) act = Some (cr_state c')" "two_people c'"
    "crs t' = crs (put_cr c' t)" "audit t' = audit t @ rws"
    "\<And>i. actions_of i rws = (if i = cr_id c then [act] else [])"
  shows "trail_ok t'"
proof -
  have "replay (actions_of (cr_id x) (audit t')) = Some (cr_state x) \<and> two_people x"
    if "x \<in> set (crs t')" for x
  proof -
    from that assms(6) obtain y where y: "y \<in> set (crs t)" "x = (if cr_id y = cr_id c' then c' else y)"
      by (auto simp: put_cr_def)
    show ?thesis
    proof (cases "cr_id y = cr_id c")
      case True
      then have "y = c" using assms(1,2) y(1) by (auto simp: trail_ok_def distinct_map inj_on_def)
      then show ?thesis using assms y replay_append by (auto simp: trail_ok_def list_all_iff)
    next
      case False
      then show ?thesis using assms y by (auto simp: trail_ok_def list_all_iff)
    qed
  qed
  moreover have "distinct (map cr_id (crs t'))"
    using assms(1,6) by (simp add: trail_ok_def put_cr_ids)
  ultimately show ?thesis by (simp add: trail_ok_def list_all_iff)
qed

lemmas mark_defs = mark_approved_def mark_rejected_def mark_cancelled_def mark_executed_def
  mark_failed_def mark_expired_def stamp_approved_def require_state_def decided_def Let_def

lemma require_state_Inr [simp]: "require_state c st = Inr x \<longleftrightarrow> cr_state c = st"
  by (simp add: require_state_def)

lemma marks_ok:
  assumes "trail_ok t" "c \<in> set (crs t)"
  shows "mark_rejected u req note now c t = Inr (c', t') \<Longrightarrow> trail_ok t'"
    and "mark_cancelled u req note now c t = Inr (c', t') \<Longrightarrow> trail_ok t'"
    and "mark_expired now c t = Inr (c', t') \<Longrightarrow> trail_ok t'"
    and "mark_approved u req note now c t = Inr (c', t') \<Longrightarrow>
      requested_by_user_id c = Some r \<Longrightarrow> r \<noteq> user_id u \<Longrightarrow> trail_ok t'"
    and "mark_executed u rq req v now c t = Inr (c', t') \<Longrightarrow> trail_ok t'"
    and "mark_failed u rq req err now c t = Inr (c', t') \<Longrightarrow> trail_ok t'"
proof -
  have tp: "two_people c" using assms by (auto simp: trail_ok_def list_all_iff)
  note step = transition_ok [OF assms]
  show "mark_rejected u req note now c t = Inr (c', t') \<Longrightarrow> trail_ok t'"
    by (rule step [of c' "''rejected''" t']) (auto simp: mark_defs two_people_def split: if_splits)
  show "mark_cancelled u req note now c t = Inr (c', t') \<Longrightarrow> trail_ok t'"
    by (rule step [of c' "''cancelled''" t']) (auto simp: mark_defs two_people_def split: if_splits)
  show "mark_expired now c t = Inr (c', t') \<Longrightarrow> trail_ok t'"
    by (rule step [of c' "''expired''" t']) (auto simp: mark_defs two_people_def split: if_splits)
  show "mark_approved u req note now c t = Inr (c', t') \<Longrightarrow>
      requested_by_user_id c = Some r \<Longrightarrow> r \<noteq> user_id u \<Longrightarrow> trail_ok t'"
    by (rule step [of c' "''approved''" t'])
      (auto simp: mark_defs two_people_def audit_approved_def split: if_splits)
  show "mark_executed u rq req v now c t = Inr (c', t') \<Longrightarrow> trail_ok t'"
    using tp by (intro step [of c' "''executed''" t'])
      (auto simp: mark_defs two_people_def split: if_splits option.splits)
  show "mark_failed u rq req err now c t = Inr (c', t') \<Longrightarrow> trail_ok t'"
    using tp by (intro step [of c' "''failed''" t'])
      (auto simp: mark_defs two_people_def split: if_splits option.splits)
qed

section \<open>Sessions keep the invariant\<close>

text \<open>Every durable state of the session, past and present.\<close>

definition safe :: "'w db_session \<Rightarrow> bool" where
  "safe s \<longleftrightarrow> trail_ok (durable s) \<and> list_all trail_ok (history s)"

lemma safe_simps [simp]:
  "safe (commit s) \<longleftrightarrow> list_all trail_ok (history s) \<and> trail_ok (work s)"
  "safe (rollback s) \<longleftrightarrow> safe s" "safe (in_work f s) \<longleftrightarrow> safe s" "safe (s\<lparr>work := t\<rparr>) \<longleftrightarrow> safe s"
  "work (commit s) = work s" "durable (commit s) = work s" "history (commit s) = history s @ [work s]"
  "work (rollback s) = durable s" "durable (rollback s) = durable s" "history (rollback s) = history s"
  "work (in_work f s) = f (work s)" "durable (in_work f s) = durable s" "history (in_work f s) = history s"
  "work (open_db t) = t" "durable (open_db t) = t" "history (open_db t) = []"
  by (auto simp: safe_def commit_def rollback_def in_work_def open_db_def)

lemma safe_history: "safe s \<Longrightarrow> list_all trail_ok (history s)" "safe s \<Longrightarrow> trail_ok (durable s)"
  by (simp_all add: safe_def)

text \<open>Audit rows of something else than a change request, and an operation that writes only such.\<close>

definition quiet :: "audit_log list \<Rightarrow> bool" where
  "quiet rws \<longleftrightarrow> list_all (\<lambda>r. al_resource_type r \<noteq> ''change_request'') rws"

definition quiet_op :: "'w operation \<Rightarrow> bool" where
  "quiet_op op \<longleftrightarrow> (\<forall>r u a. quiet (snd (rest (apply_op op r u a))) \<and>
     list_all (\<lambda>(_, rws). quiet rws) (commits (apply_op op r u a)))"

lemma quiet_actions [simp]: "quiet rws \<Longrightarrow> actions_of i rws = []"
  by (auto simp: quiet_def actions_of_def about_def list_all_iff filter_empty_conv)

text \<open>Other actors keep the invariant and do not change who requested a row.\<close>

definition orderly :: "('w tx \<Rightarrow> 'w tx) \<Rightarrow> bool" where
  "orderly env \<longleftrightarrow> (\<forall>t. trail_ok t \<longrightarrow> trail_ok (env t) \<and>
     (\<forall>i c0 c. get_change_request i t = Some c0 \<longrightarrow> get_change_request i (env t) = Some c \<longrightarrow>
        requested_by_user_id c = requested_by_user_id c0))"

lemma quiet_ok:
  "trail_ok t \<Longrightarrow> crs t' = crs t \<Longrightarrow> audit t' = audit t @ rws \<Longrightarrow> quiet rws \<Longrightarrow> trail_ok t'"
  by (simp add: trail_ok_def)

lemma play_committed:
  "play_commits None cs s = (x, s') \<Longrightarrow> safe s \<Longrightarrow> trail_ok (work s) \<Longrightarrow> list_all (\<lambda>(_, rws). quiet rws) cs \<Longrightarrow>
   x = None \<and> safe s' \<and> trail_ok (work s') \<and> crs (work s') = crs (work s)"
proof (induction "None :: audit_log option" cs s rule: play_commits.induct)
  case (2 r rws cs s)
  let ?t = "work s\<lparr>res := r, audit := audit (work s) @ rws @ []\<rparr>"
  have "trail_ok ?t" using 2(4,5) by (intro quiet_ok [of "work s" ?t rws]) auto
  then show ?case using 2 by (fastforce simp: safe_def)
qed simp

lemma play_first_commit:
  assumes "play_commits (Some a) cs s = (x, s')" "safe s" "list_all (\<lambda>(_, rws). quiet rws) cs"
    "trail_ok d" "c0 \<in> set (crs d)" "cr_id c = cr_id c0" "edge (cr_state c0) act = Some (cr_state c)"
    "two_people c" "crs (work s) = crs (put_cr c d)" "audit (work s) = audit d"
    "\<And>i. actions_of i [a] = (if i = cr_id c0 then [act] else [])"
  shows "safe s' \<and> crs (work s') = crs (put_cr c d) \<and>
    (if cs = [] then x = Some a \<and> s' = s else x = None \<and> trail_ok (work s'))"
proof (cases cs)
  case Nil
  then show ?thesis using assms by simp
next
  case (Cons y ys)
  obtain r rws where y: "y = (r, rws)" by (cases y)
  let ?s = "commit (in_work (\<lambda>t. t\<lparr>res := r, audit := audit t @ rws @ [a]\<rparr>) s)"
  have q: "quiet rws" "list_all (\<lambda>(_, rws). quiet rws) ys" using assms(3) Cons y by auto
  have "trail_ok (work ?s)"
    by (rule transition_ok [OF assms(4,5), of c act _ "rws @ [a]"])
      (use assms q(1) in auto)
  moreover have "play_commits None ys ?s = (x, s')" using assms(1) Cons y by simp
  ultimately show ?thesis using play_committed [of ys ?s x s'] q(2) assms(2,9) Cons
    by (auto simp: safe_def)
qed

lemma stamp_apply_failed_safe:
  assumes "stamp_apply_failed env now i u req note err s = (r, s')" "safe s" "orderly env"
    "get_change_request i (durable s) = Some c" "requested_by_user_id c = Some rq" "rq \<noteq> user_id u"
  shows "safe s'"
proof -
  let ?s = "after_others env s"
  have t: "trail_ok (work ?s)" "safe ?s"
    using assms(2,3) by (auto simp: after_others_def orderly_def safe_def)
  show ?thesis
  proof (cases "relock_after_failed_apply i u ?s")
    case (Inl e)
    then show ?thesis using assms(1) t by (simp add: stamp_apply_failed_def Let_def)
  next
    case (Inr b)
    obtain c1 fin where b: "b = (c1, fin)" by (cases b)
    have g: "get_change_request i (work ?s) = Some c1"
      using Inr b by (auto simp: relock_after_failed_apply_def split: option.splits if_splits)
    then have c1: "c1 \<in> set (crs (work ?s))" using get_change_requestD by blast
    have rq: "requested_by_user_id c1 = Some rq"
      using assms(2-5) g by (fastforce simp: orderly_def after_others_def safe_def)
    have failed: "safe (commit (?s\<lparr>work := t2\<rparr>))"
      if "mark_failed u x req err now c2 t1 = Inr (c3, t2)" "trail_ok t1" "c2 \<in> set (crs t1)" for x c2 t1 c3 t2
      using marks_ok(6) [OF that(2,3,1)] t(2) by (simp add: safe_def)
    show ?thesis
    proof (cases fin)
      case True
      then show ?thesis using assms(1) Inr b t c1 failed
        by (auto simp: stamp_apply_failed_def Let_def split: sum.splits prod.splits)
    next
      case False
      have a: "trail_ok t1" "c2 \<in> set (crs t1)"
        if "mark_approved u req note now c1 (work ?s) = Inr (c2, t1)" for c2 t1
      proof -
        show "trail_ok t1" using marks_ok(4) [OF t(1) c1 that rq assms(6)] .
        have "c2 \<in> set (crs (put_cr c2 (work ?s)))" "crs t1 = crs (put_cr c2 (work ?s))"
          using that c1 by (auto simp: mark_defs put_cr_def split: if_splits)
        then show "c2 \<in> set (crs t1)" by simp
      qed
      show ?thesis using assms(1) Inr b t a failed False
        by (auto simp: stamp_apply_failed_def Let_def split: sum.splits prod.splits)
    qed
  qed
qed

lemma get_change_request_put:
  "get_change_request i t = Some c0 \<Longrightarrow> cr_id c = i \<Longrightarrow> crs t' = crs (put_cr c t) \<Longrightarrow>
   get_change_request i t' = Some c"
proof -
  have "find (\<lambda>x. cr_id x = i) xs = Some c0 \<Longrightarrow> cr_id c = i \<Longrightarrow>
    find (\<lambda>x. cr_id x = i) (map (\<lambda>x. if cr_id x = cr_id c then c else x) xs) = Some c" for xs
    by (induction xs) (auto split: if_splits)
  then show "get_change_request i t = Some c0 \<Longrightarrow> cr_id c = i \<Longrightarrow> crs t' = crs (put_cr c t) \<Longrightarrow>
    get_change_request i t' = Some c" by (simp add: get_change_request_def put_cr_def)
qed

lemma play_durable: "play_commits a cs s = (x, s') \<Longrightarrow> cs \<noteq> [] \<Longrightarrow> durable s' = work s'"
proof (induction a cs s rule: play_commits.induct)
  case (2 a r rws cs s)
  then show ?case by (cases cs) auto
qed simp

text \<open>The row an approver works on: requested by someone else, re-read under the lock.\<close>

definition claimable :: "uuid \<Rightarrow> user \<Rightarrow> change_request \<Rightarrow> 'w db_session \<Rightarrow> bool" where
  "claimable i u c s \<longleftrightarrow> work s = durable s \<and>
     (\<exists>cd p rq. get_change_request i (durable s) = Some cd \<and> c = cd\<lparr>cr_preview_text := p\<rparr> \<and>
        requested_by_user_id cd = Some rq \<and> rq \<noteq> user_id u)"

lemma stamp_approvedD:
  assumes "stamp_approved u note now c0 = Inr c" "claimable i u c0 s" "safe s"
  obtains cd rq where "get_change_request i (durable s) = Some cd" "cd \<in> set (crs (durable s))"
    "cr_id cd = i" "cr_id c = i" "requested_by_user_id c = Some rq" "requested_by_user_id cd = Some rq"
    "rq \<noteq> user_id u" "cr_state cd = Pending" "cr_state c = Approved" "two_people c"
    "decided_by_user_id c = Some (user_id u)"
    "edge (cr_state cd) ''approved'' = Some (cr_state c)" "trail_ok (durable s)"
proof -
  from assms obtain cd p rq where "get_change_request i (durable s) = Some cd"
    "c0 = cd\<lparr>cr_preview_text := p\<rparr>" "requested_by_user_id cd = Some rq" "rq \<noteq> user_id u"
    "trail_ok (durable s)" by (auto simp: claimable_def safe_def)
  moreover note get_change_requestD [OF this(1)]
  ultimately show ?thesis using assms(1)
    by (intro that [of cd rq]) (auto simp: mark_defs two_people_def split: if_splits)
qed

lemma run_apply_safe:
  assumes "run_apply pyrepr env now i u req note op args c0 s = (r, s')" "safe s" "orderly env"
    "quiet_op op" "claimable i u c0 s"
  shows "safe s'"
proof (cases "stamp_approved u note now c0")
  case (Inl e)
  then show ?thesis using assms(1,2) by (simp add: run_apply_def)
next
  case (Inr c)
  from stamp_approvedD [OF Inr assms(5,2)] obtain cd rq where
    cd: "get_change_request i (durable s) = Some cd" "cd \<in> set (crs (durable s))" "cr_id cd = i"
    and c: "cr_id c = i" "requested_by_user_id c = Some rq" "two_people c"
    and rq: "requested_by_user_id cd = Some rq" "rq \<noteq> user_id u"
    and e: "edge (cr_state cd) ''approved'' = Some (cr_state c)" and d: "trail_ok (durable s)" by metis
  have w: "work s = durable s" using assms(5) by (simp add: claimable_def)
  let ?a = "audit_approved u req note c"
  let ?run = "apply_op op (res (work s)) u args"
  obtain x s2 where s2: "play_commits (Some ?a) (commits ?run) (in_work (put_cr c) s) = (x, s2)"
    by fastforce
  let ?s3 = "in_work (\<lambda>t. t\<lparr>res := fst (rest ?run), audit := audit t @ snd (rest ?run)\<rparr>) s2"
  have q: "quiet (snd (rest ?run))" "list_all (\<lambda>(_, rws). quiet rws) (commits ?run)"
    using assms(4) by (auto simp: quiet_op_def)
  have f: "safe s2" "crs (work s2) = crs (put_cr c (durable s))"
    "if commits ?run = [] then x = Some ?a \<and> s2 = in_work (put_cr c) s else x = None \<and> trail_ok (work s2)"
    using play_first_commit [OF s2 _ q(2) d cd(2) _ e c(3)] c(1) cd(3) w assms(2)
    by (auto simp: audit_approved_def)
  have failed: "safe s''" if "stamp_apply_failed env now i u req note err (rollback ?s3) = (r', s'')"
    for err r' s''
  proof -
    have "\<exists>c1. get_change_request i (durable s2) = Some c1 \<and> requested_by_user_id c1 = Some rq"
    proof (cases "commits ?run = []")
      case True
      then show ?thesis using f(3) cd(1) rq(1) by simp
    next
      case False
      then show ?thesis
        using play_durable [OF s2] get_change_request_put [OF cd(1) c(1), of "durable s2"] f(2) c(2) by auto
    qed
    then show ?thesis using stamp_apply_failed_safe [OF that] f(1) assms(3) rq(2) by auto
  qed
  let ?t = "case x of None \<Rightarrow> work ?s3 | Some a \<Rightarrow> add_audit a (work ?s3)"
  have in_t: "c \<in> set (crs ?t)"
    using f(2) cd(2,3) c(1) by (auto simp: put_cr_def split: option.splits)
  have t: "trail_ok ?t"
  proof (cases "commits ?run = []")
    case True
    then have "audit ?t = audit (durable s) @ (snd (rest ?run) @ [?a])" "crs ?t = crs (put_cr c (durable s))"
      using f w by auto
    from transition_ok [OF d cd(2) _ e c(3) this(2,1)] show ?thesis
      using q(1) c(1) cd(3) by (auto simp: audit_approved_def)
  next
    case False
    then show ?thesis using f(3) q(1) by (auto intro: quiet_ok [of "work s2"])
  qed
  have ok: "safe (commit (?s3\<lparr>work := t'\<rparr>))"
    if "mark_executed u rq' req v now c ?t = Inr (c', t')" for rq' v c' t'
    using marks_ok(5) [OF t in_t that] f(1) by (simp add: safe_def)
  have "(r, s') = finish_apply pyrepr env now i u req note (requested_by_user_id c0) c ?run x s2"
    using s2 by (simp add: run_apply_def Inr flip: assms(1))
  then show ?thesis using failed ok f(1) unfolding finish_apply_def Let_def
    by (auto split: sum.splits op_error.splits prod.splits dest: sym)
qed

lemma mark_approvedD:
  "mark_approved u req note now c t = Inr (c1, t1) \<Longrightarrow> crs t1 = crs (put_cr c1 t) \<and> cr_id c1 = cr_id c \<and>
    cr_state c = Pending \<and> cr_state c1 = Approved \<and> requested_by_user_id c1 = requested_by_user_id c \<and>
    decided_by_user_id c1 = Some (user_id u) \<and> res t1 = res t"
  by (auto simp: mark_defs split: if_splits)

lemma resolve_without_apply_safe:
  assumes "resolve_without_apply now u req note v c s = (r, s')" "safe s" "claimable i u c s"
  shows "safe s'"
proof (cases "mark_approved u req note now c (work s)")
  case (Inr a)
  obtain c1 t1 where a: "a = (c1, t1)" by (cases a)
  then obtain c2 where st: "stamp_approved u note now c = Inr c2" "c2 = c1"
    "t1 = add_audit (audit_approved u req note c1) (put_cr c1 (work s))"
    using Inr by (auto simp: mark_approved_def split: sum.splits)
  from stamp_approvedD [OF st(1) assms(3,2)] obtain cd where
    cd: "cd \<in> set (crs (durable s))" "cr_id cd = i" "cr_id c1 = i" "two_people c1"
      "edge (cr_state cd) ''approved'' = Some (cr_state c1)" "trail_ok (durable s)" using st(2) by metis
  have w: "work s = durable s" using assms(3) by (simp add: claimable_def)
  have t1: "trail_ok t1"
    by (rule transition_ok [OF cd(6,1) _ cd(5,4)]) (use cd st(3) w in \<open>auto simp: audit_approved_def\<close>)
  have "c1 \<in> set (crs t1)" using cd st(3) w by (auto simp: put_cr_def)
  then show ?thesis using assms(1,2) Inr a marks_ok(5) [OF t1]
    by (auto simp: resolve_without_apply_def safe_def split: sum.splits prod.splits)
qed (use assms in \<open>simp add: resolve_without_apply_def\<close>)

lemma approve_previewed_safe:
  assumes "approve_previewed pyrepr env now i u req note c op args s = (r, s')" "safe s" "orderly env"
    "quiet_op op" "claimable i u c s" "get_change_request i (durable s) = Some c"
  shows "safe s'"
proof -
  from assms(5,6) obtain rq where rq: "requested_by_user_id c = Some rq" "rq \<noteq> user_id u"
    by (auto simp: claimable_def)
  have failed: "safe s''" if "stamp_apply_failed env now i u req note err (rollback s) = (r', s'')" for err r' s''
    using stamp_apply_failed_safe [OF that _ assms(3) _ rq] assms(2,6) by simp
  have cl: "claimable i u (c\<lparr>cr_preview_text := p\<rparr>) s" for p
    using assms(5,6) unfolding claimable_def by auto
  note parts = failed resolve_without_apply_safe [OF _ assms(2) cl] run_apply_safe [OF _ assms(2-4) cl]
  show ?thesis using assms(1,2) unfolding approve_previewed_def Let_def
    by (auto split: sum.splits op_error.splits if_splits dest: parts)
qed

text \<open>What it takes to get past the guards.\<close>

lemma approve_guardsD:
  assumes "approve_guards reg now i u req t = Proceed c op args"
  obtains rq where "get_change_request i t = Some c" "enforce_token_scope req (cr_operation c) = Inr ()"
    "cr_state c = Pending" "now < expires_at c" "requested_by_user_id c = Some rq" "rq \<noteq> user_id u"
    "get_operation reg (cr_operation c) = Some op" "can_approve u" "enforce_operation_permission u op = Inr ()"
    "cr_operation c \<in> set CONTROL_OPERATION_NAMES \<Longrightarrow> is_effective_superadmin u"
    "validate_args op (if truthy (cr_args c) then cr_args c else PyDict []) = Some args"
  using assms by (auto simp: approve_guards_def split: option.splits sum.splits if_splits)

lemma approve_guards_expire:
  "approve_guards reg now i u req t = ExpireNow c \<Longrightarrow> get_change_request i t = Some c \<and>
    cr_state c = Pending \<and> expires_at c \<le> now"
  by (auto simp: approve_guards_def split: option.splits sum.splits if_splits)

lemma approve_safe:
  assumes "approve_change_request reg pyrepr env now i u req note s = (r, s')" "safe s" "work s = durable s"
    "orderly env" "\<forall>op \<in> snd ` set reg. quiet_op op"
  shows "safe s'"
proof (cases "approve_guards reg now i u req (work s)")
  case (Refuse e)
  then show ?thesis using assms by (simp add: approve_change_request_def)
next
  case (ExpireNow c)
  then have "c \<in> set (crs (work s))" using approve_guards_expire get_change_requestD by blast
  then show ?thesis using ExpireNow assms marks_ok(3) [of "work s" c]
    by (auto simp: approve_change_request_def safe_def split: sum.splits prod.splits)
next
  case (Proceed c op args)
  from approve_guardsD [OF Proceed] obtain rq where
    g: "get_change_request i (work s) = Some c" "requested_by_user_id c = Some rq" "rq \<noteq> user_id u"
      "get_operation reg (cr_operation c) = Some op" by metis
  have cl: "claimable i u c s" using g assms(3) unfolding claimable_def
    by (intro conjI exI [of _ c] exI [of _ "cr_preview_text c"] exI [of _ rq]) auto
  have q: "quiet_op op" using g(4) assms(5) unfolding get_operation_def by (force dest: map_of_SomeD)
  show ?thesis using assms(1) Proceed g(1) assms(3) approve_previewed_safe [OF _ assms(2,4) q cl]
      resolve_without_apply_safe [OF _ assms(2) cl]
    by (auto simp: approve_change_request_def split: if_splits)
qed

lemma reject_safe:
  assumes "reject_change_request now i u req note s = (r, s')" "safe s" "work s = durable s"
  shows "safe s'"
  using assms marks_ok(1) [of "work s"] get_change_requestD [of i "work s"]
  by (auto simp: reject_change_request_def safe_def split: option.splits sum.splits prod.splits if_splits)

lemma cancel_safe:
  assumes "cancel_request now i u req note s = (r, s')" "safe s" "work s = durable s"
  shows "safe s'"
  using assms marks_ok(2) [of "work s"] get_change_requestD [of i "work s"]
  by (auto simp: cancel_request_def safe_def split: option.splits sum.splits prod.splits if_splits)

lemma sweep_rows_safe:
  "sweep_rows now broken is s n = (m, s') \<Longrightarrow> safe s \<Longrightarrow> work s = durable s \<Longrightarrow> safe s' \<and> work s' = durable s'"
proof (induction now broken "is" s n rule: sweep_rows.induct)
  case (2 now broken i "is" s checked expired skipped)
  have "trail_ok t" if "get_change_request i (work s) = Some c" "mark_expired now c (work s) = Inr (c', t)" for c c' t
    using marks_ok(3) [of "work s" c] that get_change_requestD [OF that(1)] "2.prems" by (auto simp: safe_def)
  then show ?case using 2 
    by (auto simp: safe_def split: if_splits option.splits sum.splits prod.splits)
qed auto

lemma create_ok:
  assumes "create_change_request i now u req inp t = Inr (c, t')" "trail_ok t"
    "i \<notin> cr_id ` set (crs t)" "actions_of i (audit t) = []"
  shows "trail_ok t'"
proof -
  obtain new where t': "t' = add_audit (cr_audit (Some u) (Some req) ''requested'' c PyNone new) (t\<lparr>crs := crs t @ [c]\<rparr>)"
    and c: "cr_id c = i" "cr_state c = Pending"
    using assms(1) by (auto simp: create_change_request_def Let_def new_change_request_def split: if_splits)
  have "replay [''requested''] = Some Pending" by (simp add: replay_def)
  moreover have "cr_id x \<noteq> i" if "x \<in> set (crs t)" for x using that assms(3) by auto
  ultimately show ?thesis using assms(2-4) c
    by (auto simp: t' trail_ok_def list_all_iff two_people_def)
qed

lemma gate_safe:
  assumes "gate_or_execute pyrepr i now u req op args cnt s = (r, s')" "safe s" "work s = durable s"
    "i \<notin> cr_id ` set (crs (durable s))" "actions_of i (audit (durable s)) = []"
  shows "safe s'"
  using assms create_ok [of i now u req _ "work s"] unfolding gate_or_execute_def
  by (auto simp: safe_def split: if_splits option.splits sum.splits prod.splits)

section \<open>An effect needs a decision\<close>

text \<open>Row \<open>i\<close> was approved by \<open>u\<close>.\<close>

definition decided_row :: "uuid \<Rightarrow> user \<Rightarrow> 'w tx \<Rightarrow> bool" where
  "decided_row i u t = (case get_change_request i t of None \<Rightarrow> False
     | Some c \<Rightarrow> cr_state c \<in> {Approved, Executed, Failed} \<and> decided_by_user_id c = Some (user_id u))"

lemma decided_row_put:
  "get_change_request i t = Some c0 \<Longrightarrow> crs t' = crs (put_cr c t) \<Longrightarrow> cr_id c = i \<Longrightarrow>
   cr_state c \<in> {Approved, Executed, Failed} \<Longrightarrow> decided_by_user_id c = Some (user_id u) \<Longrightarrow> decided_row i u t'"
  using get_change_request_put [of i t c0 c t'] by (simp add: decided_row_def)

lemma mark_endsD:
  "mark_executed u rq req v now c t = Inr (c', t') \<Longrightarrow> crs t' = crs (put_cr c' t) \<and> cr_id c' = cr_id c \<and>
     cr_state c' = Executed \<and> decided_by_user_id c' = decided_by_user_id c"
  "mark_failed u rq req err now c t = Inr (c', t') \<Longrightarrow> crs t' = crs (put_cr c' t) \<and> cr_id c' = cr_id c \<and>
     cr_state c' = Failed \<and> decided_by_user_id c' = decided_by_user_id c"
  by (auto simp: mark_defs split: if_splits)

lemma play_history:
  "play_commits a cs s = (x, s') \<Longrightarrow> crs (work s') = crs (work s) \<and>
    (\<exists>hs. history s' = history s @ hs \<and> list_all (\<lambda>h. crs h = crs (work s)) hs)"
  by (induction a cs s rule: play_commits.induct) fastforce+

text \<open>Every snapshot added to the history shows the decision.\<close>

definition shows_decision :: "uuid \<Rightarrow> user \<Rightarrow> 'w db_session \<Rightarrow> 'w db_session \<Rightarrow> bool" where
  "shows_decision i u s s' \<longleftrightarrow> (\<exists>hs. history s' = history s @ hs \<and> list_all (decided_row i u) hs)"

lemma shows_decision_refl [simp]: "history s' = history s \<Longrightarrow> shows_decision i u s s'"
  by (simp add: shows_decision_def)

lemma shows_decision_commit: "history s' = history s @ [t] \<Longrightarrow> decided_row i u t \<Longrightarrow> shows_decision i u s s'"
  by (simp add: shows_decision_def)

lemma shows_decision_trans: "shows_decision i u s s1 \<Longrightarrow> shows_decision i u s1 s2 \<Longrightarrow> shows_decision i u s s2"
  by (auto simp: shows_decision_def)

lemma stamp_apply_failed_shows:
  assumes "stamp_apply_failed env now i u req note err s = (r, s')"
  shows "shows_decision i u s s'"
proof -
  let ?s = "after_others env s"
  have h: "history ?s = history s" by (simp add: after_others_def)
  have fin: "decided_row i u t2"
    if "mark_failed u x req err now c1 t1 = Inr (c2, t2)" "get_change_request i t1 = Some c1"
      "decided_by_user_id c1 = Some (user_id u)" for x c1 t1 c2 t2
    using mark_endsD(2) [OF that(1)] that(2,3) get_change_requestD [OF that(2)]
    by (intro decided_row_put [OF that(2), of t2 c2]) auto
  have appr: "get_change_request i t1 = Some c1 \<and> decided_by_user_id c1 = Some (user_id u)"
    if "mark_approved u req note now c (work ?s) = Inr (c1, t1)" "get_change_request i (work ?s) = Some c" for c c1 t1
    using mark_approvedD [OF that(1)] get_change_request_put [OF that(2)] get_change_requestD [OF that(2)] by auto
  have "history s' = history s \<or> (\<exists>t. history s' = history s @ [t] \<and> decided_row i u t)"
    using assms h appr fin unfolding stamp_apply_failed_def relock_after_failed_apply_def Let_def
    by (auto split: option.splits sum.splits prod.splits if_splits) (blast dest: fin appr)+
  then show ?thesis using shows_decision_commit by fastforce
qed

lemma run_apply_shows:
  assumes "run_apply pyrepr env now i u req note op args c0 s = (r, s')" "get_change_request i (work s) = Some cd"
    "cr_id c0 = i"
  shows "shows_decision i u s s'"
proof (cases "stamp_approved u note now c0")
  case (Inr c)
  have c: "cr_id c = i" "cr_state c = Approved" "decided_by_user_id c = Some (user_id u)"
    using Inr assms(3) by (auto simp: mark_defs split: if_splits)
  let ?run = "apply_op op (res (work s)) u args"
  obtain x s2 where s2: "play_commits (Some (audit_approved u req note c)) (commits ?run) (in_work (put_cr c) s) = (x, s2)"
    by fastforce
  let ?s3 = "in_work (\<lambda>t. t\<lparr>res := fst (rest ?run), audit := audit t @ snd (rest ?run)\<rparr>) s2"
  from play_history [OF s2] obtain hs where hs: "crs (work s2) = crs (put_cr c (work s))"
    "history s2 = history s @ hs" "list_all (\<lambda>h. crs h = crs (put_cr c (work s))) hs" by auto
  then have sh: "shows_decision i u s s2" using c decided_row_put [OF assms(2), of _ c]
    by (auto simp: shows_decision_def list_all_iff)
  have fin: "shows_decision i u s (commit (?s3\<lparr>work := t'\<rparr>))"
    if "mark_executed u rq req v now c t = Inr (c', t')" "crs t = crs (work s2)" for rq v t c' t'
  proof -
    have "decided_row i u t'"
      using mark_endsD(1) [OF that(1)] c that(2) hs(1) get_change_request_put [OF assms(2) c(1), of t]
      by (intro decided_row_put [of i t c t' c']) auto
    then have "shows_decision i u s2 (commit (?s3\<lparr>work := t'\<rparr>))" by (intro shows_decision_commit) auto
    then show ?thesis using sh shows_decision_trans by blast
  qed
  have failed: "shows_decision i u s s''"
    if "stamp_apply_failed env now i u req note err (rollback ?s3) = (r', s'')" for err r' s''
    using stamp_apply_failed_shows [OF that] sh by (auto simp: shows_decision_def)
  have "shows_decision i u s ?s3" using sh by (simp add: shows_decision_def)
  moreover have "shows_decision i u s (rollback ?s3)" using sh by (simp add: shows_decision_def)
  moreover have "(r, s') = finish_apply pyrepr env now i u req note (requested_by_user_id c0) c ?run x s2"
    using s2 by (simp add: run_apply_def Inr flip: assms(1))
  ultimately show ?thesis using failed fin unfolding finish_apply_def Let_def
    by (auto split: sum.splits op_error.splits prod.splits option.splits dest: sym)
qed (use assms in \<open>simp add: run_apply_def\<close>)

lemma resolve_without_apply_shows:
  assumes "resolve_without_apply now u req note v c s = (r, s')" "get_change_request i (work s) = Some cd" "cr_id c = i"
  shows "shows_decision i u s s'"
proof -
  have "decided_row i u t2" if "mark_approved u req note now c (work s) = Inr (c1, t1)"
    "mark_executed u rq req v now c1 t1 = Inr (c2, t2)" for c1 t1 rq c2 t2
    using mark_approvedD [OF that(1)] mark_endsD(1) [OF that(2)] get_change_request_put [OF assms(2), of c1 t1] assms(3)
    by (intro decided_row_put [of i t1 c1 t2 c2]) auto
  then show ?thesis using assms(1) unfolding resolve_without_apply_def
    by (auto split: sum.splits prod.splits intro: shows_decision_commit)
qed

lemma approve_shows:
  assumes "approve_change_request reg pyrepr env now i u req note s = (r, s')"
    "approve_guards reg now i u req (work s) = Proceed c op args"
  shows "shows_decision i u s s'"
proof -
  have c: "get_change_request i (work s) = Some c" "cr_id c = i"
    using approve_guardsD [OF assms(2)] get_change_requestD by metis+
  have failed: "shows_decision i u s s''"
    if "stamp_apply_failed env now i u req note err (rollback s) = (r', s'')" for err r' s''
    using stamp_apply_failed_shows [OF that] by (simp add: shows_decision_def)
  have parts: "resolve_without_apply now u req note v (c\<lparr>cr_preview_text := p\<rparr>) s = (r', s'') \<Longrightarrow> shows_decision i u s s''"
    "resolve_without_apply now u req note v c s = (r', s'') \<Longrightarrow> shows_decision i u s s''"
    "run_apply pyrepr env now i u req note op args (c\<lparr>cr_preview_text := p\<rparr>) s = (r', s'') \<Longrightarrow> shows_decision i u s s''"
    for v p r' s''
    using resolve_without_apply_shows [OF _ c(1)] run_apply_shows [OF _ c(1)] c(2) by auto
  show ?thesis using assms unfolding approve_change_request_def approve_previewed_def Let_def
    by (auto split: sum.splits op_error.splits if_splits dest: parts failed)
qed

end
