(* ===== verification/Approval_Rules.thy ===== *)
theory Approval_Rules
  imports Approval_Safety
begin

text \<open>
  The guarantees of the two-person rule, over the orchestration of \<open>Approval_Flow\<close> with the lemmas of
  \<open>Approval_Safety\<close>: who may decide, what a refusal leaves behind, what every reachable table looks
  like, when the gate lets an operation run at once, which policy it finds and what the sweep expires.
\<close>

section \<open>A concrete installation\<close>

text \<open>One delete operation that empties the world, an administrator who asks and one who approves.\<close>

definition drop_run :: "nat resources \<Rightarrow> nat apply_run" where
  "drop_run r = \<lparr>commits = [(r\<lparr>world := 0\<rparr>, [])], rest = (r\<lparr>world := 0\<rparr>, []), outcome = Inr PyNone\<rparr>"

definition drop_op :: "nat operation" where
  "drop_op = \<lparr>op_name = ''delete_subnet'', validate_args = Some,
     preview = (\<lambda>r u a. Inr \<lparr>p_ok = True, p_detail = [], p_preview_text = ''drop'', idempotent = False,
        forbidden_detail = None\<rparr>),
     apply_op = (\<lambda>r u a. drop_run r), required_permission = Some (''delete'', ''subnet''),
     scoped_grant_types = [], requires_superadmin = False\<rparr>"

definition ask_user :: user where "ask_user = (plain_user ''u1'')\<lparr>is_superadmin := True\<rparr>"

definition ok_user :: user where "ok_user = (plain_user ''u2'')\<lparr>is_superadmin := True\<rparr>"

definition drop_policy :: approval_policy where
  "drop_policy = \<lparr>ap_id = ''p1'', ap_name = ''two people'', ap_resource_type = ''subnet'',
     ap_action = ''delete'', min_count = None, ap_enabled = True, applies_to_superadmin = True, ttl_hours = 24\<rparr>"

definition any_policy :: approval_policy where
  "any_policy = drop_policy\<lparr>ap_id := ''p2'', ap_resource_type := ''*'', min_count := Some 10\<rparr>"

definition drop_input :: cr_input where
  "drop_input = \<lparr>in_operation = ''delete_subnet'', in_resource_type = ''subnet'', in_resource_id = None,
     in_resource_display = ''drop'', in_args = PyDict [], in_preview_text = ''drop'',
     in_risk_reason = ''two people'', in_ttl_hours = 24, in_origin = ''gate'', in_justification = None\<rparr>"

definition start_tx :: "nat tx" where
  "start_tx = \<lparr>crs = [], audit = [], res = \<lparr>policies = [any_policy, drop_policy], approvals_module = True,
     approvals_protect_controls = None, world = 7\<rparr>\<rparr>"

definition asked :: change_request where
  "asked = new_change_request ''c1'' 0 ask_user drop_input"

definition asked_tx :: "nat tx" where "asked_tx = start_tx\<lparr>crs := [asked]\<rparr>"

lemmas installation_defs = drop_run_def drop_op_def ask_user_def ok_user_def plain_user_def drop_policy_def
  any_policy_def drop_input_def start_tx_def asked_def asked_tx_def new_change_request_def

lemma administrators [simp]:
  "can_approve ok_user" "is_effective_superadmin ok_user" "is_effective_superadmin ask_user"
  "enforce_operation_permission ok_user drop_op = Inr ()" "user_id ok_user = ''u2''" "user_id ask_user = ''u1''"
  by code_simp+

section \<open>Who may decide\<close>

text \<open>The conditions of steps 1 to 4b of the approve spine, on the row and the approver.\<close>

definition may_decide :: "'w registry \<Rightarrow> datetime \<Rightarrow> uuid \<Rightarrow> user \<Rightarrow> scoped_request option \<Rightarrow> 'w tx \<Rightarrow> bool" where
  "may_decide reg now i u req t = (case get_change_request i t of None \<Rightarrow> False
     | Some c \<Rightarrow> cr_state c = Pending \<and> now < expires_at c \<and>
        (case requested_by_user_id c of None \<Rightarrow> False | Some r \<Rightarrow> r \<noteq> user_id u) \<and>
        can_approve u \<and> enforce_token_scope req (cr_operation c) = Inr () \<and>
        (case get_operation reg (cr_operation c) of None \<Rightarrow> False
         | Some op \<Rightarrow> enforce_operation_permission u op = Inr ()) \<and>
        (if cr_operation c \<in> set CONTROL_OPERATION_NAMES then is_effective_superadmin u else True))"

lemma guards_may_decide:
  assumes "approve_guards reg now i u req t = Proceed c op args"
  shows "may_decide reg now i u req t"
  by (rule approve_guardsD [OF assms]) (simp add: may_decide_def)

lemma stamp_apply_failed_result:
  assumes "stamp_apply_failed env now i u req note err s = (Inr c', s')"
  shows "cr_id c' = i \<and> cr_state c' = Failed \<and> decided_by_user_id c' = Some (user_id u)"
  using assms get_change_requestD [of i "work (after_others env s)"]
  unfolding stamp_apply_failed_def relock_after_failed_apply_def Let_def
  by (auto split: option.splits sum.splits prod.splits if_splits dest!: mark_endsD(2) mark_approvedD)

lemma resolve_without_apply_result:
  "resolve_without_apply now u req note v c s = (Inr c', s') \<Longrightarrow> cr_id c' = cr_id c \<and> cr_state c' = Executed \<and>
    decided_by_user_id c' = Some (user_id u)"
  unfolding resolve_without_apply_def
  by (auto split: sum.splits prod.splits dest!: mark_endsD(1) mark_approvedD)

lemma run_apply_result:
  assumes "run_apply pyrepr env now i u req note op args c s = (Inr c', s')" "cr_id c = i"
  shows "cr_id c' = i \<and> cr_state c' \<in> {Executed, Failed} \<and> decided_by_user_id c' = Some (user_id u)"
proof -
  have "decided_by_user_id c1 = Some (user_id u) \<and> cr_id c1 = i" if "stamp_approved u note now c = Inr c1" for c1
    using that assms(2) by (auto simp: mark_defs split: if_splits)
  then show ?thesis using assms unfolding run_apply_def finish_apply_def Let_def
    by (auto split: sum.splits prod.splits op_error.splits dest!: mark_endsD(1) stamp_apply_failed_result)
qed

lemma approve_result:
  assumes "approve_change_request reg pyrepr env now i u req note s = (Inr c', s')"
  obtains c op args where "approve_guards reg now i u req (work s) = Proceed c op args"
    "cr_id c' = i" "cr_state c' \<in> {Executed, Failed}" "decided_by_user_id c' = Some (user_id u)"
proof (cases "approve_guards reg now i u req (work s)")
  case (Proceed c op args)
  have "cr_id c = i" using approve_guardsD [OF Proceed] get_change_requestD by metis
  then have "cr_id c' = i \<and> cr_state c' \<in> {Executed, Failed} \<and> decided_by_user_id c' = Some (user_id u)"
    using assms unfolding approve_change_request_def Proceed approve_previewed_def Let_def
    by (auto split: sum.splits op_error.splits if_splits
        dest: run_apply_result resolve_without_apply_result stamp_apply_failed_result)
  then show thesis using that Proceed by blast
qed (use assms in \<open>auto simp: approve_change_request_def split: sum.splits prod.splits\<close>)

text \<open>C9: A decision needs a second person with every right it takes. When the approve spine returns a row,
  the request was pending and not expired, it has a requester who is not the approver, the approver may
  approve change requests and holds the operation's own permission (superadmin for a control
  operation), a scoped token covers the operation, and the row is executed or failed in the approver's
  name.\<close>

theorem approval_needs_second_person:
  assumes "approve_change_request reg pyrepr env now i u req note (open_db t) = (Inr c', s')"
  shows "may_decide reg now i u req t \<and> cr_id c' = i \<and> cr_state c' \<in> {Executed, Failed} \<and>
    decided_by_user_id c' = Some (user_id u)"
proof -
  from approve_result [OF assms] obtain c op args where
    "approve_guards reg now i u req t = Proceed c op args"
    "cr_id c' = i" "cr_state c' \<in> {Executed, Failed}" "decided_by_user_id c' = Some (user_id u)" by auto
  then show ?thesis using guards_may_decide by blast
qed

theorem approval_needs_second_person_witness:
  "\<exists>c' s'. approve_change_request [(''delete_subnet'', drop_op)] (\<lambda>_. []) id 1 ''c1'' ok_user None None
       (open_db asked_tx) = (Inr c', s') \<and> cr_state c' = Executed \<and> world (res (durable s')) = 0 \<and>
     may_decide [(''delete_subnet'', drop_op)] 1 ''c1'' ok_user None asked_tx"
proof -
  let ?r = "approve_change_request [(''delete_subnet'', drop_op)] (\<lambda>_. []) id 1 ''c1'' ok_user None None (open_db asked_tx)"
  have ev: "(case fst ?r of Inl _ \<Rightarrow> False | Inr c \<Rightarrow> cr_state c = Executed) \<and> world (res (durable (snd ?r))) = 0"
    by code_simp
  then obtain c' where c': "?r = (Inr c', snd ?r)" "cr_state c' = Executed"
    by (cases ?r) (auto split: sum.splits)
  show ?thesis using approval_needs_second_person [OF c'(1)] c' ev by blast
qed

text \<open>C10: No effect becomes durable without the approval that allowed it. In every state the approve
  spine ever commits (a crash keeps one of them) in which the tables differ from where it started, the
  request is approved, executed or failed in the approver's name, and the approver was allowed to
  decide it.\<close>

theorem effects_need_approval:
  assumes "approve_change_request reg pyrepr env now i u req note (open_db t) = (r, s')"
    "h \<in> set (history s')" "res h \<noteq> res t"
  shows "decided_row i u h \<and> may_decide reg now i u req t"
proof (cases "approve_guards reg now i u req t")
  case (Proceed c op args)
  then show ?thesis using approve_shows [OF assms(1)] guards_may_decide assms(2)
    by (force simp: shows_decision_def list_all_iff)
qed (use assms in \<open>auto simp: approve_change_request_def mark_defs split: sum.splits prod.splits if_splits\<close>)

theorem effects_need_approval_witness:
  "\<exists>h. h \<in> set (history (snd (approve_change_request [(''delete_subnet'', drop_op)] (\<lambda>_. []) id 1 ''c1'' ok_user
      None None (open_db asked_tx)))) \<and> res h \<noteq> res asked_tx \<and> decided_row ''c1'' ok_user h"
proof -
  let ?r = "approve_change_request [(''delete_subnet'', drop_op)] (\<lambda>_. []) id 1 ''c1'' ok_user None None (open_db asked_tx)"
  have "list_ex (\<lambda>h. world (res h) \<noteq> world (res asked_tx)) (history (snd ?r))" by code_simp
  then obtain h where h: "h \<in> set (history (snd ?r))" "res h \<noteq> res asked_tx"
    unfolding list_ex_iff by metis
  then show ?thesis using effects_need_approval [of "[(''delete_subnet'', drop_op)]" "\<lambda>_. []" id 1 "''c1''" ok_user
      None None asked_tx "fst ?r" "snd ?r" h] by auto
qed

section \<open>What a refusal leaves behind\<close>

text \<open>An operation that raises has committed nothing.\<close>

definition atomic_op :: "'w operation \<Rightarrow> bool" where
  "atomic_op op \<longleftrightarrow> (\<forall>r u a e. outcome (apply_op op r u a) = Inl e \<longrightarrow> commits (apply_op op r u a) = [])"

lemma stamp_apply_failed_refused:
  "stamp_apply_failed env now i u req note err s = (Inl e, s') \<Longrightarrow> history s' = history s"
  unfolding stamp_apply_failed_def after_others_def Let_def by (auto split: sum.splits prod.splits if_splits)

lemma run_apply_refused:
  assumes "run_apply pyrepr env now i u req note op args c s = (Inl e, s')" "atomic_op op"
  shows "history s' = history s"
proof (cases "stamp_approved u note now c")
  case (Inr c1)
  let ?run = "apply_op op (res (work s)) u args"
  obtain x s2 where s2: "play_commits (Some (audit_approved u req note c1)) (commits ?run) (in_work (put_cr c1) s) = (x, s2)"
    by fastforce
  have "cr_state c1 = Approved" using Inr by (auto simp: mark_defs split: if_splits)
  then have ok: "mark_executed u rq req v now c1 t \<noteq> Inl m" for rq v t m by (simp add: mark_defs)
  have fin: "finish_apply pyrepr env now i u req note (requested_by_user_id c) c1 ?run x s2 = (Inl e, s')"
    using s2 assms(1) by (simp add: run_apply_def Inr)
  then obtain err where err: "outcome ?run = Inl err" using ok
    by (auto simp: finish_apply_def Let_def split: sum.splits prod.splits)
  then have "history s2 = history s" using assms(2) s2 by (auto simp: atomic_op_def)
  then show ?thesis using fin err
    by (auto simp: finish_apply_def Let_def split: op_error.splits dest!: stamp_apply_failed_refused)
qed (use assms in \<open>simp add: run_apply_def\<close>)

lemma resolve_without_apply_refused:
  "resolve_without_apply now u req note v c s = (Inl e, s') \<Longrightarrow> history s' = history s"
  unfolding resolve_without_apply_def by (auto split: sum.splits prod.splits)

text \<open>A refused decision commits nothing, with one exception. When the approve spine raises, and no
  operation commits before it raises, the session has committed nothing; only a pending request whose
  time is over has been moved to expired, in a commit of its own.\<close>

theorem refusal_commits_nothing:
  assumes "approve_change_request reg pyrepr env now i u req note (open_db t) = (Inl e, s')"
    "\<forall>op \<in> snd ` set reg. atomic_op op"
  shows "history s' = [] \<or> (\<exists>c c'. get_change_request i t = Some c \<and> cr_state c = Pending \<and> expires_at c \<le> now \<and>
    e = DecisionConflict ''Change request has expired'' \<and> mark_expired now c t = Inr (c', durable s') \<and>
    history s' = [durable s'])"
proof (cases "approve_guards reg now i u req t")
  case (Refuse x)
  then show ?thesis using assms(1) by (auto simp: approve_change_request_def)
next
  case (ExpireNow c)
  then show ?thesis using assms(1) approve_guards_expire [OF ExpireNow]
    by (auto simp: approve_change_request_def split: sum.splits prod.splits)
next
  case (Proceed c op args)
  have "atomic_op op" by (rule approve_guardsD [OF Proceed])
    (use assms(2) in \<open>force simp: get_operation_def dest: map_of_SomeD\<close>)
  then have "history s' = []" using assms(1) Proceed
    unfolding approve_change_request_def approve_previewed_def Let_def
    by (auto split: sum.splits op_error.splits if_splits
        dest!: run_apply_refused resolve_without_apply_refused stamp_apply_failed_refused)
  then show ?thesis by blast
qed

lemma drop_op_atomic: "atomic_op drop_op"
  by (simp add: atomic_op_def drop_op_def drop_run_def)

theorem refusal_commits_nothing_witness:
  "\<exists>e s'. approve_change_request [(''delete_subnet'', drop_op)] (\<lambda>_. []) id 1 ''c1'' ask_user None None
      (open_db asked_tx) = (Inl e, s') \<and> history s' = []"
proof -
  let ?r = "approve_change_request [(''delete_subnet'', drop_op)] (\<lambda>_. []) id 1 ''c1'' ask_user None None (open_db asked_tx)"
  have "case fst ?r of Inl (DecisionForbidden m) \<Rightarrow> True | _ \<Rightarrow> False" by code_simp
  then obtain m where m: "?r = (Inl (DecisionForbidden m), snd ?r)"
    by (cases ?r) (auto split: sum.splits decision_error.splits)
  show ?thesis using refusal_commits_nothing [OF m] m drop_op_atomic by auto
qed

section \<open>Reachable tables\<close>

text \<open>An id no row and no audit row has used.\<close>

definition fresh_id :: "uuid \<Rightarrow> 'w tx \<Rightarrow> bool" where
  "fresh_id i t \<longleftrightarrow> i \<notin> cr_id ` set (crs t) \<and> actions_of i (audit t) = []"

text \<open>The durable states of an installation. Approvals and sweeps may stop after any of their commits;
  what happens while an approval waits for its row lock is an orderly \<open>env\<close>.\<close>

inductive reachable :: "'w registry \<Rightarrow> 'w tx \<Rightarrow> bool" for reg :: "'w registry" where
  start: "crs t = [] \<Longrightarrow> quiet (audit t) \<Longrightarrow> reachable reg t"
| gate: "reachable reg t \<Longrightarrow> fresh_id i t \<Longrightarrow>
    gate_or_execute pyrepr i now u rq op args cnt (open_db t) = (g, s) \<Longrightarrow> reachable reg (durable s)"
| create: "reachable reg t \<Longrightarrow> fresh_id i t \<Longrightarrow>
    create_change_request i now u rq inp t = Inr (c, t') \<Longrightarrow> reachable reg t'"
| approve: "reachable reg t \<Longrightarrow> orderly env \<Longrightarrow>
    approve_change_request reg pyrepr env now i u req note (open_db t) = (r, s) \<Longrightarrow>
    t' \<in> set (durable s # history s) \<Longrightarrow> reachable reg t'"
| reject: "reachable reg t \<Longrightarrow> reject_change_request now i u req note (open_db t) = (r, s) \<Longrightarrow>
    reachable reg (durable s)"
| cancel: "reachable reg t \<Longrightarrow> cancel_request now i u rq note (open_db t) = (x, s) \<Longrightarrow>
    reachable reg (durable s)"
| sweep: "reachable reg t \<Longrightarrow> sweep now broken (open_db t) = (n, s) \<Longrightarrow>
    t' \<in> set (durable s # history s) \<Longrightarrow> reachable reg t'"
| other: "reachable reg t \<Longrightarrow> crs t' = crs t \<Longrightarrow> audit t' = audit t @ rws \<Longrightarrow> quiet rws \<Longrightarrow>
    reachable reg t'"

lemma safe_open [simp]: "safe (open_db t) \<longleftrightarrow> trail_ok t"
  by (simp add: safe_def)

lemma safe_members: "safe s \<Longrightarrow> t \<in> set (durable s # history s) \<Longrightarrow> trail_ok t"
  by (auto simp: safe_def list_all_iff)

lemma reachable_ok:
  "reachable reg t \<Longrightarrow> \<forall>op \<in> snd ` set reg. quiet_op op \<Longrightarrow> trail_ok t"
proof (induction rule: reachable.induct)
  case (start t)
  then show ?case by (simp add: trail_ok_def)
next
  case (gate t i pyrepr now u rq op args cnt g s)
  then show ?case using gate_safe [OF gate(3)] by (auto simp: fresh_id_def safe_def)
next
  case (create t i now u rq inp c t')
  then show ?case using create_ok [OF create(3)] by (auto simp: fresh_id_def)
next
  case (approve t env pyrepr now i u req nt r s t')
  then show ?case using approve_safe [OF approve(3)] safe_members by auto
next
  case (reject t now i u req nt r s)
  then show ?case using reject_safe [OF reject(2)] by (auto simp: safe_def)
next
  case (cancel t now i u rq nt x s)
  then show ?case using cancel_safe [OF cancel(2)] by (auto simp: safe_def)
next
  case (sweep t now broken n s t')
  have "safe s" using sweep_rows_safe [OF sweep(2) [unfolded sweep_def]] sweep by simp
  then show ?case using safe_members sweep(3) by blast
next
  case (other t t' rws)
  then show ?case using quiet_ok by blast
qed

text \<open>The moves of the people and of the sweep are themselves orderly.\<close>

lemma orderly_reject:
  "orderly (\<lambda>t. durable (snd (reject_change_request now i u req note (open_db t))))"
proof -
  have "trail_ok (durable s)" if "reject_change_request now i u req note (open_db t) = (r, s)" "trail_ok t" for r s and t :: "'a tx"
    using reject_safe [OF that(1)] that(2) by (simp add: safe_def)
  moreover have "requested_by_user_id c = requested_by_user_id c0"
    if "reject_change_request now i u req note (open_db t) = (r, s)"
      "get_change_request j t = Some c0" "get_change_request j (durable s) = Some c" for r s j c0 c and t :: "'a tx"
  proof -
    have put: "requested_by_user_id c = requested_by_user_id c0"
      if "crs (durable s) = crs (put_cr c1 t)" "get_change_request i t = Some c2" "cr_id c1 = i"
        "requested_by_user_id c1 = requested_by_user_id c2" for c1 c2
    proof -
      have "find P (map (\<lambda>x. if cr_id x = cr_id c1 then c1 else x) xs) = find P xs"
        if "P = (\<lambda>x. cr_id x = j)" "j \<noteq> cr_id c1" for P xs using that by (induction xs) auto
      then show ?thesis using get_change_request_put [OF that(2,3), of "durable s"] that \<open>get_change_request j t = Some c0\<close>
        \<open>get_change_request j (durable s) = Some c\<close>
        by (cases "j = i") (auto simp: get_change_request_def put_cr_def)
    qed
    show ?thesis using that put get_change_requestD [of i t]
      by (auto simp: reject_change_request_def mark_defs split: option.splits sum.splits if_splits)
  qed
  ultimately show ?thesis unfolding orderly_def by (metis prod.collapse)
qed

text \<open>C11: In every reachable table the audit log tells the truth about each request: its rows, read in
  order, lead from the request through legal transitions to the state the request is in. A request
  that was approved, executed or failed was decided by someone other than its requester. (As long as no
  operation writes audit rows about change requests, and no account is deleted.)\<close>

theorem reachable_trails_replay:
  assumes "reachable reg t" "\<forall>op \<in> snd ` set reg. quiet_op op" "c \<in> set (crs t)"
  shows "replay (actions_of (cr_id c) (audit t)) = Some (cr_state c) \<and>
    (cr_state c \<notin> {Approved, Executed, Failed} \<or>
     (\<exists>r d. requested_by_user_id c = Some r \<and> decided_by_user_id c = Some d \<and> r \<noteq> d))"
proof -
  have "replay (actions_of (cr_id c) (audit t)) = Some (cr_state c) \<and> two_people c"
    using reachable_ok [OF assms(1,2)] assms(3) by (simp add: trail_ok_def list_all_iff)
  then show ?thesis by (auto simp: two_people_def split: if_splits option.splits)
qed

lemma drop_op_quiet: "quiet_op drop_op"
  by (simp add: quiet_op_def quiet_def drop_op_def drop_run_def)

lemma orderly_id: "orderly id"
  by (simp add: orderly_def)

definition plain_request :: scoped_request where
  "plain_request = \<lparr>http = get_req ''POST'' ''/subnets'', api_token_scopes = []\<rparr>"

definition queued_tx :: "nat tx" where
  "queued_tx = durable (snd (gate_or_execute (\<lambda>_. []) ''c1'' 0 ask_user plain_request drop_op (PyDict []) None
     (open_db start_tx)))"

definition executed_tx :: "nat tx" where
  "executed_tx = durable (snd (approve_change_request [(''delete_subnet'', drop_op)] (\<lambda>_. []) id 1 ''c1'' ok_user
     None None (open_db queued_tx)))"

theorem reachable_trails_replay_witness:
  "\<exists>c \<in> set (crs executed_tx). reachable [(''delete_subnet'', drop_op)] executed_tx \<and> cr_state c = Executed \<and>
     replay (actions_of (cr_id c) (audit executed_tx)) = Some Executed"
proof -
  let ?reg = "[(''delete_subnet'', drop_op)]"
  have "reachable ?reg start_tx" by (rule reachable.start) (simp_all add: start_tx_def quiet_def)
  then have "reachable ?reg queued_tx" unfolding queued_tx_def
    by (rule reachable.gate [OF _ _ prod.collapse [symmetric]]) (simp add: fresh_id_def start_tx_def actions_of_def)
  then have r: "reachable ?reg executed_tx" unfolding executed_tx_def
    by (rule reachable.approve [OF _ orderly_id prod.collapse [symmetric]]) (rule list.set_intros(1))
  have "list_ex (\<lambda>c. cr_state c = Executed) (crs executed_tx)" by code_simp
  then obtain c where c: "c \<in> set (crs executed_tx)" "cr_state c = Executed" unfolding list_ex_iff by blast
  show ?thesis using reachable_trails_replay [OF r _ c(1)] drop_op_quiet r c by auto
qed

section \<open>Which policy the gate finds\<close>

text \<open>What the comparison looks at: whether the type is named exactly, and the threshold.\<close>

fun stronger_key :: "bool \<Rightarrow> int option \<Rightarrow> bool \<Rightarrow> int option \<Rightarrow> bool" where
  "stronger_key x a y b = (if x \<noteq> y then x else case a of None \<Rightarrow> b \<noteq> None
     | Some m \<Rightarrow> (case b of None \<Rightarrow> False | Some n \<Rightarrow> m < n))"

lemma is_stronger_key: "is_stronger p q rtype =
  stronger_key (ap_resource_type p = rtype) (min_count p) (ap_resource_type q = rtype) (min_count q)"
  by (simp add: is_stronger_def)

lemma stronger_key_order:
  "\<not> stronger_key x a y b \<Longrightarrow> \<not> stronger_key y b z c \<Longrightarrow> \<not> stronger_key x a z c"
  "stronger_key x a y b \<Longrightarrow> \<not> stronger_key y b x a"
  by (cases x; cases y; cases z; cases a; cases b; cases c; simp)
    (cases x; cases y; cases a; cases b; simp)

lemma not_stronger_trans:
  "\<not> is_stronger a b rtype \<Longrightarrow> \<not> is_stronger b c rtype \<Longrightarrow> \<not> is_stronger a c rtype"
  unfolding is_stronger_key by (rule stronger_key_order(1))

lemma stronger_asym: "is_stronger a b rtype \<Longrightarrow> \<not> is_stronger b a rtype"
  unfolding is_stronger_key by (rule stronger_key_order(2))

lemma is_stronger_irrefl [simp]: "\<not> is_stronger p p rtype"
  using stronger_asym by blast

lemma best_policy_None:
  "best_policy rtype cnt best ps = None \<longleftrightarrow> best = None \<and> \<not> list_ex (\<lambda>p. threshold_met p cnt) ps"
proof (induction ps arbitrary: best)
  case (Cons p ps)
  then show ?case by (cases best) auto
qed simp

lemma best_policy_Some:
  "best_policy rtype cnt best ps = Some p \<Longrightarrow>
   (best = Some p \<or> p \<in> set ps \<and> threshold_met p cnt) \<and> (\<forall>b. best = Some b \<longrightarrow> \<not> is_stronger b p rtype) \<and>
   (\<forall>q \<in> set ps. threshold_met q cnt \<longrightarrow> \<not> is_stronger q p rtype)"
proof (induction rtype cnt best ps rule: best_policy.induct)
  case (2 rtype cnt best q ps)
  show ?case
  proof (cases "threshold_met q cnt")
    case True
    show ?thesis
    proof (cases "case best of None \<Rightarrow> True | Some b \<Rightarrow> is_stronger q b rtype")
      case stronger: True
      then have asym: "\<forall>b. best = Some b \<longrightarrow> \<not> is_stronger b q rtype" using stronger_asym by auto
      have ih: "(Some q = Some p \<or> p \<in> set ps \<and> threshold_met p cnt) \<and> \<not> is_stronger q p rtype \<and>
        (\<forall>x \<in> set ps. threshold_met x cnt \<longrightarrow> \<not> is_stronger x p rtype)"
        using 2(2) [OF _ stronger] "2.prems" True stronger by simp
      then show ?thesis using asym True not_stronger_trans [of _ q rtype p] by fastforce
    next
      case False
      then obtain b where b: "best = Some b" "\<not> is_stronger q b rtype" by (auto split: option.splits)
      have ih: "(best = Some p \<or> p \<in> set ps \<and> threshold_met p cnt) \<and> (\<forall>b. best = Some b \<longrightarrow> \<not> is_stronger b p rtype) \<and>
        (\<forall>x \<in> set ps. threshold_met x cnt \<longrightarrow> \<not> is_stronger x p rtype)"
        using 2(3) [OF _ False] "2.prems" True False by simp
      then show ?thesis using b not_stronger_trans [of q b rtype p] by fastforce
    qed
  qed (use 2 in auto)
qed simp

text \<open>Two policies of the same strength.\<close>

definition as_strong :: "string \<Rightarrow> approval_policy \<Rightarrow> approval_policy \<Rightarrow> bool" where
  "as_strong rtype p q \<longleftrightarrow> \<not> is_stronger p q rtype \<and> \<not> is_stronger q p rtype"

lemma match_policy_None: "match_policy ps rtype act cnt = None \<longleftrightarrow>
  (\<forall>p \<in> set ps. \<not> (candidate_policy rtype act p \<and> threshold_met p cnt))"
  by (auto simp: match_policy_def best_policy_None list_ex_iff)

text \<open>The gate finds the strongest policy that applies, whatever order the database returns the rows in.
  No policy is found only when no enabled policy for the action and type (or any type) has its
  threshold met; otherwise the found one is such a policy and no other is stronger; and another order of
  the same rows finds one of the same strength.\<close>

theorem match_policy_is_strongest:
  assumes "set qs = set ps"
  shows "(case match_policy ps rtype act cnt of
      None \<Rightarrow> match_policy qs rtype act cnt = None \<and>
        (\<forall>p \<in> set ps. \<not> (candidate_policy rtype act p \<and> threshold_met p cnt))
    | Some p \<Rightarrow> p \<in> set ps \<and> candidate_policy rtype act p \<and> threshold_met p cnt \<and>
        (\<forall>q \<in> set ps. candidate_policy rtype act q \<and> threshold_met q cnt \<longrightarrow> \<not> is_stronger q p rtype) \<and>
        (\<exists>q. match_policy qs rtype act cnt = Some q \<and> as_strong rtype p q))"
proof (cases "match_policy ps rtype act cnt")
  case None
  then have "\<forall>p \<in> set ps. \<not> (candidate_policy rtype act p \<and> threshold_met p cnt)" by (simp add: match_policy_None)
  moreover from this have "match_policy qs rtype act cnt = None" using assms by (simp add: match_policy_None)
  ultimately show ?thesis using None by simp
next
  case (Some p)
  note p = best_policy_Some [OF Some [unfolded match_policy_def]]
  have "match_policy qs rtype act cnt \<noteq> None" using assms Some by (metis match_policy_None option.distinct(1))
  then obtain q where q: "match_policy qs rtype act cnt = Some q" by auto
  note q' = best_policy_Some [OF q [unfolded match_policy_def]]
  have "as_strong rtype p q" using p q' assms by (auto simp: as_strong_def)
  then show ?thesis using Some p q by auto
qed

theorem match_policy_is_strongest_witness:
  "match_policy [any_policy, drop_policy] ''subnet'' ''delete'' (Some 20) = Some drop_policy \<and>
   (\<exists>q. match_policy [drop_policy, any_policy] ''subnet'' ''delete'' (Some 20) = Some q \<and>
      as_strong ''subnet'' drop_policy q)"
proof -
  have m: "match_policy [any_policy, drop_policy] ''subnet'' ''delete'' (Some 20) = Some drop_policy" by code_simp
  have "set [drop_policy, any_policy] = set [any_policy, drop_policy]" by auto
  from match_policy_is_strongest [OF this, of "''subnet''" "''delete''" "Some 20"] show ?thesis
    unfolding m by simp
qed

section \<open>The gate\<close>

text \<open>When the code says an operation may run at once.\<close>

definition ungated :: "user \<Rightarrow> 'w operation \<Rightarrow> int option \<Rightarrow> 'w resources \<Rightarrow> bool" where
  "ungated u op cnt r = (if \<not> approvals_module r then True
     else case required_permission op of None \<Rightarrow> True
     | Some (act, rtype) \<Rightarrow> (case match_policy (policies r) rtype act cnt of None \<Rightarrow> True
         | Some p \<Rightarrow> is_effective_superadmin u \<and> \<not> applies_to_superadmin p))"

lemma create_change_requestD:
  assumes "create_change_request i now u req inp t = Inr (c, t')"
  shows "c = new_change_request i now u inp \<and> crs t' = crs t @ [c] \<and> res t' = res t \<and>
    pending_of (user_id u) t' = Suc (pending_of (user_id u) t) \<and> pending_of (user_id u) t < MAX_PENDING_PER_USER"
  using assms by (auto simp: create_change_request_def Let_def pending_of_def new_change_request_def split: if_splits)

text \<open>C12: The gate holds back exactly what a policy covers, and queueing changes nothing else. It answers
  "run now" if and only if the module is off, the operation declares no permission, no policy matches
  or the matching policy exempts the superadmin. A queued answer has committed one new pending request
  of this user for this operation, within the cap of 50, and every other answer commits nothing; the
  tables the operation would act on are never touched.\<close>

theorem gate_holds_back_what_policy_covers:
  assumes "gate_or_execute pyrepr i now u req op args cnt (open_db t) = (g, s')"
  shows "(g = RunInline \<longleftrightarrow> ungated u op cnt (res t)) \<and> res (durable s') = res t \<and>
    (case g of Queued p \<Rightarrow>
       (\<exists>c. history s' = [durable s'] \<and> crs (durable s') = crs t @ [c] \<and> cr_id c = i \<and> crp_id p = i \<and>
          cr_state c = Pending \<and> requested_by_user_id c = Some (user_id u) \<and> cr_operation c = op_name op \<and>
          cr_args c = args \<and> cr_preview_text c = crp_preview_text p \<and>
          pending_of (user_id u) (durable s') \<le> MAX_PENDING_PER_USER)
     | _ \<Rightarrow> s' = open_db t)"
proof -
  have new: "cr_id c = i \<and> cr_state c = Pending \<and> requested_by_user_id c = Some (user_id u) \<and>
      cr_operation c = in_operation inp \<and> cr_args c = in_args inp \<and> crs t' = crs t @ [c] \<and> res t' = res t \<and>
      pending_of (user_id u) t' \<le> MAX_PENDING_PER_USER"
    if "create_change_request i now u req inp t = Inr (c, t')" for inp c t'
    using create_change_requestD [OF that] by (auto simp: new_change_request_def)
  show ?thesis
  proof (cases "ungated u op cnt (res t)")
    case True
    then show ?thesis using assms
      by (auto simp: gate_or_execute_def ungated_def split: if_splits option.splits prod.splits)
  next
    case False
    then obtain act rtype p where "approvals_module (res t)" "required_permission op = Some (act, rtype)"
      "match_policy (policies (res t)) rtype act cnt = Some p"
      "\<not> (is_effective_superadmin u \<and> \<not> applies_to_superadmin p)"
      by (auto simp: ungated_def split: if_splits option.splits prod.splits)
    note gated = this
    show ?thesis using assms False
      by (auto simp: gate_or_execute_def gated split: sum.splits if_splits prod.splits dest!: new)
  qed
qed

theorem gate_holds_back_what_policy_covers_witness:
  "\<exists>p s'. gate_or_execute (\<lambda>_. []) ''c1'' 0 ask_user plain_request drop_op (PyDict []) None (open_db start_tx) =
      (Queued p, s') \<and> crp_id p = ''c1'' \<and> world (res (durable s')) = 7"
proof -
  let ?r = "gate_or_execute (\<lambda>_. []) ''c1'' 0 ask_user plain_request drop_op (PyDict []) None (open_db start_tx)"
  have "world (res start_tx) = 7" by (simp add: start_tx_def)
  have "case fst ?r of Queued p \<Rightarrow> True | _ \<Rightarrow> False" by code_simp
  then obtain p s' where p: "?r = (Queued p, s')" by (cases ?r) (auto split: gate_answer.splits)
  show ?thesis using gate_holds_back_what_policy_covers [OF p] p
    \<open>world (res start_tx) = 7\<close> by auto
qed

section \<open>The expiry sweep\<close>

definition overdue :: "datetime \<Rightarrow> change_request \<Rightarrow> bool" where
  "overdue now c \<longleftrightarrow> cr_state c = Pending \<and> expires_at c \<le> now"

definition expired_row :: "datetime \<Rightarrow> change_request \<Rightarrow> change_request" where
  "expired_row now c = c\<lparr>cr_state := Expired, decided_at := Some now\<rparr>"

lemma get_change_request_mem:
  "distinct (map cr_id (crs t)) \<Longrightarrow> c \<in> set (crs t) \<Longrightarrow> get_change_request (cr_id c) t = Some c"
proof -
  have "distinct (map cr_id xs) \<Longrightarrow> c \<in> set xs \<Longrightarrow> find (\<lambda>x. cr_id x = cr_id c) xs = Some c" for xs
    by (induction xs) (auto simp: rev_image_eqI)
  then show "distinct (map cr_id (crs t)) \<Longrightarrow> c \<in> set (crs t) \<Longrightarrow> ?thesis" by (simp add: get_change_request_def)
qed

lemma expired_row_id [simp]: "cr_id (expired_row now c) = cr_id c"
  by (simp add: expired_row_def)

lemma mark_expired_overdue:
  assumes "overdue now c"
  shows "mark_expired now c t = Inr (expired_row now c, add_audit (cr_audit None None ''expired'' (expired_row now c)
    (state_dict Pending []) (state_dict Expired [])) (put_cr (expired_row now c) t))"
  using assms by (simp add: mark_defs overdue_def expired_row_def)

text \<open>The table after the rows \<open>is\<close> were handled.\<close>

definition swept :: "datetime \<Rightarrow> (uuid \<Rightarrow> bool) \<Rightarrow> uuid list \<Rightarrow> 'w tx \<Rightarrow> 'w tx \<Rightarrow> bool" where
  "swept now broken is t t' \<longleftrightarrow> res t' = res t \<and>
     crs t' = map (\<lambda>c. if cr_id c \<in> set is \<and> \<not> broken (cr_id c) then expired_row now c else c) (crs t) \<and>
     (\<exists>rws. audit t' = audit t @ rws \<and>
        map (\<lambda>r. (al_action r, al_resource_id r)) rws = map (\<lambda>i. (''expired'', i)) (filter (\<lambda>i. \<not> broken i) is))"

lemma swept_step:
  assumes "swept now broken is t1 t2" "c \<in> set (crs t)" "distinct (map cr_id (crs t))" "\<not> broken (cr_id c)"
    "cr_id c \<notin> set is"
    "t1 = add_audit (cr_audit None None ''expired'' (expired_row now c) old new) (put_cr (expired_row now c) t)"
  shows "swept now broken (cr_id c # is) t t2"
proof -
  have eq: "x = c" if "x \<in> set (crs t)" "cr_id x = cr_id c" for x
    using assms(2,3) that by (auto simp: distinct_map inj_on_def)
  have "crs t2 = map (\<lambda>x. if cr_id x \<in> set (cr_id c # is) \<and> \<not> broken (cr_id x) then expired_row now x else x) (crs t)"
    using assms eq by (auto simp: swept_def put_cr_def)
  moreover obtain rws where "audit t2 = audit t1 @ rws" "map (\<lambda>r. (al_action r, al_resource_id r)) rws =
      map (\<lambda>i. (''expired'', i)) (filter (\<lambda>i. \<not> broken i) is)" using assms(1) by (auto simp: swept_def)
  ultimately show ?thesis using assms
    by (auto simp: swept_def cr_audit_def new_audit_log_def intro!: exI [of _ "_ # rws"])
qed

lemma sweep_rows_swept:
  assumes "distinct is" "\<forall>i \<in> set is. \<exists>c \<in> set (crs (work s)). cr_id c = i \<and> overdue now c"
    "distinct (map cr_id (crs (work s)))" "work s = durable s"
  shows "\<exists>s'. sweep_rows now broken is s (a, b, d) =
      ((a + length is, b + length (filter (\<lambda>i. \<not> broken i) is), d + length (filter broken is)), s') \<and>
      swept now broken is (durable s) (durable s')"
  using assms
proof (induction "is" arbitrary: s a b d)
  case Nil
  then show ?case by (simp add: swept_def)
next
  case (Cons i "is")
  show ?case
  proof (cases "broken i")
    case True
    with Cons.IH [of "rollback s" "a + 1" b "d + 1"] Cons.prems show ?thesis by (auto simp: swept_def)
  next
    case False
    obtain c where c: "c \<in> set (crs (work s))" "cr_id c = i" "overdue now c" using Cons.prems(2) by auto
    let ?t = "add_audit (cr_audit None None ''expired'' (expired_row now c) (state_dict Pending [])
      (state_dict Expired [])) (put_cr (expired_row now c) (work s))"
    let ?s = "commit (s\<lparr>work := ?t\<rparr>)"
    have step: "sweep_rows now broken (i # is) s (a, b, d) = sweep_rows now broken is ?s (a + 1, b + 1, d)"
      using False c get_change_request_mem [OF Cons.prems(3) c(1)] mark_expired_overdue [OF c(3), of "work s"]
      by (simp add: overdue_def)
    have "\<exists>x \<in> set (crs ?t). cr_id x = j \<and> overdue now x" if "j \<in> set is" for j
    proof -
      obtain x where x: "x \<in> set (crs (work s))" "cr_id x = j" "overdue now x" using Cons.prems(2) \<open>j \<in> set is\<close> by auto
      moreover have "j \<noteq> i" using Cons.prems(1) that by auto
      ultimately show ?thesis using c(2) by (auto simp: put_cr_def intro!: bexI [of _ x])
    qed
    then obtain s' where s': "sweep_rows now broken is ?s (a + 1, b + 1, d) = ((a + 1 + length is,
        b + 1 + length (filter (\<lambda>i. \<not> broken i) is), d + length (filter broken is)), s')"
      "swept now broken is ?t (durable s')" using Cons.IH [of ?s "a + 1" "b + 1" d] Cons.prems by auto
    then show ?thesis using step False swept_step [OF s'(2) c(1) Cons.prems(3) _ _ refl] Cons.prems c(2) by auto
  qed
qed

text \<open>The sweep expires exactly the overdue requests. Every pending request whose time is over becomes
  expired, with one audit row naming it, except those whose handling raises, which are left as they
  were and do not stop the others; nothing else changes, and the counts it reports are exact.\<close>

theorem sweep_expires_exactly_overdue:
  assumes "distinct (map cr_id (crs t))" "sweep now broken (open_db t) = ((checked, expired, skipped), s')"
  shows "res (durable s') = res t \<and>
    crs (durable s') = map (\<lambda>c. if overdue now c \<and> \<not> broken (cr_id c) then expired_row now c else c) (crs t) \<and>
    (\<exists>rws. audit (durable s') = audit t @ rws \<and> map (\<lambda>r. (al_action r, al_resource_id r)) rws =
       map (\<lambda>c. (''expired'', cr_id c)) (filter (\<lambda>c. overdue now c \<and> \<not> broken (cr_id c)) (crs t))) \<and>
    checked = length (filter (overdue now) (crs t)) \<and> checked = expired + skipped \<and>
    expired = length (filter (\<lambda>c. overdue now c \<and> \<not> broken (cr_id c)) (crs t))"
proof -
  let ?is = "map cr_id (filter (overdue now) (crs t))"
  have cand: "sweep_candidates now t = ?is" by (simp add: sweep_candidates_def overdue_def [abs_def])
  have d: "distinct ?is" using assms(1) by (simp add: distinct_map inj_on_def)
  have mem: "cr_id c \<in> set ?is \<longleftrightarrow> overdue now c" if "c \<in> set (crs t)" for c
    using that assms(1) by (auto simp: distinct_map inj_on_def)
  have n: "length (filter broken ?is) + length (filter (\<lambda>i. \<not> broken i) ?is) = length ?is"
    using sum_length_filter_compl [of broken ?is] by simp
  obtain s2 where s2: "sweep now broken (open_db t) =
      ((length ?is, length (filter (\<lambda>i. \<not> broken i) ?is), length (filter broken ?is)), s2)"
    "swept now broken ?is t (durable s2)"
    using sweep_rows_swept [of ?is "open_db t" now broken 0 0 0] d assms(1) by (auto simp: sweep_def cand)
  have f: "filter (\<lambda>i. \<not> broken i) ?is = map cr_id (filter (\<lambda>c. overdue now c \<and> \<not> broken (cr_id c)) (crs t))"
    by (simp add: filter_map comp_def conj_commute)
  have "s2 = s'" "checked = length ?is" "expired = length (filter (\<lambda>i. \<not> broken i) ?is)"
    "skipped = length (filter broken ?is)" using assms(2) s2(1) by auto
  then show ?thesis using s2(2) n unfolding swept_def f using mem by (auto simp: comp_def)
qed

theorem sweep_expires_exactly_overdue_witness:
  "map cr_state (crs (durable (snd (sweep (hours 25) (\<lambda>_. False) (open_db asked_tx))))) = [Expired]"
proof -
  have "distinct (map cr_id (crs asked_tx))" "map (overdue (hours 25)) (crs asked_tx) = [True]"
    "length (crs asked_tx) = 1" by code_simp+
  then obtain c where c: "crs asked_tx = [c]" "overdue (hours 25) c" by (auto simp: length_Suc_conv)
  show ?thesis
    using sweep_expires_exactly_overdue [of asked_tx "hours 25" "\<lambda>_. False"] c
    by (cases "sweep (hours 25) (\<lambda>_. False) (open_db asked_tx)") (auto simp: expired_row_def)
qed

end
