(* ===== verification/Net.thy ===== *)
theory Net
  imports Json
begin

text \<open>
  The IPv4 and IPv6 networks of Python's \<open>ipaddress\<close> module, as far as the IPAM services use them: an
  address is its integer, a network its version, integer network address and prefix length. The text
  of a network is canonical, so a network stands for its own text.
\<close>

section \<open>Networks\<close>

datatype ip_version = V4 | V6

fun max_prefixlen :: "ip_version \<Rightarrow> nat" where
  "max_prefixlen V4 = 32" | "max_prefixlen V6 = 128"

record ipnet =
  version :: ip_version
  network_address :: nat
  prefixlen :: nat

definition num_addresses :: "ipnet \<Rightarrow> nat" where
  "num_addresses n = 2 ^ (max_prefixlen (version n) - prefixlen n)"

definition broadcast_address :: "ipnet \<Rightarrow> nat" where
  "broadcast_address n = network_address n + num_addresses n - 1"

text \<open>What the constructor of a network guarantees: the host bits are zero and everything fits.\<close>

definition wf_net :: "ipnet \<Rightarrow> bool" where
  "wf_net n \<longleftrightarrow> prefixlen n \<le> max_prefixlen (version n) \<and> num_addresses n dvd network_address n \<and>
     network_address n < 2 ^ max_prefixlen (version n)"

text \<open>\<open>ip_network(text, strict=False)\<close> on the version, address and prefix length a column holds: the host
  bits are cleared, and a prefix or address out of range is refused.\<close>

type_synonym cidr_column = "ip_version \<times> nat \<times> nat"

fun ip_network :: "cidr_column \<Rightarrow> ipnet option" where
  "ip_network (v, a, p) = (if max_prefixlen v < p \<or> 2 ^ max_prefixlen v \<le> a then None
     else Some \<lparr>version = v, network_address = a - a mod 2 ^ (max_prefixlen v - p), prefixlen = p\<rparr>)"

text \<open>\<open>address in net\<close>: the masked address is the network address.\<close>

definition contains :: "ipnet \<Rightarrow> ip_version \<times> nat \<Rightarrow> bool" where
  "contains n va \<longleftrightarrow> fst va = version n \<and> snd va - snd va mod num_addresses n = network_address n"

definition overlaps :: "ipnet \<Rightarrow> ipnet \<Rightarrow> bool" where
  "overlaps a b \<longleftrightarrow> contains b (version a, network_address a) \<or> contains b (version a, broadcast_address a) \<or>
     contains a (version b, network_address b) \<or> contains a (version b, broadcast_address b)"

text \<open>\<open>net.subnets(new_prefix=p)\<close>; \<open>None\<close> is the \<open>ValueError\<close>.\<close>

definition subnets :: "ipnet \<Rightarrow> nat \<Rightarrow> ipnet list option" where
  "subnets n p = (if prefixlen n = max_prefixlen (version n) then Some [n]
     else if p < prefixlen n \<or> max_prefixlen (version n) < p then None
     else let step = num_addresses n div 2 ^ (p - prefixlen n) in
       Some (map (\<lambda>k. n\<lparr>network_address := network_address n + k * step, prefixlen := p\<rparr>)
         [0 ..< (broadcast_address n + 1 - network_address n) div step]))"

section \<open>The addresses of a network\<close>

definition addresses :: "ipnet \<Rightarrow> (ip_version \<times> nat) set" where
  "addresses n = {version n} \<times> {network_address n ..< network_address n + num_addresses n}"

lemma num_addresses_pos [simp]: "0 < num_addresses n" "num_addresses n \<noteq> 0"
  by (simp_all add: num_addresses_def)

lemma masked_eq_iff:
  assumes "(0::nat) < m" "m dvd b"
  shows "a - a mod m = b \<longleftrightarrow> b \<le> a \<and> a < b + m"
proof -
  from assms(2) obtain q where q: "b = m * q" by blast
  have "a - a mod m = m * (a div m)" by (simp add: minus_mod_eq_mult_div)
  then have "a - a mod m = b \<longleftrightarrow> a div m = q" using assms(1) q by simp
  also have "\<dots> \<longleftrightarrow> q \<le> a div m \<and> a div m < Suc q" by auto
  also have "\<dots> \<longleftrightarrow> b \<le> a \<and> a < b + m"
    using assms(1) q by (simp add: less_eq_div_iff_mult_less_eq div_less_iff_less_mult algebra_simps)
  finally show ?thesis .
qed

lemma contains_iff: "wf_net n \<Longrightarrow> contains n va \<longleftrightarrow> va \<in> addresses n"
  by (cases va) (auto simp: contains_def addresses_def wf_net_def masked_eq_iff)

lemma broadcast_in: "(version n, broadcast_address n) \<in> addresses n"
  "(version n, network_address n) \<in> addresses n"
  using num_addresses_pos(1) [of n] by (auto simp: addresses_def broadcast_address_def simp del: num_addresses_pos)

lemma card_addresses: "card (addresses n) = num_addresses n" "finite (addresses n)" "addresses n \<noteq> {}"
  using broadcast_in by (auto simp: addresses_def card_cartesian_product)

lemma overlaps_iff:
  assumes "wf_net a" "wf_net b"
  shows "overlaps a b \<longleftrightarrow> addresses a \<inter> addresses b \<noteq> {}"
proof
  show "addresses a \<inter> addresses b \<noteq> {}" if "overlaps a b"
    using that broadcast_in [of a] broadcast_in [of b] by (auto simp: overlaps_def contains_iff assms)
  show "overlaps a b" if "addresses a \<inter> addresses b \<noteq> {}"
    using that num_addresses_pos(1) [of a] num_addresses_pos(1) [of b] unfolding overlaps_def contains_iff [OF assms(1)]
      contains_iff [OF assms(2)] by (auto simp: addresses_def simp del: num_addresses_pos)
qed

lemma wf_fits: "wf_net n \<Longrightarrow> network_address n + num_addresses n \<le> 2 ^ max_prefixlen (version n)"
proof -
  assume wf: "wf_net n"
  let ?w = "max_prefixlen (version n)" and ?m = "num_addresses n"
  have "?m dvd 2 ^ ?w" using wf by (auto simp: wf_net_def num_addresses_def intro: le_imp_power_dvd)
  then obtain k where "2 ^ ?w = ?m * k" by (elim dvdE)
  moreover obtain q where "network_address n = ?m * q" using wf unfolding wf_net_def by (elim conjE dvdE)
  moreover have "network_address n < 2 ^ ?w" using wf by (simp add: wf_net_def)
  ultimately show ?thesis using num_addresses_pos(1) [of n]
    by (metis add.commute mult_Suc_right Suc_leI mult_le_mono2 mult_less_cancel1)
qed

lemma ip_network_wf:
  assumes "ip_network (v, a, p) = Some n"
  shows "wf_net n \<and> version n = v \<and> prefixlen n = p \<and> (v, a) \<in> addresses n"
proof -
  let ?m = "2 ^ (max_prefixlen v - p) :: nat"
  have n: "n = \<lparr>version = v, network_address = a - a mod ?m, prefixlen = p\<rparr>" "p \<le> max_prefixlen v"
    "a < 2 ^ max_prefixlen v" using assms by (auto split: if_splits)
  moreover have "?m dvd a - a mod ?m" by (simp add: minus_mod_eq_mult_div)
  moreover have "a < a + ?m - a mod ?m" 
  proof -
    have "a mod ?m < ?m" by simp
    then show ?thesis by linarith
  qed
  ultimately show ?thesis by (auto simp: wf_net_def addresses_def num_addresses_def)
qed

section \<open>Dividing a network\<close>

lemma num_addresses_step:
  assumes "prefixlen n \<le> p" "p \<le> max_prefixlen (version n)"
  shows "num_addresses n = 2 ^ (p - prefixlen n) * num_addresses (n\<lparr>prefixlen := p\<rparr>)"
  using assms by (simp add: num_addresses_def flip: power_add)

lemma subnets_eq:
  assumes "prefixlen n < p" "p \<le> max_prefixlen (version n)"
  shows "subnets n p = Some (map (\<lambda>k. n\<lparr>network_address := network_address n + k * num_addresses (n\<lparr>prefixlen := p\<rparr>),
      prefixlen := p\<rparr>) [0 ..< 2 ^ (p - prefixlen n)])"
proof -
  have "num_addresses n div 2 ^ (p - prefixlen n) = num_addresses (n\<lparr>prefixlen := p\<rparr>)"
    using num_addresses_step [of n p] assms by simp
  moreover have "(broadcast_address n + 1 - network_address n) = num_addresses n"
    using num_addresses_pos(1) [of n] unfolding broadcast_address_def by linarith
  moreover have "num_addresses n div num_addresses (n\<lparr>prefixlen := p\<rparr>) = 2 ^ (p - prefixlen n)"
    using num_addresses_step [of n p] assms by (metis less_imp_le nonzero_mult_div_cancel_right num_addresses_pos(2))
  ultimately show ?thesis using assms by (simp add: subnets_def Let_def)
qed

text \<open>Child \<open>k\<close> of a network divided at prefix \<open>p\<close>.\<close>

definition child :: "ipnet \<Rightarrow> nat \<Rightarrow> nat \<Rightarrow> ipnet" where
  "child n p k = n\<lparr>network_address := network_address n + k * num_addresses (n\<lparr>prefixlen := p\<rparr>), prefixlen := p\<rparr>"

lemma child_simps [simp]: "version (child n p k) = version n" "prefixlen (child n p k) = p"
  "num_addresses (child n p k) = num_addresses (n\<lparr>prefixlen := p\<rparr>)"
  "network_address (child n p k) = network_address n + k * num_addresses (n\<lparr>prefixlen := p\<rparr>)"
  by (simp_all add: child_def num_addresses_def)

lemma child_in:
  assumes "wf_net n" "prefixlen n \<le> p" "p \<le> max_prefixlen (version n)" "k < 2 ^ (p - prefixlen n)"
  shows "wf_net (child n p k)" "addresses (child n p k) \<subseteq> addresses n"
proof -
  let ?m = "num_addresses (n\<lparr>prefixlen := p\<rparr>)"
  have n: "num_addresses n = 2 ^ (p - prefixlen n) * ?m" by (rule num_addresses_step [OF assms(2,3)])
  have le: "k * ?m + ?m \<le> num_addresses n" unfolding n using mult_le_mono1 [of "Suc k" "2 ^ (p - prefixlen n)" ?m] assms(4) by simp
  then show "addresses (child n p k) \<subseteq> addresses n" by (auto simp: addresses_def)
  have "?m dvd network_address n" using assms(1) n unfolding wf_net_def by (metis dvd_mult_left dvd_trans dvd_triv_right)
  then have d: "?m dvd network_address n + k * ?m" by simp
  have "network_address n + k * ?m < 2 ^ max_prefixlen (version n)"
    using wf_fits [OF assms(1)] le num_addresses_pos(1) [of "n\<lparr>prefixlen := p\<rparr>"] by linarith
  then show "wf_net (child n p k)" using d assms(3) unfolding wf_net_def by (simp add: child_def num_addresses_def)
qed

lemma child_at:
  assumes "wf_net n" "prefixlen n \<le> p" "p \<le> max_prefixlen (version n)" "va \<in> addresses n"
  defines "k \<equiv> (snd va - network_address n) div num_addresses (n\<lparr>prefixlen := p\<rparr>)"
  shows "k < 2 ^ (p - prefixlen n)" "va \<in> addresses (child n p k)"
    "va \<in> addresses (child n p j) \<Longrightarrow> j = k"
proof -
  let ?m = "num_addresses (n\<lparr>prefixlen := p\<rparr>)"
  let ?d = "snd va - network_address n"
  have va: "fst va = version n" "network_address n \<le> snd va" "?d < num_addresses n"
    using assms(4) by (auto simp: addresses_def)
  show "k < 2 ^ (p - prefixlen n)" unfolding k_def using va(3) num_addresses_step [OF assms(2,3)]
    by (simp add: div_less_iff_less_mult)
  have "k * ?m \<le> ?d" "?d < k * ?m + ?m" unfolding k_def
    using dividend_less_div_times [of ?m ?d] by (simp_all add: add.commute)
  then show "va \<in> addresses (child n p k)" using va by (cases va) (auto simp: addresses_def)
  show "j = k" if "va \<in> addresses (child n p j)"
  proof -
    have "j * ?m \<le> ?d" "?d < j * ?m + ?m" using that va by (auto simp: addresses_def)
    then show ?thesis unfolding k_def by (intro div_nat_eqI [symmetric]) (auto simp: algebra_simps)
  qed
qed

lemma child_eq_iff:
  assumes "wf_net n" "prefixlen n \<le> p" "p \<le> max_prefixlen (version n)" "wf_net c" "version c = version n"
    "prefixlen c = p" "addresses c \<inter> addresses n \<noteq> {}"
  shows "\<exists>k < 2 ^ (p - prefixlen n). c = child n p k"
proof -
  from assms(7) obtain va where va: "va \<in> addresses c" "va \<in> addresses n" by auto
  obtain k where k: "k < 2 ^ (p - prefixlen n)" "va \<in> addresses (child n p k)"
    using child_at(1,2) [OF assms(1-3) va(2)] by blast
  have "contains c va" "contains (child n p k) va"
    using va k child_in(1) [OF assms(1-3) k(1)] by (simp_all add: contains_iff assms(4))
  then have "network_address c = network_address (child n p k)"
    using assms(5,6) by (simp add: contains_def num_addresses_def)
  then show ?thesis using k(1) assms(5,6) by (intro exI [of _ k]) simp
qed

lemma subnets_child:
  assumes "prefixlen n < p" "p \<le> max_prefixlen (version n)"
  shows "subnets n p = Some (map (child n p) [0 ..< 2 ^ (p - prefixlen n)])"
  using subnets_eq [OF assms] by (simp add: child_def [abs_def])

lemma children_distinct: "distinct (map (child n p) [0 ..< k])"
proof -
  have "i = j" if "child n p i = child n p j" for i j using arg_cong [OF that, of network_address] by simp
  then show ?thesis by (auto simp: distinct_map inj_on_def)
qed

lemma children_disjoint:
  assumes "wf_net n" "prefixlen n \<le> p" "p \<le> max_prefixlen (version n)" "j < 2 ^ (p - prefixlen n)" "i \<noteq> j"
    "i < 2 ^ (p - prefixlen n)"
  shows "addresses (child n p i) \<inter> addresses (child n p j) = {}"
proof (rule ccontr)
  assume "addresses (child n p i) \<inter> addresses (child n p j) \<noteq> {}"
  then obtain va where "va \<in> addresses (child n p i)" "va \<in> addresses (child n p j)" by auto
  then show False using child_in(2) [OF assms(1-3,4)] child_at(3) [OF assms(1-3)] assms(5) by blast
qed

end
