(* ===== verification/Collapse.thy ===== *)
theory Collapse
  imports Net "HOL-Library.Product_Lexorder" "HOL-Library.Code_Target_Nat"
begin

text \<open>
  \<open>_summarise_or_none\<close> of \<^verbatim>\<open>services/ipam/subnet_merge.py\<close> with what it calls of Python's \<open>ipaddress\<close>:
  \<open>collapse_addresses\<close>, \<open>summarize_address_range\<close> and \<open>supernet\<close>. The result is the one network the given
  networks divide up, if there is one.
\<close>

section \<open>Collapsing networks\<close>

definition supernet :: "ipnet \<Rightarrow> ipnet" where
  "supernet n = (if prefixlen n = 0 then n
     else let q = prefixlen n - 1; m = 2 ^ (max_prefixlen (version n) - q) in
       n\<lparr>network_address := network_address n - network_address n mod m, prefixlen := q\<rparr>)"

text \<open>The merge loop of \<open>_collapse_addresses_internal\<close>: the dict from supernet to the half seen, and the
  stack with its top first.\<close>

function collapse_loop :: "(ipnet \<times> ipnet) list \<Rightarrow> ipnet list \<Rightarrow> ipnet list" where
  "collapse_loop d [] = map snd d"
| "collapse_loop d (net # st) =
     (case map_of d (supernet net) of
        None \<Rightarrow> collapse_loop ((supernet net, net) # d) st
      | Some existing \<Rightarrow>
          (if existing \<noteq> net
           then collapse_loop (filter (\<lambda>(k, _). k \<noteq> supernet net) d) (supernet net # st)
           else collapse_loop d st))"
  by pat_completeness auto

termination
proof (relation "measure (\<lambda>(d, st). 2 * length st + length d)", goal_cases)
  case (3 d net st existing)
  have "length (filter (\<lambda>(k, _). k \<noteq> supernet net) d) < length d"
    using map_of_SomeD [OF 3(1)] by (intro length_filter_less [of "(supernet net, existing)"]) auto
  then show ?case by simp
qed auto

text \<open>The second pass skips networks inside the last one kept.\<close>

fun skip_subsumed :: "ipnet option \<Rightarrow> ipnet list \<Rightarrow> ipnet list" where
  "skip_subsumed l [] = []"
| "skip_subsumed l (net # nets) =
     (if (case l of None \<Rightarrow> False | Some x \<Rightarrow> broadcast_address net \<le> broadcast_address x)
      then skip_subsumed l nets else net # skip_subsumed (Some net) nets)"

definition collapse_internal :: "ipnet list \<Rightarrow> ipnet list" where
  "collapse_internal nets = skip_subsumed None
     (sort_key (\<lambda>n. (network_address n, prefixlen n)) (collapse_loop [] (rev nets)))"

section \<open>Single addresses\<close>

fun trailing_zeros :: "nat \<Rightarrow> nat \<Rightarrow> nat" where
  "trailing_zeros 0 n = 0"
| "trailing_zeros (Suc bits) n = (if even n then Suc (trailing_zeros bits (n div 2)) else 0)"

text \<open>\<open>n.bit_length() - 1\<close>.\<close>

fun log2 :: "nat \<Rightarrow> nat" where
  "log2 n = (if n \<le> 1 then 0 else Suc (log2 (n div 2)))"

declare log2.simps [simp del]

lemma log2_bound: "0 < n \<Longrightarrow> 2 ^ log2 n \<le> n"
proof (induction n rule: log2.induct)
  case (1 n)
  show ?case
  proof (cases "n \<le> 1")
    case True
    then show ?thesis using "1.prems" by (simp add: log2.simps)
  next
    case False
    then have "2 ^ log2 (n div 2) \<le> n div 2" using "1.IH" by simp
    then have "2 * 2 ^ log2 (n div 2) \<le> n" by linarith
    moreover have "log2 n = Suc (log2 (n div 2))" using False by (simp add: log2.simps [of n])
    ultimately show ?thesis by simp
  qed
qed

text \<open>\<open>summarize_address_range\<close>: the largest aligned network that starts at \<open>lo\<close> and fits, then the rest.\<close>

function summarize_range :: "ip_version \<Rightarrow> nat \<Rightarrow> nat \<Rightarrow> ipnet list" where
  "summarize_range v lo hi =
     (if hi < lo then []
      else let w = max_prefixlen v; nbits = min (trailing_zeros w lo) (log2 (hi - lo + 1)) in
        \<lparr>version = v, network_address = lo, prefixlen = w - nbits\<rparr> #
        (if lo + 2 ^ nbits - 1 = 2 ^ w - 1 then [] else summarize_range v (lo + 2 ^ nbits) hi))"
  by pat_completeness auto

termination
  by (relation "measure (\<lambda>(v, lo, hi). Suc hi - lo)") (auto intro!: diff_less_mono2)

declare summarize_range.simps [simp del]

text \<open>\<open>_find_address_range\<close>: the runs of consecutive numbers of a sorted list.\<close>

fun address_ranges :: "nat \<Rightarrow> nat \<Rightarrow> nat list \<Rightarrow> (nat \<times> nat) list" where
  "address_ranges lo hi [] = [(lo, hi)]"
| "address_ranges lo hi (ip # ips) =
     (if ip \<noteq> hi + 1 then (lo, hi) # address_ranges ip ip ips else address_ranges lo ip ips)"

text \<open>\<open>None\<close> is the \<open>TypeError\<close> of mixed versions.\<close>

definition is_host :: "ipnet \<Rightarrow> bool" where
  "is_host n \<longleftrightarrow> prefixlen n = max_prefixlen (version n)"

definition host_networks :: "ip_version \<Rightarrow> ipnet list \<Rightarrow> ipnet list" where
  "host_networks v nets = (case sort (remdups (map network_address (filter is_host nets))) of [] \<Rightarrow> []
     | ip # ips \<Rightarrow> concat (map (\<lambda>(lo, hi). summarize_range v lo hi) (address_ranges ip ip ips)))"

definition collapse_addresses :: "ipnet list \<Rightarrow> ipnet list option" where
  "collapse_addresses nets = (case nets of [] \<Rightarrow> Some []
     | n # _ \<Rightarrow> if list_all (\<lambda>x. version x = version n) nets
         then Some (collapse_internal (host_networks (version n) nets @ filter (\<lambda>x. \<not> is_host x) nets)) else None)"

definition summarise_or_none :: "ipnet list \<Rightarrow> ipnet option" where
  "summarise_or_none nets = (if nets = [] then None
     else case collapse_addresses nets of
       Some [m] \<Rightarrow> (if sum_list (map num_addresses nets) \<noteq> num_addresses m then None else Some m)
     | _ \<Rightarrow> None)"

section \<open>Sizes and coverage\<close>

definition covered :: "ipnet list \<Rightarrow> (ip_version \<times> nat) set" where
  "covered nets = (\<Union>n \<in> set nets. addresses n)"

definition total_size :: "ipnet list \<Rightarrow> nat" where
  "total_size nets = sum_list (map num_addresses nets)"

fun apart :: "ipnet list \<Rightarrow> bool" where
  "apart [] = True"
| "apart (n # nets) \<longleftrightarrow> addresses n \<inter> covered nets = {} \<and> apart nets"

definition good :: "ip_version \<Rightarrow> ipnet list \<Rightarrow> bool" where
  "good v nets \<longleftrightarrow> (\<forall>n \<in> set nets. wf_net n \<and> version n = v)"

lemma covered_simps [simp]: "covered [] = {}" "covered (n # nets) = addresses n \<union> covered nets"
  "covered (xs @ ys) = covered xs \<union> covered ys"
  by (auto simp: covered_def)

lemma total_simps [simp]: "total_size [] = 0" "total_size (n # nets) = num_addresses n + total_size nets"
  "total_size (xs @ ys) = total_size xs + total_size ys"
  by (simp_all add: total_size_def)

lemma good_simps [simp]: "good v []" "good v (n # nets) \<longleftrightarrow> wf_net n \<and> version n = v \<and> good v nets"
  "good v (xs @ ys) \<longleftrightarrow> good v xs \<and> good v ys"
  by (auto simp: good_def)

lemma finite_covered [simp]: "finite (covered nets)"
  by (simp add: covered_def card_addresses)

lemma covered_le_total: "card (covered nets) \<le> total_size nets"
proof (induction nets)
  case (Cons n nets)
  then show ?case using card_Un_le [of "addresses n" "covered nets"] by (simp add: card_addresses)
qed simp

text \<open>Networks are pairwise disjoint exactly when their sizes add up.\<close>

lemma apart_iff_total: "apart nets \<longleftrightarrow> total_size nets = card (covered nets)"
proof (induction nets)
  case (Cons n nets)
  have u: "card (addresses n \<union> covered nets) + card (addresses n \<inter> covered nets) = num_addresses n + card (covered nets)"
    using card_Un_Int [of "addresses n" "covered nets"] by (simp add: card_addresses)
  have "card (addresses n \<inter> covered nets) = 0 \<longleftrightarrow> addresses n \<inter> covered nets = {}"
    by (simp add: card_addresses)
  then show ?case using Cons.IH u covered_le_total [of nets] by auto
qed simp

lemma apart_mem:
  assumes "apart nets" "x \<in> set nets" "y \<in> set nets" "x \<noteq> y"
  shows "addresses x \<inter> addresses y = {}"
  using assms by (induction nets) (auto simp: covered_def)

lemma apart_distinct: "apart nets \<Longrightarrow> distinct nets"
  using card_addresses(3) by (induction nets) (auto simp: covered_def)

section \<open>The merge loop\<close>

lemma supernet_simps:
  "version (supernet n) = version n" "prefixlen (supernet n) = prefixlen n - 1"
  by (simp_all add: supernet_def Let_def)

lemma supernet_wf:
  assumes "wf_net n"
  shows "wf_net (supernet n)" "addresses n \<subseteq> addresses (supernet n)"
proof -
  have "wf_net (supernet n) \<and> addresses n \<subseteq> addresses (supernet n)"
  proof (cases "prefixlen n = 0")
    case False
    let ?w = "max_prefixlen (version n)" and ?q = "prefixlen n - 1"
    let ?m = "2 ^ (?w - ?q) :: nat" and ?a = "network_address n"
    have p: "prefixlen n \<le> ?w" "num_addresses n dvd ?a" using assms by (auto simp: wf_net_def)
    have "?w - ?q = Suc (?w - prefixlen n)" using False p(1) by linarith
    then have m: "?m = 2 * num_addresses n" unfolding num_addresses_def by simp
    have s: "supernet n = n\<lparr>network_address := ?a - ?a mod ?m, prefixlen := ?q\<rparr>" "num_addresses (supernet n) = ?m"
      using False by (simp_all add: supernet_def Let_def num_addresses_def)
    have "?m dvd ?a - ?a mod ?m" by (simp add: minus_mod_eq_mult_div)
    then have wf: "wf_net (supernet n)" using assms p(1) s unfolding wf_net_def by auto
    have "?a mod ?m + num_addresses n \<le> ?m"
    proof -
      obtain q where q: "?a = num_addresses n * q" using p(2) by blast
      have "?a mod ?m = (num_addresses n * q) mod (num_addresses n * 2)" unfolding m using q by (metis mult.commute)
      then have "?a mod ?m = num_addresses n * (q mod 2)" by (simp only: mult_mod_right)
      moreover have "q mod 2 \<le> 1" by simp
      ultimately show ?thesis unfolding m by (metis add_mono mult.right_neutral mult_2 mult_le_mono2 order_refl)
    qed
    moreover have "?a mod ?m \<le> ?a" by simp
    ultimately have "addresses n \<subseteq> addresses (supernet n)"
      unfolding addresses_def s(2) by (auto simp: s(1))
    then show ?thesis using wf by simp
  qed (use assms in \<open>simp add: supernet_def\<close>)
  then show "wf_net (supernet n)" "addresses n \<subseteq> addresses (supernet n)" by simp_all
qed

text \<open>A network is one of the two halves of its supernet.\<close>

lemma supernet_half:
  assumes "wf_net n" "0 < prefixlen n"
  shows "\<exists>k < 2. n = child (supernet n) (prefixlen n) k"
proof -
  have "\<exists>k < 2 ^ (prefixlen n - prefixlen (supernet n)). n = child (supernet n) (prefixlen n) k"
    by (rule child_eq_iff) (use assms supernet_wf [OF assms(1)] broadcast_in [of n] in
      \<open>auto simp: supernet_simps wf_net_def\<close>)
  then show ?thesis using assms(2) by (auto simp: supernet_simps)
qed

lemma halves:
  assumes "wf_net s" "prefixlen s < max_prefixlen (version s)"
  shows "addresses (child s (Suc (prefixlen s)) 0) \<union> addresses (child s (Suc (prefixlen s)) 1) = addresses s"
    "addresses (child s (Suc (prefixlen s)) 0) \<inter> addresses (child s (Suc (prefixlen s)) 1) = {}"
proof -
  let ?p = "Suc (prefixlen s)"
  have k: "prefixlen s \<le> ?p" "?p \<le> max_prefixlen (version s)" "2 ^ (?p - prefixlen s) = (2::nat)" using assms(2) by auto
  show "addresses (child s ?p 0) \<union> addresses (child s ?p 1) = addresses s"
  proof
    show "addresses (child s ?p 0) \<union> addresses (child s ?p 1) \<subseteq> addresses s"
      using child_in(2) [OF assms(1) k(1,2)] k(3) by (simp add: numeral_2_eq_2)
    show "addresses s \<subseteq> addresses (child s ?p 0) \<union> addresses (child s ?p 1)"
    proof
      fix va assume "va \<in> addresses s"
      from child_at(1,2) [OF assms(1) k(1,2) this] k(3) show "va \<in> addresses (child s ?p 0) \<union> addresses (child s ?p 1)"
        by (metis One_nat_def UnCI less_2_cases)
    qed
  qed
  show "addresses (child s ?p 0) \<inter> addresses (child s ?p 1) = {}"
    by (rule children_disjoint [OF assms(1) k(1,2)]) (use k(3) in auto)
qed

text \<open>Two different networks with one supernet make it up, and are no smaller than it.\<close>

lemma merged_pair:
  assumes "wf_net e" "wf_net n" "supernet e = supernet n" "e \<noteq> n"
  shows "addresses e \<union> addresses n = addresses (supernet n)" "num_addresses (supernet n) \<le> num_addresses e + num_addresses n"
proof -
  have "addresses e \<union> addresses n = addresses (supernet n) \<and> num_addresses (supernet n) \<le> num_addresses e + num_addresses n"
  proof (cases "prefixlen e = 0 \<or> prefixlen n = 0")
    case True
    then have "supernet e = e \<or> supernet n = n" by (auto simp: supernet_def)
    then show ?thesis using supernet_wf(2) [OF assms(1)] supernet_wf(2) [OF assms(2)] assms(3) by (metis Un_absorb1 Un_absorb2 le_add1 le_add2)
  next
    case False
    let ?s = "supernet n"
    have p: "prefixlen e = Suc (prefixlen ?s)" "prefixlen n = Suc (prefixlen ?s)"
      using False assms(3) supernet_simps(2) [of e] supernet_simps(2) [of n] by auto
    have pos: "0 < prefixlen e" "0 < prefixlen n" using False by simp_all
    obtain i where i: "i < 2" "e = child ?s (prefixlen e) i" using supernet_half [OF assms(1) pos(1), unfolded assms(3)] by blast
    obtain j where j: "j < 2" "n = child ?s (prefixlen n) j" using supernet_half [OF assms(2) pos(2)] by blast
    have "prefixlen n \<le> max_prefixlen (version n)" using assms(2) by (simp add: wf_net_def)
    then have lt: "prefixlen ?s < max_prefixlen (version ?s)" using p(2) supernet_simps(1) [of n] by (metis Suc_le_eq)
    have ij: "i = 0 \<and> j = 1 \<or> i = 1 \<and> j = 0" using i j assms(4) p by (metis less_2_cases One_nat_def)
    note h = halves [OF supernet_wf(1) [OF assms(2)] lt]
    have "addresses e \<union> addresses n = addresses ?s" using ij i(2) j(2) p h(1) by (metis Un_commute)
    moreover have "num_addresses ?s = num_addresses e + num_addresses n"
    proof -
      have "num_addresses ?s = 2 ^ (Suc (prefixlen ?s) - prefixlen ?s) * num_addresses (?s\<lparr>prefixlen := Suc (prefixlen ?s)\<rparr>)"
        by (rule num_addresses_step) (use lt in auto)
      moreover have "num_addresses e = num_addresses (?s\<lparr>prefixlen := Suc (prefixlen ?s)\<rparr>)"
        using arg_cong [OF i(2), of num_addresses] unfolding child_simps p(1) .
      moreover have "num_addresses n = num_addresses (?s\<lparr>prefixlen := Suc (prefixlen ?s)\<rparr>)"
        using arg_cong [OF j(2), of num_addresses] unfolding child_simps p(2) .
      ultimately show ?thesis by (simp only: Suc_diff_le diff_self_eq_0 power_one_right le_refl)
          (simp only: One_nat_def [symmetric] power_one_right mult_2)
    qed
    ultimately show ?thesis by simp
  qed
  then show "addresses e \<union> addresses n = addresses (supernet n)" "num_addresses (supernet n) \<le> num_addresses e + num_addresses n"
    by simp_all
qed

definition keyed :: "(ipnet \<times> ipnet) list \<Rightarrow> bool" where
  "keyed d \<longleftrightarrow> (\<forall>(k, x) \<in> set d. k = supernet x) \<and> distinct (map fst d)"

lemma keyed_split:
  assumes "keyed d" "map_of d k = Some e"
  shows "keyed (filter (\<lambda>(k', _). k' \<noteq> k) d)" "supernet e = k" "e \<in> set (map snd d)"
    "covered (map snd d) = addresses e \<union> covered (map snd (filter (\<lambda>(k', _). k' \<noteq> k) d))"
    "total_size (map snd d) = num_addresses e + total_size (map snd (filter (\<lambda>(k', _). k' \<noteq> k) d))"
proof -
  show "keyed (filter (\<lambda>(k', _). k' \<noteq> k) d)" using assms(1) by (auto simp: keyed_def distinct_map_filter)
  show "supernet e = k" "e \<in> set (map snd d)" using assms map_of_SomeD [OF assms(2)] by (auto simp: keyed_def rev_image_eqI)
  have "filter (\<lambda>(k', _). k' \<noteq> k) d = d" if "k \<notin> fst ` set d" for d :: "(ipnet \<times> ipnet) list"
    using that by (induction d) auto
  then show "covered (map snd d) = addresses e \<union> covered (map snd (filter (\<lambda>(k', _). k' \<noteq> k) d))"
    "total_size (map snd d) = num_addresses e + total_size (map snd (filter (\<lambda>(k', _). k' \<noteq> k) d))"
    using assms by (induction d) (auto simp: keyed_def)
qed

lemma collapse_loop_result:
  assumes "keyed d" "good v (map snd d)" "good v st"
  shows "good v (collapse_loop d st)" "covered (collapse_loop d st) = covered (map snd d) \<union> covered st"
    "distinct (map supernet (collapse_loop d st))" "total_size (collapse_loop d st) \<le> total_size (map snd d) + total_size st"
proof -
  have "good v (collapse_loop d st) \<and> covered (collapse_loop d st) = covered (map snd d) \<union> covered st \<and>
    distinct (map supernet (collapse_loop d st)) \<and> total_size (collapse_loop d st) \<le> total_size (map snd d) + total_size st"
    using assms
  proof (induction d st rule: collapse_loop.induct)
    case (1 d)
    have "map supernet (map snd d) = map fst d" using "1.prems"(1) by (auto simp: keyed_def)
    then have "distinct (map supernet (map snd d))" using "1.prems"(1) by (simp only: keyed_def)
    then show ?case using "1.prems"(2) by simp
  next
    case (2 d net st)
    let ?s = "supernet net"
    have net: "wf_net net" "version net = v" "good v st" using "2.prems"(3) by simp_all
    show ?case
    proof (cases "map_of d ?s")
      case None
      then have "keyed ((?s, net) # d)" using "2.prems"(1) by (auto simp: keyed_def map_of_eq_None_iff)
      then show ?thesis using "2.IH"(1) [OF None] "2.prems"(2) net None by auto
    next
      case (Some e)
      note k = keyed_split [OF "2.prems"(1) Some]
      have e: "wf_net e" "version e = v" using k(3) "2.prems"(2) by (auto simp: good_def)
      show ?thesis
      proof (cases "e = net")
        case True
        then show ?thesis using "2.IH"(3) [OF Some] "2.prems"(1,2) net Some k(4) by auto
      next
        case False
        note m = merged_pair [OF e(1) net(1) k(2) False]
        have "good v (map snd (filter (\<lambda>(k', _). k' \<noteq> ?s) d))" using "2.prems"(2) by (auto simp: good_def)
        moreover have "good v (?s # st)" using supernet_wf(1) [OF net(1)] net by (simp add: supernet_simps)
        ultimately have ih: "good v (collapse_loop d (net # st)) \<and>
          covered (collapse_loop d (net # st)) = covered (map snd (filter (\<lambda>(k', _). k' \<noteq> ?s) d)) \<union> covered (?s # st) \<and>
          distinct (map supernet (collapse_loop d (net # st))) \<and>
          total_size (collapse_loop d (net # st)) \<le> total_size (map snd (filter (\<lambda>(k', _). k' \<noteq> ?s) d)) + total_size (?s # st)"
          using "2.IH"(2) [OF Some False k(1)] Some False by simp
        then show ?thesis using m k(4,5) by auto
      qed
    qed
  qed
  then show "good v (collapse_loop d st)" "covered (collapse_loop d st) = covered (map snd d) \<union> covered st"
    "distinct (map supernet (collapse_loop d st))" "total_size (collapse_loop d st) \<le> total_size (map snd d) + total_size st" by auto
qed

section \<open>The second pass\<close>

lemma broadcast_le_iff:
  "broadcast_address n \<le> broadcast_address x \<longleftrightarrow>
     network_address n + num_addresses n \<le> network_address x + num_addresses x"
proof -
  have "0 < num_addresses n" "0 < num_addresses x" by simp_all
  then show ?thesis unfolding broadcast_address_def by linarith
qed

lemma skip_subsumed_result:
  assumes "sorted (map (\<lambda>n. (network_address n, prefixlen n)) nets)" "good v nets"
    "\<And>x n. l = Some x \<Longrightarrow> n \<in> set nets \<Longrightarrow> network_address x \<le> network_address n" "\<And>x. l = Some x \<Longrightarrow> version x = v"
  shows "(case l of None \<Rightarrow> {} | Some x \<Rightarrow> addresses x) \<union> covered (skip_subsumed l nets) =
      (case l of None \<Rightarrow> {} | Some x \<Rightarrow> addresses x) \<union> covered nets" "set (skip_subsumed l nets) \<subseteq> set nets"
proof -
  have "(case l of None \<Rightarrow> {} | Some x \<Rightarrow> addresses x) \<union> covered (skip_subsumed l nets) =
      (case l of None \<Rightarrow> {} | Some x \<Rightarrow> addresses x) \<union> covered nets \<and> set (skip_subsumed l nets) \<subseteq> set nets"
    using assms
  proof (induction l nets rule: skip_subsumed.induct)
    case (2 l net nets)
    show ?case
    proof (cases "case l of None \<Rightarrow> False | Some x \<Rightarrow> broadcast_address net \<le> broadcast_address x")
      case True
      then obtain x where x: "l = Some x" "broadcast_address net \<le> broadcast_address x" by (cases l) auto
      have "network_address x \<le> network_address net" "version x = version net" using "2.prems"(2-4) x(1) by auto
      then have "addresses net \<subseteq> addresses x" using x(2) unfolding broadcast_le_iff by (auto simp: addresses_def)
      then show ?thesis using "2.IH"(1) [OF True] "2.prems" True x(1) by auto
    next
      case False
      have "network_address net \<le> network_address n" if "n \<in> set nets" for n
        using "2.prems"(1) that by (auto simp: less_eq_prod_def)
      then have "addresses net \<union> covered (skip_subsumed (Some net) nets) = addresses net \<union> covered nets \<and>
          set (skip_subsumed (Some net) nets) \<subseteq> set nets"
        using "2.IH"(2) [OF False] "2.prems"(1,2) by auto
      then show ?thesis using False by auto
    qed
  qed simp
  then show "(case l of None \<Rightarrow> {} | Some x \<Rightarrow> addresses x) \<union> covered (skip_subsumed l nets) =
      (case l of None \<Rightarrow> {} | Some x \<Rightarrow> addresses x) \<union> covered nets" "set (skip_subsumed l nets) \<subseteq> set nets" by simp_all
qed

lemma covered_set_cong: "set xs = set ys \<Longrightarrow> covered xs = covered ys"
  by (simp add: covered_def)

lemma collapse_internal_covered:
  assumes "good v nets"
  shows "covered (collapse_internal nets) = covered nets" "good v (collapse_internal nets)"
proof -
  let ?r = "collapse_loop [] (rev nets)" and ?k = "\<lambda>n. (network_address n, prefixlen n)"
  have k: "keyed []" "good v (map snd ([] :: (ipnet \<times> ipnet) list))" "good v (rev nets)" using assms by (auto simp: keyed_def good_def)
  note r = collapse_loop_result [OF k]
  have g: "good v (sort_key ?k ?r)" using r(1) by (simp add: good_def)
  note s = skip_subsumed_result [of "sort_key ?k ?r" v None, OF _ g]
  have "covered (collapse_internal nets) = covered (sort_key ?k ?r)" using s(1) by (simp add: collapse_internal_def)
  also have "\<dots> = covered nets" using r(2) covered_set_cong [of "sort_key ?k ?r" ?r] covered_set_cong [of "rev nets" nets] by simp
  finally show "covered (collapse_internal nets) = covered nets" .
  show "good v (collapse_internal nets)" using s(2) g by (auto simp: collapse_internal_def good_def)
qed

section \<open>Networks that divide one network up\<close>

lemma overlap_contained:
  assumes "wf_net n" "wf_net c" "version c = version n" "prefixlen n \<le> prefixlen c" "addresses c \<inter> addresses n \<noteq> {}"
  shows "addresses c \<subseteq> addresses n" "prefixlen c = prefixlen n \<Longrightarrow> c = n"
proof -
  have w: "prefixlen c \<le> max_prefixlen (version n)" using assms(2,3) by (simp add: wf_net_def)
  obtain k where k: "k < 2 ^ (prefixlen c - prefixlen n)" "c = child n (prefixlen c) k"
    using child_eq_iff [OF assms(1,4) w assms(2,3) refl assms(5)] by blast
  show "addresses c \<subseteq> addresses n" using child_in(2) [OF assms(1,4) w k(1)] k(2) by metis
  show "c = n" if "prefixlen c = prefixlen n"
  proof -
    have "k = 0" using k(1) that by simp
    then have "network_address c = network_address n" using arg_cong [OF k(2), of network_address] by simp
    then show ?thesis using assms(3) that by simp
  qed
qed

lemma supernet_child:
  assumes "wf_net s" "prefixlen s < max_prefixlen (version s)" "k < 2"
  shows "supernet (child s (Suc (prefixlen s)) k) = s"
proof -
  let ?c = "child s (Suc (prefixlen s)) k"
  have c: "wf_net ?c" "addresses ?c \<subseteq> addresses s" using child_in [OF assms(1), of "Suc (prefixlen s)" k] assms(2,3) by auto
  have "addresses (supernet ?c) \<inter> addresses s \<noteq> {}" using supernet_wf(2) [OF c(1)] c(2) card_addresses(3) [of ?c] by blast
  then show ?thesis using overlap_contained(2) [of s "supernet ?c"] supernet_wf(1) [OF c(1)] assms(1)
    by (simp add: supernet_simps)
qed

text \<open>When disjoint networks divide \<open>m\<close> up and no two of them share a supernet, \<open>m\<close> is the only one.\<close>

lemma no_siblings_single:
  assumes "good v nets" "apart nets" "covered nets = addresses m" "wf_net m" "version m = v"
    "distinct (map supernet nets)"
  shows "nets = [m]"
proof -
  have mem: "wf_net n" "version n = v" "addresses n \<subseteq> addresses m" if "n \<in> set nets" for n
    using assms(1,3) that by (auto simp: good_def covered_def)
  have le: "prefixlen m \<le> prefixlen n" if "n \<in> set nets" for n
  proof (rule ccontr)
    assume "\<not> prefixlen m \<le> prefixlen n"
    moreover have "prefixlen m \<le> max_prefixlen v" using assms(4,5) by (simp add: wf_net_def)
    ultimately have "max_prefixlen v - prefixlen m < max_prefixlen v - prefixlen n" by linarith
    then have "num_addresses m < num_addresses n" using mem(2) [OF that] assms(5) unfolding num_addresses_def by simp
    then show False using card_mono [OF card_addresses(2) mem(3) [OF that]] by (simp add: card_addresses(1))
  qed
  have ne: "nets \<noteq> []" using assms(3) card_addresses(3) [of m] by auto
  obtain x where x: "x \<in> set nets" "\<And>z. z \<in> set nets \<Longrightarrow> prefixlen z \<le> prefixlen x"
  proof -
    let ?M = "Max (prefixlen ` set nets)"
    have "?M \<in> prefixlen ` set nets" using ne by (intro Max_in) auto
    then obtain x where "x \<in> set nets" "prefixlen x = ?M" by auto
    then show thesis using that [of x] by simp
  qed
  have eq: "prefixlen x = prefixlen m"
  proof (rule ccontr)
    assume "prefixlen x \<noteq> prefixlen m"
    then have lt: "prefixlen m < prefixlen x" using le [OF x(1)] by simp
    let ?s = "supernet x" and ?p = "prefixlen x"
    have s: "wf_net ?s" "version ?s = v" "prefixlen ?s = ?p - 1" "addresses x \<subseteq> addresses ?s"
      using supernet_wf mem x(1) by (simp_all add: supernet_simps)
    have sp: "prefixlen ?s < max_prefixlen (version ?s)" "?p = Suc (prefixlen ?s)"
      using s lt mem(1,2) [OF x(1)] by (auto simp: wf_net_def)
    have x_in: "addresses x \<inter> addresses m \<noteq> {}" using mem(3) [OF x(1)] card_addresses(3) by blast
    then have "addresses ?s \<inter> addresses m \<noteq> {}" using s(4) by blast
    then have sm: "addresses ?s \<subseteq> addresses m"
      by (intro overlap_contained(1)) (use assms(4,5) s lt in auto)
    obtain i where i: "i < 2" "x = child ?s ?p i" using supernet_half [OF mem(1) [OF x(1)]] lt by auto
    define y where "y = child ?s ?p (1 - i)"
    have y: "addresses y \<subseteq> addresses ?s" "addresses x \<inter> addresses y = {}" "wf_net y" "version y = v" "prefixlen y = ?p"
    proof -
      have k: "prefixlen ?s \<le> ?p" "?p \<le> max_prefixlen (version ?s)" "2 ^ (?p - prefixlen ?s) = (2::nat)" using sp by auto
      show "addresses y \<subseteq> addresses ?s" "wf_net y" unfolding y_def using child_in [OF s(1) k(1,2), of "1 - i"] k(3) by auto
      show "version y = v" "prefixlen y = ?p" unfolding y_def using s(2) by simp_all
      have "addresses (child ?s ?p i) \<inter> addresses (child ?s ?p (1 - i)) = {}"
        by (rule children_disjoint [OF s(1) k(1,2)]) (use i(1) k(3) less_2_cases [of i] in auto)
      then show "addresses x \<inter> addresses y = {}" unfolding y_def using i(2) by metis
    qed
    obtain z where z: "z \<in> set nets" "addresses y \<inter> addresses z \<noteq> {}"
      using y(1) sm assms(3) card_addresses(3) [of y] unfolding covered_def by blast
    have zx: "z \<noteq> x" using z(2) y(2) by blast
    show False
    proof (cases "prefixlen z = ?p")
      case True
      then have "y = z" using overlap_contained(2) [of z y] mem [OF z(1)] y z(2) by auto
      then have "supernet z = ?s" using supernet_child [OF s(1) sp(1), of "1 - i"] sp(2) unfolding y_def by simp
      then show False using assms(6) x(1) z(1) zx by (auto simp: distinct_map inj_on_def)
    next
      case False
      then have "prefixlen z \<le> prefixlen ?s" using x(2) [OF z(1)] sp(2) by simp
      moreover have "addresses ?s \<inter> addresses z \<noteq> {}" using z(2) y(1) by blast
      ultimately have "addresses ?s \<subseteq> addresses z" using overlap_contained(1) [of z ?s] mem [OF z(1)] s by auto
      then have "addresses x \<inter> addresses z \<noteq> {}" using s(4) card_addresses(3) [of x] by blast
      then show False using apart_mem [OF assms(2) x(1) z(1)] zx by blast
    qed
  qed
  have xm: "x = m" using overlap_contained(2) [of m x] mem [OF x(1)] assms(4,5) eq card_addresses(3) [of x] by auto
  have "z = m" if "z \<in> set nets" for z
  proof (rule ccontr)
    assume "z \<noteq> m"
    then have "addresses m \<inter> addresses z = {}" using apart_mem [OF assms(2) x(1) that] xm by blast
    then show False using mem(3) [OF that] card_addresses(3) [of z] by blast
  qed
  then show ?thesis using apart_distinct [OF assms(2)] ne by (cases nets) (auto, metis list.set_intros(1) list.exhaust)
qed

section \<open>Single addresses\<close>

lemma trailing_zeros_dvd: "trailing_zeros bits n \<le> bits \<and> 2 ^ trailing_zeros bits n dvd n"
proof (induction bits arbitrary: n)
  case (Suc bits)
  show ?case
  proof (cases "even n")
    case True
    then have "2 * 2 ^ trailing_zeros bits (n div 2) dvd 2 * (n div 2)" using Suc.IH [of "n div 2"] by (intro mult_dvd_mono) auto
    then show ?thesis using True Suc.IH [of "n div 2"] by simp
  qed simp
qed simp

lemma summarize_range_result:
  assumes "hi < 2 ^ max_prefixlen v" "lo \<le> Suc hi"
  shows "good v (summarize_range v lo hi) \<and> covered (summarize_range v lo hi) = {v} \<times> {lo ..< Suc hi} \<and>
    total_size (summarize_range v lo hi) = Suc hi - lo"
  using assms
proof (induction v lo hi rule: summarize_range.induct)
  case (1 v lo hi)
  let ?w = "max_prefixlen v"
  define nb where "nb = min (trailing_zeros ?w lo) (log2 (hi - lo + 1))"
  let ?n = "\<lparr>version = v, network_address = lo, prefixlen = ?w - nb\<rparr>"
  show ?case
  proof (cases "hi < lo")
    case True
    then show ?thesis using "1.prems" by (simp add: summarize_range.simps)
  next
    case False
    have nb: "nb \<le> ?w" "2 ^ nb dvd lo" "2 ^ nb \<le> hi - lo + 1"
    proof -
      note t = trailing_zeros_dvd [of ?w lo]
      show "nb \<le> ?w" using t unfolding nb_def by linarith
      show "2 ^ nb dvd lo" using t unfolding nb_def by (meson dvd_trans le_imp_power_dvd min.cobounded1)
      have "2 ^ nb \<le> (2::nat) ^ log2 (hi - lo + 1)" unfolding nb_def by (intro power_increasing) auto
      then show "2 ^ nb \<le> hi - lo + 1" using log2_bound [of "hi - lo + 1"] by linarith
    qed
    have num: "num_addresses ?n = 2 ^ nb" using nb(1) by (simp add: num_addresses_def)
    have wf: "wf_net ?n" using nb num "1.prems"(1) False unfolding wf_net_def by simp
    have step: "summarize_range v lo hi = ?n # (if lo + 2 ^ nb - 1 = 2 ^ ?w - 1 then [] else summarize_range v (lo + 2 ^ nb) hi)"
      using False by (subst summarize_range.simps) (simp add: Let_def nb_def)
    have addr: "addresses ?n = {v} \<times> {lo ..< lo + 2 ^ nb}" by (simp add: addresses_def num)
    have le: "lo + 2 ^ nb \<le> Suc hi" using nb(3) False by linarith
    show ?thesis
    proof (cases "lo + 2 ^ nb - 1 = 2 ^ ?w - 1")
      case True
      have "0 < (2::nat) ^ nb" by simp
      then have "lo + 2 ^ nb = Suc hi" using True le "1.prems"(1) by linarith
      then show ?thesis unfolding step using True wf addr num by auto
    next
      case last: False
      have "good v (summarize_range v (lo + 2 ^ nb) hi) \<and>
          covered (summarize_range v (lo + 2 ^ nb) hi) = {v} \<times> {lo + 2 ^ nb ..< Suc hi} \<and>
          total_size (summarize_range v (lo + 2 ^ nb) hi) = Suc hi - (lo + 2 ^ nb)"
        using "1.IH" [OF False refl] last "1.prems"(1) le unfolding nb_def by simp
      moreover have "{v} \<times> {lo ..< lo + 2 ^ nb} \<union> {v} \<times> {lo + 2 ^ nb ..< Suc hi} = {v} \<times> {lo ..< Suc hi}"
        using le by auto
      ultimately show ?thesis unfolding step using last wf addr num le by auto
    qed
  qed
qed

lemma address_ranges_result:
  assumes "lo \<le> hi" "sorted_wrt (<) (hi # ips)" "\<forall>i \<in> set (hi # ips). i < b"
  shows "(\<Union>(x, y) \<in> set (address_ranges lo hi ips). {x ..< Suc y}) = {lo ..< Suc hi} \<union> set ips \<and>
    sum_list (map (\<lambda>(x, y). Suc y - x) (address_ranges lo hi ips)) = Suc hi - lo + length ips \<and>
    (\<forall>(x, y) \<in> set (address_ranges lo hi ips). x \<le> y \<and> y < b)"
  using assms
proof (induction lo hi ips rule: address_ranges.induct)
  case (2 lo hi ip ips)
  show ?case
  proof (cases "ip = hi + 1")
    case True
    then have "(\<Union>(x, y) \<in> set (address_ranges lo ip ips). {x ..< Suc y}) = {lo ..< Suc ip} \<union> set ips \<and>
      sum_list (map (\<lambda>(x, y). Suc y - x) (address_ranges lo ip ips)) = Suc ip - lo + length ips \<and>
      (\<forall>(x, y) \<in> set (address_ranges lo ip ips). x \<le> y \<and> y < b)" using "2.IH"(2) "2.prems" by simp
    moreover have "{lo ..< Suc ip} = insert ip {lo ..< Suc hi}" using True "2.prems"(1) by auto
    ultimately show ?thesis using True "2.prems"(1) by simp
  next
    case False
    then have "(\<Union>(x, y) \<in> set (address_ranges ip ip ips). {x ..< Suc y}) = {ip ..< Suc ip} \<union> set ips \<and>
      sum_list (map (\<lambda>(x, y). Suc y - x) (address_ranges ip ip ips)) = Suc ip - ip + length ips \<and>
      (\<forall>(x, y) \<in> set (address_ranges ip ip ips). x \<le> y \<and> y < b)" using "2.IH"(1) "2.prems" by simp
    then show ?thesis using False "2.prems" by auto
  qed
qed simp

lemma host_networks_result:
  assumes "good v nets"
  shows "good v (host_networks v nets)" "covered (host_networks v nets) = covered (filter is_host nets)"
    "total_size (host_networks v nets) \<le> total_size (filter is_host nets)"
proof -
  let ?hs = "filter is_host nets" and ?b = "2 ^ max_prefixlen v :: nat"
  let ?ips = "sort (remdups (map network_address ?hs))"
  have one: "num_addresses h = 1" "addresses h = {(v, network_address h)}" if "h \<in> set ?hs" for h
    using that assms by (auto simp: is_host_def num_addresses_def addresses_def good_def)
  have cov: "covered ?hs = {v} \<times> set ?ips" using one(2) by (force simp: covered_def)
  have "total_size xs = length xs" if "\<forall>h \<in> set xs. num_addresses h = 1" for xs using that by (induction xs) simp_all
  then have "total_size ?hs = length ?hs" using one(1) by blast
  then have tot: "length ?ips \<le> total_size ?hs" by (simp add: length_remdups_leq [THEN order_trans])
  have bound: "\<forall>i \<in> set ?ips. i < ?b" using assms by (auto simp: good_def wf_net_def)
  have srt: "sorted_wrt (<) ?ips" using sorted_sort [of "remdups (map network_address ?hs)"] by (simp add: strict_sorted_iff)
  have "good v (host_networks v nets) \<and> covered (host_networks v nets) = {v} \<times> set ?ips \<and>
    total_size (host_networks v nets) = length ?ips"
  proof (cases ?ips)
    case Nil
    then show ?thesis by (simp add: host_networks_def)
  next
    case (Cons ip ips)
    let ?r = "address_ranges ip ip ips"
    have r: "(\<Union>(x, y) \<in> set ?r. {x ..< Suc y}) = {ip ..< Suc ip} \<union> set ips"
      "sum_list (map (\<lambda>(x, y). Suc y - x) ?r) = Suc (length ips)" "\<forall>(x, y) \<in> set ?r. x \<le> y \<and> y < ?b"
      using address_ranges_result [of ip ip ips ?b] srt bound Cons by auto
    have all: "good v (concat (map (\<lambda>(lo, hi). summarize_range v lo hi) xs)) \<and>
        covered (concat (map (\<lambda>(lo, hi). summarize_range v lo hi) xs)) = {v} \<times> (\<Union>(x, y) \<in> set xs. {x ..< Suc y}) \<and>
        total_size (concat (map (\<lambda>(lo, hi). summarize_range v lo hi) xs)) = sum_list (map (\<lambda>(x, y). Suc y - x) xs)"
      if "\<forall>(x, y) \<in> set xs. x \<le> y \<and> y < ?b" for xs
      using that
    proof (induction xs)
      case (Cons p xs)
      obtain x y where p: "p = (x, y)" by (cases p)
      have "x \<le> Suc y" "y < ?b" using Cons.prems p by auto
      then show ?case using summarize_range_result [of y v x] Cons p by auto
    qed simp
    have "host_networks v nets = concat (map (\<lambda>(lo, hi). summarize_range v lo hi) ?r)" using Cons by (simp add: host_networks_def)
    then show ?thesis using all [OF r(3)] r(1,2) Cons by auto
  qed
  then show "good v (host_networks v nets)" "covered (host_networks v nets) = covered ?hs" "total_size (host_networks v nets) \<le> total_size ?hs"
    using cov tot by simp_all
qed

section \<open>The summary is exact\<close>

lemma partition_filter:
  "covered (filter P nets) \<union> covered (filter (\<lambda>n. \<not> P n) nets) = covered nets"
  "total_size (filter P nets) + total_size (filter (\<lambda>n. \<not> P n) nets) = total_size nets"
  by (induction nets) auto

text \<open>What is collapsed covers the same addresses and is no bigger.\<close>

lemma collapse_input:
  assumes "good v nets"
  defines "input \<equiv> host_networks v nets @ filter (\<lambda>n. \<not> is_host n) nets"
  shows "good v input" "covered input = covered nets" "total_size input \<le> total_size nets"
proof -
  note h = host_networks_result [OF assms(1)]
  show "good v input" using h(1) assms(1) unfolding input_def by (auto simp: good_def)
  show "covered input = covered nets" using h(2) partition_filter(1) [of is_host nets] unfolding input_def by simp
  show "total_size input \<le> total_size nets" using h(3) partition_filter(2) [of is_host nets] unfolding input_def by simp
qed

lemma collapse_divided:
  assumes "good v input" "total_size input \<le> card (covered input)" "covered input = addresses m" "wf_net m" "version m = v"
  shows "collapse_internal input = [m]"
proof -
  let ?r = "collapse_loop [] (rev input)"
  have k: "keyed []" "good v (map snd ([] :: (ipnet \<times> ipnet) list))" "good v (rev input)" using assms(1) by (auto simp: keyed_def good_def)
  note r = collapse_loop_result [OF k]
  have t: "total_size (rev input) = total_size input" by (simp add: total_size_def rev_map [symmetric])
  have c: "covered ?r = covered input" using r(2) covered_set_cong [of "rev input" input] by simp
  have "total_size ?r = card (covered ?r)" using r(4) t assms(2) c covered_le_total [of ?r] by simp
  then have "apart ?r" by (simp add: apart_iff_total)
  then have "?r = [m]" using no_siblings_single [OF r(1) _ _ assms(4,5) r(3)] c assms(3) by simp
  then show ?thesis by (simp add: collapse_internal_def)
qed

lemma summarise_iff:
  assumes "good v nets"
  shows "summarise_or_none nets = Some m \<longleftrightarrow> wf_net m \<and> version m = v \<and> apart nets \<and> covered nets = addresses m"
proof -
  let ?in = "host_networks v nets @ filter (\<lambda>n. \<not> is_host n) nets"
  note i = collapse_input [OF assms]
  have col: "collapse_addresses nets = Some (collapse_internal ?in)" if "nets \<noteq> []"
    using that assms by (cases nets) (auto simp: collapse_addresses_def good_def list_all_iff)
  show ?thesis
  proof
    assume s: "summarise_or_none nets = Some m"
    then have ne: "nets \<noteq> []" by (auto simp: summarise_or_none_def)
    have m: "collapse_internal ?in = [m]" "total_size nets = num_addresses m"
      using s ne col [OF ne] by (auto simp: summarise_or_none_def total_size_def split: list.splits if_splits)
    note c = collapse_internal_covered [OF i(1)]
    have "covered nets = addresses m" using c(1) i(2) m(1) by simp
    moreover have "wf_net m \<and> version m = v" using c(2) m(1) by simp
    moreover have "apart nets" unfolding apart_iff_total using m(2) calculation(1) by (simp add: card_addresses)
    ultimately show "wf_net m \<and> version m = v \<and> apart nets \<and> covered nets = addresses m" by simp
  next
    assume a: "wf_net m \<and> version m = v \<and> apart nets \<and> covered nets = addresses m"
    then have t: "total_size nets = num_addresses m" unfolding apart_iff_total by (simp add: card_addresses)
    have ne: "nets \<noteq> []" using a card_addresses(3) [of m] by auto
    have "collapse_internal ?in = [m]"
      by (rule collapse_divided [OF i(1)]) (use a i t in \<open>simp_all add: card_addresses\<close>)
    then show "summarise_or_none nets = Some m" using ne col [OF ne] t by (simp add: summarise_or_none_def total_size_def)
  qed
qed

text \<open>The supernet a merge computes is exact. Networks of one family summarise to a network if and only if
  they are pairwise disjoint and together make up that network, nothing missing and nothing twice;
  in particular the collapsing loop ends and joins every pair of halves.\<close>

theorem summarise_exact:
  assumes "good v nets"
  shows "summarise_or_none nets = Some m \<longleftrightarrow> wf_net m \<and> version m = v \<and> apart nets \<and> covered nets = addresses m"
  by (rule summarise_iff [OF assms])

theorem summarise_exact_witness:
  "summarise_or_none (map (\<lambda>(a, p). \<lparr>version = V4, network_address = a, prefixlen = p\<rparr>) [(4, 30), (2, 31), (1, 32), (0, 32)]) =
     Some \<lparr>version = V4, network_address = 0, prefixlen = 29\<rparr> \<and>
   covered (map (\<lambda>(a, p). \<lparr>version = V4, network_address = a, prefixlen = p\<rparr>) [(4, 30), (2, 31), (1, 32), (0, 32)]) =
     addresses \<lparr>version = V4, network_address = 0, prefixlen = 29\<rparr>"
proof -
  let ?nets = "map (\<lambda>(a, p). \<lparr>version = V4, network_address = a, prefixlen = p\<rparr>) [(4, 30), (2, 31), (1, 32), (0, 32)]"
  have g: "good V4 ?nets" by (simp add: wf_net_def num_addresses_def)
  have "summarise_or_none ?nets = Some \<lparr>version = V4, network_address = 0, prefixlen = 29\<rparr>" by code_simp
  then show ?thesis using summarise_exact [OF g, of "\<lparr>version = V4, network_address = 0, prefixlen = 29\<rparr>"] by blast
qed

end
