(* ===== verification/Free_Space.thy ===== *)
theory Free_Space
  imports Net "HOL-Library.Product_Lexorder"
begin

text \<open>
  The free-space finder of \<^verbatim>\<open>backend/app/services/ipam/free_space.py\<close>: the walk over a block's subtree,
  the aligned candidates of one block, and the sweep over the blocks of a space. The tables are the
  lists of rows the queries return.
\<close>

section \<open>Rows and results\<close>

record ip_block =
  blk_id :: uuid
  blk_space_id :: uuid
  blk_parent_id :: "uuid option"
  blk_network :: cidr_column

record subnet =
  sn_id :: uuid
  sn_block_id :: "uuid option"
  sn_network :: cidr_column

record ipam_db =
  blocks :: "ip_block list"
  subnet_rows :: "subnet list"

definition HARD_CAP :: int where "HARD_CAP = 100"

record free_space_candidate =
  cidr :: ipnet
  fsc_parent_block_id :: uuid
  parent_block_cidr :: ipnet
  free_addresses :: int

record free_space_result =
  candidates :: "free_space_candidate list"
  summary :: "(string \<times> pyval) list"

section \<open>The pieces of the search\<close>

definition usable_addresses :: "ipnet \<Rightarrow> int" where
  "usable_addresses net = (let n = int (num_addresses net) in
     if version net = V4 \<and> prefixlen net < 31 then n - 2 else n)"

definition validate_prefix :: "int \<Rightarrow> int \<Rightarrow> string option" where
  "validate_prefix p fam =
     (if fam = 4 then
        (if \<not> (8 \<le> p \<and> p \<le> 30)
         then Some (''prefix_length must be between 8 and 30 for IPv4 (got '' @ int_str p @ '')'') else None)
      else if fam = 6 then
        (if \<not> (8 \<le> p \<and> p \<le> 126)
         then Some (''prefix_length must be between 8 and 126 for IPv6 (got '' @ int_str p @ '')'') else None)
      else Some (''address_family must be 4 or 6 (got '' @ int_str fam @ '')''))"

text \<open>One round of the subtree walk: the rows whose parent is in the frontier, those not seen before
  being the next frontier.\<close>

fun visit :: "ip_block list \<Rightarrow> ip_block list \<Rightarrow> ip_block list \<Rightarrow> ip_block list \<times> ip_block list" where
  "visit seen nxt [] = (seen, nxt)"
| "visit seen nxt (b # bs) = (if blk_id b \<in> blk_id ` set seen then visit seen nxt bs
     else visit (seen @ [b]) (nxt @ [b]) bs)"

definition children_of :: "ipam_db \<Rightarrow> ip_block list \<Rightarrow> ip_block list" where
  "children_of db frontier = filter (\<lambda>b. blk_parent_id b \<in> Some ` blk_id ` set frontier) (blocks db)"

definition unseen :: "ipam_db \<Rightarrow> ip_block list \<Rightarrow> nat" where
  "unseen db seen = card (blk_id ` set (blocks db) - blk_id ` set seen)"

lemma visit_new:
  assumes "visit seen nxt bs = (seen', nxt')"
  obtains new where "seen' = seen @ new" "nxt' = nxt @ new" "set new \<subseteq> set bs"
    "blk_id ` set bs \<subseteq> blk_id ` set seen'" "\<forall>b \<in> set new. blk_id b \<notin> blk_id ` set seen"
    "distinct (map blk_id seen) \<Longrightarrow> distinct (map blk_id seen')"
proof -
  have "\<exists>new. seen' = seen @ new \<and> nxt' = nxt @ new \<and> set new \<subseteq> set bs \<and> blk_id ` set bs \<subseteq> blk_id ` set seen' \<and>
      (\<forall>b \<in> set new. blk_id b \<notin> blk_id ` set seen) \<and> (distinct (map blk_id seen) \<longrightarrow> distinct (map blk_id seen'))"
    using assms
  proof (induction seen nxt bs rule: visit.induct)
    case (2 seen nxt b bs)
    show ?case
    proof (cases "blk_id b \<in> blk_id ` set seen")
      case True
      with 2 obtain new where "seen' = seen @ new" "nxt' = nxt @ new" "set new \<subseteq> set bs"
        "blk_id ` set bs \<subseteq> blk_id ` set seen'" "\<forall>b \<in> set new. blk_id b \<notin> blk_id ` set seen"
        "distinct (map blk_id seen) \<longrightarrow> distinct (map blk_id seen')" by auto
      with True show ?thesis by (intro exI [of _ new]) auto
    next
      case False
      with 2 obtain new where "seen' = (seen @ [b]) @ new" "nxt' = (nxt @ [b]) @ new" "set new \<subseteq> set bs"
        "blk_id ` set bs \<subseteq> blk_id ` set seen'" "\<forall>x \<in> set new. blk_id x \<notin> blk_id ` set (seen @ [b])"
        "distinct (map blk_id (seen @ [b])) \<longrightarrow> distinct (map blk_id seen')" by auto
      with False show ?thesis by (intro exI [of _ "b # new"]) auto
    qed
  qed simp
  then show thesis using that by blast
qed

function walk_subtree :: "ipam_db \<Rightarrow> ip_block list \<Rightarrow> ip_block list \<Rightarrow> ip_block list" where
  "walk_subtree db seen frontier = (if frontier = [] then seen
     else let (seen', nxt) = visit seen [] (children_of db frontier) in walk_subtree db seen' nxt)"
  by pat_completeness auto

termination
proof (relation "measure (\<lambda>(db, seen, frontier). 2 * unseen db seen + (if frontier = [] then 0 else 1))", goal_cases)
  case (2 db seen frontier x seen' nxt)
  then have v: "visit seen [] (children_of db frontier) = (seen', nxt)" by simp
  obtain new where n: "seen' = seen @ new" "nxt = new" "set new \<subseteq> set (children_of db frontier)"
    "\<forall>b \<in> set new. blk_id b \<notin> blk_id ` set seen" by (rule visit_new [OF v]) simp
  show ?case
  proof (cases nxt)
    case Nil
    then show ?thesis using 2(1) n by (simp add: unseen_def)
  next
    case (Cons b bs)
    then have b: "b \<in> set new" using n(2) by simp
    then have "blk_id b \<in> blk_id ` set (blocks db) - blk_id ` set seen"
      using n(3,4) unfolding children_of_def by auto
    moreover have "blk_id b \<in> blk_id ` set seen'" using b n(1) by auto
    ultimately have "unseen db seen' < unseen db seen"
      unfolding unseen_def using n(1) by (intro psubset_card_mono) auto
    then show ?thesis using Cons by simp
  qed
qed simp

declare walk_subtree.simps [simp del]

definition load_blocks :: "ipam_db \<Rightarrow> uuid \<Rightarrow> uuid option \<Rightarrow> ip_block list" where
  "load_blocks db space parent = (case parent of
     None \<Rightarrow> filter (\<lambda>b. blk_space_id b = space) (blocks db)
   | Some i \<Rightarrow> (case find (\<lambda>b. blk_id b = i) (blocks db) of None \<Rightarrow> []
      | Some root \<Rightarrow> walk_subtree db [root] [root]))"

definition block_matches_family :: "ip_block \<Rightarrow> int \<Rightarrow> bool" where
  "block_matches_family b fam = (case ip_network (blk_network b) of None \<Rightarrow> False
     | Some net \<Rightarrow> (if fam = 4 then version net = V4 else version net = V6))"

text \<open>The first component of \<open>_direct_child_cidrs\<close>; no caller uses the second.\<close>

definition direct_child_cidrs :: "ipam_db \<Rightarrow> ip_block \<Rightarrow> ipnet list" where
  "direct_child_cidrs db b =
     List.map_filter (\<lambda>cb. ip_network (blk_network cb))
       (filter (\<lambda>cb. blk_parent_id cb = Some (blk_id b)) (blocks db)) @
     List.map_filter (\<lambda>cs. ip_network (sn_network cs))
       (filter (\<lambda>cs. sn_block_id cs = Some (blk_id b)) (subnet_rows db))"

fun first_free :: "ipnet list \<Rightarrow> nat \<Rightarrow> ipnet list \<Rightarrow> ipnet list \<Rightarrow> ipnet list" where
  "first_free occupants remaining out [] = out"
| "first_free occupants remaining out (c # cs) =
     (if list_ex (overlaps c) occupants then first_free occupants remaining out cs
      else if remaining \<le> length (out @ [c]) then out @ [c]
      else first_free occupants remaining (out @ [c]) cs)"

text \<open>\<open>subnets\<close> raises only for a prefix the guards exclude, or one past the width of the family.\<close>

definition candidates_for_block :: "ipnet \<Rightarrow> ipnet list \<Rightarrow> int \<Rightarrow> nat \<Rightarrow> ipnet list option" where
  "candidates_for_block net occupants p remaining =
     (if p < int (prefixlen net) then Some []
      else if p = int (prefixlen net) then Some (if occupants = [] then [net] else [])
      else map_option (first_free occupants remaining []) (subnets net (nat p)))"

section \<open>The search\<close>

fun take_candidates :: "int option \<Rightarrow> nat \<Rightarrow> ip_block \<Rightarrow> ipnet \<Rightarrow> free_space_candidate list \<Rightarrow> ipnet set \<Rightarrow>
    ipnet list \<Rightarrow> free_space_candidate list \<times> ipnet set" where
  "take_candidates minf cap b net acc seen [] = (acc, seen)"
| "take_candidates minf cap b net acc seen (c # cs) =
     (if c \<in> seen then take_candidates minf cap b net acc seen cs
      else if (case minf of None \<Rightarrow> False | Some m \<Rightarrow> usable_addresses c < m)
      then take_candidates minf cap b net acc (insert c seen) cs
      else let acc' = acc @ [\<lparr>cidr = c, fsc_parent_block_id = blk_id b, parent_block_cidr = net,
                             free_addresses = usable_addresses c\<rparr>] in
        if cap \<le> length acc' then (acc', insert c seen)
        else take_candidates minf cap b net acc' (insert c seen) cs)"

text \<open>\<open>None\<close> is a \<open>ValueError\<close> of \<open>subnets\<close>.\<close>

fun scan_blocks :: "ipam_db \<Rightarrow> int \<Rightarrow> int option \<Rightarrow> nat \<Rightarrow> free_space_candidate list \<Rightarrow> ipnet set \<Rightarrow>
    ip_block list \<Rightarrow> free_space_candidate list option" where
  "scan_blocks db p minf cap acc seen [] = Some acc"
| "scan_blocks db p minf cap acc seen (b # bs) =
     (if cap \<le> length acc then Some acc
      else case ip_network (blk_network b) of None \<Rightarrow> scan_blocks db p minf cap acc seen bs
      | Some net \<Rightarrow>
        (if p < int (prefixlen net) then scan_blocks db p minf cap acc seen bs
         else case candidates_for_block net (direct_child_cidrs db b) p (cap - length acc) of
            None \<Rightarrow> None
          | Some cs \<Rightarrow> (case take_candidates minf cap b net acc seen cs of
              (acc', seen') \<Rightarrow> scan_blocks db p minf cap acc' seen' bs)))"

definition tightness :: "ip_block \<Rightarrow> int \<times> nat" where
  "tightness b = (case ip_network (blk_network b) of None \<Rightarrow> (0, 0)
     | Some net \<Rightarrow> (- int (prefixlen net), network_address net))"

definition find_free_space :: "ipam_db \<Rightarrow> uuid \<Rightarrow> int \<Rightarrow> int \<Rightarrow> int \<Rightarrow> int option \<Rightarrow> uuid option \<Rightarrow>
    free_space_result option" where
  "find_free_space db space p fam cnt minf parent =
     (let cap = nat (max 1 (min cnt HARD_CAP)) in
      case validate_prefix p fam of
        Some err \<Rightarrow> Some \<lparr>candidates = [], summary = [(''warning'', PyStr err)]\<rparr>
      | None \<Rightarrow>
        (let bs = load_blocks db space parent in
         if bs = [] then Some \<lparr>candidates = [],
           summary = [(''warning'', PyStr (if parent = None then ''space has no blocks''
                         else ''block subtree contains no blocks'')),
                      (''blocks_scanned'', PyInt 0), (''candidates_emitted'', PyInt 0)]\<rparr>
         else let family = sort_key tightness (filter (\<lambda>b. block_matches_family b fam) bs) in
           map_option (\<lambda>cs. \<lparr>candidates = cs,
               summary = [(''blocks_scanned'', PyInt (int (length family))),
                          (''candidates_emitted'', PyInt (int (length cs)))]\<rparr>)
             (scan_blocks db p minf cap [] {} family)))"

section \<open>The subtree walk\<close>

text \<open>The parent links of the table.\<close>

definition child_rel :: "ipam_db \<Rightarrow> (uuid \<times> uuid) set" where
  "child_rel db = {(a, blk_id b) |a b. b \<in> set (blocks db) \<and> blk_parent_id b = Some a}"

lemma children_of_ids: "blk_id ` set (children_of db bs) = child_rel db `` (blk_id ` set bs)"
proof (rule set_eqI)
  fix i
  show "i \<in> blk_id ` set (children_of db bs) \<longleftrightarrow> i \<in> child_rel db `` (blk_id ` set bs)"
    unfolding children_of_def child_rel_def by (simp add: image_iff Image_iff) blast
qed

lemma walk_subtree_result:
  assumes "set frontier \<subseteq> set seen" "set seen \<subseteq> set (blocks db)" "distinct (map blk_id seen)"
    "child_rel db `` (blk_id ` (set seen - set frontier)) \<subseteq> blk_id ` set seen"
  shows "set seen \<subseteq> set (walk_subtree db seen frontier) \<and> set (walk_subtree db seen frontier) \<subseteq> set (blocks db) \<and>
    distinct (map blk_id (walk_subtree db seen frontier)) \<and>
    child_rel db `` (blk_id ` set (walk_subtree db seen frontier)) \<subseteq> blk_id ` set (walk_subtree db seen frontier) \<and>
    blk_id ` set (walk_subtree db seen frontier) \<subseteq> (child_rel db)\<^sup>* `` (blk_id ` set seen)"
  using assms
proof (induction db seen frontier rule: walk_subtree.induct)
  case (1 db seen frontier)
  show ?case
  proof (cases "frontier = []")
    case True
    then show ?thesis using "1.prems" by (auto simp: walk_subtree.simps)
  next
    case False
    obtain seen' nxt where v: "visit seen [] (children_of db frontier) = (seen', nxt)" by fastforce
    obtain new where n: "seen' = seen @ new" "nxt = new" "set new \<subseteq> set (children_of db frontier)"
      "blk_id ` set (children_of db frontier) \<subseteq> blk_id ` set seen'" "distinct (map blk_id seen')"
      by (rule visit_new [OF v]) (use "1.prems" in auto)
    have eq: "walk_subtree db seen frontier = walk_subtree db seen' nxt"
      using v False by (simp add: walk_subtree.simps [of db seen])
    have closed: "child_rel db `` (blk_id ` (set seen' - set nxt)) \<subseteq> blk_id ` set seen'"
    proof -
      have "set seen' - set nxt \<subseteq> (set seen - set frontier) \<union> set frontier" using n(1,2) by auto
      then have "child_rel db `` (blk_id ` (set seen' - set nxt)) \<subseteq>
        child_rel db `` (blk_id ` (set seen - set frontier)) \<union> child_rel db `` (blk_id ` set frontier)" by blast
      also have "\<dots> \<subseteq> blk_id ` set seen \<union> blk_id ` set seen'"
        using "1.prems"(4) n(4) unfolding children_of_ids by blast
      finally show ?thesis using n(1) by auto
    qed
    have sub: "set seen' \<subseteq> set (blocks db)" using n(1,3) "1.prems"(2) by (auto simp: children_of_def)
    have steps: "blk_id ` set seen' \<subseteq> (child_rel db)\<^sup>* `` (blk_id ` set seen)"
    proof -
      have "blk_id ` set new \<subseteq> blk_id ` set (children_of db frontier)" using n(3) by (rule image_mono)
      also have "\<dots> \<subseteq> child_rel db `` (blk_id ` set seen)"
        unfolding children_of_ids using "1.prems"(1) by (intro Image_mono image_mono order_refl)
      also have "\<dots> \<subseteq> (child_rel db)\<^sup>* `` (blk_id ` set seen)" by (rule Image_mono) auto
      finally show ?thesis using n(1) by auto
    qed
    have "set nxt \<subseteq> set seen'" using n(1,2) by simp
    note ih = "1.IH" [OF False v [symmetric] refl this sub n(5) closed]
    then have "blk_id ` set (walk_subtree db seen' nxt) \<subseteq> (child_rel db)\<^sup>* `` (blk_id ` set seen)"
      using steps by (metis (no_types, lifting) Image_mono relcomp_Image rtrancl_idemp_self_comp subset_refl subset_trans)
    then show ?thesis using ih n(1) unfolding eq by auto
  qed
qed

lemma Image_rtrancl_closed: "r `` X \<subseteq> X \<Longrightarrow> r\<^sup>* `` X \<subseteq> X"
  by (metis Image_closed_trancl order_refl)

text \<open>C16: Searching inside one block covers exactly its subtree. For every table, cyclic parent links
  included, the walk ends; it returns rows of the table, none twice, and their ids are exactly those
  that parent links reach from the given block.\<close>

theorem subtree_walk_exact:
  assumes "find (\<lambda>b. blk_id b = i) (blocks db) = Some root"
  shows "set (load_blocks db space (Some i)) \<subseteq> set (blocks db) \<and>
    distinct (map blk_id (load_blocks db space (Some i))) \<and>
    blk_id ` set (load_blocks db space (Some i)) = (child_rel db)\<^sup>* `` {i}"
proof -
  have root: "root \<in> set (blocks db)" "blk_id root = i" using find_SomeD [OF assms] by auto
  let ?r = "walk_subtree db [root] [root]"
  have eq: "load_blocks db space (Some i) = ?r" using assms by (simp add: load_blocks_def)
  have r: "root \<in> set ?r" "set ?r \<subseteq> set (blocks db)" "distinct (map blk_id ?r)"
    "child_rel db `` (blk_id ` set ?r) \<subseteq> blk_id ` set ?r" "blk_id ` set ?r \<subseteq> (child_rel db)\<^sup>* `` {i}"
    using walk_subtree_result [of "[root]" "[root]" db] root by auto
  have "(child_rel db)\<^sup>* `` {i} \<subseteq> (child_rel db)\<^sup>* `` (blk_id ` set ?r)" using r(1) root(2) by auto
  also have "\<dots> \<subseteq> blk_id ` set ?r" by (rule Image_rtrancl_closed [OF r(4)])
  finally show ?thesis unfolding eq using r by blast
qed

definition blk :: "uuid \<Rightarrow> uuid option \<Rightarrow> nat \<Rightarrow> nat \<Rightarrow> ip_block" where
  "blk i par a p = \<lparr>blk_id = i, blk_space_id = ''s'', blk_parent_id = par, blk_network = (V4, a, p)\<rparr>"

text \<open>A block with a child, and two blocks that are each other's parent.\<close>

definition small_db :: ipam_db where
  "small_db = \<lparr>blocks = [blk ''b0'' None 0 24, blk ''b1'' (Some ''b0'') 64 26, blk ''x'' (Some ''y'') 512 24,
     blk ''y'' (Some ''x'') 512 25],
     subnet_rows = [\<lparr>sn_id = ''n'', sn_block_id = Some ''b0'', sn_network = (V4, 0, 26)\<rparr>]\<rparr>"

theorem subtree_walk_exact_witness:
  "blk_id ` set (load_blocks small_db ''s'' (Some ''x'')) = (child_rel small_db)\<^sup>* `` {''x''} \<and>
   map blk_id (load_blocks small_db ''s'' (Some ''x'')) = [''x'', ''y'']"
proof -
  have "find (\<lambda>b. blk_id b = ''x'') (blocks small_db) = Some (blk ''x'' (Some ''y'') 512 24)" by code_simp
  moreover have "map blk_id (load_blocks small_db ''s'' (Some ''x'')) = [''x'', ''y'']"
    by (simp add: load_blocks_def small_db_def blk_def walk_subtree.simps children_of_def)
  ultimately show ?thesis using subtree_walk_exact by blast
qed

section \<open>Candidates of one block\<close>

lemma first_free_eq:
  "length out < remaining \<Longrightarrow> first_free occupants remaining out cs =
    out @ take (remaining - length out) (filter (\<lambda>c. \<not> list_ex (overlaps c) occupants) cs)"
proof (induction occupants remaining out cs rule: first_free.induct)
  case (2 occupants remaining out c cs)
  show ?case
  proof (cases "list_ex (overlaps c) occupants")
    case True
    then show ?thesis using 2 by simp
  next
    case False
    show ?thesis
    proof (cases "remaining \<le> length (out @ [c])")
      case True
      then have "remaining - length out = 1" using "2.prems" by simp
      then show ?thesis using False True by simp
    next
      case inner: False
      then have "remaining - length out = Suc (remaining - length (out @ [c]))" by simp
      then show ?thesis using 2(2) [OF False inner] False inner by simp
    qed
  qed
qed simp

text \<open>A slot of the requested size in the block, clear of the occupants.\<close>

definition free_slot :: "ipnet \<Rightarrow> ipnet list \<Rightarrow> int \<Rightarrow> ipnet \<Rightarrow> bool" where
  "free_slot net occupants p c \<longleftrightarrow> wf_net c \<and> version c = version net \<and> int (prefixlen c) = p \<and>
     addresses c \<subseteq> addresses net \<and> (\<forall>occ \<in> set occupants. addresses c \<inter> addresses occ = {})"

lemma list_ex_overlaps:
  assumes "wf_net c" "\<forall>occ \<in> set occupants. wf_net occ"
  shows "list_ex (overlaps c) occupants \<longleftrightarrow> (\<exists>occ \<in> set occupants. addresses c \<inter> addresses occ \<noteq> {})"
  using assms by (auto simp: list_ex_iff overlaps_iff)

lemma slots_of_block:
  assumes "wf_net net" "int (prefixlen net) < p" "p \<le> int (max_prefixlen (version net))"
    "\<forall>occ \<in> set occupants. wf_net occ" "0 < remaining"
  shows "\<exists>cs. candidates_for_block net occupants p remaining = Some (take remaining cs) \<and> distinct cs \<and>
    set cs = {c. free_slot net occupants p c}"
proof -
  let ?p = "nat p"
  let ?all = "map (child net ?p) [0 ..< 2 ^ (?p - prefixlen net)]"
  let ?cs = "filter (\<lambda>c. \<not> list_ex (overlaps c) occupants) ?all"
  have p: "prefixlen net < ?p" "?p \<le> max_prefixlen (version net)" using assms(2,3) by auto
  have "candidates_for_block net occupants p remaining = Some (take remaining ?cs)"
    using assms(2,5) subnets_child [OF p] first_free_eq [of "[]" remaining occupants ?all]
    by (simp add: candidates_for_block_def)
  moreover have "distinct ?cs" using children_distinct by (rule distinct_filter)
  moreover have "c \<in> set ?cs \<longleftrightarrow> free_slot net occupants p c" for c
  proof
    assume "c \<in> set ?cs"
    then obtain k where k: "k < 2 ^ (?p - prefixlen net)" "c = child net ?p k" "\<not> list_ex (overlaps c) occupants"
      by auto
    then show "free_slot net occupants p c"
      using child_in [OF assms(1) less_imp_le [OF p(1)] p(2) k(1)] list_ex_overlaps [OF _ assms(4), of c] assms(2)
      by (auto simp: free_slot_def)
  next
    assume f: "free_slot net occupants p c"
    have "addresses c \<inter> addresses net \<noteq> {}"
      using f broadcast_in(2) [of c] by (auto simp: free_slot_def)
    then obtain k where "k < 2 ^ (?p - prefixlen net)" "c = child net ?p k"
      using child_eq_iff [OF assms(1) less_imp_le [OF p(1)] p(2), of c] f by (auto simp: free_slot_def)
    then show "c \<in> set ?cs" using f list_ex_overlaps [OF _ assms(4), of c] by (auto simp: free_slot_def)
  qed
  ultimately show ?thesis by blast
qed

lemma same_size_slot:
  assumes "wf_net net" "free_slot net occupants (int (prefixlen net)) c"
  shows "c = net"
proof -
  have "contains net (version c, network_address c)"
    using assms broadcast_in(2) [of c] by (auto simp: contains_iff free_slot_def)
  moreover have "num_addresses c dvd network_address c" using assms(2) by (simp add: free_slot_def wf_net_def)
  ultimately have "network_address c = network_address net"
    using assms(2) by (simp add: contains_def free_slot_def num_addresses_def)
  then show ?thesis using assms(2) by (simp add: free_slot_def)
qed

lemma candidates_for_block_slots:
  assumes "wf_net net" "p \<le> int (max_prefixlen (version net))" "\<forall>occ \<in> set occupants. wf_net occ" "0 < remaining"
  obtains cs where "candidates_for_block net occupants p remaining = Some cs" "distinct cs"
    "\<forall>c \<in> set cs. free_slot net occupants p c"
    "cs = [] \<Longrightarrow> \<forall>occ \<in> set occupants. addresses occ \<subseteq> addresses net \<Longrightarrow> \<forall>c. \<not> free_slot net occupants p c"
proof (cases "p < int (prefixlen net)")
  case True
  have no: "\<not> free_slot net occupants p c" for c
  proof
    assume f: "free_slot net occupants p c"
    have "num_addresses net < num_addresses c"
      using f True assms(1) by (auto simp: free_slot_def num_addresses_def wf_net_def)
    moreover have "num_addresses c \<le> num_addresses net"
    proof -
      have "addresses c \<subseteq> addresses net" using f by (simp add: free_slot_def)
      then have "card (addresses c) \<le> card (addresses net)" by (intro card_mono) (simp_all add: addresses_def)
      then show ?thesis by (simp add: addresses_def card_cartesian_product)
    qed
    ultimately show False by simp
  qed
  show ?thesis by (rule that [of "[]"]) (use True no in \<open>simp_all add: candidates_for_block_def\<close>)
next
  case False
  show ?thesis
  proof (cases "p = int (prefixlen net)")
    case True
    have one: "free_slot net [] p net" using True assms(1) by (simp add: free_slot_def)
    have "\<not> free_slot net occupants p c"
      if ne: "occupants \<noteq> []" and sub: "\<forall>occ \<in> set occupants. addresses occ \<subseteq> addresses net" for c
    proof
      assume f: "free_slot net occupants p c"
      obtain occ where occ: "occ \<in> set occupants" using ne by (metis last_in_set)
      have "c = net" using same_size_slot [OF assms(1)] f True by simp
      then have "addresses net \<inter> addresses occ = {}" using f occ by (auto simp: free_slot_def)
      then show False using sub occ broadcast_in(2) [of occ] by blast
    qed
    then have none: "occupants \<noteq> [] \<Longrightarrow> \<forall>occ \<in> set occupants. addresses occ \<subseteq> addresses net \<Longrightarrow>
      \<forall>c. \<not> free_slot net occupants p c" by blast
    show ?thesis
      by (rule that [of "if occupants = [] then [net] else []"])
        (use True one none in \<open>simp_all add: candidates_for_block_def split: if_splits\<close>)
  next
    case neq: False
    then have "int (prefixlen net) < p" using False by simp
    from slots_of_block [OF assms(1) this assms(2-4)] obtain cs where
      cs: "candidates_for_block net occupants p remaining = Some (take remaining cs)" "distinct cs"
      "set cs = {c. free_slot net occupants p c}" by blast
    have nil: "\<not> free_slot net occupants p c" if "take remaining cs = []" for c using that cs(3) assms(4) by auto
    have mem: "c \<in> set (take remaining cs) \<Longrightarrow> free_slot net occupants p c" for c
      using cs(3) set_take_subset [of remaining cs] by blast
    show ?thesis by (rule that [OF cs(1)]) (use cs(2) nil mem in auto)
  qed
qed

lemma direct_child_cidrs_wf: "occ \<in> set (direct_child_cidrs db b) \<Longrightarrow> wf_net occ"
  unfolding direct_child_cidrs_def by (auto simp: List.map_filter_def dest!: ip_network_wf)
    (metis ip_network_wf option.collapse prod_cases3)+

section \<open>The sweep over the blocks\<close>

text \<open>What the finder promises of a candidate.\<close>

definition candidate_ok :: "ipam_db \<Rightarrow> ip_block list \<Rightarrow> int \<Rightarrow> int option \<Rightarrow> free_space_candidate \<Rightarrow> bool" where
  "candidate_ok db bs p minf c \<longleftrightarrow> (\<exists>b \<in> set bs. blk_id b = fsc_parent_block_id c \<and>
     ip_network (blk_network b) = Some (parent_block_cidr c) \<and>
     free_slot (parent_block_cidr c) (direct_child_cidrs db b) p (cidr c) \<and>
     free_addresses c = usable_addresses (cidr c) \<and>
     (case minf of None \<Rightarrow> True | Some m \<Rightarrow> m \<le> free_addresses c))"

lemma candidate_ok_mono: "candidate_ok db bs p minf c \<Longrightarrow> set bs \<subseteq> set bs' \<Longrightarrow> candidate_ok db bs' p minf c"
  unfolding candidate_ok_def by blast

lemma take_candidates_grow:
  "take_candidates minf cap b net acc seen cs = (acc', seen') \<Longrightarrow> acc \<noteq> [] \<Longrightarrow> acc' \<noteq> []"
  by (induction minf cap b net acc seen cs rule: take_candidates.induct) (auto split: if_splits simp: Let_def)

lemma take_candidates_ok:
  assumes "take_candidates minf cap b net acc seen cs = (acc', seen')" "length acc < cap"
    "distinct (map cidr acc)" "cidr ` set acc \<subseteq> seen"
    "\<forall>c \<in> set cs. free_slot net (direct_child_cidrs db b) p c" "ip_network (blk_network b) = Some net"
    "\<forall>c \<in> set acc. candidate_ok db bs p minf c" "b \<in> set bs"
  shows "length acc' \<le> cap \<and> distinct (map cidr acc') \<and> cidr ` set acc' \<subseteq> seen' \<and>
    (\<forall>c \<in> set acc'. candidate_ok db bs p minf c) \<and> (acc' = [] \<longrightarrow> minf = None \<longrightarrow> seen = {} \<longrightarrow> cs = [] \<and> seen' = {})"
  using assms
proof (induction minf cap b net acc seen cs rule: take_candidates.induct)
  case (2 minf cap b net acc seen c cs)
  let ?c = "\<lparr>cidr = c, fsc_parent_block_id = blk_id b, parent_block_cidr = net, free_addresses = usable_addresses c\<rparr>"
  consider (known) "c \<in> seen" | (small) m where "c \<notin> seen" "minf = Some m" "usable_addresses c < m"
    | (new) "c \<notin> seen" "\<not> (case minf of None \<Rightarrow> False | Some m \<Rightarrow> usable_addresses c < m)"
    by (cases minf) force+
  then show ?case
  proof cases
    case known
    then show ?thesis using 2(1) [OF known] "2.prems" by auto
  next
    case small
    then show ?thesis using 2(2) [OF small(1)] "2.prems" by auto
  next
    case new
    have ok: "candidate_ok db bs p minf ?c" using "2.prems" new(2)
      unfolding candidate_ok_def by (intro bexI [of _ b]) (auto split: option.splits)
    show ?thesis
    proof (cases "cap \<le> length (acc @ [?c])")
      case True
      then have "acc' = acc @ [?c]" "seen' = insert c seen" using "2.prems"(1) new by auto
      then show ?thesis using "2.prems" True ok new(1) by auto
    next
      case False
      have t: "take_candidates minf cap b net (acc @ [?c]) (insert c seen) cs = (acc', seen')"
        using "2.prems"(1) new False by simp
      have "distinct (map cidr (acc @ [?c]))" "cidr ` set (acc @ [?c]) \<subseteq> insert c seen"
        using "2.prems"(3,4) new(1) by auto
      moreover have "\<forall>c \<in> set (acc @ [?c]). candidate_ok db bs p minf c" using "2.prems"(7) ok by auto
      ultimately show ?thesis
        using 2(3) [OF new refl False t] "2.prems"(5,6,8) False take_candidates_grow [OF t] by auto
    qed
  qed
qed auto

text \<open>No block of \<open>bs\<close> has a slot, when the children of each lie inside it.\<close>

definition no_slot :: "ipam_db \<Rightarrow> int \<Rightarrow> ip_block list \<Rightarrow> bool" where
  "no_slot db p bs \<longleftrightarrow> (\<forall>b \<in> set bs. \<forall>net c. ip_network (blk_network b) = Some net \<longrightarrow>
     (\<forall>occ \<in> set (direct_child_cidrs db b). addresses occ \<subseteq> addresses net) \<longrightarrow>
     \<not> free_slot net (direct_child_cidrs db b) p c)"

lemma scan_blocks_ok:
  assumes "\<forall>b \<in> set bs. \<forall>net. ip_network (blk_network b) = Some net \<longrightarrow> p \<le> int (max_prefixlen (version net))"
    "distinct (map cidr acc)" "cidr ` set acc \<subseteq> seen" "length acc \<le> cap" "0 < cap"
    "\<forall>c \<in> set acc. candidate_ok db all p minf c" "set bs \<subseteq> set all"
  shows "\<exists>cs. scan_blocks db p minf cap acc seen bs = Some cs \<and> length cs \<le> cap \<and> distinct (map cidr cs) \<and>
    (\<forall>c \<in> set cs. candidate_ok db all p minf c) \<and> (acc \<noteq> [] \<longrightarrow> cs \<noteq> []) \<and>
    (cs = [] \<longrightarrow> minf = None \<longrightarrow> seen = {} \<longrightarrow> no_slot db p bs)"
  using assms
proof (induction db p minf cap acc seen bs rule: scan_blocks.induct)
  case (1 db p minf cap acc seen)
  then show ?case by (simp add: no_slot_def)
next
  case (2 db p minf cap acc seen b bs)
  show ?case
  proof (cases "cap \<le> length acc")
    case True
    then show ?thesis using "2.prems" by auto
  next
    case False
    show ?thesis
    proof (cases "ip_network (blk_network b)")
      case None
      then show ?thesis using 2(1) [OF False None] "2.prems" False by (auto simp: no_slot_def)
    next
      case (Some net)
      have wf: "wf_net net" using Some ip_network_wf by (metis prod_cases3)
      have le: "p \<le> int (max_prefixlen (version net))" using "2.prems"(1) Some by auto
      obtain cs where cs: "candidates_for_block net (direct_child_cidrs db b) p (cap - length acc) = Some cs"
        "\<forall>c \<in> set cs. free_slot net (direct_child_cidrs db b) p c"
        "cs = [] \<Longrightarrow> \<forall>occ \<in> set (direct_child_cidrs db b). addresses occ \<subseteq> addresses net \<Longrightarrow>
          \<forall>c. \<not> free_slot net (direct_child_cidrs db b) p c"
        by (rule candidates_for_block_slots [OF wf le, of "direct_child_cidrs db b" "cap - length acc"])
          (use direct_child_cidrs_wf False in auto)
      show ?thesis
      proof (cases "p < int (prefixlen net)")
        case True
        then have "cs = []" using cs(1) by (simp add: candidates_for_block_def)
        then show ?thesis using 2(2) [OF False Some True] "2.prems" False Some True cs(3) by (auto simp: no_slot_def)
      next
        case wide: False
        obtain acc' seen' where t: "take_candidates minf cap b net acc seen cs = (acc', seen')" by fastforce
        have ok: "length acc' \<le> cap" "distinct (map cidr acc')" "cidr ` set acc' \<subseteq> seen'"
          "\<forall>c \<in> set acc'. candidate_ok db all p minf c"
          "acc' = [] \<longrightarrow> minf = None \<longrightarrow> seen = {} \<longrightarrow> cs = [] \<and> seen' = {}"
          using take_candidates_ok [OF t _ "2.prems"(2,3) cs(2) Some "2.prems"(6)] False "2.prems"(7) by auto
        note grow = take_candidates_grow [OF t]
        have eq: "scan_blocks db p minf cap acc seen (b # bs) = scan_blocks db p minf cap acc' seen' bs"
          using False Some wide cs(1) t by simp
        show ?thesis using 2(3) [OF False Some wide cs(1) t [symmetric]] "2.prems" ok grow cs(3) Some
          unfolding eq by (auto simp: no_slot_def)
      qed
    qed
  qed
qed

lemma valid_prefix_width:
  assumes "validate_prefix p fam = None" "block_matches_family b fam" "ip_network (blk_network b) = Some net"
  shows "p \<le> int (max_prefixlen (version net)) \<and> version net = (if fam = 4 then V4 else V6)"
  using assms by (auto simp: validate_prefix_def block_matches_family_def split: if_splits)

lemma find_free_space_scan:
  assumes "validate_prefix p fam = None"
  obtains r cs where "find_free_space db space p fam cnt minf parent = Some r" "candidates r = cs"
    "int (length cs) \<le> max 1 (min cnt HARD_CAP)" "distinct (map cidr cs)"
    "\<forall>c \<in> set cs. candidate_ok db (filter (\<lambda>b. block_matches_family b fam) (load_blocks db space parent)) p minf c"
    "cs = [] \<longrightarrow> minf = None \<longrightarrow> no_slot db p (filter (\<lambda>b. block_matches_family b fam) (load_blocks db space parent))"
proof (cases "load_blocks db space parent = []")
  case True
  show ?thesis by (rule that) (use True assms in \<open>auto simp: find_free_space_def no_slot_def Let_def\<close>)
next
  case False
  let ?all = "filter (\<lambda>b. block_matches_family b fam) (load_blocks db space parent)"
  let ?bs = "sort_key tightness ?all"
  let ?cap = "nat (max 1 (min cnt HARD_CAP))"
  have "\<forall>b \<in> set ?bs. \<forall>net. ip_network (blk_network b) = Some net \<longrightarrow> p \<le> int (max_prefixlen (version net))"
    using valid_prefix_width [OF assms] by auto
  moreover have "0 < max 1 (min cnt HARD_CAP)" by simp
  ultimately obtain cs where cs: "scan_blocks db p minf ?cap [] {} ?bs = Some cs" "length cs \<le> ?cap"
    "distinct (map cidr cs)" "\<forall>c \<in> set cs. candidate_ok db ?all p minf c"
    "cs = [] \<longrightarrow> minf = None \<longrightarrow> no_slot db p ?bs"
    using scan_blocks_ok [of ?bs p "[]" "{}" ?cap db ?all minf] by auto
  have "no_slot db p ?bs = no_slot db p ?all" by (simp add: no_slot_def)
  moreover have "int (length cs) \<le> max 1 (min cnt HARD_CAP)" using cs(2) by linarith
  ultimately show ?thesis using False assms cs by (intro that) (auto simp: find_free_space_def Let_def)
qed

text \<open>C14: Every network the finder proposes can be carved. The search always returns; it proposes at most
  the number asked for (never more than 100, and at least one slot is looked for), no network twice; and each proposal has the
  requested size and family, lies inside the block it is attributed to (one of the blocks searched),
  and shares no address with any block or subnet directly under that block.\<close>

theorem free_space_candidates_are_free:
  "\<exists>r. find_free_space db space p fam cnt minf parent = Some r \<and> distinct (map cidr (candidates r)) \<and>
     int (length (candidates r)) \<le> max 1 (min cnt 100) \<and>
     (\<forall>c \<in> set (candidates r). version (cidr c) = (if fam = 4 then V4 else V6) \<and>
        candidate_ok db (load_blocks db space parent) p minf c)"
proof (cases "validate_prefix p fam")
  case None
  let ?all = "filter (\<lambda>b. block_matches_family b fam) (load_blocks db space parent)"
  obtain r cs where r: "find_free_space db space p fam cnt minf parent = Some r" "candidates r = cs"
    "int (length cs) \<le> max 1 (min cnt HARD_CAP)" "distinct (map cidr cs)"
    "\<forall>c \<in> set cs. candidate_ok db ?all p minf c"
    by (rule find_free_space_scan [OF None])
  have "version (cidr c) = (if fam = 4 then V4 else V6) \<and> candidate_ok db (load_blocks db space parent) p minf c"
    if "c \<in> set cs" for c
  proof -
    have ok: "candidate_ok db ?all p minf c" using r(5) that by blast
    then obtain b where "block_matches_family b fam" "ip_network (blk_network b) = Some (parent_block_cidr c)"
      "version (cidr c) = version (parent_block_cidr c)" by (auto simp: candidate_ok_def free_slot_def)
    then show ?thesis using valid_prefix_width [OF None] candidate_ok_mono [OF ok] by auto
  qed
  then show ?thesis using r by (auto simp: HARD_CAP_def)
next
  case (Some e)
  then show ?thesis by (simp add: find_free_space_def)
qed

lemmas find_free_space_eval = find_free_space_def small_db_def blk_def load_blocks_def walk_subtree.simps
  children_of_def validate_prefix_def HARD_CAP_def block_matches_family_def tightness_def direct_child_cidrs_def
  map_filter_simps candidates_for_block_def subnets_def overlaps_def contains_def num_addresses_def
  broadcast_address_def usable_addresses_def Let_def upt_conv_Cons

theorem free_space_candidates_are_free_witness:
  "\<exists>r. find_free_space small_db ''s'' 26 4 2 None (Some ''b0'') = Some r \<and>
     map (network_address \<circ> cidr) (candidates r) = [64, 128] \<and>
     (\<forall>c \<in> set (candidates r). candidate_ok small_db (load_blocks small_db ''s'' (Some ''b0'')) 26 None c)"
proof -
  have "map_option (\<lambda>r. map (network_address \<circ> cidr) (candidates r))
      (find_free_space small_db ''s'' 26 4 2 None (Some ''b0'')) = Some [64, 128]"
    by (simp add: find_free_space_eval)
  then show ?thesis using free_space_candidates_are_free [of small_db "''s''" 26 4 2 None "Some ''b0''"] by auto
qed

text \<open>C15: "No free space" is never a false answer. When the finder is asked for any free network of a valid
  size and proposes none, no block it searched has room: whatever network of that size lies in a block
  of the family shares an address with a child of the block (as long as children lie inside their
  block).\<close>

theorem no_candidates_means_no_room:
  assumes "validate_prefix p fam = None" "find_free_space db space p fam cnt None parent = Some r" "candidates r = []"
    "b \<in> set (load_blocks db space parent)" "block_matches_family b fam" "ip_network (blk_network b) = Some net"
    "\<forall>occ \<in> set (direct_child_cidrs db b). addresses occ \<subseteq> addresses net"
    "wf_net c" "int (prefixlen c) = p" "addresses c \<subseteq> addresses net"
  shows "\<exists>occ \<in> set (direct_child_cidrs db b). addresses c \<inter> addresses occ \<noteq> {}"
proof -
  let ?all = "filter (\<lambda>b. block_matches_family b fam) (load_blocks db space parent)"
  have "no_slot db p ?all"
    by (rule find_free_space_scan [OF assms(1), of db space cnt None parent]) (use assms(2,3) in auto)
  then have "\<not> free_slot net (direct_child_cidrs db b) p c" using assms(4-7) by (auto simp: no_slot_def)
  moreover have "(version c, network_address c) \<in> addresses net" using assms(10) broadcast_in(2) [of c] by blast
  then have "version c = version net" by (simp add: addresses_def)
  ultimately show ?thesis using assms(8-10) by (auto simp: free_slot_def)
qed

definition full_db :: ipam_db where
  "full_db = \<lparr>blocks = [blk ''b0'' None 0 29, blk ''b1'' (Some ''b0'') 0 30, blk ''b2'' (Some ''b0'') 4 30],
     subnet_rows = [\<lparr>sn_id = ''n1'', sn_block_id = Some ''b1'', sn_network = (V4, 0, 30)\<rparr>,
        \<lparr>sn_id = ''n2'', sn_block_id = Some ''b2'', sn_network = (V4, 4, 30)\<rparr>]\<rparr>"

theorem no_candidates_means_no_room_witness:
  "\<exists>occ \<in> set (direct_child_cidrs full_db (blk ''b0'' None 0 29)).
     addresses \<lparr>version = V4, network_address = 4, prefixlen = 30\<rparr> \<inter> addresses occ \<noteq> {}"
proof -
  let ?b = "blk ''b0'' None 0 29" and ?net = "\<lparr>version = V4, network_address = 0, prefixlen = 29\<rparr>"
  have e: "map_option candidates (find_free_space full_db ''s'' 30 4 5 None None) = Some []"
    by (simp add: find_free_space_eval full_db_def)
  then obtain r where r: "find_free_space full_db ''s'' 30 4 5 None None = Some r" "candidates r = []" by auto
  have kids: "direct_child_cidrs full_db ?b = [\<lparr>version = V4, network_address = 0, prefixlen = 30\<rparr>,
      \<lparr>version = V4, network_address = 4, prefixlen = 30\<rparr>]"
    by (simp add: find_free_space_eval full_db_def)
  show ?thesis
    by (rule no_candidates_means_no_room [OF _ r, of _ ?net])
      (simp_all add: validate_prefix_def load_blocks_def full_db_def blk_def block_matches_family_def
        kids [unfolded full_db_def blk_def] addresses_def num_addresses_def wf_net_def Sigma_mono)
qed

end
