(* ===== verification/Subnet_Boundary.thy ===== *)
theory Subnet_Boundary
  imports Free_Space
begin

text \<open>
  The rules around a subnet's edge: its network and broadcast rows
  (\<^verbatim>\<open>services/ipam/subnet_boundary.py\<close>), which gateway it may have (\<^verbatim>\<open>gateway_rules.py\<close>) and which rows count
  towards its utilization and its blocks' (\<^verbatim>\<open>utilization.py\<close>). Percentages are floats and are left out.
\<close>

section \<open>The text of addresses and networks\<close>

type_synonym ip_addr = "ip_version \<times> nat"

definition hex_digit :: "nat \<Rightarrow> char" where
  "hex_digit d = ''0123456789abcdef'' ! d"

fun hex_digits :: "nat \<Rightarrow> string" where
  "hex_digits n = (if n < 16 then [hex_digit n] else hex_digits (n div 16) @ [hex_digit (n mod 16)])"

definition hextets :: "nat \<Rightarrow> nat list" where
  "hextets a = map (\<lambda>i. a div 65536 ^ (7 - i) mod 65536) [0 ..< 8]"

text \<open>The first longest run of zero groups, as start and length.\<close>

fun zero_run :: "nat \<Rightarrow> nat \<times> nat \<Rightarrow> nat \<times> nat \<Rightarrow> nat list \<Rightarrow> nat \<times> nat" where
  "zero_run i cur best [] = best"
| "zero_run i cur best (h # hs) =
     (if h = 0 then let cur' = (if snd cur = 0 then (i, 1) else (fst cur, snd cur + 1)) in
        zero_run (i + 1) cur' (if snd best < snd cur' then cur' else best) hs
      else zero_run (i + 1) (0, 0) best hs)"

definition compress_hextets :: "nat list \<Rightarrow> string" where
  "compress_hextets hs = (let (start, len) = zero_run 0 (0, 0) (0, 0) hs; txt = map hex_digits hs in
     if 1 < len then py_join '':'' (take start txt) @ ''::'' @ py_join '':'' (drop (start + len) txt)
     else py_join '':'' txt)"

definition str_ip :: "ip_addr \<Rightarrow> string" where
  "str_ip va = (case fst va of
     V4 \<Rightarrow> py_join ''.'' (map (\<lambda>i. nat_digits (snd va div 256 ^ (3 - i) mod 256)) [0 ..< 4])
   | V6 \<Rightarrow> compress_hextets (hextets (snd va)))"

definition str_net :: "ipnet \<Rightarrow> string" where
  "str_net n = str_ip (version n, network_address n) @ ''/'' @ nat_digits (prefixlen n)"

section \<open>Address rows\<close>

record ip_address =
  ipa_subnet_id :: uuid
  ipa_address :: ip_addr
  ipa_status :: string
  ipa_hostname :: "string option"
  ipa_description :: string
  ipa_dns_record_id :: "uuid option"
  ipa_created_by :: "uuid option"

section \<open>Boundary rows\<close>

definition has_boundary_rows :: "ipnet \<Rightarrow> string option \<Rightarrow> bool" where
  "has_boundary_rows net kind = (if kind = Some ''multicast'' then False
     else prefixlen net < (if version net = V6 then 127 else 31))"

definition boundary_rows :: "ipnet \<Rightarrow> string option \<Rightarrow> (ip_addr \<times> string \<times> string) list" where
  "boundary_rows net kind = (if \<not> has_boundary_rows net kind then []
     else ((version net, network_address net), ''network'', ''Network address'') #
       (if version net = V4
        then [((version net, broadcast_address net), ''broadcast'', ''Broadcast address'')] else []))"

definition boundary_addresses :: "ipnet \<Rightarrow> string option \<Rightarrow> ip_addr list" where
  "boundary_addresses net kind = map fst (boundary_rows net kind)"

text \<open>The dict of the boundary labels; a later network overwrites an earlier one.\<close>

definition boundary_labels :: "ipnet list \<Rightarrow> string option \<Rightarrow> ip_addr \<Rightarrow> string option" where
  "boundary_labels nets kind = map_of (rev (concat (map (\<lambda>net. map (\<lambda>(a, st, _).
     (a, ''the '' @ st @ '' address of '' @ str_net net)) (boundary_rows net kind)) nets)))"

definition boundary_conflict :: "ip_address \<Rightarrow> string \<Rightarrow> string" where
  "boundary_conflict row label = str_ip (ipa_address row) @ '' ('' @ ipa_status row @
     (case ipa_hostname row of None \<Rightarrow> [] | Some h \<Rightarrow> (if h = [] then [] else '', '' @ h)) @
     '') would sit on '' @ label @ '', which no client can use. Move or delete it first.''"

definition boundary_host_conflicts :: "ip_address list \<Rightarrow> ipnet list \<Rightarrow> string option \<Rightarrow> ip_addr list \<Rightarrow>
    string list" where
  "boundary_host_conflicts rows nets kind already = List.map_filter (\<lambda>row.
     if ipa_status row \<in> {''network'', ''broadcast''} \<or> ipa_address row \<in> set already then None
     else map_option (boundary_conflict row) (boundary_labels nets kind (ipa_address row))) rows"

text \<open>The rows to add for the subnet; the count the code returns is their number.\<close>

definition ensure_boundary_rows :: "uuid \<Rightarrow> ipnet \<Rightarrow> uuid option \<Rightarrow> string option \<Rightarrow> ip_address list \<Rightarrow>
    ip_address list" where
  "ensure_boundary_rows sid net creator kind table =
     (let existing = map ipa_address (filter (\<lambda>r. ipa_subnet_id r = sid) table) in
      map (\<lambda>(a, st, desc). \<lparr>ipa_subnet_id = sid, ipa_address = a, ipa_status = st, ipa_hostname = None,
          ipa_description = desc, ipa_dns_record_id = None, ipa_created_by = creator\<rparr>)
        (filter (\<lambda>(a, _). a \<notin> set existing) (boundary_rows net kind)))"

section \<open>The gateway rule\<close>

text \<open>\<open>gateway\<close>: the text, and the address it parses to if any.\<close>

definition gateway_problem :: "(string \<times> ip_addr option) option \<Rightarrow> ipnet \<Rightarrow> bool \<Rightarrow> string option" where
  "gateway_problem gateway net reject_reserved = (case gateway of None \<Rightarrow> None
     | Some (txt, None) \<Rightarrow> Some (''Invalid gateway IP: '' @ txt)
     | Some (txt, Some gw) \<Rightarrow>
        (if fst gw \<noteq> version net \<or> \<not> contains net gw
         then Some (''Gateway '' @ txt @ '' is not within subnet '' @ str_net net)
         else if reject_reserved \<and> gw = (version net, network_address net)
         then Some (''Gateway '' @ txt @ '' is the network address of subnet '' @ str_net net)
         else if reject_reserved \<and> version net = V4 \<and> gw = (version net, broadcast_address net)
         then Some (''Gateway '' @ txt @ '' is the broadcast address of subnet '' @ str_net net)
         else None))"

section \<open>Utilization\<close>

definition counts_toward_utilization :: "ip_address \<Rightarrow> bool" where
  "counts_toward_utilization r \<longleftrightarrow> ipa_status r \<noteq> ''available'' \<and> ipa_status r \<noteq> ''broadcast'' \<and>
     \<not> (ipa_status r = ''network'' \<and> fst (ipa_address r) = V4)"

definition allocated_count :: "uuid \<Rightarrow> ip_address list \<Rightarrow> nat" where
  "allocated_count sid table = length (filter (\<lambda>r. ipa_subnet_id r = sid \<and> counts_toward_utilization r) table)"

definition counting_row_at :: "uuid \<Rightarrow> ip_addr \<Rightarrow> ip_address list \<Rightarrow> bool" where
  "counting_row_at sid a table = list_ex (\<lambda>r. ipa_subnet_id r = sid \<and> ipa_address r = a \<and>
     counts_toward_utilization r) table"

definition block_subnet_contribution :: "uuid \<Rightarrow> ipnet \<Rightarrow> nat \<Rightarrow> ip_address list \<Rightarrow> nat" where
  "block_subnet_contribution sid net allocated table = allocated +
     (if version net = V4 \<and> prefixlen net < 31 then
        (if counting_row_at sid (V4, network_address net) table then 0 else 1) +
        (if counting_row_at sid (V4, broadcast_address net) table then 0 else 1)
      else if version net = V6 \<and> prefixlen net < 127 then
        (if counting_row_at sid (V6, network_address net) table then 0 else 1)
      else 0)"

definition block_allocated :: "int \<Rightarrow> ipnet \<Rightarrow> int" where
  "block_allocated allocated net = max 0 (min allocated (int (num_addresses net)))"

section \<open>A subnet never counts for more than its size\<close>

text \<open>The addresses of the counting rows of a subnet.\<close>

definition counted :: "uuid \<Rightarrow> ip_address list \<Rightarrow> ip_addr set" where
  "counted sid table = ipa_address ` {r \<in> set table. ipa_subnet_id r = sid \<and> counts_toward_utilization r}"

lemma counting_row_at_iff: "counting_row_at sid a table \<longleftrightarrow> a \<in> counted sid table"
  by (auto simp: counting_row_at_def counted_def list_ex_iff)

lemma allocated_count_eq:
  assumes "distinct (map ipa_address (filter (\<lambda>r. ipa_subnet_id r = sid) table))"
  shows "allocated_count sid table = card (counted sid table)"
proof -
  let ?rows = "filter (\<lambda>r. ipa_subnet_id r = sid \<and> counts_toward_utilization r) table"
  have "distinct (map ipa_address (filter counts_toward_utilization (filter (\<lambda>r. ipa_subnet_id r = sid) table)))"
    by (rule distinct_map_filter [OF assms])
  then have "distinct (map ipa_address ?rows)" by (simp only: filter_filter)
  then have "card (set (map ipa_address ?rows)) = length ?rows"
    using distinct_card [of "map ipa_address ?rows"] by (simp only: length_map)
  moreover have "set (map ipa_address ?rows) = counted sid table" by (simp add: counted_def)
  moreover have "allocated_count sid table = length ?rows" by (simp only: allocated_count_def)
  ultimately show ?thesis by (simp only:)
qed

lemma network_not_broadcast:
  assumes "prefixlen net < max_prefixlen (version net)"
  shows "network_address net \<noteq> broadcast_address net"
proof -
  have "(2::nat) ^ 1 \<le> num_addresses net" unfolding num_addresses_def
    by (rule power_increasing) (use assms in auto)
  then show ?thesis by (simp add: broadcast_address_def)
qed

text \<open>What a subnet adds to its block is the number of addresses that are counted or are its edge.\<close>

lemma contribution_card:
  assumes "distinct (map ipa_address (filter (\<lambda>r. ipa_subnet_id r = sid) table))" "counted sid table \<subseteq> addresses net"
  shows "block_subnet_contribution sid net (allocated_count sid table) table =
    card (counted sid table \<union> set (boundary_addresses net (Some ''unicast'')))"
proof -
  let ?C = "counted sid table"
  have fin: "finite ?C" using assms(2) card_addresses(2) finite_subset by blast
  have ne: "(V4, network_address net) \<noteq> (V4, broadcast_address net)" if "version net = V4" "prefixlen net < 31"
    using network_not_broadcast [of net] that by auto
  show ?thesis
    using allocated_count_eq [OF assms(1)] fin ne
    by (cases "version net") (auto simp: block_subnet_contribution_def boundary_addresses_def boundary_rows_def
        has_boundary_rows_def counting_row_at_iff card_insert_if insert_absorb)
qed

text \<open>A subnet never adds more to its block than its own size. When its rows have distinct addresses
  inside it, what it contributes to the block's count is exactly the number of addresses that are
  allocated or are its network or broadcast address, none counted twice; so it is at most the size of
  the subnet, and the block's clamped figure is never over the block's size.\<close>

theorem contribution_within_subnet:
  assumes "distinct (map ipa_address (filter (\<lambda>r. ipa_subnet_id r = sid) table))"
    "\<forall>r \<in> set table. ipa_subnet_id r = sid \<longrightarrow> ipa_address r \<in> addresses net"
  shows "block_subnet_contribution sid net (allocated_count sid table) table =
      card (counted sid table \<union> set (boundary_addresses net (Some ''unicast''))) \<and>
    block_subnet_contribution sid net (allocated_count sid table) table \<le> num_addresses net \<and>
    block_allocated x net \<le> int (num_addresses net)"
proof -
  have sub: "counted sid table \<subseteq> addresses net" using assms(2) by (auto simp: counted_def)
  have "set (boundary_addresses net (Some ''unicast'')) \<subseteq> addresses net"
    using broadcast_in [of net] by (auto simp: boundary_addresses_def boundary_rows_def split: if_splits)
  then have "card (counted sid table \<union> set (boundary_addresses net (Some ''unicast''))) \<le> card (addresses net)"
    using sub card_addresses(2) by (intro card_mono) auto
  then show ?thesis using contribution_card [OF assms(1) sub] card_addresses(1) by (simp add: block_allocated_def)
qed

definition full_rows :: "ip_address list" where
  "full_rows = map (\<lambda>(a, st). \<lparr>ipa_subnet_id = ''s'', ipa_address = (V4, a), ipa_status = st, ipa_hostname = None,
     ipa_description = [], ipa_dns_record_id = None, ipa_created_by = None\<rparr>)
     [(0, ''network''), (1, ''allocated''), (2, ''dhcp''), (3, ''broadcast'')]"

theorem contribution_within_subnet_witness:
  "block_subnet_contribution ''s'' \<lparr>version = V4, network_address = 0, prefixlen = 30\<rparr>
     (allocated_count ''s'' full_rows) full_rows \<le> 4 \<and> allocated_count ''s'' full_rows = 2"
proof -
  let ?net = "\<lparr>version = V4, network_address = 0, prefixlen = 30\<rparr>"
  have "distinct (map ipa_address (filter (\<lambda>r. ipa_subnet_id r = ''s'') full_rows))" by (simp add: full_rows_def)
  moreover have "\<forall>r \<in> set full_rows. ipa_subnet_id r = ''s'' \<longrightarrow> ipa_address r \<in> addresses ?net"
    by (simp add: full_rows_def addresses_def num_addresses_def)
  moreover have "num_addresses ?net = 4" by (simp add: num_addresses_def)
  moreover have "allocated_count ''s'' full_rows = 2"
    by (simp add: allocated_count_def full_rows_def counts_toward_utilization_def)
  ultimately show ?thesis using contribution_within_subnet by metis
qed

section \<open>The gateway rule and the boundary rows agree\<close>

text \<open>The gateway rule accepts exactly the addresses a subnet leaves free for one. For a subnet that gets
  boundary rows, a parsed gateway passes the rule if and only if it lies in the subnet and is none of
  the addresses those rows hold; text that is no address never passes.\<close>

theorem gateway_rule_matches_boundary:
  assumes "wf_net net" "has_boundary_rows net kind"
  shows "(gateway_problem (Some (txt, Some gw)) net True = None \<longleftrightarrow>
      gw \<in> addresses net \<and> gw \<notin> set (boundary_addresses net kind)) \<and>
    gateway_problem (Some (txt, None)) net True \<noteq> None \<and> gateway_problem None net True = None"
proof -
  have "contains net gw \<longleftrightarrow> gw \<in> addresses net" using contains_iff [OF assms(1)] .
  moreover have "gw \<in> addresses net \<Longrightarrow> fst gw = version net" by (auto simp: addresses_def)
  ultimately show ?thesis using assms(2)
    by (auto simp: gateway_problem_def boundary_addresses_def boundary_rows_def split: if_splits)
qed

theorem gateway_rule_matches_boundary_witness:
  "gateway_problem (Some (''0.0.0.1'', Some (V4, 1))) \<lparr>version = V4, network_address = 0, prefixlen = 30\<rparr> True = None \<and>
   gateway_problem (Some (''0.0.0.3'', Some (V4, 3))) \<lparr>version = V4, network_address = 0, prefixlen = 30\<rparr> True \<noteq> None"
proof -
  let ?net = "\<lparr>version = V4, network_address = 0, prefixlen = 30\<rparr>"
  have wf: "wf_net ?net" "has_boundary_rows ?net None" by (simp_all add: wf_net_def num_addresses_def has_boundary_rows_def)
  have "(V4, 1) \<in> addresses ?net" "(V4, 1) \<notin> set (boundary_addresses ?net None)"
    "(V4, 3) \<in> set (boundary_addresses ?net None)"
    by (simp_all add: addresses_def num_addresses_def boundary_addresses_def boundary_rows_def has_boundary_rows_def broadcast_address_def)
  then show ?thesis using gateway_rule_matches_boundary [OF wf] by blast
qed

end
