(* ===== verification/Subnet_Split.thy ===== *)
theory Subnet_Split
  imports Subnet_Boundary Audit_Log "HOL-Library.Code_Target_Nat"
begin

text \<open>
  Splitting a subnet (\<^verbatim>\<open>services/ipam/subnet_split.py\<close>): the preview with its conflicts and the commit that
  builds the children, moves the address rows, recreates the boundary rows, rebinds the DHCP scopes,
  duplicates the zone bindings, marks the DHCP servers, recounts the children and deletes the parent.
  The columns a child inherits (\<^verbatim>\<open>subnet_carry.py\<close>) are kept as a dict of column values.
  The tables hold the live rows: rows in the trash are hidden from every query by the session filter.
\<close>

section \<open>Rows\<close>

record subnet_row = subnet +
  sn_name :: string
  sn_description :: string
  sn_gateway :: "(string \<times> ip_addr option) option"
  sn_total_ips :: int
  sn_allocated_ips :: nat
  sn_kind :: "string option"
  sn_columns :: "(string \<times> pyval) list"

record dhcp_scope =
  sc_id :: uuid
  sc_subnet_id :: uuid
  sc_group_id :: uuid

record dhcp_pool =
  pl_scope_id :: uuid
  start_ip :: ip_addr
  end_ip :: ip_addr

record dhcp_static =
  st_scope_id :: uuid
  st_ip :: ip_addr

record subnet_domain =
  sd_subnet_id :: uuid
  sd_zone_id :: uuid
  sd_is_primary :: bool

record dhcp_server =
  srv_id :: uuid
  srv_group_id :: "uuid option"
  srv_agentless :: bool
  config_etag :: string

record dhcp_config_op =
  co_server_id :: uuid
  co_op_type :: string
  co_payload :: pyval
  co_status :: string

text \<open>The tables a split reads and writes. \<open>address_sets\<close> are the subnets the address sets belong to.\<close>

record split_db =
  subnets_tab :: "subnet_row list"
  addrs :: "ip_address list"
  scopes :: "dhcp_scope list"
  pools :: "dhcp_pool list"
  statics :: "dhcp_static list"
  active_leases :: "uuid list"
  domains :: "subnet_domain list"
  address_sets :: "(uuid \<times> string) list"
  servers :: "dhcp_server list"
  config_ops :: "dhcp_config_op list"

section \<open>Inherited columns\<close>

definition CARRIED_COLUMNS :: "string list" where
  "CARRIED_COLUMNS = [''kind'', ''dns_split_horizon'', ''auto_profile_on_dhcp_lease'', ''auto_profile_preset'',
     ''auto_profile_refresh_days'', ''discovery_enabled'', ''discovery_interval_minutes'', ''show_free_ranges'',
     ''decom_date'', ''subnet_role'', ''bgp_should_advertise'', ''customer_id'', ''site_id'', ''applied_template_id'']"

definition UNION_FLAGS :: "string list" where
  "UNION_FLAGS = [''pci_scope'', ''hipaa_scope'', ''internet_facing'', ''do_not_probe'', ''skip_reverse_zone'']"

definition column :: "subnet_row \<Rightarrow> string \<Rightarrow> pyval" where
  "column s c = (if c = ''kind'' then opt_str (sn_kind s)
     else case map_of (sn_columns s) c of None \<Rightarrow> PyNone | Some v \<Rightarrow> v)"

definition split_inherited :: "subnet_row \<Rightarrow> (string \<times> pyval) list" where
  "split_inherited parent = map (\<lambda>c. (c, column parent c)) (CARRIED_COLUMNS @ UNION_FLAGS @ [''do_not_probe_reason''])"

definition or_dict :: "pyval \<Rightarrow> pyval" where
  "or_dict v = (case v of PyDict kvs \<Rightarrow> PyDict kvs | _ \<Rightarrow> PyDict [])"

definition INHERITED_COLUMNS :: "string list" where
  "INHERITED_COLUMNS = [''space_id'', ''router_zone_id'', ''vlan_ref_id'', ''vlan_id'', ''vxlan_id'', ''dns_servers'',
     ''domain_name'', ''dns_group_ids'', ''dns_zone_id'', ''dns_additional_zone_ids'', ''dns_inherit_settings'',
     ''dhcp_server_group_id'', ''dhcp_inherit_settings'', ''ddns_enabled'', ''ddns_hostname_policy'',
     ''ddns_domain_override'', ''ddns_ttl'', ''ddns_inherit_settings'', ''ipv6_allocation_policy'', ''status'']"

definition inherited :: "subnet_row \<Rightarrow> (string \<times> pyval) list" where
  "inherited s = map (\<lambda>c. (c, column s c)) INHERITED_COLUMNS @
     [(''custom_fields'', or_dict (column s ''custom_fields'')), (''tags'', or_dict (column s ''tags''))] @
     split_inherited s"

section \<open>Checks and helpers\<close>

record split_error =
  se_message :: string
  se_status :: int

definition split_fail :: "string \<Rightarrow> int \<Rightarrow> split_error" where
  "split_fail m st = \<lparr>se_message = m, se_status = st\<rparr>"

definition validate_split :: "ipnet \<Rightarrow> int \<Rightarrow> split_error + unit" where
  "validate_split parent p =
     (if p \<le> int (prefixlen parent)
      then Inl (split_fail (''new_prefix_length must be strictly greater than the parent'' @ squote @ ''s /'' @
             nat_digits (prefixlen parent) @ '' (got /'' @ int_str p @ '').'') 422)
      else if version parent = V4 \<and> 30 < p
      then Inl (split_fail (''new_prefix_length must be <= 30 for IPv4 (split does not '' @
             ''produce /31 or /32 children automatically).'') 422)
      else if version parent = V6 \<and> 126 < p
      then Inl (split_fail ''new_prefix_length must be <= 126 for IPv6.'' 422)
      else Inr ())"

definition split_children :: "ipnet \<Rightarrow> int \<Rightarrow> ipnet list" where
  "split_children parent p = (case subnets parent (nat p) of None \<Rightarrow> [] | Some cs \<Rightarrow> cs)"

definition is_default_placeholder :: "ip_address \<Rightarrow> bool" where
  "is_default_placeholder row =
     (if ipa_status row \<notin> {''network'', ''broadcast''} then False
      else let user_named = (case ipa_hostname row of None \<Rightarrow> False
               | Some h \<Rightarrow> h \<noteq> [] \<and> h \<notin> {''network'', ''broadcast''});
             custom_desc = ipa_description row \<notin> {[], ''Network address'', ''Broadcast address''}
           in \<not> (user_named \<or> custom_desc \<or> ipa_dns_record_id row \<noteq> None))"

definition scope_pools :: "split_db \<Rightarrow> dhcp_scope \<Rightarrow> dhcp_pool list" where
  "scope_pools db sc = filter (\<lambda>p. pl_scope_id p = sc_id sc) (pools db)"

definition scope_statics :: "split_db \<Rightarrow> dhcp_scope \<Rightarrow> dhcp_static list" where
  "scope_statics db sc = filter (\<lambda>s. st_scope_id s = sc_id sc) (statics db)"

definition scope_empty :: "split_db \<Rightarrow> dhcp_scope \<Rightarrow> bool" where
  "scope_empty db sc \<longleftrightarrow> scope_pools db sc = [] \<and> scope_statics db sc = []"

definition fits :: "split_db \<Rightarrow> ipnet \<Rightarrow> dhcp_scope \<Rightarrow> bool" where
  "fits db c sc \<longleftrightarrow> list_all (\<lambda>p. contains c (start_ip p) \<and> contains c (end_ip p)) (scope_pools db sc) \<and>
     list_all (\<lambda>s. contains c (st_ip s)) (scope_statics db sc)"

section \<open>Preview\<close>

record split_child_preview =
  cp_net :: ipnet
  allocations_count :: nat
  placeholders_default_named :: nat
  placeholders_renamed :: nat
  cp_scope_id :: "uuid option"
  dhcp_pool_count :: nat
  dhcp_static_count :: nat
  dns_record_count :: nat

record subnet_split_preview =
  sp_parent_cidr :: string
  sp_new_prefix :: int
  sp_children :: "split_child_preview list"
  sp_conflicts :: "(string \<times> string) list"
  sp_warnings :: "string list"

fun bind_scopes :: "split_db \<Rightarrow> ipnet \<Rightarrow> ipnet \<Rightarrow> uuid option \<times> nat \<times> nat \<Rightarrow> dhcp_scope list \<Rightarrow>
    uuid option \<times> nat \<times> nat" where
  "bind_scopes db parent c acc [] = acc"
| "bind_scopes db parent c (bound, np, ns) (sc # scs) =
     (if scope_empty db sc then
        bind_scopes db parent c
          (if contains c (version parent, network_address parent) \<and> bound = None
           then (Some (sc_id sc), np, ns) else (bound, np, ns)) scs
      else if fits db c sc then
        bind_scopes db parent c ((if bound = None then Some (sc_id sc) else bound),
          np + length (scope_pools db sc), ns + length (scope_statics db sc)) scs
      else bind_scopes db parent c (bound, np, ns) scs)"

definition child_preview :: "split_db \<Rightarrow> ipnet \<Rightarrow> ip_address list \<Rightarrow> dhcp_scope list \<Rightarrow> ipnet \<Rightarrow>
    split_child_preview" where
  "child_preview db parent rows scs c =
     (let inside = filter (\<lambda>r. contains c (ipa_address r)) rows;
          marker = (\<lambda>r. ipa_status r \<in> {''network'', ''broadcast''});
          (bound, np, ns) = bind_scopes db parent c (None, 0, 0) scs in
      \<lparr>cp_net = c, allocations_count = length inside,
       placeholders_default_named = length (filter (\<lambda>r. marker r \<and> is_default_placeholder r) inside),
       placeholders_renamed = length (filter (\<lambda>r. marker r \<and> \<not> is_default_placeholder r) inside),
       cp_scope_id = bound, dhcp_pool_count = np, dhcp_static_count = ns,
       dns_record_count = length (filter (\<lambda>r. ipa_dns_record_id r \<noteq> None \<and> \<not> marker r) inside)\<rparr>)"

definition scope_conflicts :: "split_db \<Rightarrow> split_child_preview list \<Rightarrow> dhcp_scope list \<Rightarrow> (string \<times> string) list" where
  "scope_conflicts db previews scs = List.map_filter (\<lambda>sc.
     let matching = map (str_net \<circ> cp_net) (filter (\<lambda>p. cp_scope_id p = Some (sc_id sc)) previews) in
     if matching = [] \<and> \<not> scope_empty db sc
     then Some (''dhcp_scope_straddles_boundary'',
            ''DHCP scope '' @ sc_id sc @ '' has pool / static boundaries that cross a child subnet boundary. '' @
            ''Move the offending ranges onto one child first, or pick a different split prefix.'')
     else if 1 < length matching
     then Some (''dhcp_scope_ambiguous'',
            ''DHCP scope '' @ sc_id sc @ '' fits cleanly into multiple children ('' @ py_join '', '' matching @
            ''). This usually means the scope is empty - assign at least one pool to disambiguate, or '' @
            ''delete the scope before splitting.'')
     else None) scs"

text \<open>\<open>text.replace(old, new)\<close>.\<close>

fun py_replace :: "nat \<Rightarrow> string \<Rightarrow> string \<Rightarrow> string \<Rightarrow> string" where
  "py_replace skip old new [] = []"
| "py_replace (Suc k) old new (c # cs) = py_replace k old new cs"
| "py_replace 0 old new (c # cs) =
     (if py_startswith (c # cs) old then new @ py_replace (length old - 1) old new cs
      else c # py_replace 0 old new cs)"

definition NOT_CARRIED_PROVENANCE :: "string list" where
  "NOT_CARRIED_PROVENANCE = [''cloud_endpoint_id'', ''docker_host_id'', ''fortinet_firewall_id'',
     ''kubernetes_cluster_id'', ''meraki_org_id'', ''netbird_instance_id'', ''opnsense_router_id'',
     ''panos_firewall_id'', ''proxmox_node_id'', ''tailscale_tenant_id'', ''unifi_controller_id'', ''import_source'']"

definition provenance :: "subnet_row \<Rightarrow> bool" where
  "provenance s = list_ex (\<lambda>c. column s c \<notin> {PyNone, PyStr []}) NOT_CARRIED_PROVENANCE"

definition split_warnings :: "split_db \<Rightarrow> subnet_row \<Rightarrow> int \<Rightarrow> string list" where
  "split_warnings db s p =
     (let scs = filter (\<lambda>sc. sc_subnet_id sc = sn_id s) (scopes db);
          leases = length (filter (\<lambda>l. l \<in> sc_id ` set scs) (active_leases db));
          doms = length (filter (\<lambda>d. sd_subnet_id d = sn_id s) (domains db)) in
      [''Hosts move into children with a /'' @ int_str p @ '' netmask; every client on the parent must be '' @
         ''reconfigured with that netmask.''] @
      (if scs \<noteq> [] \<and> leases \<noteq> 0 then [nat_digits leases @ '' active DHCP lease(s) on the parent subnet'' @ squote @
         ''s scope(s) will be re-attributed to whichever child contains their lease IP.''] else []) @
      (if provenance s then [''The parent is owned by an integration or was imported; the children '' @
         ''are new rows and do not carry that ownership or import provenance.''] else []) @
      (if doms \<noteq> 0 then [nat_digits doms @ '' DNS zone binding(s) on the parent will be duplicated onto each '' @
         ''child. Each child keeps the same primary and additional zones.''] else []))"

definition preview_subnet_split :: "split_db \<Rightarrow> subnet_row \<Rightarrow> int \<Rightarrow> subnet_split_preview" where
  "preview_subnet_split db s p =
     (case ip_network (sn_network s) of
        None \<Rightarrow> \<lparr>sp_parent_cidr = [], sp_new_prefix = p, sp_children = [],
                 sp_conflicts = [(''validation'', ''Invalid CIDR for subnet'')], sp_warnings = []\<rparr>
      | Some parent \<Rightarrow>
        (case validate_split parent p of
           Inl e \<Rightarrow> \<lparr>sp_parent_cidr = str_net parent, sp_new_prefix = p, sp_children = [],
                    sp_conflicts = [(''validation'', se_message e)], sp_warnings = []\<rparr>
         | Inr _ \<Rightarrow>
           (let nets = split_children parent p;
                rows = filter (\<lambda>r. ipa_subnet_id r = sn_id s) (addrs db);
                scs = filter (\<lambda>sc. sc_subnet_id sc = sn_id s) (scopes db);
                previews = map (child_preview db parent rows scs) nets in
            \<lparr>sp_parent_cidr = str_net parent, sp_new_prefix = p, sp_children = previews,
             sp_conflicts = scope_conflicts db previews scs @
               map (\<lambda>d. (''host_on_child_boundary'', py_replace 0 '' first.'' '' before splitting.'' d))
                 (boundary_host_conflicts rows nets (sn_kind s) (boundary_addresses parent (sn_kind s))),
             sp_warnings = split_warnings db s p\<rparr>)))"

section \<open>Commit\<close>

definition child_total_ips :: "ipnet \<Rightarrow> int" where
  "child_total_ips c = (if version c = V6 then min (int (num_addresses c)) (2 ^ 63 - 1)
     else if 31 \<le> prefixlen c then int (num_addresses c) else int (num_addresses c) - 2)"

definition child_row :: "subnet_row \<Rightarrow> ipnet \<Rightarrow> uuid \<Rightarrow> ipnet \<Rightarrow> subnet_row" where
  "child_row s parent i c = \<lparr>sn_id = i, sn_block_id = sn_block_id s,
     sn_network = (version c, network_address c, prefixlen c),
     sn_name = [], sn_description = ''Split from '' @ str_net parent,
     sn_gateway = (case sn_gateway s of Some (txt, Some gw) \<Rightarrow>
        (if contains c gw then Some (txt, Some gw) else None) | _ \<Rightarrow> None),
     sn_total_ips = child_total_ips c, sn_allocated_ips = 0, sn_kind = sn_kind s, sn_columns = inherited s\<rparr>"

text \<open>The children, each network with its new row id.\<close>

definition first_child :: "(ipnet \<times> uuid) list \<Rightarrow> ip_addr \<Rightarrow> uuid option" where
  "first_child kids a = map_option snd (find (\<lambda>(c, _). contains c a) kids)"

definition move_address :: "uuid \<Rightarrow> ip_addr list \<Rightarrow> (ipnet \<times> uuid) list \<Rightarrow> ip_address \<Rightarrow> ip_address option" where
  "move_address sid boundary kids row =
     (if ipa_subnet_id row \<noteq> sid then Some row
      else if ipa_address row \<in> set boundary \<and> is_default_placeholder row then None
      else Some (case first_child kids (ipa_address row) of None \<Rightarrow> row
        | Some i \<Rightarrow> row\<lparr>ipa_subnet_id := i\<rparr>))"

definition scope_target :: "split_db \<Rightarrow> ipnet \<Rightarrow> (ipnet \<times> uuid) list \<Rightarrow> dhcp_scope \<Rightarrow> uuid option" where
  "scope_target db parent kids sc =
     (case find (\<lambda>(c, _). fits db c sc \<and> \<not> scope_empty db sc) kids of Some (_, i) \<Rightarrow> Some i
      | None \<Rightarrow> first_child kids (version parent, network_address parent))"

definition rebind_scope :: "split_db \<Rightarrow> uuid \<Rightarrow> ipnet \<Rightarrow> (ipnet \<times> uuid) list \<Rightarrow> dhcp_scope \<Rightarrow> dhcp_scope" where
  "rebind_scope db sid parent kids sc = (if sc_subnet_id sc \<noteq> sid then sc
     else case scope_target db parent kids sc of None \<Rightarrow> sc | Some i \<Rightarrow> sc\<lparr>sc_subnet_id := i\<rparr>)"

definition spread_domains :: "uuid \<Rightarrow> uuid list \<Rightarrow> subnet_domain list \<Rightarrow> subnet_domain list" where
  "spread_domains sid ids ds = filter (\<lambda>d. sd_subnet_id d \<noteq> sid) ds @
     concat (map (\<lambda>d. map (\<lambda>i. d\<lparr>sd_subnet_id := i\<rparr>) ids) (filter (\<lambda>d. sd_subnet_id d = sid) ds))"

text \<open>The servers of the affected groups that run an agent get the etag of their new bundle and one
  pending operation. \<open>etag\<close> is the bundle hash of \<open>build_config_bundle\<close>.\<close>

definition notified :: "uuid list \<Rightarrow> dhcp_server \<Rightarrow> bool" where
  "notified groups srv \<longleftrightarrow> srv_group_id srv \<in> Some ` set groups \<and> \<not> srv_agentless srv"

fun notify_servers :: "(split_db \<Rightarrow> dhcp_server \<Rightarrow> string) \<Rightarrow> string \<Rightarrow> dhcp_server list \<Rightarrow> split_db \<Rightarrow> split_db" where
  "notify_servers etag reason [] db = db"
| "notify_servers etag reason (srv # srvs) db =
     (let e = etag db srv;
          db1 = db\<lparr>servers := map (\<lambda>x. if srv_id x = srv_id srv then x\<lparr>config_etag := e\<rparr> else x) (servers db)\<rparr>;
          pending = list_ex (\<lambda>op. co_server_id op = srv_id srv \<and> co_op_type op = ''apply_config'' \<and>
             co_status op = ''pending'') (config_ops db1);
          db2 = (if pending then db1 else db1\<lparr>config_ops := config_ops db1 @
             [\<lparr>co_server_id = srv_id srv, co_op_type = ''apply_config'',
               co_payload = PyDict [(''etag'', PyStr e), (''reason'', PyStr reason)],
               co_status = ''pending''\<rparr>]\<rparr>)
      in notify_servers etag reason srvs db2)"

text \<open>\<open>session.delete(subnet)\<close>: every reference to a subnet row is declared \<open>ON DELETE CASCADE\<close>.\<close>

definition delete_subnet :: "uuid \<Rightarrow> split_db \<Rightarrow> split_db" where
  "delete_subnet sid db =
     (let gone = map sc_id (filter (\<lambda>sc. sc_subnet_id sc = sid) (scopes db)) in
      db\<lparr>subnets_tab := filter (\<lambda>x. sn_id x \<noteq> sid) (subnets_tab db),
         addrs := filter (\<lambda>r. ipa_subnet_id r \<noteq> sid) (addrs db),
         scopes := filter (\<lambda>sc. sc_subnet_id sc \<noteq> sid) (scopes db),
         pools := filter (\<lambda>p. pl_scope_id p \<notin> set gone) (pools db),
         statics := filter (\<lambda>p. st_scope_id p \<notin> set gone) (statics db),
         domains := filter (\<lambda>d. sd_subnet_id d \<noteq> sid) (domains db),
         address_sets := filter (\<lambda>a. fst a \<noteq> sid) (address_sets db)\<rparr>)"

definition update_utilization :: "uuid \<Rightarrow> split_db \<Rightarrow> split_db" where
  "update_utilization i db = db\<lparr>subnets_tab := map (\<lambda>x. if sn_id x = i
     then x\<lparr>sn_allocated_ips := allocated_count i (addrs db)\<rparr> else x) (subnets_tab db)\<rparr>"

record split_result =
  sr_parent_cidr :: string
  sr_children :: "uuid list"
  sr_summary :: "string list"

definition split_summary :: "ipnet \<Rightarrow> int \<Rightarrow> nat \<Rightarrow> nat \<Rightarrow> nat \<Rightarrow> nat \<Rightarrow> nat \<Rightarrow> string list" where
  "split_summary parent p kids moved created deleted srvs =
     [''Split '' @ str_net parent @ '' into '' @ nat_digits kids @ '' /'' @ int_str p @ '' child(ren)'',
      ''Migrated '' @ nat_digits moved @ '' IPAddress row(s) onto children'',
      ''Recreated '' @ nat_digits created @ '' default placeholder(s)''] @
     (if deleted \<noteq> 0 then [''Deleted '' @ nat_digits deleted @
        '' default-named parent boundary row(s) (recreated on children)''] else []) @
     (if srvs \<noteq> 0 then [''Notified '' @ nat_digits srvs @ '' DHCP server(s) to re-render config''] else [])"

text \<open>Steps 4 to 8: children, addresses, boundary rows, scopes, zone bindings.\<close>

definition build_children :: "uuid option \<Rightarrow> split_db \<Rightarrow> subnet_row \<Rightarrow> ipnet \<Rightarrow> (ipnet \<times> uuid) list \<Rightarrow> split_db" where
  "build_children creator db s parent kids =
     (let db1 = db\<lparr>subnets_tab := subnets_tab db @ map (\<lambda>(c, i). child_row s parent i c) kids,
            addrs := List.map_filter
              (move_address (sn_id s) (boundary_addresses parent (Some ''unicast'')) kids) (addrs db)\<rparr>;
          db2 = db1\<lparr>addrs := fold (\<lambda>(c, i) t. t @ ensure_boundary_rows i c creator (sn_kind s) t) kids (addrs db1)\<rparr>
      in db2\<lparr>scopes := map (rebind_scope db2 (sn_id s) parent kids) (scopes db2),
             domains := spread_domains (sn_id s) (map snd kids) (domains db2)\<rparr>)"

definition commit_subnet_split :: "(split_db \<Rightarrow> dhcp_server \<Rightarrow> string) \<Rightarrow> (nat \<Rightarrow> uuid) \<Rightarrow> bool \<Rightarrow> string \<Rightarrow>
    uuid option \<Rightarrow> split_db \<Rightarrow> subnet_row \<Rightarrow> int \<Rightarrow> split_error + split_result \<times> split_db" where
  "commit_subnet_split etag mint locked confirm creator db s p =
     (if \<not> locked
      then Inl (split_fail ''Another operation is already in progress for this subnet. Retry once it completes.'' 423)
      else case ip_network (sn_network s) of None \<Rightarrow> Inl (split_fail ''Invalid CIDR for subnet'' 422)
      | Some parent \<Rightarrow>
        (case validate_split parent p of Inl e \<Rightarrow> Inl e
         | Inr _ \<Rightarrow>
           (if confirm \<noteq> str_net parent
            then Inl (split_fail (''confirm_cidr '' @ quoted confirm @ '' does not match parent CIDR '' @
                   quoted (str_net parent) @ ''.'') 422)
            else let preview = preview_subnet_split db s p in
              if sp_conflicts preview \<noteq> []
              then Inl (split_fail (''Split blocked by conflicts: '' @
                     py_join ''; '' (map snd (sp_conflicts preview))) 409)
              else let nets = split_children parent p;
                  kids = zip nets (map mint [0 ..< length nets]);
                  db1 = build_children creator db s parent kids;
                  groups = map sc_group_id (filter (\<lambda>sc. sc_subnet_id sc = sn_id s \<and>
                     scope_target db parent kids sc \<noteq> None) (scopes db));
                  srvs = filter (notified groups) (servers db1);
                  db2 = notify_servers etag ''subnet_split'' srvs db1;
                  db3 = fold update_utilization (map snd kids) db2;
                  mine = filter (\<lambda>r. ipa_subnet_id r = sn_id s) (addrs db);
                  dropped = (\<lambda>r. ipa_address r \<in> set (boundary_addresses parent (Some ''unicast'')) \<and>
                     is_default_placeholder r);
                  moved = length (filter (\<lambda>r. \<not> dropped r \<and> first_child kids (ipa_address r) \<noteq> None) mine);
                  kept = length (filter (\<lambda>r. ipa_subnet_id r \<noteq> sn_id s \<or> \<not> dropped r) (addrs db))
                in Inr (\<lparr>sr_parent_cidr = str_net parent, sr_children = map snd kids,
                       sr_summary = split_summary parent p (length kids) moved
                         (length (addrs db1) - kept) (length (filter dropped mine)) (length srvs)\<rparr>,
                     delete_subnet (sn_id s) db3))))"

section \<open>The children\<close>

lemma find_map_upt:
  assumes "k < n" "P (h k)" "\<And>j. j < n \<Longrightarrow> P (h j) \<Longrightarrow> j = k"
  shows "find P (map h [0 ..< n]) = Some (h k)"
proof -
  have "[0 ..< n] = [0 ..< k] @ k # [Suc k ..< n]"
    using assms(1) upt_add_eq_append [of 0 k "n - k"] upt_conv_Cons [of k n] by simp
  moreover have "find P (map h [0 ..< k]) = None"
    using assms(1,3) by (auto simp: find_None_conv) (metis less_trans nat_less_le)
  moreover have "find P (xs @ y # ys) = Some y" if "find P xs = None" "P y" for xs y ys
    using that by (induction xs) (auto split: if_splits)
  ultimately show ?thesis using assms(2) by simp
qed

lemma valid_split:
  assumes "validate_split parent p = Inr x"
  shows "prefixlen parent < nat p" "nat p \<le> max_prefixlen (version parent)"
  using assms by (cases "version parent"; auto simp: validate_split_def split: if_splits)+

lemma split_children_eq:
  assumes "validate_split parent p = Inr x"
  shows "split_children parent p = map (child parent (nat p)) [0 ..< 2 ^ (nat p - prefixlen parent)]"
  using subnets_child [OF valid_split [OF assms]] by (simp add: split_children_def)

text \<open>The children with the row ids they get.\<close>

definition kids_of :: "ipnet \<Rightarrow> int \<Rightarrow> (nat \<Rightarrow> uuid) \<Rightarrow> (ipnet \<times> uuid) list" where
  "kids_of parent p mint = map (\<lambda>k. (child parent (nat p) k, mint k)) [0 ..< 2 ^ (nat p - prefixlen parent)]"

lemma kids_zip:
  assumes "validate_split parent p = Inr x"
  shows "zip (split_children parent p) (map mint [0 ..< length (split_children parent p)]) = kids_of parent p mint"
  unfolding split_children_eq [OF assms] kids_of_def by (simp add: zip_map_map zip_same_conv_map comp_def)

lemma first_child_kids:
  assumes "validate_split parent p = Inr x" "wf_net parent" "a \<in> addresses parent"
  obtains k where "k < 2 ^ (nat p - prefixlen parent)" "a \<in> addresses (child parent (nat p) k)"
    "first_child (kids_of parent p mint) a = Some (mint k)"
    "\<And>j. a \<in> addresses (child parent (nat p) j) \<Longrightarrow> j = k"
proof -
  note pl = less_imp_le [OF valid_split(1) [OF assms(1)]] valid_split(2) [OF assms(1)]
  note at = child_at [OF assms(2) pl assms(3)]
  let ?k = "(snd a - network_address parent) div num_addresses (parent\<lparr>prefixlen := nat p\<rparr>)"
  have c: "contains (child parent (nat p) j) a \<longleftrightarrow> a \<in> addresses (child parent (nat p) j)"
    if "j < 2 ^ (nat p - prefixlen parent)" for j
    using contains_iff child_in(1) [OF assms(2) pl that] by blast
  have "find (\<lambda>(c, _). contains c a) (kids_of parent p mint) = Some (child parent (nat p) ?k, mint ?k)"
    unfolding kids_of_def
  proof (rule find_map_upt)
    show "?k < 2 ^ (nat p - prefixlen parent)" by (rule at(1))
    then show "case (child parent (nat p) ?k, mint ?k) of (c, _) \<Rightarrow> contains c a" using c at(2) by simp
    show "j = ?k" if "j < 2 ^ (nat p - prefixlen parent)"
      "case (child parent (nat p) j, mint j) of (c, _) \<Rightarrow> contains c a" for j
      using at(3) [of j] c [OF that(1)] that(2) by simp
  qed
  then have "first_child (kids_of parent p mint) a = Some (mint ?k)" by (simp add: first_child_def)
  from that [OF at(1,2) this at(3)] show thesis by simp
qed

section \<open>What the commit does to the address rows\<close>

lemma notify_servers_keeps [simp]:
  "addrs (notify_servers etag reason srvs db) = addrs db" "scopes (notify_servers etag reason srvs db) = scopes db"
  "pools (notify_servers etag reason srvs db) = pools db" "statics (notify_servers etag reason srvs db) = statics db"
  "address_sets (notify_servers etag reason srvs db) = address_sets db"
  by (induction etag reason srvs db rule: notify_servers.induct) (simp_all add: Let_def)

lemma update_utilization_keeps [simp]:
  "addrs (fold update_utilization is db) = addrs db" "scopes (fold update_utilization is db) = scopes db"
  "pools (fold update_utilization is db) = pools db" "statics (fold update_utilization is db) = statics db"
  "address_sets (fold update_utilization is db) = address_sets db"
  by (induction "is" arbitrary: db) (simp_all add: update_utilization_def)

text \<open>A successful commit, by its parts.\<close>

lemma commit_splitD:
  assumes "commit_subnet_split etag mint locked confirm creator db s p = Inr (res, db')"
  obtains parent db1 srvs where "ip_network (sn_network s) = Some parent" "wf_net parent"
    "validate_split parent p = Inr ()" "sp_conflicts (preview_subnet_split db s p) = []"
    "db1 = build_children creator db s parent (kids_of parent p mint)"
    "db' = delete_subnet (sn_id s) (fold update_utilization (map snd (kids_of parent p mint)) (notify_servers etag ''subnet_split'' srvs db1))"
    "sr_children res = map mint [0 ..< 2 ^ (nat p - prefixlen parent)]"
proof -
  from assms obtain parent where parent: "ip_network (sn_network s) = Some parent" "validate_split parent p = Inr ()"
    by (auto simp: commit_subnet_split_def split: if_splits option.splits sum.splits)
  have "wf_net parent" using parent(1) ip_network_wf by (metis prod_cases3)
  moreover have "length (split_children parent p) = 2 ^ (nat p - prefixlen parent)"
    "map snd (kids_of parent p mint) = map mint [0 ..< 2 ^ (nat p - prefixlen parent)]"
    by (simp_all add: split_children_eq [OF parent(2)] kids_of_def comp_def)
  ultimately show thesis using that [OF parent(1) _ parent(2)] assms parent kids_zip [OF parent(2), of mint]
    by (auto simp: commit_subnet_split_def Let_def split: if_splits)
qed

lemma fold_ensure_mono: "set t \<subseteq> set (fold (\<lambda>(c, i) t. t @ ensure_boundary_rows i c creator kind t) kids t)"
proof (induction kids arbitrary: t)
  case (Cons ck kids)
  then show ?case by (cases ck) (metis (no_types, lifting) Un_subset_iff case_prod_conv fold_simps(2) set_append)
qed simp

lemma ensure_boundary_rows_all:
  assumes "a \<in> set (boundary_addresses c kind)"
  shows "\<exists>r \<in> set (t @ ensure_boundary_rows i c creator kind t). ipa_subnet_id r = i \<and> ipa_address r = a"
proof -
  obtain st d where b: "(a, st, d) \<in> set (boundary_rows c kind)" using assms by (auto simp: boundary_addresses_def)
  show ?thesis
  proof (cases "a \<in> set (map ipa_address (filter (\<lambda>r. ipa_subnet_id r = i) t))")
    case False
    then have "(a, st, d) \<in> set (filter (\<lambda>(a, _). a \<notin> set (map ipa_address (filter (\<lambda>r. ipa_subnet_id r = i) t)))
      (boundary_rows c kind))" using b by auto
    then show ?thesis unfolding ensure_boundary_rows_def Let_def by force
  qed auto
qed

lemma fold_ensure_all:
  "(c, i) \<in> set kids \<Longrightarrow> a \<in> set (boundary_addresses c kind) \<Longrightarrow>
   \<exists>r \<in> set (fold (\<lambda>(c, i) t. t @ ensure_boundary_rows i c creator kind t) kids t). ipa_subnet_id r = i \<and> ipa_address r = a"
proof (induction kids arbitrary: t)
  case (Cons ck kids)
  show ?case
  proof (cases "ck = (c, i)")
    case True
    then show ?thesis using ensure_boundary_rows_all [OF Cons.prems(2), of t i creator]
        fold_ensure_mono [of "t @ ensure_boundary_rows i c creator kind t" creator kind kids] by auto
  next
    case False
    then show ?thesis using Cons by (cases ck) auto
  qed
qed simp

lemma set_map_filter: "set (List.map_filter f xs) = {y. \<exists>x \<in> set xs. f x = Some y}"
  by (induction xs) (auto split: option.splits)

text \<open>The row ids of the children are new.\<close>

definition fresh_ids :: "(nat \<Rightarrow> uuid) \<Rightarrow> uuid \<Rightarrow> bool" where
  "fresh_ids mint sid \<longleftrightarrow> inj mint \<and> sid \<notin> range mint"

lemma split_addrs:
  assumes "commit_subnet_split etag mint locked confirm creator db s p = Inr (res, db')"
    "ip_network (sn_network s) = Some parent"
  shows "addrs db' = filter (\<lambda>r. ipa_subnet_id r \<noteq> sn_id s)
    (fold (\<lambda>(c, i) t. t @ ensure_boundary_rows i c creator (sn_kind s) t) (kids_of parent p mint)
      (List.map_filter (move_address (sn_id s) (boundary_addresses parent (Some ''unicast'')) (kids_of parent p mint))
        (addrs db)))"
  by (rule commit_splitD [OF assms(1)]) (use assms(2) in \<open>auto simp: delete_subnet_def build_children_def Let_def\<close>)

lemma split_keeps:
  assumes "commit_subnet_split etag mint locked confirm creator db s p = Inr (res, db')"
    "ip_network (sn_network s) = Some parent" "r \<in> set (addrs db)"
    "move_address (sn_id s) (boundary_addresses parent (Some ''unicast'')) (kids_of parent p mint) r = Some r'"
    "ipa_subnet_id r' \<noteq> sn_id s"
  shows "r' \<in> set (addrs db')"
  unfolding split_addrs [OF assms(1,2)] using assms(3-5) fold_ensure_mono by (fastforce simp: set_map_filter)

text \<open>C13: A split loses no address. Its children divide the parent: every address of the parent lies in
  exactly one child. After the commit each address row of the parent sits, otherwise unchanged, on the
  child that contains it, unless it was the parent's own default network or broadcast row; every child
  has a row for each of its own boundary addresses; rows of other subnets are untouched and nothing is
  left on the parent.\<close>

theorem split_keeps_every_address:
  assumes "commit_subnet_split etag mint locked confirm creator db s p = Inr (res, db')"
    "ip_network (sn_network s) = Some parent" "fresh_ids mint (sn_id s)"
  shows "sr_children res = map mint [0 ..< 2 ^ (nat p - prefixlen parent)] \<and>
    (\<forall>a \<in> addresses parent. \<exists>!k. k < 2 ^ (nat p - prefixlen parent) \<and> a \<in> addresses (child parent (nat p) k)) \<and>
    (\<forall>r \<in> set (addrs db). ipa_subnet_id r = sn_id s \<and> ipa_address r \<in> addresses parent \<longrightarrow>
       is_default_placeholder r \<and> ipa_address r \<in> set (boundary_addresses parent (Some ''unicast'')) \<or>
       (\<exists>k < 2 ^ (nat p - prefixlen parent). ipa_address r \<in> addresses (child parent (nat p) k) \<and>
          r\<lparr>ipa_subnet_id := mint k\<rparr> \<in> set (addrs db'))) \<and>
    (\<forall>k < 2 ^ (nat p - prefixlen parent). \<forall>a \<in> set (boundary_addresses (child parent (nat p) k) (sn_kind s)).
       \<exists>r \<in> set (addrs db'). ipa_subnet_id r = mint k \<and> ipa_address r = a) \<and>
    (\<forall>r \<in> set (addrs db). ipa_subnet_id r \<noteq> sn_id s \<longrightarrow> r \<in> set (addrs db')) \<and>
    (\<forall>r \<in> set (addrs db'). ipa_subnet_id r \<noteq> sn_id s)"
proof -
  let ?n = "2 ^ (nat p - prefixlen parent) :: nat" and ?kids = "kids_of parent p mint"
  have com: "wf_net parent" "validate_split parent p = Inr ()" "sr_children res = map mint [0 ..< ?n]"
    by (rule commit_splitD [OF assms(1)]; use assms(2) in simp)+
  have fresh: "mint k \<noteq> sn_id s" for k using assms(3) by (metis fresh_ids_def range_eqI)
  note keeps = split_keeps [OF assms(1,2)]
  have "\<exists>!k. k < ?n \<and> a \<in> addresses (child parent (nat p) k)" if "a \<in> addresses parent" for a
    by (rule first_child_kids [OF com(2,1) that, of mint]) blast
  moreover have "is_default_placeholder r \<and> ipa_address r \<in> set (boundary_addresses parent (Some ''unicast'')) \<or>
     (\<exists>k < ?n. ipa_address r \<in> addresses (child parent (nat p) k) \<and> r\<lparr>ipa_subnet_id := mint k\<rparr> \<in> set (addrs db'))"
    if r: "r \<in> set (addrs db)" "ipa_subnet_id r = sn_id s" "ipa_address r \<in> addresses parent" for r
  proof (cases "ipa_address r \<in> set (boundary_addresses parent (Some ''unicast'')) \<and> is_default_placeholder r")
    case False
    obtain k where k: "k < ?n" "ipa_address r \<in> addresses (child parent (nat p) k)"
      "first_child ?kids (ipa_address r) = Some (mint k)" by (rule first_child_kids [OF com(2,1) r(3)])
    have "r\<lparr>ipa_subnet_id := mint k\<rparr> \<in> set (addrs db')"
      by (rule keeps [OF r(1)]) (use False k r(2) fresh in \<open>simp_all add: move_address_def\<close>)
    then show ?thesis using k by blast
  qed auto
  moreover have "\<exists>r \<in> set (addrs db'). ipa_subnet_id r = mint k \<and> ipa_address r = a"
    if "k < ?n" "a \<in> set (boundary_addresses (child parent (nat p) k) (sn_kind s))" for k a
  proof -
    have "(child parent (nat p) k, mint k) \<in> set ?kids" using that(1) by (auto simp: kids_of_def)
    from fold_ensure_all [OF this that(2)] show ?thesis unfolding split_addrs [OF assms(1,2)]
      using fresh [of k] by fastforce
  qed
  moreover have "r \<in> set (addrs db')" if "r \<in> set (addrs db)" "ipa_subnet_id r \<noteq> sn_id s" for r
    by (rule keeps [OF that(1) _ that(2)]) (use that(2) in \<open>simp add: move_address_def\<close>)
  moreover have "\<forall>r \<in> set (addrs db'). ipa_subnet_id r \<noteq> sn_id s" by (simp add: split_addrs [OF assms(1,2)])
  ultimately show ?thesis using com(3) by blast
qed

text \<open>A /29 with its boundary rows, one host and one DHCP scope.\<close>

definition row_at :: "nat \<Rightarrow> string \<Rightarrow> string \<Rightarrow> ip_address" where
  "row_at a st d = \<lparr>ipa_subnet_id = ''s'', ipa_address = (V4, a), ipa_status = st, ipa_hostname = None,
     ipa_description = d, ipa_dns_record_id = None, ipa_created_by = None\<rparr>"

definition wide_subnet :: subnet_row where
  "wide_subnet = \<lparr>sn_id = ''s'', sn_block_id = None, sn_network = (V4, 0, 29), sn_name = [], sn_description = [],
     sn_gateway = None, sn_total_ips = 6, sn_allocated_ips = 1, sn_kind = Some ''unicast'', sn_columns = []\<rparr>"

definition wide_db :: split_db where
  "wide_db = \<lparr>subnets_tab = [wide_subnet],
     addrs = [row_at 0 ''network'' ''Network address'', row_at 6 ''allocated'' [], row_at 7 ''broadcast'' ''Broadcast address''],
     scopes = [\<lparr>sc_id = ''d1'', sc_subnet_id = ''s'', sc_group_id = ''g''\<rparr>],
     pools = [\<lparr>pl_scope_id = ''d1'', start_ip = (V4, 5), end_ip = (V4, 6)\<rparr>], statics = [], active_leases = [],
     domains = [], address_sets = [(''s'', ''printers'')],
     servers = [\<lparr>srv_id = ''v'', srv_group_id = Some ''g'', srv_agentless = False, config_etag = []\<rparr>], config_ops = []\<rparr>"

definition kid_id :: "nat \<Rightarrow> uuid" where "kid_id k = replicate (Suc k) (CHR ''k'')"

lemma kid_id_fresh: "fresh_ids kid_id ''s''"
proof -
  have "inj kid_id"
  proof (rule injI)
    fix i j assume "kid_id i = kid_id j"
    then have "length (kid_id i) = length (kid_id j)" by simp
    then show "i = j" by (simp add: kid_id_def)
  qed
  then show ?thesis by (auto simp: fresh_ids_def kid_id_def)
qed

definition wide_commit :: "split_error + split_result \<times> split_db" where
  "wide_commit = commit_subnet_split (\<lambda>_ _. ''e'') kid_id True ''0.0.0.0/29'' None wide_db wide_subnet 30"

lemma wide_split_ok: "case wide_commit of Inl _ \<Rightarrow> False | Inr _ \<Rightarrow> True"
  by code_simp

lemma wide_split_Inr:
  obtains res db' where "wide_commit = Inr (res, db')"
    "commit_subnet_split (\<lambda>_ _. ''e'') kid_id True ''0.0.0.0/29'' None wide_db wide_subnet 30 = Inr (res, db')"
  using wide_split_ok by (cases wide_commit) (auto simp: wide_commit_def)

definition wide_net :: ipnet where "wide_net = \<lparr>version = V4, network_address = 0, prefixlen = 29\<rparr>"

lemma wide_net_of: "ip_network (sn_network wide_subnet) = Some wide_net" "sn_id wide_subnet = ''s''"
  by (simp_all add: wide_subnet_def wide_net_def)

theorem split_keeps_every_address_witness:
  "\<exists>res db'. wide_commit = Inr (res, db') \<and> (\<exists>k < 2. (row_at 6 ''allocated'' [])\<lparr>ipa_subnet_id := kid_id k\<rparr> \<in> set (addrs db'))"
proof -
  obtain res db' where w: "wide_commit = Inr (res, db')"
    and c: "commit_subnet_split (\<lambda>_ _. ''e'') kid_id True ''0.0.0.0/29'' None wide_db wide_subnet 30 = Inr (res, db')"
    by (rule wide_split_Inr)
  have f: "fresh_ids kid_id (sn_id wide_subnet)" unfolding wide_net_of by (rule kid_id_fresh)
  have r: "row_at 6 ''allocated'' [] \<in> set (addrs wide_db)" "ipa_subnet_id (row_at 6 ''allocated'' []) = sn_id wide_subnet"
    "ipa_address (row_at 6 ''allocated'' []) \<in> addresses wide_net" "\<not> is_default_placeholder (row_at 6 ''allocated'' [])"
    by (simp_all add: wide_db_def row_at_def wide_subnet_def addresses_def wide_net_def num_addresses_def is_default_placeholder_def)
  have "(2::nat) ^ (nat 30 - prefixlen wide_net) = 2" by (simp add: wide_net_def)
  then have "\<exists>k < 2. (row_at 6 ''allocated'' [])\<lparr>ipa_subnet_id := kid_id k\<rparr> \<in> set (addrs db')"
    using split_keeps_every_address [OF c wide_net_of(1) f] r by fastforce
  then show ?thesis using w by blast
qed

section \<open>What the commit does to the DHCP scopes\<close>

lemma bind_scopes_fits:
  "bind_scopes db parent c (b, np, ns) scs = (Some i, np', ns') \<Longrightarrow>
   b = Some i \<or> (\<exists>sc \<in> set scs. sc_id sc = i \<and> (scope_empty db sc \<or> fits db c sc))"
proof (induction scs arbitrary: b np ns)
  case (Cons sc scs)
  then show ?case by (fastforce split: if_splits)
qed simp

lemma no_scope_conflict:
  assumes "scope_conflicts db (map (child_preview db parent rows scs) nets) scs = []" "sc \<in> set scs"
    "\<not> scope_empty db sc" "distinct (map sc_id scs)"
  shows "\<exists>c \<in> set nets. fits db c sc"
proof -
  have "filter (\<lambda>p. cp_scope_id p = Some (sc_id sc)) (map (child_preview db parent rows scs) nets) \<noteq> []"
  proof
    assume e: "filter (\<lambda>p. cp_scope_id p = Some (sc_id sc)) (map (child_preview db parent rows scs) nets) = []"
    have "\<forall>x. x \<notin> set (scope_conflicts db (map (child_preview db parent rows scs) nets) scs)" using assms(1) by simp
    then show False using assms(2,3) e unfolding scope_conflicts_def set_map_filter by (fastforce simp: Let_def)
  qed
  then obtain c where c: "c \<in> set nets" "cp_scope_id (child_preview db parent rows scs c) = Some (sc_id sc)"
    by (auto simp: filter_empty_conv)
  then obtain np ns where "bind_scopes db parent c (None, 0, 0) scs = (Some (sc_id sc), np, ns)"
    by (cases "bind_scopes db parent c (None, 0, 0) scs") (auto simp: child_preview_def Let_def)
  from bind_scopes_fits [OF this] obtain x where "x \<in> set scs" "sc_id x = sc_id sc" "scope_empty db x \<or> fits db c x" by auto
  moreover from this have "x = sc" using assms(2,4) by (auto simp: distinct_map inj_on_def)
  ultimately show ?thesis using assms(3) c(1) by blast
qed

lemma scope_target_fits:
  assumes "validate_split parent p = Inr ()" "wf_net parent"
    "scope_empty db sc \<or> (\<exists>c \<in> set (split_children parent p). fits db c sc)"
  shows "\<exists>k < 2 ^ (nat p - prefixlen parent). scope_target db parent (kids_of parent p mint) sc = Some (mint k) \<and>
    fits db (child parent (nat p) k) sc"
proof (cases "scope_empty db sc")
  case True
  then have "fits db c sc" for c by (simp add: scope_empty_def fits_def)
  moreover obtain k where "k < 2 ^ (nat p - prefixlen parent)"
    "first_child (kids_of parent p mint) (version parent, network_address parent) = Some (mint k)"
    by (rule first_child_kids [OF assms(1,2) broadcast_in(2)])
  moreover have "find (\<lambda>(c, _). fits db c sc \<and> \<not> scope_empty db sc) (kids_of parent p mint) = None"
    using True by (simp add: find_None_conv case_prod_beta')
  ultimately show ?thesis by (auto simp: scope_target_def)
next
  case False
  then obtain k0 where "k0 < 2 ^ (nat p - prefixlen parent)" "fits db (child parent (nat p) k0) sc"
    using assms(3) by (auto simp: split_children_eq [OF assms(1)])
  then have "find (\<lambda>(c, _). fits db c sc \<and> \<not> scope_empty db sc) (kids_of parent p mint) \<noteq> None"
    using False by (auto simp: find_None_conv kids_of_def)
  then obtain ci where "find (\<lambda>(c, _). fits db c sc \<and> \<not> scope_empty db sc) (kids_of parent p mint) = Some ci" by auto
  from find_SomeD [OF this] this show ?thesis by (auto simp: scope_target_def kids_of_def)
qed

lemma scope_facts_cong:
  "pools db' = pools db \<Longrightarrow> statics db' = statics db \<Longrightarrow> rebind_scope db' = rebind_scope db"
  by (simp add: fun_eq_iff rebind_scope_def fits_def scope_empty_def scope_target_def scope_pools_def scope_statics_def)

text \<open>A split leaves no DHCP range outside its subnet. After the commit every scope of the parent is
  attached to a child that contains every address of its pools and reservations, and no pool or
  reservation was lost.\<close>

theorem split_keeps_scopes_inside:
  assumes "commit_subnet_split etag mint locked confirm creator db s p = Inr (res, db')"
    "ip_network (sn_network s) = Some parent" "fresh_ids mint (sn_id s)" "distinct (map sc_id (scopes db))"
  shows "(\<forall>sc \<in> set (scopes db). sc_subnet_id sc = sn_id s \<longrightarrow>
      (\<exists>k < 2 ^ (nat p - prefixlen parent). sc\<lparr>sc_subnet_id := mint k\<rparr> \<in> set (scopes db') \<and>
         fits db (child parent (nat p) k) sc)) \<and>
    pools db' = pools db \<and> statics db' = statics db"
proof -
  let ?kids = "kids_of parent p mint" and ?scs = "filter (\<lambda>sc. sc_subnet_id sc = sn_id s) (scopes db)"
  obtain srvs where com: "wf_net parent" "validate_split parent p = Inr ()"
    "sp_conflicts (preview_subnet_split db s p) = []"
    "db' = delete_subnet (sn_id s) (fold update_utilization (map snd ?kids) (notify_servers etag ''subnet_split'' srvs
       (build_children creator db s parent ?kids)))"
    by (rule commit_splitD [OF assms(1)]) (use assms(2) in simp)
  let ?db1 = "build_children creator db s parent ?kids"
  have sc1: "scopes ?db1 = map (rebind_scope db (sn_id s) parent ?kids) (scopes db)"
    "pools ?db1 = pools db" "statics ?db1 = statics db"
    unfolding build_children_def Let_def by (subst scope_facts_cong [of _ db]; simp) simp_all
  have target: "\<exists>k < 2 ^ (nat p - prefixlen parent). scope_target db parent ?kids sc = Some (mint k) \<and>
      fits db (child parent (nat p) k) sc" if "sc \<in> set ?scs" for sc
  proof (rule scope_target_fits [OF com(2,1)])
    have "scope_conflicts db (map (child_preview db parent (filter (\<lambda>r. ipa_subnet_id r = sn_id s) (addrs db)) ?scs)
        (split_children parent p)) ?scs = []"
      using com(2,3) assms(2) by (simp add: preview_subnet_split_def Let_def)
    then show "scope_empty db sc \<or> (\<exists>c \<in> set (split_children parent p). fits db c sc)"
      using no_scope_conflict that assms(4) by (blast intro: distinct_map_filter)
  qed
  have fresh: "mint k \<noteq> sn_id s" for k using assms(3) by (metis fresh_ids_def range_eqI)
  have moved: "sc_subnet_id (rebind_scope db (sn_id s) parent ?kids sc) \<noteq> sn_id s" if "sc \<in> set (scopes db)" for sc
    using target [of sc] that fresh by (auto simp: rebind_scope_def)
  then have gone: "filter (\<lambda>sc. sc_subnet_id sc = sn_id s) (scopes ?db1) = []" by (auto simp: sc1 filter_empty_conv)
  have "\<exists>k < 2 ^ (nat p - prefixlen parent). sc\<lparr>sc_subnet_id := mint k\<rparr> \<in> set (scopes db') \<and>
      fits db (child parent (nat p) k) sc" if sc: "sc \<in> set (scopes db)" "sc_subnet_id sc = sn_id s" for sc
  proof -
    obtain k where k: "k < 2 ^ (nat p - prefixlen parent)" "scope_target db parent ?kids sc = Some (mint k)"
      "fits db (child parent (nat p) k) sc" using target [of sc] sc by auto
    then have "sc\<lparr>sc_subnet_id := mint k\<rparr> = rebind_scope db (sn_id s) parent ?kids sc"
      using sc(2) by (simp add: rebind_scope_def)
    then have "sc\<lparr>sc_subnet_id := mint k\<rparr> \<in> set (scopes db')"
      using sc(1) moved [OF sc(1)] by (auto simp: com(4) delete_subnet_def Let_def sc1)
    then show ?thesis using k by blast
  qed
  then show ?thesis using gone by (auto simp: com(4) delete_subnet_def Let_def sc1)
qed

theorem split_keeps_scopes_inside_witness:
  "\<exists>res db'. wide_commit = Inr (res, db') \<and> pools db' = pools wide_db \<and>
     (\<exists>k < 2. \<lparr>sc_id = ''d1'', sc_subnet_id = kid_id k, sc_group_id = ''g''\<rparr> \<in> set (scopes db'))"
proof -
  obtain res db' where w: "wide_commit = Inr (res, db')"
    and c: "commit_subnet_split (\<lambda>_ _. ''e'') kid_id True ''0.0.0.0/29'' None wide_db wide_subnet 30 = Inr (res, db')"
    by (rule wide_split_Inr)
  have f: "fresh_ids kid_id (sn_id wide_subnet)" unfolding wide_net_of by (rule kid_id_fresh)
  have d: "distinct (map sc_id (scopes wide_db))"
    and sc: "\<lparr>sc_id = ''d1'', sc_subnet_id = ''s'', sc_group_id = ''g''\<rparr> \<in> set (scopes wide_db)" by (simp_all add: wide_db_def)
  have "(2::nat) ^ (nat 30 - prefixlen wide_net) = 2" by (simp add: wide_net_def)
  then have "pools db' = pools wide_db"
    "\<exists>k < 2. \<lparr>sc_id = ''d1'', sc_subnet_id = kid_id k, sc_group_id = ''g''\<rparr> \<in> set (scopes db')"
    using split_keeps_scopes_inside [OF c wide_net_of(1) f d] sc by (fastforce simp: wide_net_of)+
  then show ?thesis using w by blast
qed

section \<open>What a split gets wrong\<close>

text \<open>The parent goes with everything that still refers to it: its address sets, which no step moves, and
  an address row that lies outside the parent's network. The comments in the code expect the delete to
  be refused instead.\<close>

definition stray_db :: split_db where
  "stray_db = wide_db\<lparr>addrs := addrs wide_db @ [row_at 99 ''allocated'' []]\<rparr>"

theorem split_deletes_what_it_does_not_move:
  "case commit_subnet_split (\<lambda>_ _. ''e'') kid_id True ''0.0.0.0/29'' None stray_db wide_subnet 30 of
     Inl _ \<Rightarrow> False
   | Inr (_, db') \<Rightarrow> (V4, 99) \<notin> set (map ipa_address (addrs db')) \<and> address_sets db' = []"
  by code_simp

text \<open>Two scopes whose ranges both lie in the second child: the preview refuses the split and says that the
  second one crosses a child boundary.\<close>

definition two_scopes_db :: split_db where
  "two_scopes_db = wide_db\<lparr>scopes := scopes wide_db @ [\<lparr>sc_id = ''d2'', sc_subnet_id = ''s'', sc_group_id = ''h''\<rparr>],
     pools := pools wide_db @ [\<lparr>pl_scope_id = ''d2'', start_ip = (V4, 5), end_ip = (V4, 6)\<rparr>]\<rparr>"

theorem split_refuses_two_fitting_scopes:
  "fits two_scopes_db \<lparr>version = V4, network_address = 4, prefixlen = 30\<rparr> \<lparr>sc_id = ''d2'', sc_subnet_id = ''s'', sc_group_id = ''h''\<rparr> \<and>
   map fst (sp_conflicts (preview_subnet_split two_scopes_db wide_subnet 30)) = [''dhcp_scope_straddles_boundary'']"
  by code_simp

end
