(* ===== verification/Subnet_Merge.thy ===== *)
theory Subnet_Merge
  imports Collapse Subnet_Split "HOL-Library.Multiset"
begin

text \<open>
  Merging sibling subnets (\<^verbatim>\<open>services/ipam/subnet_merge.py\<close>): the preview with its conflicts and the commit
  that builds the merged row, moves the address rows, rebinds the scope, joins the zone bindings,
  recreates the boundary rows and deletes the sources, with the merge half of \<^verbatim>\<open>subnet_carry.py\<close>.
  The supernet is computed in \<open>Collapse\<close>. Uses the tables and helpers of \<open>Subnet_Split\<close>.
\<close>

section \<open>Carried columns\<close>

definition HARD_MERGE_COLUMNS :: "string list" where
  "HARD_MERGE_COLUMNS = [''kind'', ''customer_id'', ''site_id'']"

definition TARGET_WINS_COLUMNS :: "string list" where
  "TARGET_WINS_COLUMNS = [''tags'', ''custom_fields'', ''vxlan_id'', ''domain_name'', ''dns_servers'', ''dns_group_ids'',
     ''dns_additional_zone_ids'', ''ipv6_allocation_policy'']"

definition UNORDERED_LIST_COLUMNS :: "string list" where
  "UNORDERED_LIST_COLUMNS = [''dns_group_ids'', ''dns_additional_zone_ids'']"

definition SHOWN_VALUE_MAX :: nat where "SHOWN_VALUE_MAX = 120"

text \<open>\<open>repr(v)\<close>; strings without quotes or escapes in them.\<close>

fun py_repr :: "pyval \<Rightarrow> string" where
  "py_repr PyNone = ''None''"
| "py_repr (PyBool b) = (if b then ''True'' else ''False'')"
| "py_repr (PyInt i) = int_str i"
| "py_repr (PyFloat t) = t"
| "py_repr (PyStr s) = quoted s"
| "py_repr (PyList vs) = ''['' @ py_join '', '' (map py_repr vs) @ '']''"
| "py_repr (PyDict kvs) = ''{'' @ py_join '', '' (map (\<lambda>(k, v). quoted k @ '': '' @ py_repr v) kvs) @ ''}''"
| "py_repr (PyOther s) = s"

definition str_of :: "pyval \<Rightarrow> string" where
  "str_of v = (case v of PyStr s \<Rightarrow> s | _ \<Rightarrow> py_repr v)"

definition comparable :: "string \<Rightarrow> pyval \<Rightarrow> pyval" where
  "comparable c v = (if \<not> truthy v then PyNone
     else case v of PyList vs \<Rightarrow> (if c \<in> set UNORDERED_LIST_COLUMNS then PyList (map PyStr (sort (map str_of vs))) else v)
     | _ \<Rightarrow> v)"

text \<open>Python compares dicts without regard to order.\<close>

fun py_norm :: "pyval \<Rightarrow> pyval" where
  "py_norm (PyList vs) = PyList (map py_norm vs)"
| "py_norm (PyDict kvs) = PyDict (sort_key fst (map (\<lambda>(k, v). (k, py_norm v)) kvs))"
| "py_norm v = v"

definition shown :: "string \<Rightarrow> pyval \<Rightarrow> string" where
  "shown c v = (let t = py_repr (case comparable c v of PyDict kvs \<Rightarrow> PyDict (sort_key fst kvs) | w \<Rightarrow> w) in
     if SHOWN_VALUE_MAX < length t then take (SHOWN_VALUE_MAX - 3) t @ ''...'' else t)"

definition merged_reason :: "subnet_row list \<Rightarrow> string" where
  "merged_reason sources = py_join ''; '' (rev (remdups (rev (filter (\<lambda>r. r \<noteq> [])
     (map (\<lambda>s. let v = column s ''do_not_probe_reason'' in if truthy v then py_strip (str_of v) else []) sources)))))"

definition merged_carried :: "subnet_row list \<Rightarrow> subnet_row \<Rightarrow> (string \<times> pyval) list" where
  "merged_carried sources target = map (\<lambda>c. (c, column target c)) CARRIED_COLUMNS @
     map (\<lambda>c. (c, PyBool (list_ex (\<lambda>s. truthy (column s c)) sources))) UNION_FLAGS @
     [(''do_not_probe_reason'', PyStr (merged_reason sources))]"

text \<open>\<open>sorted({repr(...)})\<close>.\<close>

definition reprs :: "(subnet_row \<Rightarrow> string) \<Rightarrow> subnet_row list \<Rightarrow> string list" where
  "reprs f sources = sort (remdups (map f sources))"

definition merge_conflicts_and_warnings :: "subnet_row list \<Rightarrow> (string \<times> string) list \<times> string list" where
  "merge_conflicts_and_warnings sources =
     (let target = hd sources; vals = (\<lambda>c. reprs (\<lambda>s. py_repr (column s c)) sources) in
      (List.map_filter (\<lambda>c. if 1 < length (vals c)
         then Some (c, ''Sources disagree on '' @ c @ '': '' @ py_join '', '' (vals c) @
                ''. Bring them into agreement before merging.'') else None) HARD_MERGE_COLUMNS,
       List.map_filter (\<lambda>c. let bs = map (\<lambda>s. truthy (column s c)) sources in
         if list_ex id bs \<and> \<not> list_all id bs
         then Some (''Sources disagree on '' @ c @ ''; the merged subnet will have '' @ c @
                '' = true because at least one source does.'') else None) UNION_FLAGS @
       List.map_filter (\<lambda>c. if 1 < length (vals c)
         then Some (''Sources disagree on '' @ c @ '': '' @ py_join '', '' (vals c) @
                ''. The merged subnet takes the target'' @ squote @ ''s value ('' @ py_repr (column target c) @ '').'')
         else None) (filter (\<lambda>c. c \<notin> set HARD_MERGE_COLUMNS) CARRIED_COLUMNS) @
       List.map_filter (\<lambda>c. if list_all (\<lambda>s. py_norm (comparable c (column s c)) = py_norm (comparable c (column target c))) sources then None
         else Some (''Sources disagree on '' @ c @ '': '' @ py_join '', '' (reprs (\<lambda>s. shown c (column s c)) sources) @
                ''. The merged subnet takes the target'' @ squote @ ''s value ('' @ shown c (column target c) @
                ''); the other sources'' @ squote @ '' values are not kept.'')) TARGET_WINS_COLUMNS @
       (if list_ex provenance sources
        then [''At least one source is owned by an integration or was imported; the merged subnet is a new row and '' @
          ''does not carry that ownership or import provenance.''] else [])))"

section \<open>Checks\<close>

definition is_default_gateway_row :: "ip_address \<Rightarrow> bool" where
  "is_default_gateway_row r \<longleftrightarrow> ipa_status r = ''reserved'' \<and> ipa_hostname r = Some ''gateway'' \<and>
     ipa_description r = ''Gateway'' \<and> ipa_dns_record_id r = None"

text \<open>The sources' gateways in order, each address with the first source that has it.\<close>

fun source_gateways :: "(ip_addr \<times> subnet_row) list \<Rightarrow> subnet_row list \<Rightarrow> (ip_addr \<times> subnet_row) list" where
  "source_gateways acc [] = acc"
| "source_gateways acc (s # ss) =
     (case sn_gateway s of Some (t, Some gw) \<Rightarrow>
        (if t = [] \<or> map_of acc gw \<noteq> None then source_gateways acc ss else source_gateways (acc @ [(gw, s)]) ss)
      | _ \<Rightarrow> source_gateways acc ss)"

definition retired_gateway :: "ip_address list \<Rightarrow> ip_addr \<Rightarrow> ip_addr \<times> subnet_row \<Rightarrow> bool" where
  "retired_gateway rows create_gw g =
     (let (gw, src) = g in gw \<noteq> create_gw \<and>
      (case (ip_network (sn_network src), find (\<lambda>r. ipa_address r = gw) (rev rows)) of
         (Some net, Some row) \<Rightarrow> ipa_subnet_id row = sn_id src \<and> gw = (version net, network_address net + 1) \<and>
           is_default_gateway_row row
       | _ \<Rightarrow> False))"

definition gateway_plan :: "subnet_row list \<Rightarrow> ipnet \<Rightarrow> ip_address list \<Rightarrow> ip_addr option \<times> ip_addr list" where
  "gateway_plan sources merged rows =
     (let gateways = source_gateways [] sources;
          in_merged = filter (contains merged) (map fst gateways);
          create_gw = (version merged, network_address merged + 1) in
      if length gateways = 1 then ((case in_merged of [] \<Rightarrow> None | g # _ \<Rightarrow> Some g), [])
      else if gateways = [] \<or> \<not> has_boundary_rows merged (sn_kind (hd sources)) then (None, [])
      else if create_gw \<notin> set in_merged then (None, [])
      else (Some create_gw, map fst (filter (retired_gateway rows create_gw) gateways)))"

fun load_siblings :: "split_db \<Rightarrow> uuid list \<Rightarrow> uuid list \<Rightarrow> split_error + subnet_row list" where
  "load_siblings db seen [] = Inr []"
| "load_siblings db seen (i # is) =
     (if i \<in> set seen then load_siblings db seen is
      else case find (\<lambda>s. sn_id s = i) (subnets_tab db) of
        None \<Rightarrow> Inl (split_fail (''Sibling subnet '' @ i @ '' not found'') 404)
      | Some s \<Rightarrow> (case load_siblings db (i # seen) is of Inl e \<Rightarrow> Inl e | Inr ss \<Rightarrow> Inr (s # ss)))"

definition load_sources :: "split_db \<Rightarrow> subnet_row \<Rightarrow> uuid list \<Rightarrow> split_error + subnet_row list" where
  "load_sources db target ids = (case load_siblings db [sn_id target] ids of Inl e \<Rightarrow> Inl e | Inr ss \<Rightarrow> Inr (target # ss))"

definition METADATA_FIELDS :: "(string \<times> string) list" where
  "METADATA_FIELDS = [(''vlan_id'', ''vlan_id''), (''vlan_ref_id'', ''vlan_ref_id''), (''dns_zone_id'', ''primary DNS zone''),
     (''dhcp_server_group_id'', ''DHCP server group''), (''ddns_enabled'', ''ddns_enabled''),
     (''ddns_hostname_policy'', ''ddns_hostname_policy''), (''ddns_domain_override'', ''ddns_domain_override''),
     (''ddns_ttl'', ''ddns_ttl''), (''ddns_inherit_settings'', ''ddns_inherit_settings''),
     (''dns_inherit_settings'', ''dns_inherit_settings''), (''dhcp_inherit_settings'', ''dhcp_inherit_settings''),
     (''status'', ''status''), (''router_zone_id'', ''router zone'')]"

definition check_metadata_compat :: "subnet_row list \<Rightarrow> (string \<times> string) list" where
  "check_metadata_compat sources = (if length sources < 2 then []
     else List.map_filter (\<lambda>(f, label).
       if list_all (\<lambda>s. column s f = column (hd sources) f) sources then None
       else Some (''metadata_mismatch:'' @ f, ''Sources disagree on '' @ label @ '': '' @
          py_join '', '' (reprs (\<lambda>s. py_repr (column s f)) sources) @
          ''. Bring them into agreement before merging or pick a different source set.'')) METADATA_FIELDS)"

text \<open>The loop over the sources' networks: the conflicts, whether a mix of families stopped it, and the
  networks parsed. PostgreSQL stores no network the constructor refuses.\<close>

fun parse_sources :: "ip_version option \<Rightarrow> subnet_row list \<Rightarrow> (string \<times> string) list \<times> bool \<times> ipnet list" where
  "parse_sources fam [] = ([], False, [])"
| "parse_sources fam (s # ss) =
     (case ip_network (sn_network s) of
        None \<Rightarrow> (let (cs, mix, nets) = parse_sources fam ss in ((''bad_cidr'', ''invalid network'') # cs, mix, nets))
      | Some net \<Rightarrow>
        (if fam \<noteq> None \<and> fam \<noteq> Some (version net)
         then ([(''family_mismatch'', ''Sources mix IPv4 and IPv6. Merge requires a single family.'')], True, [])
         else let (cs, mix, nets) = parse_sources (Some (version net)) ss in (cs, mix, net # nets)))"

section \<open>Preview\<close>

record subnet_merge_preview =
  mp_merged :: "ipnet option"
  mp_sources :: "(uuid \<times> cidr_column) list"
  mp_scope_id :: "uuid option"
  mp_conflicts :: "(string \<times> string) list"
  mp_warnings :: "string list"

definition source_list :: "subnet_row list \<Rightarrow> (uuid \<times> cidr_column) list" where
  "source_list ss = map (\<lambda>s. (sn_id s, sn_network s)) ss"

definition rows_of :: "split_db \<Rightarrow> subnet_row list \<Rightarrow> ip_address list" where
  "rows_of db sources = filter (\<lambda>r. ipa_subnet_id r \<in> sn_id ` set sources) (addrs db)"

definition scopes_of :: "split_db \<Rightarrow> subnet_row list \<Rightarrow> dhcp_scope list" where
  "scopes_of db sources = filter (\<lambda>sc. sc_subnet_id sc \<in> sn_id ` set sources) (scopes db)"

definition merge_boundary_conflicts :: "split_db \<Rightarrow> subnet_row list \<Rightarrow> ipnet \<Rightarrow> (string \<times> string) list" where
  "merge_boundary_conflicts db sources merged =
     (let already = concat (List.map_filter (\<lambda>s. map_option (\<lambda>n. boundary_addresses n (sn_kind s))
            (ip_network (sn_network s))) sources) in
      map (\<lambda>d. (''host_on_merged_boundary'', py_replace 0 '' first.'' '' before merging.'' d))
        (boundary_host_conflicts (rows_of db sources) [merged] (sn_kind (hd sources)) already))"

definition gateway_warnings :: "split_db \<Rightarrow> subnet_row list \<Rightarrow> ipnet \<Rightarrow> string list" where
  "gateway_warnings db sources merged =
     (let (surviving, retired) = gateway_plan sources merged (rows_of db sources);
          texts = remdups (filter (\<lambda>t. t \<noteq> []) (List.map_filter (\<lambda>s. map_option fst (sn_gateway s)) sources)) in
      if length texts \<le> 1 then []
      else case surviving of
        None \<Rightarrow> [''Sources have different gateways; the merged subnet'' @ squote @ ''s gateway is left empty and every '' @
          ''gateway row is kept. Set it after the merge.'']
      | Some g \<Rightarrow> [''Sources have different gateways; the merged subnet'' @ squote @ ''s gateway is '' @ str_ip g @
          '', where a subnet created at '' @ str_net merged @ '' gets it. '' @
          (if retired \<noteq> [] then ''The default Gateway row(s) at '' @ py_join '', '' (sort (map str_ip retired)) @ '' are retired.''
           else ''The other sources'' @ squote @ '' gateway rows were edited and are kept.'')])"

definition preview_subnet_merge :: "split_db \<Rightarrow> subnet_row \<Rightarrow> uuid list \<Rightarrow> subnet_merge_preview" where
  "preview_subnet_merge db target ids =
     (case load_sources db target ids of
        Inl e \<Rightarrow> \<lparr>mp_merged = None, mp_sources = source_list [target], mp_scope_id = None,
                 mp_conflicts = [(''not_found'', se_message e)], mp_warnings = []\<rparr>
      | Inr sources \<Rightarrow>
        (if length sources < 2
         then \<lparr>mp_merged = None, mp_sources = source_list sources, mp_scope_id = None,
               mp_conflicts = [(''too_few_subnets'', ''Merge requires at least one sibling besides the target.'')],
               mp_warnings = []\<rparr>
         else let (parse_conflicts, mix, parsed) = parse_sources None sources;
                merged = (if mix \<or> parsed = [] then None else summarise_or_none parsed);
                (carry_conflicts, carry_warnings) = merge_conflicts_and_warnings sources;
                scs = scopes_of db sources;
                doms = length (filter (\<lambda>d. sd_subnet_id d \<in> sn_id ` set sources) (domains db)) in
           \<lparr>mp_merged = merged, mp_sources = source_list sources,
            mp_scope_id = (case scs of [sc] \<Rightarrow> Some (sc_id sc) | _ \<Rightarrow> None),
            mp_conflicts =
              (if list_all (\<lambda>s. sn_block_id s = sn_block_id target) sources then []
               else [(''block_mismatch'', ''All sources must share the same parent IP block. Move them under a common parent first.'')]) @
              parse_conflicts @
              (if \<not> mix \<and> parsed \<noteq> [] \<and> merged = None
               then [(''non_contiguous'', ''Sources do not summarise to a single supernet. They must be contiguous and aligned '' @
                 ''(e.g. two adjacent /25s combine into a /24).'')] else []) @
              check_metadata_compat sources @
              map (\<lambda>(c, d). (''metadata_mismatch:'' @ c, d)) carry_conflicts @
              (case merged of None \<Rightarrow> [] | Some m \<Rightarrow> merge_boundary_conflicts db sources m) @
              (if 1 < length scs
               then [(''multiple_dhcp_scopes'', nat_digits (length scs) @ '' DHCP scope(s) found across the source subnets. '' @
                 ''Merge supports at most one scope per merge set in V1 - delete or relocate the others first.'')] else []),
            mp_warnings = carry_warnings @
              (case merged of None \<Rightarrow> [] | Some m \<Rightarrow> gateway_warnings db sources m) @
              (if scs \<noteq> [] then [''DHCP scope will be re-bound to the merged subnet. Pools and static assignments stay where '' @
                 ''they are.''] else []) @
              (if doms \<noteq> 0 then [nat_digits doms @ '' DNS zone binding(s) on source subnets will be deduplicated and '' @
                 ''re-attached to the merged subnet.''] else [])\<rparr>))"

section \<open>Commit\<close>

definition merged_row :: "uuid \<Rightarrow> subnet_row list \<Rightarrow> ipnet \<Rightarrow> ip_addr option \<Rightarrow> subnet_row" where
  "merged_row i sources merged gateway =
     (let target = hd sources in
      \<lparr>sn_id = i, sn_block_id = sn_block_id target, sn_network = (version merged, network_address merged, prefixlen merged),
       sn_name = sn_name target,
       sn_description = (if sn_description target \<noteq> [] then sn_description target
          else ''Merged from '' @ nat_digits (length sources) @ '' subnets''),
       sn_gateway = map_option (\<lambda>g. (str_ip g, Some g)) gateway, sn_total_ips = child_total_ips merged, sn_allocated_ips = 0,
       sn_kind = sn_kind target,
       sn_columns = map (\<lambda>c. (c, column target c)) INHERITED_COLUMNS @
         [(''custom_fields'', or_dict (column target ''custom_fields'')), (''tags'', or_dict (column target ''tags''))] @
         merged_carried sources target\<rparr>)"

definition source_boundary :: "subnet_row list \<Rightarrow> ip_addr list" where
  "source_boundary sources = concat (List.map_filter (\<lambda>s. map_option (\<lambda>n. (version n, network_address n) #
     boundary_addresses n (Some ''unicast'')) (ip_network (sn_network s))) sources)"

definition dropped_row :: "ip_addr list \<Rightarrow> ip_addr list \<Rightarrow> ip_address \<Rightarrow> bool" where
  "dropped_row boundary retired r \<longleftrightarrow> ipa_address r \<in> set boundary \<and> is_default_placeholder r \<or>
     ipa_address r \<in> set retired \<and> is_default_gateway_row r"

definition merge_address :: "uuid list \<Rightarrow> ip_addr list \<Rightarrow> ip_addr list \<Rightarrow> uuid \<Rightarrow> ip_address \<Rightarrow> ip_address option" where
  "merge_address ids boundary retired i r =
     (if ipa_subnet_id r \<notin> set ids then Some r
      else if dropped_row boundary retired r then None else Some (r\<lparr>ipa_subnet_id := i\<rparr>))"

definition merge_domains :: "uuid list \<Rightarrow> uuid \<Rightarrow> subnet_domain list \<Rightarrow> subnet_domain list" where
  "merge_domains ids i ds =
     (let mine = filter (\<lambda>d. sd_subnet_id d \<in> set ids) ds; zones = rev (remdups (rev (map sd_zone_id mine))) in
      filter (\<lambda>d. sd_subnet_id d \<notin> set ids) ds @
      map (\<lambda>z. \<lparr>sd_subnet_id = i, sd_zone_id = z,
         sd_is_primary = list_ex (\<lambda>d. sd_zone_id d = z \<and> sd_is_primary d) mine\<rparr>) zones)"

definition merge_summary :: "nat \<Rightarrow> ipnet \<Rightarrow> nat \<Rightarrow> nat \<Rightarrow> nat \<Rightarrow> nat \<Rightarrow> bool \<Rightarrow> nat \<Rightarrow> string list" where
  "merge_summary n merged moved created deleted retired rebound srvs =
     [''Merged '' @ nat_digits n @ '' source subnets -> '' @ str_net merged,
      ''Migrated '' @ nat_digits moved @ '' IPAddress row(s) onto merged subnet'',
      ''Recreated '' @ nat_digits created @ '' boundary placeholder(s)''] @
     (if deleted \<noteq> 0 then [''Deleted '' @ nat_digits deleted @ '' default-named source-boundary row(s)''] else []) @
     (if retired \<noteq> 0 then [''Retired '' @ nat_digits retired @ '' default Gateway row(s) of other sources''] else []) @
     (if rebound then [''Re-bound 1 DHCP scope to the merged subnet''] else []) @
     (if srvs \<noteq> 0 then [''Notified '' @ nat_digits srvs @ '' DHCP server(s) to re-render config''] else [])"

record merge_result =
  mr_subnet_id :: uuid
  mr_deleted :: "uuid list"
  mr_summary :: "string list"

text \<open>The merged row, the addresses, the scope, the zone bindings and the boundary rows.\<close>

definition build_merged :: "uuid option \<Rightarrow> split_db \<Rightarrow> subnet_row list \<Rightarrow> ipnet \<Rightarrow> uuid option \<Rightarrow> uuid \<Rightarrow> split_db" where
  "build_merged creator db sources merged scope i =
     (let ids = map sn_id sources;
          (gateway, retired) = gateway_plan sources merged (rows_of db sources);
          moved = List.map_filter (merge_address ids (source_boundary sources) retired i) (addrs db) in
      db\<lparr>subnets_tab := subnets_tab db @ [merged_row i sources merged gateway],
         addrs := moved @ ensure_boundary_rows i merged creator (sn_kind (hd sources)) moved,
         scopes := map (\<lambda>sc. if scope = Some (sc_id sc) then sc\<lparr>sc_subnet_id := i\<rparr> else sc) (scopes db),
         domains := merge_domains ids i (domains db)\<rparr>)"

definition commit_subnet_merge :: "(split_db \<Rightarrow> dhcp_server \<Rightarrow> string) \<Rightarrow> uuid \<Rightarrow> bool \<Rightarrow> string \<Rightarrow> uuid option \<Rightarrow>
    split_db \<Rightarrow> subnet_row \<Rightarrow> uuid list \<Rightarrow> split_error + merge_result \<times> split_db" where
  "commit_subnet_merge etag i locked confirm creator db target sibling_ids =
     (if \<not> locked
      then Inl (split_fail ''Another operation is already in progress for this subnet. Retry once it completes.'' 423)
      else let preview = preview_subnet_merge db target sibling_ids in
        case (mp_conflicts preview, mp_merged preview) of
          ([], Some merged) \<Rightarrow>
            (if confirm \<noteq> str_net merged
             then Inl (split_fail (''confirm_cidr '' @ quoted confirm @ '' does not match computed merged CIDR '' @
                    quoted (str_net merged) @ ''.'') 422)
             else case load_sources db target sibling_ids of Inl e \<Rightarrow> Inl e
             | Inr sources \<Rightarrow>
               (let ids = map sn_id sources; scope = mp_scope_id preview;
                    retired = snd (gateway_plan sources merged (rows_of db sources));
                    boundary = source_boundary sources;
                    db1 = build_merged creator db sources merged scope i;
                    groups = map sc_group_id (filter (\<lambda>sc. scope = Some (sc_id sc)) (scopes db));
                    srvs = filter (notified groups) (servers db1);
                    db2 = notify_servers etag ''subnet_merge'' srvs db1;
                    db3 = fold delete_subnet ids db2;
                    mine = rows_of db sources;
                    deleted = length (filter (\<lambda>r. ipa_address r \<in> set boundary \<and> is_default_placeholder r) mine);
                    moved = length (filter (\<lambda>r. \<not> dropped_row boundary retired r) mine)
                in Inr (\<lparr>mr_subnet_id = i, mr_deleted = ids,
                       mr_summary = merge_summary (length sources) merged moved
                         (length (addrs db1) - (length (addrs db) - length (filter (dropped_row boundary retired) mine)))
                         deleted (length mine - moved - deleted) (groups \<noteq> []) (length srvs)\<rparr>,
                     update_utilization i db3)))
        | (conflicts, _) \<Rightarrow> Inl (split_fail (''Merge blocked'' @
            (if conflicts \<noteq> [] then '': '' @ py_join ''; '' (map snd conflicts) else [])) 409))"

section \<open>A successful merge, by its parts\<close>

lemma ip_network_of_wf: "wf_net m \<Longrightarrow> ip_network (version m, network_address m, prefixlen m) = Some m"
  by (auto simp: wf_net_def num_addresses_def)

lemma parse_sources_ok:
  assumes "parse_sources fam ss = ([], False, nets)"
  shows "map (\<lambda>s. ip_network (sn_network s)) ss = map Some nets" "\<exists>v. good v nets \<and> (\<forall>f. fam = Some f \<longrightarrow> v = f)"
proof -
  have "map (\<lambda>s. ip_network (sn_network s)) ss = map Some nets \<and> (\<exists>v. good v nets \<and> (\<forall>f. fam = Some f \<longrightarrow> v = f))"
    using assms
  proof (induction fam ss arbitrary: nets rule: parse_sources.induct)
    case (1 fam)
    then show ?case by (cases fam) auto
  next
    case (2 fam s ss)
    then obtain net nets' where n: "ip_network (sn_network s) = Some net" "fam = None \<or> fam = Some (version net)"
      "parse_sources (Some (version net)) ss = ([], False, nets')" "nets = net # nets'"
      by (auto split: option.splits if_splits prod.splits)
    have "wf_net net" using n(1) ip_network_wf by (metis prod_cases3)
    moreover have "map (\<lambda>s. ip_network (sn_network s)) ss = map Some nets' \<and> (\<exists>v. good v nets' \<and> (\<forall>f. Some (version net) = Some f \<longrightarrow> v = f))"
      using "2.IH"(2) [OF n(1) _ n(3)] n(2) by auto
    ultimately show ?case using n by auto
  qed
  then show "map (\<lambda>s. ip_network (sn_network s)) ss = map Some nets" "\<exists>v. good v nets \<and> (\<forall>f. fam = Some f \<longrightarrow> v = f)" by simp_all
qed

text \<open>A preview without conflicts.\<close>

lemma preview_mergeD:
  assumes "mp_conflicts (preview_subnet_merge db target ids) = []" "mp_merged (preview_subnet_merge db target ids) = Some m"
    "load_sources db target ids = Inr sources"
  obtains nets where "map (\<lambda>s. ip_network (sn_network s)) sources = map Some nets" "apart nets" "covered nets = addresses m" "wf_net m"
    "length (scopes_of db sources) \<le> 1"
    "mp_scope_id (preview_subnet_merge db target ids) = (case scopes_of db sources of [sc] \<Rightarrow> Some (sc_id sc) | _ \<Rightarrow> None)"
proof -
  obtain cs mix nets where p: "parse_sources None sources = (cs, mix, nets)" by (cases "parse_sources None sources")
  obtain cc cw where c: "merge_conflicts_and_warnings sources = (cc, cw)" by (cases "merge_conflicts_and_warnings sources")
  have long: "\<not> length sources < 2"
    using assms by (auto simp: preview_subnet_merge_def)
  have facts: "cs = []" "\<not> mix" "summarise_or_none nets = Some m" "\<not> 1 < length (scopes_of db sources)"
    "mp_scope_id (preview_subnet_merge db target ids) = (case scopes_of db sources of [sc] \<Rightarrow> Some (sc_id sc) | _ \<Rightarrow> None)"
    using assms long p c by (auto simp: preview_subnet_merge_def Let_def split: if_splits)
  obtain v where v: "good v nets" using parse_sources_ok(2) [of None sources nets] p facts(1,2) by auto
  have "map (\<lambda>s. ip_network (sn_network s)) sources = map Some nets" using parse_sources_ok(1) [of None sources nets] p facts(1,2) by auto
  then show thesis using that summarise_iff [OF v, of m] facts(3-5) by auto
qed

lemma commit_mergeD:
  assumes "commit_subnet_merge etag i locked confirm creator db target ids = Inr (res, db')"
    "load_sources db target ids = Inr sources"
  obtains m srvs where "mp_conflicts (preview_subnet_merge db target ids) = []"
    "mp_merged (preview_subnet_merge db target ids) = Some m"
    "db' = update_utilization i (fold delete_subnet (map sn_id sources) (notify_servers etag ''subnet_merge'' srvs
       (build_merged creator db sources m (mp_scope_id (preview_subnet_merge db target ids)) i)))"
  using assms by (auto simp: commit_subnet_merge_def Let_def split: if_splits list.splits option.splits)

section \<open>The tables after the merge\<close>

lemma fold_delete_subnet:
  "addrs (fold delete_subnet ids db) = filter (\<lambda>r. ipa_subnet_id r \<notin> set ids) (addrs db)"
  "scopes (fold delete_subnet ids db) = filter (\<lambda>sc. sc_subnet_id sc \<notin> set ids) (scopes db)"
  "subnets_tab (fold delete_subnet ids db) = filter (\<lambda>s. sn_id s \<notin> set ids) (subnets_tab db)"
  by (induction ids arbitrary: db) (auto simp: delete_subnet_def Let_def conj_commute intro!: filter_cong)

lemma fold_delete_no_scopes:
  "\<forall>sc \<in> set (scopes db). sc_subnet_id sc \<notin> set ids \<Longrightarrow>
     pools (fold delete_subnet ids db) = pools db \<and> statics (fold delete_subnet ids db) = statics db"
proof (induction ids arbitrary: db)
  case (Cons j ids)
  have "filter (\<lambda>sc. sc_subnet_id sc = j) (scopes db) = []" using Cons.prems by (auto simp: filter_empty_conv)
  then have "pools (delete_subnet j db) = pools db" "statics (delete_subnet j db) = statics db"
    "scopes (delete_subnet j db) = filter (\<lambda>sc. sc_subnet_id sc \<noteq> j) (scopes db)"
    by (simp_all add: delete_subnet_def)
  then show ?case using Cons.IH [of "delete_subnet j db"] Cons.prems by auto
qed simp

lemma notify_servers_subnets [simp]: "subnets_tab (notify_servers etag reason srvs db) = subnets_tab db"
  by (induction etag reason srvs db rule: notify_servers.induct) (simp_all add: Let_def)

lemma update_utilization_one:
  "addrs (update_utilization j db) = addrs db" "scopes (update_utilization j db) = scopes db"
  "pools (update_utilization j db) = pools db" "statics (update_utilization j db) = statics db"
  by (simp_all add: update_utilization_def)

text \<open>The one scope of the sources, if there is one, is the scope that is rebound.\<close>

lemma scope_rebound:
  assumes "distinct (map sc_id (scopes db))" "length (scopes_of db sources) \<le> 1" "sc \<in> set (scopes db)"
  shows "(case scopes_of db sources of [x] \<Rightarrow> Some (sc_id x) | _ \<Rightarrow> None) = Some (sc_id sc) \<longleftrightarrow>
    sc_subnet_id sc \<in> sn_id ` set sources"
proof -
  have inj: "x \<in> set (scopes db) \<Longrightarrow> sc_id x = sc_id sc \<Longrightarrow> x = sc" for x
    using assms(1,3) by (metis distinct_map inj_on_eq_iff)
  have mem: "x \<in> set (scopes_of db sources) \<longleftrightarrow> x \<in> set (scopes db) \<and> sc_subnet_id x \<in> sn_id ` set sources" for x
    by (auto simp: scopes_of_def)
  show ?thesis
  proof (cases "scopes_of db sources")
    case Nil
    then show ?thesis using mem [of sc] assms(3) by simp
  next
    case (Cons x xs)
    then have "scopes_of db sources = [x]" using assms(2) by simp
    then show ?thesis using mem [of x] mem [of sc] inj [of x] assms(3) by auto
  qed
qed

text \<open>The tables of the merge, one by one.\<close>

lemma merge_tables:
  assumes "db' = update_utilization i (fold delete_subnet (map sn_id sources) (notify_servers etag reason srvs
      (build_merged creator db sources m scope i)))" "i \<notin> sn_id ` set sources"
  shows "addrs db' = filter (\<lambda>r. ipa_subnet_id r \<notin> sn_id ` set sources)
      (let t = List.map_filter (merge_address (map sn_id sources) (source_boundary sources)
         (snd (gateway_plan sources m (rows_of db sources))) i) (addrs db)
       in t @ ensure_boundary_rows i m creator (sn_kind (hd sources)) t)"
    "scopes db' = filter (\<lambda>sc. sc_subnet_id sc \<notin> sn_id ` set sources)
      (map (\<lambda>sc. if scope = Some (sc_id sc) then sc\<lparr>sc_subnet_id := i\<rparr> else sc) (scopes db))"
    "\<exists>row \<in> set (subnets_tab db'). sn_id row = i \<and> sn_network row = (version m, network_address m, prefixlen m)"
proof -
  obtain gw ret where g: "gateway_plan sources m (rows_of db sources) = (gw, ret)" by fastforce
  let ?d = "fold delete_subnet (map sn_id sources) (notify_servers etag reason srvs
      (build_merged creator db sources m scope i))"
  show "addrs db' = filter (\<lambda>r. ipa_subnet_id r \<notin> sn_id ` set sources)
      (let t = List.map_filter (merge_address (map sn_id sources) (source_boundary sources)
         (snd (gateway_plan sources m (rows_of db sources))) i) (addrs db)
       in t @ ensure_boundary_rows i m creator (sn_kind (hd sources)) t)"
    by (simp add: assms(1) update_utilization_one fold_delete_subnet build_merged_def Let_def g)
  show "scopes db' = filter (\<lambda>sc. sc_subnet_id sc \<notin> sn_id ` set sources)
      (map (\<lambda>sc. if scope = Some (sc_id sc) then sc\<lparr>sc_subnet_id := i\<rparr> else sc) (scopes db))"
    by (simp add: assms(1) update_utilization_one fold_delete_subnet build_merged_def Let_def g)
  have row: "sn_id (merged_row i sources m gw) = i"
    "sn_network (merged_row i sources m gw) = (version m, network_address m, prefixlen m)"
    by (simp_all add: merged_row_def Let_def)
  then have "merged_row i sources m gw \<in> set (subnets_tab ?d)"
    using assms(2) by (simp add: fold_delete_subnet build_merged_def Let_def g)
  then have "(merged_row i sources m gw)\<lparr>sn_allocated_ips := allocated_count i (addrs ?d)\<rparr> \<in> set (subnets_tab db')"
    using row(1) by (force simp: assms(1) update_utilization_def)
  moreover have "sn_id ((merged_row i sources m gw)\<lparr>sn_allocated_ips := allocated_count i (addrs ?d)\<rparr>) = i"
    "sn_network ((merged_row i sources m gw)\<lparr>sn_allocated_ips := allocated_count i (addrs ?d)\<rparr>) =
       (version m, network_address m, prefixlen m)"
    using row by simp_all
  ultimately show "\<exists>row \<in> set (subnets_tab db'). sn_id row = i \<and> sn_network row = (version m, network_address m, prefixlen m)"
    by blast
qed

lemma merge_pools:
  assumes "db' = update_utilization i (fold delete_subnet (map sn_id sources) (notify_servers etag reason srvs
      (build_merged creator db sources m scope i)))" "i \<notin> sn_id ` set sources"
    "\<forall>sc \<in> set (scopes db). scope = Some (sc_id sc) \<longleftrightarrow> sc_subnet_id sc \<in> sn_id ` set sources"
  shows "pools db' = pools db \<and> statics db' = statics db"
proof -
  obtain gw ret where g: "gateway_plan sources m (rows_of db sources) = (gw, ret)" by fastforce
  let ?d = "notify_servers etag reason srvs (build_merged creator db sources m scope i)"
  have "\<forall>sc \<in> set (scopes ?d). sc_subnet_id sc \<notin> set (map sn_id sources)"
    using assms(2,3) by (auto simp: build_merged_def Let_def g)
  moreover have "pools ?d = pools db" "statics ?d = statics db" by (simp_all add: build_merged_def Let_def g)
  ultimately show ?thesis using fold_delete_no_scopes [of ?d "map sn_id sources"]
    by (simp add: assms(1) update_utilization_one)
qed

section \<open>A merge loses nothing\<close>

text \<open>C17: A merge loses no address, scope, pool or static assignment. The sources are pairwise disjoint and
  together cover exactly the merged network, which is the network of the new row. After the commit every
  address row of a source is on the merged subnet, otherwise unchanged, unless it was a source's untouched
  default boundary row or a retired default gateway row; the merged subnet has a row for each of its own
  boundary addresses; rows of other subnets are untouched and nothing is left on a source. The one scope
  of the sources, if there is one, is on the merged subnet, every other scope is where it was, and pools
  and static assignments are as before.\<close>

theorem merge_keeps_every_address:
  assumes "commit_subnet_merge etag i locked confirm creator db target ids = Inr (res, db')"
    "load_sources db target ids = Inr sources" "i \<notin> sn_id ` set sources" "distinct (map sc_id (scopes db))"
  shows "\<exists>merged nets. map (\<lambda>s. ip_network (sn_network s)) sources = map Some nets \<and>
    apart nets \<and> covered nets = addresses merged \<and>
    (\<exists>row \<in> set (subnets_tab db'). sn_id row = i \<and> ip_network (sn_network row) = Some merged) \<and>
    (\<forall>r \<in> set (addrs db). ipa_subnet_id r \<in> sn_id ` set sources \<longrightarrow>
       dropped_row (source_boundary sources) (snd (gateway_plan sources merged (rows_of db sources))) r \<or>
       r\<lparr>ipa_subnet_id := i\<rparr> \<in> set (addrs db')) \<and>
    (\<forall>a \<in> set (boundary_addresses merged (sn_kind target)).
       \<exists>r \<in> set (addrs db'). ipa_subnet_id r = i \<and> ipa_address r = a) \<and>
    (\<forall>r \<in> set (addrs db). ipa_subnet_id r \<notin> sn_id ` set sources \<longrightarrow> r \<in> set (addrs db')) \<and>
    (\<forall>r \<in> set (addrs db'). ipa_subnet_id r \<notin> sn_id ` set sources) \<and>
    scopes db' = map (\<lambda>sc. if sc_subnet_id sc \<in> sn_id ` set sources then sc\<lparr>sc_subnet_id := i\<rparr> else sc) (scopes db) \<and>
    pools db' = pools db \<and> statics db' = statics db"
proof -
  let ?S = "sn_id ` set sources" and ?scope = "mp_scope_id (preview_subnet_merge db target ids)"
  obtain m srvs where c: "mp_conflicts (preview_subnet_merge db target ids) = []"
    "mp_merged (preview_subnet_merge db target ids) = Some m"
    "db' = update_utilization i (fold delete_subnet (map sn_id sources) (notify_servers etag ''subnet_merge'' srvs
       (build_merged creator db sources m ?scope i)))" by (rule commit_mergeD [OF assms(1,2)])
  obtain nets where n: "map (\<lambda>s. ip_network (sn_network s)) sources = map Some nets" "apart nets"
    "covered nets = addresses m" "wf_net m" "length (scopes_of db sources) \<le> 1"
    "?scope = (case scopes_of db sources of [sc] \<Rightarrow> Some (sc_id sc) | _ \<Rightarrow> None)"
    by (rule preview_mergeD [OF c(1,2) assms(2)])
  have sc: "\<forall>sc \<in> set (scopes db). ?scope = Some (sc_id sc) \<longleftrightarrow> sc_subnet_id sc \<in> ?S"
    using scope_rebound [OF assms(4) n(5)] n(6) by simp
  note tab = merge_tables [OF c(3) assms(3)]
  have target: "hd sources = target" using assms(2) by (auto simp: load_sources_def split: sum.splits)
  let ?ret = "snd (gateway_plan sources m (rows_of db sources))"
  let ?t = "List.map_filter (merge_address (map sn_id sources) (source_boundary sources) ?ret i) (addrs db)"
  have kept: "r' \<in> set (addrs db')" if "r \<in> set (addrs db)"
    "merge_address (map sn_id sources) (source_boundary sources) ?ret i r = Some r'" "ipa_subnet_id r' \<notin> ?S" for r r'
    unfolding tab(1) Let_def using that by (auto simp: set_map_filter)
  have "\<forall>a \<in> set (boundary_addresses m (sn_kind target)). \<exists>r \<in> set (addrs db'). ipa_subnet_id r = i \<and> ipa_address r = a"
    using ensure_boundary_rows_all [of _ m "sn_kind target" ?t i creator] assms(3) unfolding tab(1) Let_def target by fastforce
  moreover have "dropped_row (source_boundary sources) ?ret r \<or> r\<lparr>ipa_subnet_id := i\<rparr> \<in> set (addrs db')"
    if "r \<in> set (addrs db)" "ipa_subnet_id r \<in> ?S" for r
  proof (cases "dropped_row (source_boundary sources) ?ret r")
    case False
    then have "merge_address (map sn_id sources) (source_boundary sources) ?ret i r = Some (r\<lparr>ipa_subnet_id := i\<rparr>)"
      using that(2) by (simp add: merge_address_def)
    from kept [OF that(1) this] show ?thesis using assms(3) by simp
  qed simp
  moreover have "r \<in> set (addrs db')" if "r \<in> set (addrs db)" "ipa_subnet_id r \<notin> ?S" for r
    using kept [OF that(1), of r] that(2) by (simp add: merge_address_def)
  moreover have "\<forall>r \<in> set (addrs db'). ipa_subnet_id r \<notin> ?S" unfolding tab(1) by simp
  moreover have "scopes db' = map (\<lambda>sc. if sc_subnet_id sc \<in> ?S then sc\<lparr>sc_subnet_id := i\<rparr> else sc) (scopes db)"
    unfolding tab(2) using sc assms(3) by (auto simp: filter_id_conv intro!: trans [OF filter_True])
  moreover have "\<exists>row \<in> set (subnets_tab db'). sn_id row = i \<and> ip_network (sn_network row) = Some m"
    using tab(3) ip_network_of_wf [OF n(4)] by force
  moreover note n(1-3) merge_pools [OF c(3) assms(3) sc]
  ultimately show ?thesis by blast
qed

section \<open>Splitting and merging back\<close>

text \<open>Splitting and merging back gives the parent. The children of a valid split, in whatever order the
  merge request names them, summarise to exactly the network that was split.\<close>

theorem split_merge_roundtrip:
  assumes "wf_net parent" "validate_split parent p = Inr ()" "mset nets = mset (split_children parent p)"
  shows "summarise_or_none nets = Some parent"
proof -
  let ?n = "2 ^ (nat p - prefixlen parent) :: nat" and ?c = "child parent (nat p)"
  note v = valid_split [OF assms(2)]
  have le: "prefixlen parent \<le> nat p" using v(1) by simp
  have set: "set nets = ?c ` {0 ..< ?n}" using mset_eq_setD [OF assms(3)] by (simp add: split_children_eq [OF assms(2)])
  have g: "good (version parent) nets" using child_in(1) [OF assms(1) le v(2)] by (auto simp: good_def set)
  have cov: "covered nets = addresses parent"
  proof
    show "covered nets \<subseteq> addresses parent" unfolding covered_def set
      by (rule UN_least, elim imageE) (simp add: child_in(2) [OF assms(1) le v(2)])
    show "addresses parent \<subseteq> covered nets"
    proof
      fix a assume a: "a \<in> addresses parent"
      obtain k where "k < ?n" "a \<in> addresses (?c k)" using child_at(1,2) [OF assms(1) le v(2) a] by blast
      then show "a \<in> covered nets" by (auto simp: covered_def set)
    qed
  qed
  have "total_size nets = sum_mset (image_mset num_addresses (mset nets))" by (simp add: total_size_def flip: sum_mset_sum_list)
  also have "\<dots> = total_size (map ?c [0 ..< ?n])"
    unfolding assms(3) by (simp add: total_size_def split_children_eq [OF assms(2)] multiset.map_comp flip: sum_mset_sum_list)
  also have "\<dots> = ?n * num_addresses (parent\<lparr>prefixlen := nat p\<rparr>)"
    by (simp add: total_size_def comp_def sum_list_triv)
  also have "\<dots> = num_addresses parent" by (rule num_addresses_step [OF le v(2), symmetric])
  finally have "apart nets" by (simp add: apart_iff_total cov card_addresses)
  then show ?thesis using summarise_iff [OF g, of parent] assms(1) cov by simp
qed

theorem split_merge_roundtrip_witness:
  "summarise_or_none (rev (split_children \<lparr>version = V4, network_address = 0, prefixlen = 24\<rparr> 27)) =
     Some \<lparr>version = V4, network_address = 0, prefixlen = 24\<rparr>"
  by (rule split_merge_roundtrip) (simp_all add: wf_net_def num_addresses_def validate_split_def)

text \<open>Two sibling /30s with their boundary rows, a host and a DHCP scope on the second.\<close>

definition half_subnet :: "uuid \<Rightarrow> nat \<Rightarrow> subnet_row" where
  "half_subnet i a = wide_subnet\<lparr>sn_id := i, sn_network := (V4, a, 30), sn_total_ips := 2\<rparr>"

definition halves_db :: split_db where
  "halves_db = wide_db\<lparr>subnets_tab := [half_subnet ''s'' 0, half_subnet ''t'' 4],
     addrs := [row_at 0 ''network'' ''Network address'', row_at 3 ''broadcast'' ''Broadcast address''] @
       map (\<lambda>r. r\<lparr>ipa_subnet_id := ''t''\<rparr>) [row_at 4 ''network'' ''Network address'', row_at 6 ''allocated'' [],
         row_at 7 ''broadcast'' ''Broadcast address''],
     scopes := [\<lparr>sc_id = ''d1'', sc_subnet_id = ''t'', sc_group_id = ''g''\<rparr>]\<rparr>"

definition halves_commit :: "split_error + merge_result \<times> split_db" where
  "halves_commit = commit_subnet_merge (\<lambda>_ _. ''e'') ''m'' True ''0.0.0.0/29'' None halves_db (half_subnet ''s'' 0) [''t'']"

lemma halves_merge_ok: "case halves_commit of Inl _ \<Rightarrow> False | Inr _ \<Rightarrow> True"
  by code_simp

lemma halves_merge_Inr:
  obtains res db' where "halves_commit = Inr (res, db')"
    "commit_subnet_merge (\<lambda>_ _. ''e'') ''m'' True ''0.0.0.0/29'' None halves_db (half_subnet ''s'' 0) [''t''] = Inr (res, db')"
  using halves_merge_ok by (cases halves_commit) (auto simp: halves_commit_def)

theorem merge_keeps_every_address_witness:
  "\<exists>res db'. halves_commit = Inr (res, db') \<and> (row_at 6 ''allocated'' [])\<lparr>ipa_subnet_id := ''m''\<rparr> \<in> set (addrs db') \<and>
     scopes db' = [\<lparr>sc_id = ''d1'', sc_subnet_id = ''m'', sc_group_id = ''g''\<rparr>] \<and> pools db' = pools halves_db"
proof -
  obtain res db' where w: "halves_commit = Inr (res, db')"
    and c: "commit_subnet_merge (\<lambda>_ _. ''e'') ''m'' True ''0.0.0.0/29'' None halves_db (half_subnet ''s'' 0) [''t''] = Inr (res, db')"
    by (rule halves_merge_Inr)
  let ?r = "(row_at 6 ''allocated'' [])\<lparr>ipa_subnet_id := ''t''\<rparr>"
  have l: "load_sources halves_db (half_subnet ''s'' 0) [''t''] = Inr [half_subnet ''s'' 0, half_subnet ''t'' 4]"
    by (simp add: load_sources_def halves_db_def half_subnet_def)
  have r: "?r \<in> set (addrs halves_db)" by (simp add: halves_db_def)
  have keep: "\<not> dropped_row b ret ?r" for b ret
    by (simp add: dropped_row_def row_at_def is_default_placeholder_def is_default_gateway_row_def)
  have s: "scopes halves_db = [\<lparr>sc_id = ''d1'', sc_subnet_id = ''t'', sc_group_id = ''g''\<rparr>]" by (simp add: halves_db_def)
  have ids: "sn_id ` set [half_subnet ''s'' 0, half_subnet ''t'' 4] = {''s'', ''t''}" by (simp add: half_subnet_def)
  have fresh: "''m'' \<notin> sn_id ` set [half_subnet ''s'' 0, half_subnet ''t'' 4]" "distinct (map sc_id (scopes halves_db))"
    unfolding ids s by simp_all
  have mv: "?r\<lparr>ipa_subnet_id := ''m''\<rparr> = (row_at 6 ''allocated'' [])\<lparr>ipa_subnet_id := ''m''\<rparr>" by simp
  obtain merged where m: "\<forall>r \<in> set (addrs halves_db). ipa_subnet_id r \<in> {''s'', ''t''} \<longrightarrow>
       dropped_row (source_boundary [half_subnet ''s'' 0, half_subnet ''t'' 4])
         (snd (gateway_plan [half_subnet ''s'' 0, half_subnet ''t'' 4] merged
           (rows_of halves_db [half_subnet ''s'' 0, half_subnet ''t'' 4]))) r \<or> r\<lparr>ipa_subnet_id := ''m''\<rparr> \<in> set (addrs db')"
    "scopes db' = map (\<lambda>sc. if sc_subnet_id sc \<in> {''s'', ''t''} then sc\<lparr>sc_subnet_id := ''m''\<rparr> else sc) (scopes halves_db)"
    "pools db' = pools halves_db"
    using merge_keeps_every_address [OF c l fresh] unfolding ids by blast
  have "?r\<lparr>ipa_subnet_id := ''m''\<rparr> \<in> set (addrs db')" using bspec [OF m(1) r] keep by simp
  moreover have "scopes db' = [\<lparr>sc_id = ''d1'', sc_subnet_id = ''m'', sc_group_id = ''g''\<rparr>]" using m(2) unfolding s by simp
  ultimately show ?thesis using w m(3) unfolding mv by blast
qed

end
