(* ===== verification/Token_Scopes.thy ===== *)
theory Token_Scopes
  imports Permission_Gates
begin

text \<open>
  The coarse scopes of an API token (\<^verbatim>\<open>backend/app/services/api_token_scopes.py\<close>): the closed vocabulary,
  the request gate with its path prefixes, route rules and apply-time routes, the validators of scope
  lists and resource grants, and \<open>scopes_widen\<close> of \<^verbatim>\<open>backend/app/api/v1/api_tokens/router.py\<close>.
  The registered operations' scopes and the apply-time check are in \<open>Approval_Flow\<close>.
\<close>

section \<open>The regular expressions of the route rules\<close>

text \<open>The constructs of \<open>re\<close> the module uses: literal text, \<open>[^/]+\<close>, \<open>.*\<close>, sequence, alternation,
  \<open>(...)?\<close>, negative lookahead and \<open>\Z\<close>.\<close>

datatype rx = Lit string | Segment | Dots | Seq rx rx | Alt rx rx | Opt rx | NotAhead rx | AtEnd

text \<open>The texts that may be left over after a match at the start.\<close>

fun leftovers :: "(char \<Rightarrow> bool) \<Rightarrow> string \<Rightarrow> string list" where
  "leftovers ok [] = [[]]"
| "leftovers ok (c # cs) = (c # cs) # (if ok c then leftovers ok cs else [])"

fun rx_rest :: "rx \<Rightarrow> string \<Rightarrow> string list" where
  "rx_rest (Lit p) s = (if py_startswith s p then [drop (length p) s] else [])"
| "rx_rest Segment s = filter (\<lambda>t. length t < length s) (leftovers (\<lambda>c. c \<noteq> CHR ''/'') s)"
| "rx_rest Dots s = leftovers (\<lambda>c. c \<noteq> CHR 0x0A) s"
| "rx_rest (Seq a b) s = concat (map (rx_rest b) (rx_rest a s))"
| "rx_rest (Alt a b) s = rx_rest a s @ rx_rest b s"
| "rx_rest (Opt a) s = rx_rest a s @ [s]"
| "rx_rest (NotAhead a) s = (if rx_rest a s = [] then [s] else [])"
| "rx_rest AtEnd s = (if s = [] then [s] else [])"

definition fullmatch :: "rx \<Rightarrow> string \<Rightarrow> bool" where
  "fullmatch r s \<longleftrightarrow> [] \<in> set (rx_rest r s)"

section \<open>Vocabulary\<close>

definition TOKEN_SCOPE_VOCABULARY :: "string list" where
  "TOKEN_SCOPE_VOCABULARY = [''read'', ''ipam:write'', ''dns:write'', ''dhcp:write'']"

definition RETIRED_SCOPES :: "(string \<times> string) list" where
  "RETIRED_SCOPES = [(''agent'', ''the '' @ quoted ''agent'' @ '' scope was retired: the agent push surface '' @
     ''(/api/v1/dns/agents, /api/v1/dhcp/agents) authenticates with the agent'' @ squote @
     ''s own JWT or pre-shared key, never an API token, so the scope reached nothing'')]"

definition SAFE_METHODS :: "string list" where
  "SAFE_METHODS = [''GET'', ''HEAD'', ''OPTIONS'']"

definition WRITE_SCOPES :: "string list" where
  "WRITE_SCOPES = [''ipam:write'', ''dns:write'', ''dhcp:write'']"

definition IPAM_PREFIXES :: "string list" where
  "IPAM_PREFIXES = [''/api/v1/ipam'', ''/api/v1/vlans'', ''/api/v1/vrfs'', ''/api/v1/network-devices'',
     ''/api/v1/address-sets'', ''/api/v1/multicast'', ''/api/v1/av/flows'', ''/api/v1/av/reserved-ranges'',
     ''/api/v1/custom-fields'']"

definition ROUTE_RULES :: "(string \<times> string \<times> rx) list" where
  "ROUTE_RULES =
     [(''ipam:write'', ''POST'', Seq (Lit ''/api/v1/nmap/scans/'') (Seq Segment (Lit ''/stamp-discovered''))),
      (''dns:write'', ''POST'', Lit ''/api/v1/acme/register''),
      (''dns:write'', ''DELETE'', Seq (Lit ''/api/v1/acme/accounts/'') Segment),
      (''dns:write'', ''*'', Seq (Lit ''/api/v1/domains'')
         (Opt (Seq (Lit ''/'') (Seq (NotAhead (Seq Segment (Seq (Lit ''/refresh-whois'') AtEnd))) Dots)))),
      (''dhcp:write'', ''POST'', Lit ''/api/v1/new-devices/block'')]"

definition decide_verb :: rx where
  "decide_verb = Alt (Lit ''approve'') (Alt (Lit ''reject'') (Lit ''cancel''))"

definition APPLY_TIME_ROUTES :: "(string \<times> rx) list" where
  "APPLY_TIME_ROUTES =
     [(''POST'', Lit ''/api/v1/requests''),
      (''POST'', Seq (Lit ''/api/v1/requests/'') (Seq Segment (Seq (Lit ''/'') decide_verb))),
      (''POST'', Seq (Lit ''/api/v1/change-requests/'') (Seq Segment (Seq (Lit ''/'') decide_verb))),
      (''POST'', Seq (Lit ''/api/v1/ai/proposals/'') (Seq Segment (Lit ''/apply'')))]"

definition DNS_PREFIXES :: "string list" where "DNS_PREFIXES = [''/api/v1/dns'']"
definition DHCP_PREFIXES :: "string list" where "DHCP_PREFIXES = [''/api/v1/dhcp'']"
definition AGENT_PREFIXES :: "string list" where
  "AGENT_PREFIXES = [''/api/v1/dns/agents'', ''/api/v1/dhcp/agents'']"
definition MCP_PREFIXES :: "string list" where "MCP_PREFIXES = [''/api/v1/ai/mcp'']"

section \<open>The request gate\<close>

definition path_under :: "string \<Rightarrow> string list \<Rightarrow> bool" where
  "path_under url prefixes = list_ex (\<lambda>p. url = p \<or> py_startswith url (p @ ''/'')) prefixes"

definition route_rule_matches :: "string \<Rightarrow> string \<Rightarrow> string \<Rightarrow> bool" where
  "route_rule_matches scope method url =
     list_ex (\<lambda>(s, m, r). s = scope \<and> (m = ''*'' \<or> m = method) \<and> fullmatch r url) ROUTE_RULES"

definition apply_time_route :: "string \<Rightarrow> string \<Rightarrow> bool" where
  "apply_time_route method url = list_ex (\<lambda>(m, r). m = method \<and> fullmatch r url) APPLY_TIME_ROUTES"

definition scopes_allow_outbound_tool :: "string list \<Rightarrow> string option \<Rightarrow> bool" where
  "scopes_allow_outbound_tool scopes outbound_scope \<longleftrightarrow>
     scopes = [] \<or> (case outbound_scope of None \<Rightarrow> False | Some s \<Rightarrow> s \<in> set scopes)"

text \<open>The body of the loop over the scopes: whether it returns at this scope or goes on to the next.\<close>

definition scope_covers :: "string \<Rightarrow> string \<Rightarrow> bool \<Rightarrow> bool \<Rightarrow> string \<Rightarrow> bool" where
  "scope_covers method url read_only_route outbound_route scope =
     (let is_safe = (method \<in> set SAFE_METHODS);
          read_only_post_request = (read_only_route \<and> method = ''POST'') in
      if scope = ''read'' \<and> outbound_route then False
      else if scope = ''read'' \<and> (is_safe \<or> read_only_post_request) then True
      else if scope = ''read'' \<and> path_under url MCP_PREFIXES then True
      else if scope \<in> set WRITE_SCOPES \<and> route_rule_matches scope method url then True
      else if scope \<in> set WRITE_SCOPES \<and> apply_time_route method url then True
      else if scope = ''ipam:write'' \<and> path_under url IPAM_PREFIXES then True
      else if scope = ''dns:write'' \<and> path_under url DNS_PREFIXES
      then (if path_under url AGENT_PREFIXES then False else True)
      else if scope = ''dhcp:write'' \<and> path_under url DHCP_PREFIXES
      then (if path_under url AGENT_PREFIXES then False else True)
      else False)"

definition scope_matches_request :: "string list \<Rightarrow> string \<Rightarrow> string \<Rightarrow> bool \<Rightarrow> bool \<Rightarrow> bool" where
  "scope_matches_request scopes method url read_only_route outbound_route =
     (if scopes = [] then True
      else list_ex (scope_covers (py_upper method) url read_only_route outbound_route) scopes)"

section \<open>Validators\<close>

fun keep_first :: "string list \<Rightarrow> string list \<Rightarrow> string list" where
  "keep_first seen [] = []"
| "keep_first seen (s # ss) = (if s \<in> set seen then keep_first seen ss else s # keep_first (s # seen) ss)"

definition validate_scopes :: "string list \<Rightarrow> string + string list" where
  "validate_scopes scopes =
     (let retired = filter (\<lambda>s. map_of RETIRED_SCOPES s \<noteq> None) scopes;
          invalid = filter (\<lambda>s. s \<notin> set TOKEN_SCOPE_VOCABULARY) scopes in
      if retired \<noteq> [] then Inl (py_join ''; '' (map (\<lambda>s. the (map_of RETIRED_SCOPES s)) (keep_first [] retired)))
      else if invalid \<noteq> [] then Inl (''Unknown scope(s): '' @ py_join '', '' invalid @ ''. Allowed: '' @
             py_join '', '' (sort TOKEN_SCOPE_VOCABULARY))
      else Inr (keep_first [] scopes))"

definition TOKEN_GRANT_RESOURCE_TYPES :: "string list" where
  "TOKEN_GRANT_RESOURCE_TYPES = [''subnet'', ''dns_zone'']"

definition TOKEN_GRANT_ACTIONS :: "string list" where
  "TOKEN_GRANT_ACTIONS = [''read'', ''write'', ''delete'', ''admin'', ''*'']"

definition in_vocabulary :: "jval \<Rightarrow> string list \<Rightarrow> bool" where
  "in_vocabulary v xs = (case v of JStr s \<Rightarrow> s \<in> set xs | _ \<Rightarrow> False)"

text \<open>\<open>{v!r}\<close>, and \<open>not v or not str(v).strip()\<close>: the texts are those of the JSON values that are false.\<close>

fun jval_repr :: "jval \<Rightarrow> string" where
  "jval_repr JNull = ''None''"
| "jval_repr (JStr s) = quoted s"
| "jval_repr (JOther t) = t"

fun jval_blank :: "jval \<Rightarrow> bool" where
  "jval_blank JNull = True"
| "jval_blank (JStr s) = (py_strip s = [])"
| "jval_blank (JOther t) = (t \<in> {''0'', ''0.0'', ''-0.0'', ''False'', ''[]'', ''{}''})"

text \<open>A value of an unhashable type makes the membership test itself raise; it is refused here with the
  message of the check.\<close>

fun validate_resource_grant_shape :: "json_entry list \<Rightarrow> string + pdict list" where
  "validate_resource_grant_shape [] = Inr []"
| "validate_resource_grant_shape (PNotDict # gs) = Inl ''each resource grant must be an object''"
| "validate_resource_grant_shape (PDict g # gs) =
     (let action = dict_get g ''action'' JNull; rtype = dict_get g ''resource_type'' JNull;
          rid = dict_get g ''resource_id'' JNull in
      if \<not> in_vocabulary action TOKEN_GRANT_ACTIONS
      then Inl (''grant action '' @ jval_repr action @ '' invalid; allowed: '' @
             py_join '', '' (sort TOKEN_GRANT_ACTIONS))
      else if \<not> in_vocabulary rtype TOKEN_GRANT_RESOURCE_TYPES
      then Inl (''grant resource_type '' @ jval_repr rtype @ '' invalid; allowed: '' @
             py_join '', '' (sort TOKEN_GRANT_RESOURCE_TYPES))
      else if jval_blank rid
      then Inl ''grant resource_id is required (token must bind to an instance)''
      else (case validate_resource_grant_shape gs of Inl e \<Rightarrow> Inl e
        | Inr out \<Rightarrow> Inr ([''action'' \<mapsto> action, ''resource_type'' \<mapsto> rtype,
             ''resource_id'' \<mapsto> JStr (jval_str rid)] # out)))"

definition scopes_widen :: "string list option \<Rightarrow> string list \<Rightarrow> bool" where
  "scopes_widen old new =
     (if or_empty old = [] then False else if new = [] then True else \<not> set new \<subseteq> set (or_empty old))"

section \<open>What the gate admits\<close>













section \<open>Narrowing and validation\<close>

lemma keep_first_set: "set (keep_first seen xs) = set xs - set seen"
  by (induction xs arbitrary: seen) auto

lemma keep_first_distinct: "distinct (keep_first seen xs)"
  by (induction xs arbitrary: seen) (auto simp: keep_first_set)

text \<open>The contract the scope checks share: no list is no restriction, and a list admits what any one of its
  scopes covers. It makes the meaning of a list its set, and \<open>scopes_widen\<close> a sound test for every check.\<close>

locale scope_check =
  fixes admits :: "string list \<Rightarrow> 'r \<Rightarrow> bool" and covers :: "string \<Rightarrow> 'r \<Rightarrow> bool"
  assumes admits_iff: "admits scopes r \<longleftrightarrow> scopes = [] \<or> (\<exists>s \<in> set scopes. covers s r)"
begin

lemma admits_cong: "set xs = set ys \<Longrightarrow> admits xs r = admits ys r"
  unfolding admits_iff by (metis set_empty)

lemma admits_narrow:
  assumes "\<not> scopes_widen old new" "admits new r"
  shows "admits (or_empty old) r"
  using assms by (auto simp: scopes_widen_def admits_iff split: if_splits)

end

interpretation request_scopes: scope_check
  "\<lambda>scopes (m, url, ro, ob). scope_matches_request scopes m url ro ob"
  "\<lambda>s (m, url, ro, ob). scope_covers (py_upper m) url ro ob s"
  by unfold_locales (auto simp: scope_matches_request_def list_ex_iff split: prod.splits)

interpretation tool_scopes: scope_check scopes_allow_outbound_tool "\<lambda>s tool. tool = Some s"
  by unfold_locales (auto simp: scopes_allow_outbound_tool_def split: option.splits)

text \<open>A validated list means what was asked for; it is empty only when the asked list was.\<close>

lemma validate_scopes_same:
  assumes "validate_scopes scopes = Inr out"
  shows "set out = set scopes" "distinct out" "set out \<subseteq> set TOKEN_SCOPE_VOCABULARY"
    "scope_matches_request out m url ro ob = scope_matches_request scopes m url ro ob"
proof -
  have out: "out = keep_first [] scopes" "filter (\<lambda>s. s \<notin> set TOKEN_SCOPE_VOCABULARY) scopes = []"
    using assms by (auto simp: validate_scopes_def Let_def split: if_splits)
  show s: "set out = set scopes" "distinct out" using out keep_first_set [of "[]"] keep_first_distinct by auto
  show "set out \<subseteq> set TOKEN_SCOPE_VOCABULARY" using out(2) s by (auto simp: filter_empty_conv)
  show "scope_matches_request out m url ro ob = scope_matches_request scopes m url ro ob"
    using request_scopes.admits_cong [OF s(1), of "(m, url, ro, ob)"] by simp
qed

lemma not_widened:
  assumes "\<not> scopes_widen old new" "scope_matches_request new m url ro ob"
  shows "scope_matches_request (or_empty old) m url ro ob"
  using request_scopes.admits_narrow [OF assms(1), of "(m, url, ro, ob)"] assms(2) by simp

end
