(* ===== verification/Api_Tokens.thy ===== *)
theory Api_Tokens
  imports Token_Scopes Throttle
begin

text \<open>
  API tokens: the operator step-up (\<^verbatim>\<open>backend/app/api/stepup.py\<close>, \<^verbatim>\<open>services/reauth.py\<close>), the resolution of
  a bearer token into its owner (\<open>_resolve_api_token\<close> of \<^verbatim>\<open>backend/app/api/deps.py\<close>) and the token routes
  that change state (\<^verbatim>\<open>backend/app/api/v1/api_tokens/router.py\<close>). Password and authenticator checks, the
  token hash and the parsing of a UUID are arguments; a commit is taken to succeed; response headers
  are left out, and so are the routes that only read.
\<close>

section \<open>Rows and libraries\<close>

text \<open>\<open>verify_totp\<close> decrypts the stored secret and checks the code; it answers \<open>False\<close> when that raises.\<close>

record crypto =
  verify_password :: "string \<Rightarrow> string \<Rightarrow> bool"
  verify_totp :: "string \<Rightarrow> string \<Rightarrow> bool"
  hash_token :: "string \<Rightarrow> string"
  parse_uuid :: "string \<Rightarrow> uuid option"
  iso_text :: "datetime \<Rightarrow> string"

record account =
  acct :: user
  group_ids :: "uuid list"
  hashed_password :: "string option"
  totp_enabled :: bool
  totp_secret_encrypted :: "string option"
  force_password_change :: bool

record grant_row =
  gr_grant :: time_bound_grant
  gr_group_id :: uuid
  gr_revoked_at :: "datetime option"
  gr_expires_at :: datetime

record api_token =
  tk_id :: uuid
  tk_name :: string
  tk_description :: string
  tk_hash :: string
  tk_prefix :: string
  tk_user_id :: "uuid option"
  tk_scopes :: "string list option"
  tk_grants :: "json_entry list option"
  tk_expires_at :: "datetime option"
  tk_last_used_at :: "datetime option"
  tk_active :: bool

record 's auth_state =
  tokens :: "api_token list"
  accounts :: "account list"
  grant_rows :: "grant_row list"
  instances :: "(string \<times> uuid) list"
  audit_rows :: "audit_log list"
  redis_store :: 's

definition add_row :: "audit_log \<Rightarrow> 's auth_state \<Rightarrow> 's auth_state" where
  "add_row row st = st\<lparr>audit_rows := audit_rows st @ [row]\<rparr>"

definition http_fail :: "int \<Rightarrow> string \<Rightarrow> http_error" where
  "http_fail code msg = \<lparr>status_code = code, detail = msg\<rparr>"

section \<open>The operator step-up\<close>

datatype reauth_outcome = REAUTH_OK | BAD_CREDENTIAL | MFA_REQUIRED | SIGN_IN_TOO_OLD | REAUTH_REQUIRED
  | PROVIDER_UNAVAILABLE

definition text_given :: "string option \<Rightarrow> bool" where
  "text_given x = (case x of None \<Rightarrow> False | Some s \<Rightarrow> s \<noteq> [])"

definition totp_ok :: "crypto \<Rightarrow> account \<Rightarrow> string option \<Rightarrow> bool" where
  "totp_ok K a code = (case (code, totp_secret_encrypted a) of
     (Some c, Some secret) \<Rightarrow> (if c = [] \<or> \<not> totp_enabled a then False else verify_totp K secret c)
   | _ \<Rightarrow> False)"

definition uses_local_password :: "account \<Rightarrow> bool" where
  "uses_local_password a \<longleftrightarrow> auth_source (acct a) = ''local'' \<and> text_given (hashed_password a)"

definition reverify_operator :: "crypto \<Rightarrow> account \<Rightarrow> string option \<Rightarrow> string option \<Rightarrow> reauth_outcome" where
  "reverify_operator K a password code =
     (if uses_local_password a
      then (case (password, hashed_password a) of
          (Some p, Some h) \<Rightarrow> (if p \<noteq> [] \<and> verify_password K p h then REAUTH_OK else BAD_CREDENTIAL)
        | _ \<Rightarrow> BAD_CREDENTIAL)
      else if \<not> totp_enabled a then MFA_REQUIRED
      else if totp_ok K a code then REAUTH_OK else BAD_CREDENTIAL)"

definition stepup_method :: "account \<Rightarrow> string" where
  "stepup_method a = (if uses_local_password a then ''password'' else ''totp'')"

text \<open>\<open>r1\<close> and \<open>r2\<close> are the fates of the budget call and of the read of the time left.\<close>

definition refuse_if_stepup_blocked :: "'s redis_ops \<Rightarrow> reply \<Rightarrow> reply \<Rightarrow> uuid \<Rightarrow> bool \<Rightarrow> string \<Rightarrow> 's \<Rightarrow>
    (http_error + unit) \<times> 's" where
  "refuse_if_stepup_blocked R r1 r2 uid claim unavailable_detail s =
     (let (blocked, s') = (if claim then (case claim_stepup_attempt R r1 uid s of
            (Inr ok, s') \<Rightarrow> (Inr (\<not> ok), s') | (Inl e, s') \<Rightarrow> (Inl e, s'))
          else (stepup_password_blocked R r1 uid s, s)) in
      case blocked of Inl _ \<Rightarrow> (Inl (http_fail 503 unavailable_detail), s')
      | Inr b \<Rightarrow> (if b then
            (let seconds = stepup_block_seconds_left R r2 uid s'; mins = max 1 (- ((- seconds) div 60)) in
             (Inl (http_fail 429 (''Too many incorrect attempts. Try again in '' @ int_str mins @ '' minute(s).'')), s'))
          else (Inr (), s')))"

definition UNAVAILABLE_DETAIL :: string where
  "UNAVAILABLE_DETAIL = ''This needs a password or authenticator check, and the attempt limiter is unavailable. '' @
     ''Try again in a minute.''"

text \<open>What the step-up is for: action, resource type, id and display text.\<close>

record subject =
  sj_action :: string
  sj_type :: string
  sj_id :: string
  sj_display :: string

definition denied_row :: "account \<Rightarrow> subject \<Rightarrow> string \<Rightarrow> audit_log" where
  "denied_row a sj reason =
     (new_audit_log (display_name (acct a)) (sj_action sj) (sj_type sj) (sj_id sj) (sj_display sj))
       \<lparr>al_user_id := Some (user_id (acct a)), al_auth_source := Some (auth_source (acct a)),
        al_result := Some ''denied'', error_detail := Some reason,
        new_value := PyDict [(''stepup_method'', PyStr (stepup_method a))]\<rparr>"

record stepup_input =
  su_password :: "string option"
  su_totp :: "string option"

text \<open>The fates of the three Redis calls a step-up makes: the budget, the time left, the failure.\<close>

type_synonym fates = "reply \<times> reply \<times> reply"

definition require_operator_stepup :: "'s redis_ops \<Rightarrow> crypto \<Rightarrow> fates \<Rightarrow> account \<Rightarrow> stepup_input \<Rightarrow> subject \<Rightarrow>
    's auth_state \<Rightarrow> (http_error + string) \<times> 's auth_state" where
  "require_operator_stepup R K fs a su sj st =
     (case fs of (r1, r2, r3) \<Rightarrow>
      case refuse_if_stepup_blocked R r1 r2 (user_id (acct a)) False UNAVAILABLE_DETAIL (redis_store st) of
        (Inl e, _) \<Rightarrow> (Inl e, if status_code e = 429 then add_row (denied_row a sj ''stepup_blocked'') st else st)
      | (Inr _, _) \<Rightarrow>
        (let outcome = reverify_operator K a (su_password su) (su_totp su);
             missing = (\<not> text_given (su_password su) \<and> \<not> text_given (su_totp su)) in
         if outcome = REAUTH_OK then (Inr (stepup_method a), st)
         else let st1 = (if outcome = BAD_CREDENTIAL \<and> \<not> missing
                   then st\<lparr>redis_store := record_stepup_password_failure R r3 (user_id (acct a)) (redis_store st)\<rparr> else st);
                reason = (if outcome = MFA_REQUIRED then ''mfa_required'' else if missing then ''stepup_missing''
                   else ''bad_credential'');
                st2 = add_row (denied_row a sj reason) st1
              in (Inl (http_fail 403
                   (if outcome = MFA_REQUIRED
                    then ''This needs re-confirmation with an authenticator code. Your account has no local password: '' @
                      ''enrol two-factor (MFA) under Account > Two-factor, then retry.''
                    else if missing
                    then ''This needs re-confirmation: send your password, or an authenticator code if your account '' @
                      ''has no local password.''
                    else ''Password or authenticator code is incorrect'')), st2)))"

section \<open>From a bearer token to its owner\<close>

text \<open>The request with the two marks its matched endpoint may carry.\<close>

record marked_request =
  mr_request :: request
  endpoint_outbound :: bool
  endpoint_honours_binding :: bool

definition is_token_outbound :: "marked_request \<Rightarrow> bool" where
  "is_token_outbound rq \<longleftrightarrow> scope_route (mr_request rq) \<noteq> None \<and> endpoint_outbound rq"

definition route_honours_token_binding :: "marked_request \<Rightarrow> bool" where
  "route_honours_token_binding rq \<longleftrightarrow> scope_route (mr_request rq) \<noteq> None \<and> endpoint_honours_binding rq"

definition FORCE_PW_CHANGE_ALLOWLIST :: "string list" where
  "FORCE_PW_CHANGE_ALLOWLIST = [''/auth/change-password'', ''/auth/logout'', ''/auth/me'', ''/auth/password-policy'']"

definition path_in_recovery_allowlist :: "string \<Rightarrow> bool" where
  "path_in_recovery_allowlist url = list_ex (py_endswith (py_rstrip_char (CHR ''/'') url)) FORCE_PW_CHANGE_ALLOWLIST"

definition password_change_required :: "account \<Rightarrow> bool" where
  "password_change_required a \<longleftrightarrow> force_password_change a \<and> auth_source (acct a) = ''local''"

definition TOKEN_LAST_USED_INTERVAL :: timedelta where "TOKEN_LAST_USED_INTERVAL = seconds 60"

definition put_token :: "api_token \<Rightarrow> 's auth_state \<Rightarrow> 's auth_state" where
  "put_token t st = st\<lparr>tokens := map (\<lambda>x. if tk_id x = tk_id t then t else x) (tokens st)\<rparr>"

text \<open>\<open>write_ok\<close>: whether the write of the throttled timestamp goes through.\<close>

definition record_api_token_use :: "bool \<Rightarrow> datetime \<Rightarrow> api_token \<Rightarrow> 's auth_state \<Rightarrow> 's auth_state" where
  "record_api_token_use write_ok now t st =
     (case tk_last_used_at t of
        Some used \<Rightarrow> (if now - used < TOKEN_LAST_USED_INTERVAL then st
          else if write_ok then put_token (t\<lparr>tk_last_used_at := Some now\<rparr>) st else st)
      | None \<Rightarrow> (if write_ok then put_token (t\<lparr>tk_last_used_at := Some now\<rparr>) st else st))"

definition load_active_grants_for_groups :: "datetime \<Rightarrow> uuid list \<Rightarrow> grant_row list \<Rightarrow> time_bound_grant list" where
  "load_active_grants_for_groups now gids rows =
     (if gids = [] then [] else map gr_grant (filter (\<lambda>g. gr_group_id g \<in> set gids \<and> gr_revoked_at g = None \<and>
        now < gr_expires_at g) rows))"

definition load_time_bound_grants :: "bool \<Rightarrow> datetime \<Rightarrow> account \<Rightarrow> grant_row list \<Rightarrow> user" where
  "load_time_bound_grants load_ok now a rows = (acct a)\<lparr>active_time_bound_grants :=
     Some (if load_ok then load_active_grants_for_groups now (group_ids a) rows else [])\<rparr>"

text \<open>The token's own part of the check: known, active, unexpired, and its scopes cover the request.\<close>

definition check_api_token :: "crypto \<Rightarrow> datetime \<Rightarrow> string \<Rightarrow> marked_request \<Rightarrow> api_token list \<Rightarrow>
    http_error + api_token" where
  "check_api_token K now raw rq ts =
     (case find (\<lambda>t. tk_hash t = hash_token K raw) ts of
        None \<Rightarrow> Inl (http_fail 401 ''Invalid or revoked API token'')
      | Some t \<Rightarrow>
        if \<not> tk_active t then Inl (http_fail 401 ''Invalid or revoked API token'')
        else if (case tk_expires_at t of None \<Rightarrow> False | Some e \<Rightarrow> e \<le> now)
        then Inl (http_fail 401 ''API token has expired'')
        else let scopes = or_empty (tk_scopes t) in
          if scopes \<noteq> [] \<and> \<not> scope_matches_request scopes (req_method (mr_request rq)) (url_path (mr_request rq))
               (is_read_only_post (mr_request rq)) (is_token_outbound rq)
          then Inl (http_fail 403 (if is_token_outbound rq \<and> ''read'' \<in> set scopes
             then ''Token scope insufficient for this request: this endpoint makes SpatiumDDI contact another host, '' @
               ''which a read-scoped token never does. Use a token whose write scope covers this path, or an '' @
               ''unrestricted token.''
             else ''Token scope insufficient for this request''))
          else Inr t)"

definition resolve_api_token :: "crypto \<Rightarrow> datetime \<Rightarrow> bool \<Rightarrow> bool \<Rightarrow> bool \<Rightarrow> string \<Rightarrow> marked_request \<Rightarrow>
    's auth_state \<Rightarrow> (http_error + user) \<times> 's auth_state" where
  "resolve_api_token K now record_activity write_ok load_ok raw rq st =
     (case check_api_token K now raw rq (tokens st) of Inl e \<Rightarrow> (Inl e, st)
      | Inr t \<Rightarrow>
        case tk_user_id t of None \<Rightarrow> (Inl (http_fail 401 ''Global-scope API tokens are not yet supported''), st)
        | Some uid \<Rightarrow>
          (case find (\<lambda>a. user_id (acct a) = uid) (accounts st) of None \<Rightarrow> (Inl (http_fail 401 ''User not found''), st)
           | Some a \<Rightarrow>
             if \<not> is_active (acct a) then (Inl (http_fail 403 ''User account is disabled''), st)
             else if password_change_required a \<and> \<not> path_in_recovery_allowlist (url_path (mr_request rq))
             then (Inl (http_fail 403 ''Password change required before continuing''), st)
             else let st1 = (if record_activity then record_api_token_use write_ok now t st else st);
                      u = (load_time_bound_grants load_ok now a (grant_rows st))
                        \<lparr>api_token_resource_grants := Some (or_empty (tk_grants t))\<rparr>
                  in if or_empty (tk_grants t) \<noteq> [] \<and> \<not> route_honours_token_binding rq
                     then (Inl (http_fail 403 (''This API token is restricted to specific subnets or DNS zones, '' @
                        ''and this endpoint cannot be limited to them'')), st1)
                     else (Inr u, st1)))"

section \<open>The token routes\<close>

text \<open>\<open>ApiTokenCreate\<close> as it arrives, before its field validators.\<close>

record token_create =
  tc_name :: string
  tc_description :: string
  tc_expires_at :: "datetime option"
  tc_expires_in_days :: "int option"
  tc_scopes :: "string list"
  tc_grants :: "json_entry list"
  tc_stepup :: stepup_input

definition resolve_expiry :: "datetime \<Rightarrow> token_create \<Rightarrow> datetime option" where
  "resolve_expiry now body = (case tc_expires_at body of Some e \<Rightarrow> Some e
     | None \<Rightarrow> (case tc_expires_in_days body of Some d \<Rightarrow> Some (now + hours (24 * d)) | None \<Rightarrow> None))"

fun validate_resource_grants :: "crypto \<Rightarrow> (string \<times> uuid) list \<Rightarrow> user \<Rightarrow> pdict list \<Rightarrow> http_error + unit" where
  "validate_resource_grants K rows u [] = Inr ()"
| "validate_resource_grants K rows u (g # gs) =
     (let action = jval_str (dict_get g ''action'' JNull); rtype = jval_str (dict_get g ''resource_type'' JNull);
          rid = jval_str (dict_get g ''resource_id'' JNull) in
      if (case parse_uuid K rid of None \<Rightarrow> True | Some i \<Rightarrow> (rtype, i) \<notin> set rows)
      then Inl (http_fail 422 (rtype @ '' '' @ rid @ '' not found''))
      else if \<not> user_has_permission u action rtype (Some rid)
      then Inl (http_fail 403 (''You don'' @ squote @ ''t hold '' @ quoted action @ '' on '' @ rtype @ '' '' @ rid @
             ''; a token cannot grant more than its creator.''))
      else validate_resource_grants K rows u gs)"

definition grant_dict :: "pdict \<Rightarrow> pyval" where
  "grant_dict g = PyDict (map (\<lambda>k. (k, PyStr (jval_str (dict_get g k JNull))))
     [''action'', ''resource_type'', ''resource_id''])"

definition token_row_audit :: "user \<Rightarrow> string \<Rightarrow> uuid \<Rightarrow> string \<Rightarrow> audit_log" where
  "token_row_audit u act i name = (new_audit_log (display_name u) act ''api_token'' i name)
     \<lparr>al_user_id := Some (user_id u), al_auth_source := Some (auth_source u), al_result := Some ''success''\<rparr>"

text \<open>\<open>me\<close> is the authenticated caller; \<open>raw\<close> the random text of the new token and \<open>i\<close> its row id.\<close>

definition create_token :: "'s redis_ops \<Rightarrow> crypto \<Rightarrow> fates \<Rightarrow> datetime \<Rightarrow> uuid \<Rightarrow> string \<Rightarrow> account \<Rightarrow> token_create \<Rightarrow>
    's auth_state \<Rightarrow> (http_error + api_token) \<times> 's auth_state" where
  "create_token R K fs now i raw me body st =
     (case validate_scopes (tc_scopes body) of Inl e \<Rightarrow> (Inl (http_fail 422 e), st)
      | Inr scopes \<Rightarrow>
        (case validate_resource_grant_shape (tc_grants body) of Inl e \<Rightarrow> (Inl (http_fail 422 e), st)
         | Inr grants \<Rightarrow>
           (case require_operator_stepup R K fs me (tc_stepup body)
              \<lparr>sj_action = ''create'', sj_type = ''api_token'', sj_id = ''?'', sj_display = tc_name body\<rparr> st of
              (Inl e, st1) \<Rightarrow> (Inl e, st1)
            | (Inr method, st1) \<Rightarrow>
              (let expires = resolve_expiry now body in
               if (case expires of None \<Rightarrow> False | Some e \<Rightarrow> e \<le> now)
               then (Inl (http_fail 422 ''expires_at must be in the future''), st1)
               else case validate_resource_grants K (instances st1) (acct me) grants of Inl e \<Rightarrow> (Inl e, st1)
               | Inr _ \<Rightarrow>
                 if (case find (\<lambda>a. user_id (acct a) = user_id (acct me)) (accounts st1) of None \<Rightarrow> True
                     | Some a \<Rightarrow> \<not> is_active (acct a))
                 then (Inl (http_fail 403 ''User account is disabled''), st1)
                 else let t = \<lparr>tk_id = i, tk_name = tc_name body, tk_description = tc_description body,
                        tk_hash = hash_token K raw, tk_prefix = take 10 raw, tk_user_id = Some (user_id (acct me)),
                        tk_scopes = Some scopes, tk_grants = (if grants = [] then None else Some (map PDict grants)),
                        tk_expires_at = expires, tk_last_used_at = None, tk_active = True\<rparr>;
                      row = (token_row_audit (acct me) ''create'' i (tc_name body))\<lparr>new_value := PyDict
                        [(''name'', PyStr (tc_name body)), (''prefix'', PyStr (take 10 raw)),
                         (''expires_at'', opt_str (map_option (iso_text K) expires)), (''scopes'', PyList (map PyStr scopes)),
                         (''resource_grants'', PyList (map grant_dict grants)), (''stepup_method'', PyStr method)]\<rparr>
                    in (Inr t, add_row row (st1\<lparr>tokens := tokens st1 @ [t]\<rparr>))))))"

definition require_owned :: "uuid \<Rightarrow> user \<Rightarrow> 's auth_state \<Rightarrow> http_error + api_token" where
  "require_owned i u st =
     (case find (\<lambda>t. tk_id t = i) (tokens st) of None \<Rightarrow> Inl (http_fail 404 ''Token not found'')
      | Some t \<Rightarrow> (if \<not> is_effective_superadmin u \<and> tk_user_id t \<noteq> Some (user_id u)
          then Inl (http_fail 404 ''Token not found'') else Inr t))"

record token_update =
  tu_name :: "string option"
  tu_description :: "string option"
  tu_is_active :: "bool option"
  tu_scopes :: "string list option"
  tu_stepup :: stepup_input

text \<open>\<open>body.model_dump(exclude_none=True, ...)\<close>: the given fields, in their order.\<close>

definition changes_of :: "token_update \<Rightarrow> (string \<times> pyval) list" where
  "changes_of body = List.map_filter id
     [map_option (\<lambda>v. (''name'', PyStr v)) (tu_name body),
      map_option (\<lambda>v. (''description'', PyStr v)) (tu_description body),
      map_option (\<lambda>v. (''is_active'', PyBool v)) (tu_is_active body),
      map_option (\<lambda>v. (''scopes'', PyList (map PyStr v))) (tu_scopes body)]"

definition apply_changes :: "token_update \<Rightarrow> api_token \<Rightarrow> api_token" where
  "apply_changes body t = t
     \<lparr>tk_name := (case tu_name body of None \<Rightarrow> tk_name t | Some v \<Rightarrow> v),
      tk_description := (case tu_description body of None \<Rightarrow> tk_description t | Some v \<Rightarrow> v),
      tk_active := (case tu_is_active body of None \<Rightarrow> tk_active t | Some v \<Rightarrow> v),
      tk_scopes := (case tu_scopes body of None \<Rightarrow> tk_scopes t | Some v \<Rightarrow> Some v)\<rparr>"

text \<open>\<open>refuse_and_audit\<close> of \<open>core/permissions.py\<close>: the row, then the refusal.\<close>

definition refusal_row :: "user \<Rightarrow> request \<Rightarrow> subject \<Rightarrow> string \<Rightarrow> audit_log" where
  "refusal_row u req sj reason =
     (new_audit_log (display_name u) (sj_action sj) (sj_type sj) (sj_id sj) (sj_display sj))
       \<lparr>al_user_id := Some (user_id u), al_auth_source := Some (source_or_local u),
        source_ip := get_trusted_client_ip req, user_agent := clean_user_agent (user_agent_header req),
        al_result := Some ''denied'', error_detail := Some reason\<rparr>"

definition update_subject :: "api_token \<Rightarrow> subject" where
  "update_subject t = \<lparr>sj_action = ''update'', sj_type = ''api_token'', sj_id = tk_id t, sj_display = tk_name t\<rparr>"

definition reenables :: "token_update \<Rightarrow> api_token \<Rightarrow> bool" where
  "reenables body t \<longleftrightarrow> tu_is_active body = Some True \<and> \<not> tk_active t"

definition widens :: "token_update \<Rightarrow> api_token \<Rightarrow> bool" where
  "widens body t = (case tu_scopes body of None \<Rightarrow> False | Some new \<Rightarrow> scopes_widen (tk_scopes t) new)"

text \<open>The checks on a re-enable, in their order.\<close>

definition reenable_refused :: "datetime \<Rightarrow> user \<Rightarrow> request \<Rightarrow> api_token \<Rightarrow> 's auth_state \<Rightarrow>
    (http_error \<times> 's auth_state) option" where
  "reenable_refused now u req t st =
     (if \<not> is_effective_superadmin u
      then Some (http_fail 403 ''Only a superadmin can re-enable an inactive API token. Create a new token instead.'',
             add_row (refusal_row u req (update_subject t) ''reenable_requires_superadmin'') st)
      else if (case tk_expires_at t of None \<Rightarrow> False | Some e \<Rightarrow> e \<le> now)
      then Some (http_fail 422 (''This API token has expired, so re-enabling it would not let it authenticate. '' @
             ''Create a new token instead.''), st)
      else if (case tk_user_id t of None \<Rightarrow> False | Some uid \<Rightarrow>
             (case find (\<lambda>a. user_id (acct a) = uid) (accounts st) of None \<Rightarrow> False | Some a \<Rightarrow> \<not> is_active (acct a)))
      then Some (http_fail 409 (''The owner account is disabled, so re-enabling this API token would not let it '' @
             ''authenticate. Re-enable the owner first, then create a new token.''), st)
      else None)"

text \<open>The field validator of the scope list, and the step-up when one is needed.\<close>

definition validated_update :: "token_update \<Rightarrow> string + token_update" where
  "validated_update body = (case tu_scopes body of None \<Rightarrow> Inr body
     | Some v \<Rightarrow> (case validate_scopes v of Inl e \<Rightarrow> Inl e | Inr v' \<Rightarrow> Inr (body\<lparr>tu_scopes := Some v'\<rparr>)))"

definition update_stepup :: "'s redis_ops \<Rightarrow> crypto \<Rightarrow> fates \<Rightarrow> account \<Rightarrow> token_update \<Rightarrow> api_token \<Rightarrow> 's auth_state \<Rightarrow>
    (http_error + string option) \<times> 's auth_state" where
  "update_stepup R K fs me body t st =
     (if reenables body t \<or> widens body t
      then (case require_operator_stepup R K fs me (tu_stepup body) (update_subject t) st of
              (Inl e, st1) \<Rightarrow> (Inl e, st1) | (Inr m, st1) \<Rightarrow> (Inr (Some m), st1))
      else (Inr None, st))"

definition update_row :: "account \<Rightarrow> token_update \<Rightarrow> api_token \<Rightarrow> string option \<Rightarrow> audit_log" where
  "update_row me body t method =
     (let changes = changes_of body in
      (token_row_audit (acct me) ''update'' (tk_id t) (tk_name (apply_changes body t)))
        \<lparr>changed_fields := PyList (map (PyStr \<circ> fst) changes),
         new_value := PyDict (case method of None \<Rightarrow> changes
           | Some m \<Rightarrow> changes @ [(''stepup_method'', PyStr m)])\<rparr>)"

definition update_token :: "'s redis_ops \<Rightarrow> crypto \<Rightarrow> fates \<Rightarrow> datetime \<Rightarrow> uuid \<Rightarrow> account \<Rightarrow> request \<Rightarrow> token_update \<Rightarrow>
    's auth_state \<Rightarrow> (http_error + api_token) \<times> 's auth_state" where
  "update_token R K fs now i me req raw_body st =
     (case validated_update raw_body of Inl e \<Rightarrow> (Inl (http_fail 422 e), st)
      | Inr body \<Rightarrow>
        (case require_owned i (acct me) st of Inl e \<Rightarrow> (Inl e, st)
         | Inr t \<Rightarrow>
           (case (if reenables body t then reenable_refused now (acct me) req t st else None) of
              Some (e, st1) \<Rightarrow> (Inl e, st1)
            | None \<Rightarrow>
              (case update_stepup R K fs me body t st of
                 (Inl e, st1) \<Rightarrow> (Inl e, st1)
               | (Inr method, st1) \<Rightarrow>
                   (Inr (apply_changes body t), add_row (update_row me body t method) (put_token (apply_changes body t) st1))))))"

definition delete_token :: "uuid \<Rightarrow> account \<Rightarrow> 's auth_state \<Rightarrow> (http_error + unit) \<times> 's auth_state" where
  "delete_token i me st =
     (case require_owned i (acct me) st of Inl e \<Rightarrow> (Inl e, st)
      | Inr t \<Rightarrow> (Inr (), (add_row (token_row_audit (acct me) ''delete'' (tk_id t) (tk_name t)) st)
          \<lparr>tokens := filter (\<lambda>x. tk_id x \<noteq> i) (tokens st)\<rparr>))"

section \<open>The step-up\<close>

text \<open>A step-up passes only with the right answer and an unspent budget, and then changes nothing.\<close>

lemma stepup_passed:
  assumes "require_operator_stepup R K (r1, r2, r3) a su sj st = (Inr m, st')"
  shows "st' = st" "m = stepup_method a" "reverify_operator K a (su_password su) (su_totp su) = REAUTH_OK"
    "stepup_password_blocked R r1 (user_id (acct a)) (redis_store st) = Inr False"
  using assms
  by (auto simp: require_operator_stepup_def refuse_if_stepup_blocked_def Let_def split: sum.splits if_splits prod.splits)

section \<open>An update never widens a token without a step-up\<close>

lemma find_put_token:
  fixes ts :: "api_token list"
  assumes "distinct (map tk_id ts)" "t \<in> set ts" "tk_id t' = tk_id t" "tk_hash t' = tk_hash t"
  shows "find (\<lambda>x. tk_hash x = h) (map (\<lambda>x. if tk_id x = tk_id t' then t' else x) ts) =
    map_option (\<lambda>x. if x = t then t' else x) (find (\<lambda>x. tk_hash x = h) ts)"
proof -
  have id: "x \<in> set ts \<Longrightarrow> tk_id x = tk_id t \<longleftrightarrow> x = t" for x
    using assms(1,2) by (metis distinct_map inj_on_eq_iff)
  have "find (\<lambda>x. tk_hash x = h) (map (\<lambda>x. if tk_id x = tk_id t' then t' else x) xs) =
      map_option (\<lambda>x. if x = t then t' else x) (find (\<lambda>x. tk_hash x = h) xs)" if "set xs \<subseteq> set ts" for xs
    using that by (induction xs) (auto simp: id assms(3,4))
  then show ?thesis by blast
qed

lemma validated_updateD:
  assumes "validated_update body = Inr b"
  shows "tu_stepup b = tu_stepup body" "tu_is_active b = tu_is_active body"
    "tu_scopes b = None \<longleftrightarrow> tu_scopes body = None"
    "tu_scopes b = Some v \<Longrightarrow> \<exists>w. tu_scopes body = Some w \<and> validate_scopes w = Inr v"
  using assms by (auto simp: validated_update_def split: option.splits sum.splits)

lemma update_stepupD:
  assumes "update_stepup R K (r1, r2, r3) me b t st = (Inr m, st')"
  shows "st' = st" "reenables b t \<or> widens b t \<Longrightarrow>
    reverify_operator K me (su_password (tu_stepup b)) (su_totp (tu_stepup b)) = REAUTH_OK"
  using assms by (auto simp: update_stepup_def split: if_splits prod.splits sum.splits dest: stepup_passed)

lemma require_ownedD:
  assumes "require_owned i u st = Inr t"
  shows "t \<in> set (tokens st)" "tk_id t = i" "is_effective_superadmin u \<or> tk_user_id t = Some (user_id u)"
  using assms by (auto simp: require_owned_def split: option.splits if_splits dest: find_SomeD)

lemma update_tokenD:
  assumes "update_token R K (r1, r2, r3) now i me req body st = (Inr t', st')"
  obtains t b where "validated_update body = Inr b" "require_owned i (acct me) st = Inr t"
    "t' = apply_changes b t" "tokens st' = tokens (put_token t' st)" "accounts st' = accounts st" "grant_rows st' = grant_rows st"
    "reenables b t \<longrightarrow> is_effective_superadmin (acct me)"
    "reenables b t \<or> widens b t \<longrightarrow>
       reverify_operator K me (su_password (tu_stepup body)) (su_totp (tu_stepup body)) = REAUTH_OK"
proof -
  obtain b where b: "validated_update body = Inr b"
    using assms by (cases "validated_update body") (auto simp: update_token_def)
  obtain t where t: "require_owned i (acct me) st = Inr t"
    using assms b by (cases "require_owned i (acct me) st") (auto simp: update_token_def)
  have ok: "(if reenables b t then reenable_refused now (acct me) req t st else None) = None"
    using assms b t by (cases "if reenables b t then reenable_refused now (acct me) req t st else None")
      (auto simp: update_token_def)
  obtain m st1 where m: "update_stepup R K (r1, r2, r3) me b t st = (Inr m, st1)"
    using assms b t ok by (cases "update_stepup R K (r1, r2, r3) me b t st" rule: prod.exhaust [case_product sum.exhaust])
      (auto simp: update_token_def split: sum.splits prod.splits)
  have "t' = apply_changes b t" "st' = add_row (update_row me b t m) (put_token t' st)"
    using assms b t ok m update_stepupD(1) [OF m] by (auto simp: update_token_def)
  moreover have "is_effective_superadmin (acct me)" if "reenables b t"
    using ok that by (auto simp: reenable_refused_def split: if_splits)
  ultimately show thesis
    using that [OF b t] update_stepupD(2) [OF m] validated_updateD(1) [OF b]
    by (simp add: add_row_def put_token_def)
qed

lemma check_narrower:
  assumes "distinct (map tk_id (tokens st))" "t \<in> set (tokens st)" "\<not> reenables b t" "\<not> widens b t"
    "check_api_token K now raw rq (tokens (put_token (apply_changes b t) st)) = Inr x'"
  shows "\<exists>x. check_api_token K now raw rq (tokens st) = Inr x \<and> tk_user_id x = tk_user_id x' \<and> tk_grants x = tk_grants x'"
proof -
  let ?t' = "apply_changes b t" and ?h = "hash_token K raw"
  have same: "tk_id ?t' = tk_id t" "tk_hash ?t' = tk_hash t" "tk_user_id ?t' = tk_user_id t"
    "tk_grants ?t' = tk_grants t" "tk_expires_at ?t' = tk_expires_at t" by (simp_all add: apply_changes_def)
  have act: "tk_active ?t' \<Longrightarrow> tk_active t" using assms(3) by (auto simp: apply_changes_def reenables_def split: option.splits)
  have wid: "scope_matches_request (or_empty (tk_scopes ?t')) m url ro ob \<Longrightarrow>
      scope_matches_request (or_empty (tk_scopes t)) m url ro ob" for m url ro ob
    using assms(4) not_widened by (auto simp: apply_changes_def widens_def split: option.splits)
  have mt: "scopes = [] \<Longrightarrow> scope_matches_request scopes m url ro ob" for scopes m url ro ob
    by (simp add: scope_matches_request_def)
  have f: "find (\<lambda>x. tk_hash x = ?h) (tokens (put_token ?t' st)) =
      map_option (\<lambda>x. if x = t then ?t' else x) (find (\<lambda>x. tk_hash x = ?h) (tokens st))"
    using find_put_token [OF assms(1,2) same(1,2)] by (simp add: put_token_def)
  obtain x where x: "find (\<lambda>x. tk_hash x = ?h) (tokens st) = Some x"
    using assms(5) f by (cases "find (\<lambda>x. tk_hash x = ?h) (tokens st)") (auto simp: check_api_token_def)
  show ?thesis
  proof (cases "x = t")
    case True
    then show ?thesis using assms(5) f x same act wid mt
      by (auto simp: check_api_token_def Let_def split: if_splits option.splits)
  next
    case False
    then show ?thesis using assms(5) f x by (auto simp: check_api_token_def Let_def split: if_splits)
  qed
qed

lemma resolve_same_answer:
  assumes "check_api_token K now raw rq (tokens st) = Inr x" "check_api_token K now raw rq (tokens st') = Inr x'"
    "tk_user_id x = tk_user_id x'" "tk_grants x = tk_grants x'" "accounts st = accounts st'" "grant_rows st = grant_rows st'"
  shows "fst (resolve_api_token K now ra w l raw rq st) = fst (resolve_api_token K now ra w l raw rq st')"
  using assms by (simp add: resolve_api_token_def Let_def split: option.splits)

text \<open>C18: Nobody makes an API token more powerful without proving who they are. When an update goes through and
  its caller did not pass the step-up, every bearer and request that authenticates afterwards
  authenticated before, as the same user with the same grants, at any time; and a token that comes
  back from inactive was brought back by a superadmin who passed the step-up.\<close>

theorem update_never_widens_without_stepup:
  assumes "distinct (map tk_id (tokens st))"
    "update_token R K (r1, r2, r3) now i me req body st = (Inr t', st')"
  shows "(reverify_operator K me (su_password (tu_stepup body)) (su_totp (tu_stepup body)) \<noteq> REAUTH_OK \<longrightarrow>
      fst (resolve_api_token K later ra w l raw rq st') = Inr u \<longrightarrow> fst (resolve_api_token K later ra w l raw rq st) = Inr u) \<and>
    (t \<in> set (tokens st) \<and> tk_id t = i \<and> \<not> tk_active t \<and> tk_active t' \<longrightarrow> is_effective_superadmin (acct me) \<and>
      reverify_operator K me (su_password (tu_stepup body)) (su_totp (tu_stepup body)) = REAUTH_OK)"
proof -
  obtain old b where v: "validated_update body = Inr b" and o: "require_owned i (acct me) st = Inr old"
    and t': "t' = apply_changes b old" and st': "tokens st' = tokens (put_token t' st)" "accounts st' = accounts st"
      "grant_rows st' = grant_rows st"
    and g: "reenables b old \<longrightarrow> is_effective_superadmin (acct me)" "reenables b old \<or> widens b old \<longrightarrow>
       reverify_operator K me (su_password (tu_stepup body)) (su_totp (tu_stepup body)) = REAUTH_OK"
    by (rule update_tokenD [OF assms(2)])
  note own = require_ownedD [OF o]
  show ?thesis
  proof (intro conjI impI)
    assume no: "reverify_operator K me (su_password (tu_stepup body)) (su_totp (tu_stepup body)) \<noteq> REAUTH_OK"
      and r: "fst (resolve_api_token K later ra w l raw rq st') = Inr u"
    obtain x' where x': "check_api_token K later raw rq (tokens st') = Inr x'"
      using r by (cases "check_api_token K later raw rq (tokens st')") (auto simp: resolve_api_token_def)
    have "\<not> reenables b old" "\<not> widens b old" using no g(2) by blast+
    then obtain x where "check_api_token K later raw rq (tokens st) = Inr x" "tk_user_id x = tk_user_id x'" "tk_grants x = tk_grants x'"
      using check_narrower [OF assms(1) own(1)] x' st'(1) t' by metis
    then show "fst (resolve_api_token K later ra w l raw rq st) = Inr u"
      using resolve_same_answer x' st'(2,3) r by metis
  next
    assume a: "t \<in> set (tokens st) \<and> tk_id t = i \<and> \<not> tk_active t \<and> tk_active t'"
    then have "t = old" using own(1,2) assms(1) by (metis distinct_map inj_on_eq_iff)
    then have "reenables b old" using a t' by (auto simp: reenables_def apply_changes_def split: option.splits if_splits)
    then show "is_effective_superadmin (acct me)"
      "reverify_operator K me (su_password (tu_stepup body)) (su_totp (tu_stepup body)) = REAUTH_OK" using g by blast+
  qed
qed

section \<open>A minted token stays within its creator\<close>

text \<open>Every grant that passes the shape validator names an action and a type and binds to one id; the
  creator held it on a row that exists.\<close>

definition bound_grant :: "pdict \<Rightarrow> bool" where
  "bound_grant g \<longleftrightarrow> (\<exists>a rt rid. rt \<in> set TOKEN_GRANT_RESOURCE_TYPES \<and>
     g = [''action'' \<mapsto> JStr a, ''resource_type'' \<mapsto> JStr rt, ''resource_id'' \<mapsto> JStr rid])"

lemma in_vocabulary_iff: "in_vocabulary v xs \<longleftrightarrow> (\<exists>s. v = JStr s \<and> s \<in> set xs)"
  by (simp add: in_vocabulary_def split: jval.splits)

lemma validated_shape:
  "validate_resource_grant_shape gs = Inr out \<Longrightarrow> length out = length gs \<and> list_all bound_grant out"
proof (induction gs arbitrary: out rule: validate_resource_grant_shape.induct)
  case (3 d gs)
  let ?a = "dict_get d ''action'' JNull" and ?rt = "dict_get d ''resource_type'' JNull" and ?rid = "dict_get d ''resource_id'' JNull"
  have ok: "in_vocabulary ?a TOKEN_GRANT_ACTIONS" "in_vocabulary ?rt TOKEN_GRANT_RESOURCE_TYPES" "\<not> jval_blank ?rid"
    using "3.prems" by (auto simp: Let_def split: if_splits)
  then obtain out' where o: "validate_resource_grant_shape gs = Inr out'"
    "out = [''action'' \<mapsto> ?a, ''resource_type'' \<mapsto> ?rt, ''resource_id'' \<mapsto> JStr (jval_str ?rid)] # out'"
    using "3.prems" by (auto simp: Let_def split: sum.splits)
  have "bound_grant [''action'' \<mapsto> ?a, ''resource_type'' \<mapsto> ?rt, ''resource_id'' \<mapsto> JStr (jval_str ?rid)]"
    using ok(1,2) unfolding bound_grant_def in_vocabulary_iff by fastforce
  moreover have "length out' = length gs \<and> list_all bound_grant out'" using "3.IH" ok o(1) by simp
  ultimately show ?case by (simp add: o(2))
qed simp_all

definition grant_text :: "pdict \<Rightarrow> string \<Rightarrow> string" where
  "grant_text g k = jval_str (dict_get g k JNull)"

lemma dicts_map: "dicts (map PDict gs) = gs"
  by (induction gs) simp_all

lemma validated_grants:
  assumes "validate_resource_grants K rows u gs = Inr ()" "g \<in> set gs"
  shows "\<exists>ri. parse_uuid K (grant_text g ''resource_id'') = Some ri \<and> (grant_text g ''resource_type'', ri) \<in> set rows"
    "user_has_permission u (grant_text g ''action'') (grant_text g ''resource_type'') (Some (grant_text g ''resource_id''))"
  using assms by (induction gs) (auto simp: grant_text_def Let_def split: if_splits option.splits)

lemma create_tokenD:
  assumes "create_token R K (r1, r2, r3) now i raw me body st = (Inr t, st')"
  obtains scopes grants where "validate_scopes (tc_scopes body) = Inr scopes"
    "validate_resource_grant_shape (tc_grants body) = Inr grants"
    "reverify_operator K me (su_password (tc_stepup body)) (su_totp (tc_stepup body)) = REAUTH_OK"
    "validate_resource_grants K (instances st) (acct me) grants = Inr ()" "tokens st' = tokens st @ [t]"
    "tk_hash t = hash_token K raw" "tk_scopes t = Some scopes" "or_empty (tk_grants t) = map PDict grants"
proof -
  obtain scopes where s: "validate_scopes (tc_scopes body) = Inr scopes"
    using assms by (cases "validate_scopes (tc_scopes body)") (auto simp: create_token_def)
  obtain grants where g: "validate_resource_grant_shape (tc_grants body) = Inr grants"
    using assms s by (cases "validate_resource_grant_shape (tc_grants body)") (auto simp: create_token_def)
  let ?su = "require_operator_stepup R K (r1, r2, r3) me (tc_stepup body)
    \<lparr>sj_action = ''create'', sj_type = ''api_token'', sj_id = ''?'', sj_display = tc_name body\<rparr> st"
  obtain m st1 where m: "?su = (Inr m, st1)"
    using assms s g by (cases ?su rule: prod.exhaust [case_product sum.exhaust])
      (auto simp: create_token_def split: sum.splits prod.splits)
  note p = stepup_passed [OF m]
  have v: "validate_resource_grants K (instances st) (acct me) grants = Inr ()"
    using assms s g m p(1) by (auto simp: create_token_def Let_def split: if_splits sum.splits)
  show thesis
    by (rule that [OF s g p(3) v]; use assms s g m p(1) v in
        \<open>auto simp: create_token_def Let_def add_row_def split: if_splits option.splits\<close>)
qed

text \<open>C19: A token bound to resources never reaches past what its creator held when minting it. Minting takes the
  step-up; whatever the bearer is later allowed on an instance is an action some grant covers, on a
  subnet or zone that existed, which the creator was allowed; and the token is served only on routes
  that narrow to its resources and that its scopes cover.\<close>

theorem minted_token_stays_within_creator:
  assumes "parse_uuid K [] = None" "parse_uuid K ''*'' = None"
    "create_token R K (r1, r2, r3) now i raw me body st = (Inr t, st')"
    "\<forall>x \<in> set (tokens st). tk_hash x \<noteq> hash_token K raw" "tc_grants body \<noteq> []"
    "fst (resolve_api_token K later ra w l raw rq st') = Inr u" "user_has_permission u action rtype (Some rid)"
  shows "reverify_operator K me (su_password (tc_stepup body)) (su_totp (tc_stepup body)) = REAUTH_OK \<and>
    route_honours_token_binding rq \<and>
    scope_matches_request (tc_scopes body) (req_method (mr_request rq)) (url_path (mr_request rq))
      (is_read_only_post (mr_request rq)) (is_token_outbound rq) \<and>
    (\<exists>a ri. token_action_ok (JStr a) action \<and> rtype \<in> set TOKEN_GRANT_RESOURCE_TYPES \<and> parse_uuid K rid = Some ri \<and>
       (rtype, ri) \<in> set (instances st) \<and> user_has_permission (acct me) a rtype (Some rid))"
proof -
  obtain scopes grants where s: "validate_scopes (tc_scopes body) = Inr scopes"
    and g: "validate_resource_grant_shape (tc_grants body) = Inr grants"
    and ok: "reverify_operator K me (su_password (tc_stepup body)) (su_totp (tc_stepup body)) = REAUTH_OK"
    and v: "validate_resource_grants K (instances st) (acct me) grants = Inr ()" and st': "tokens st' = tokens st @ [t]"
    and t: "tk_hash t = hash_token K raw" "tk_scopes t = Some scopes" "or_empty (tk_grants t) = map PDict grants"
    by (rule create_tokenD [OF assms(3)])
  have ne: "grants \<noteq> []" using validated_shape [OF g] assms(5) by auto
  have "find P (xs @ [t]) = Some t" if "P t" "\<forall>x \<in> set xs. \<not> P x" for P xs using that by (induction xs) auto
  then have f: "find (\<lambda>x. tk_hash x = hash_token K raw) (tokens st @ [t]) = Some t" using assms(4) t(1) by simp
  obtain x where x: "check_api_token K later raw rq (tokens st') = Inr x"
    using assms(6) by (cases "check_api_token K later raw rq (tokens st')") (auto simp: resolve_api_token_def)
  have chk: "x = t" "scope_matches_request scopes (req_method (mr_request rq)) (url_path (mr_request rq))
      (is_read_only_post (mr_request rq)) (is_token_outbound rq)"
    using x f st' t(2) by (auto simp: check_api_token_def scope_matches_request_def Let_def split: if_splits)
  have bound: "route_honours_token_binding rq" "api_token_resource_grants u = Some (map PDict grants)"
    using assms(6) x chk(1) t(3) ne by (auto simp: resolve_api_token_def Let_def split: option.splits if_splits)
  have "token_grants_allow grants action rtype (Some rid)"
    using assms(7) bound(2) ne dicts_map by (simp add: user_has_permission_iff token_grants_for_def)
  then obtain gr where gr: "gr \<in> set grants" "token_grant_covers gr action rtype (Some rid)"
    by (auto simp: token_grants_allow_iff list_ex_iff)
  obtain a rt r0 where shape: "rt \<in> set TOKEN_GRANT_RESOURCE_TYPES"
    "gr = [''action'' \<mapsto> JStr a, ''resource_type'' \<mapsto> JStr rt, ''resource_id'' \<mapsto> JStr r0]"
    using validated_shape [OF g] gr(1) by (auto simp: list_all_iff bound_grant_def)
  note held = validated_grants [OF v gr(1)]
  have "r0 \<noteq> []" "r0 \<noteq> ''*''" "rt \<noteq> ''*''"
    using held(1) assms(1,2) shape by (auto simp: grant_text_def dict_get_def TOKEN_GRANT_RESOURCE_TYPES_def)
  then have "token_action_ok (JStr a) action" "rt = rtype" "r0 = rid"
    using gr(2) shape(2) by (auto simp: token_grant_covers_def dict_get_def resource_type_matches_def
        resource_id_matches_def any_instance_def)
  moreover have "scope_matches_request (tc_scopes body) (req_method (mr_request rq)) (url_path (mr_request rq))
      (is_read_only_post (mr_request rq)) (is_token_outbound rq)"
    using chk(2) validate_scopes_same(4) [OF s] by simp
  ultimately show ?thesis using ok bound(1) held shape by (auto simp: grant_text_def dict_get_def)
qed

section \<open>Concrete tokens\<close>

text \<open>A superadmin \<open>u\<close> with the password \<open>pw\<close> and a read-only token whose text is \<open>A\<close>.\<close>

definition plain_crypto :: crypto where
  "plain_crypto = \<lparr>verify_password = (=), verify_totp = (\<lambda>_ _. False), hash_token = id,
     parse_uuid = (\<lambda>s. if s = [] \<or> s = ''*'' then None else Some s), iso_text = (\<lambda>_. [])\<rparr>"

definition boss :: account where
  "boss = \<lparr>acct = (plain_user ''u'')\<lparr>is_superadmin := True\<rparr>, group_ids = [], hashed_password = Some ''pw'',
     totp_enabled = False, totp_secret_encrypted = None, force_password_change = False\<rparr>"

definition read_token :: api_token where
  "read_token = \<lparr>tk_id = ''a'', tk_name = ''old'', tk_description = [], tk_hash = ''A'', tk_prefix = ''A'',
     tk_user_id = Some ''u'', tk_scopes = Some [''read''], tk_grants = None, tk_expires_at = None,
     tk_last_used_at = None, tk_active = True\<rparr>"

definition one_token :: "mem auth_state" where
  "one_token = \<lparr>tokens = [read_token], accounts = [boss], grant_rows = [], instances = [(''subnet'', ''s1'')],
     audit_rows = [], redis_store = Map.empty\<rparr>"

definition plain_get :: request where
  "plain_get = \<lparr>req_method = ''GET'', url_path = ''/api/v1/ipam'', scope_route = Some \<lparr>path = ''/ipam'', read_only_post = False\<rparr>,
     path_params = Map.empty, client_host = None, user_agent_header = None\<rparr>"

definition marked_get :: marked_request where
  "marked_get = \<lparr>mr_request = plain_get, endpoint_outbound = False, endpoint_honours_binding = True\<rparr>"

definition no_stepup :: stepup_input where "no_stepup = \<lparr>su_password = None, su_totp = None\<rparr>"

definition rename_body :: token_update where
  "rename_body = \<lparr>tu_name = Some ''new'', tu_description = None, tu_is_active = None, tu_scopes = Some [''read''],
     tu_stepup = no_stepup\<rparr>"

definition boss_via_token :: "json_entry list \<Rightarrow> user" where
  "boss_via_token gs = (acct boss)\<lparr>active_time_bound_grants := Some [], api_token_resource_grants := Some gs\<rparr>"

lemmas concrete_tokens = plain_crypto_def boss_def read_token_def one_token_def plain_get_def marked_get_def
  no_stepup_def rename_body_def boss_via_token_def plain_user_def

lemma read_scope_ok: "scope_matches_request [''read''] ''GET'' ''/api/v1/ipam'' False False"
  by code_simp

lemma read_only_valid: "validate_scopes [''read''] = Inr [''read'']"
  by code_simp

lemma rename_runs:
  "\<exists>t' st'. update_token mem_ops plain_crypto (Answered, Answered, Answered) 0 ''a'' boss plain_get rename_body one_token = (Inr t', st') \<and>
     tk_name t' = ''new'' \<and>
     fst (resolve_api_token plain_crypto 5 True True True ''A'' marked_get st') = Inr (boss_via_token [])"
  using read_scope_ok read_only_valid
  by (simp add: concrete_tokens update_token_def validated_update_def require_owned_def reenables_def
      update_stepup_def widens_def scopes_widen_def apply_changes_def put_token_def add_row_def resolve_api_token_def
      check_api_token_def is_token_outbound_def is_read_only_post_def password_change_required_def Let_def
      load_time_bound_grants_def load_active_grants_for_groups_def token_row_audit_def)

theorem update_never_widens_without_stepup_witness:
  "\<exists>t' st'. update_token mem_ops plain_crypto (Answered, Answered, Answered) 0 ''a'' boss plain_get rename_body one_token = (Inr t', st') \<and>
     fst (resolve_api_token plain_crypto 5 True True True ''A'' marked_get one_token) = Inr (boss_via_token [])"
proof -
  obtain t' st' where u: "update_token mem_ops plain_crypto (Answered, Answered, Answered) 0 ''a'' boss plain_get rename_body one_token = (Inr t', st')"
    "fst (resolve_api_token plain_crypto 5 True True True ''A'' marked_get st') = Inr (boss_via_token [])"
    using rename_runs by blast
  have d: "distinct (map tk_id (tokens one_token))" by (simp add: one_token_def)
  have "reverify_operator plain_crypto boss (su_password (tu_stepup rename_body)) (su_totp (tu_stepup rename_body)) \<noteq> REAUTH_OK"
    by (simp add: concrete_tokens reverify_operator_def uses_local_password_def text_given_def)
  then show ?thesis using update_never_widens_without_stepup [OF d u(1)] u by blast
qed

definition bind_body :: token_create where
  "bind_body = \<lparr>tc_name = ''bound'', tc_description = [], tc_expires_at = None, tc_expires_in_days = Some 1,
     tc_scopes = [''read'', ''read''], tc_grants = [perm ''write'' ''subnet'' (Some ''s1'')],
     tc_stepup = \<lparr>su_password = Some ''pw'', su_totp = None\<rparr>\<rparr>"

lemma mint_runs:
  "\<exists>t st'. create_token mem_ops plain_crypto (Answered, Answered, Answered) 0 ''b'' ''B'' boss bind_body one_token = (Inr t, st') \<and>
     fst (resolve_api_token plain_crypto 5 True True True ''B'' marked_get st') =
       Inr (boss_via_token [perm ''write'' ''subnet'' (Some ''s1'')])"
proof -
  have v: "validate_scopes [''read'', ''read''] = Inr [''read'']" by code_simp
  have g: "validate_resource_grant_shape [perm ''write'' ''subnet'' (Some ''s1'')] =
      Inr [[''action'' \<mapsto> JStr ''write'', ''resource_type'' \<mapsto> JStr ''subnet'', ''resource_id'' \<mapsto> JStr ''s1'']]"
    by (simp add: perm_def dict_get_def in_vocabulary_def TOKEN_GRANT_ACTIONS_def TOKEN_GRANT_RESOURCE_TYPES_def py_strip_def py_isspace_def)
  have p: "user_has_permission (acct boss) ''write'' ''subnet'' (Some ''s1'')"
    by (simp add: concrete_tokens user_has_permission_iff user_rbac_allows_def token_grants_for_def)
  have s: "require_operator_stepup mem_ops plain_crypto (Answered, Answered, Answered) boss (tc_stepup bind_body) sj one_token =
      (Inr ''password'', one_token)" for sj
    by (simp add: require_operator_stepup_def refuse_if_stepup_blocked_def stepup_password_blocked_def rread_def mem_ops_def
        concrete_tokens bind_body_def reverify_operator_def uses_local_password_def text_given_def stepup_method_def)
  show ?thesis
    using v g p s read_scope_ok
    by (simp add: bind_body_def create_token_def resolve_expiry_def hours_def minutes_def seconds_def)
      (simp add: concrete_tokens perm_def dict_get_def Let_def add_row_def resolve_api_token_def
        check_api_token_def is_token_outbound_def is_read_only_post_def password_change_required_def
        record_api_token_use_def put_token_def load_time_bound_grants_def load_active_grants_for_groups_def
        route_honours_token_binding_def)
qed

theorem minted_token_stays_within_creator_witness:
  "\<exists>a. token_action_ok (JStr a) ''read'' \<and> user_has_permission (acct boss) a ''subnet'' (Some ''s1'')"
proof -
  obtain t st' where m: "create_token mem_ops plain_crypto (Answered, Answered, Answered) 0 ''b'' ''B'' boss bind_body one_token = (Inr t, st')"
    "fst (resolve_api_token plain_crypto 5 True True True ''B'' marked_get st') =
       Inr (boss_via_token [perm ''write'' ''subnet'' (Some ''s1'')])" using mint_runs by blast
  have k: "parse_uuid plain_crypto [] = None" "parse_uuid plain_crypto ''*'' = None" by (simp_all add: plain_crypto_def)
  have f: "\<forall>x \<in> set (tokens one_token). tk_hash x \<noteq> hash_token plain_crypto ''B''" by (simp add: concrete_tokens)
  have b: "tc_grants bind_body \<noteq> []" by (simp add: bind_body_def)
  have "user_has_permission (boss_via_token [perm ''write'' ''subnet'' (Some ''s1'')]) ''read'' ''subnet'' (Some ''s1'')"
    by (simp add: concrete_tokens user_has_permission_iff user_rbac_allows_def token_grants_for_def perm_def
        token_action_ok_def dict_get_def resource_type_matches_def resource_id_matches_def)
  then show ?thesis using minted_token_stays_within_creator [OF k m(1) f b m(2)] by blast
qed

end
