(* ===== verification/Dns_Serial.thy ===== *)
theory Dns_Serial
  imports Audit_Log "HOL-Library.Word" "HOL-Library.Code_Target_Nat"
begin

text \<open>
  SOA serials from end to end: the number the control plane gives a zone (\<^verbatim>\<open>services/dns/serial.py\<close>), the
  floor a PowerDNS agent applies before it publishes one (\<^verbatim>\<open>spatium_dns_agent/drivers/powerdns.py\<close>), the
  report of served serials with its adoption rule (\<^verbatim>\<open>api/v1/dns/agents.py\<close>), and the readings of a reported
  serial (\<^verbatim>\<open>services/dns/drift.py\<close>). Serials are unsigned 32-bit numbers compared by RFC 1982.
\<close>

section \<open>Numbering a zone\<close>

definition SERIAL_MODULUS :: int where "SERIAL_MODULUS = 2 ^ 32"

text \<open>\<open>int(now.strftime("%Y%m%d")) * 100\<close>.\<close>

definition today_base :: "py_datetime \<Rightarrow> int" where
  "today_base now = int (year now * 10000 + month now * 100 + day now) * 100"

definition next_serial :: "int \<Rightarrow> py_datetime \<Rightarrow> int" where
  "next_serial current now =
     (let base = today_base now in
      if 1000000000 \<le> current \<and> current \<le> 9999999999
      then (let cur_date = current div 100; cur_nn = current mod 100 in
            if cur_date = base div 100 then (if cur_nn < 99 then current + 1 else current + 1)
            else if base > current then base else current + 1)
      else if base > current then base else current + 1)"

definition compute_next_serial :: "int \<Rightarrow> py_datetime \<Rightarrow> int" where
  "compute_next_serial current now =
     (let nxt = next_serial current now mod SERIAL_MODULUS in if nxt = 0 then 1 else nxt)"

record dns_zone =
  dz_id :: uuid
  dz_name :: string
  zone_type :: "string option"
  last_serial :: "int option"

definition bump_zone_serial :: "dns_zone \<Rightarrow> py_datetime \<Rightarrow> int \<times> dns_zone" where
  "bump_zone_serial z now =
     (let current = (case last_serial z of None \<Rightarrow> 0 | Some s \<Rightarrow> s); nxt = compute_next_serial current now in
      (nxt, z\<lparr>last_serial := Some nxt\<rparr>))"

definition zone_kind :: "string option \<Rightarrow> string" where
  "zone_kind t = (case t of None \<Rightarrow> ''primary'' | Some s \<Rightarrow> if s = [] then ''primary'' else s)"

definition initial_zone_serial :: "string option \<Rightarrow> py_datetime \<Rightarrow> int" where
  "initial_zone_serial t now = (if zone_kind t \<noteq> ''primary'' then 0 else compute_next_serial 0 now)"

section \<open>Comparing serials\<close>

definition serial_later :: "int \<Rightarrow> int \<Rightarrow> bool" where
  "serial_later new old \<longleftrightarrow> 0 < (new - old) mod 2 ^ 32 \<and> (new - old) mod 2 ^ 32 < 2 ^ 31"

definition serial_at_least :: "int \<Rightarrow> int \<Rightarrow> bool" where
  "serial_at_least got want \<longleftrightarrow> got = want \<or> 0 < (got - want) mod 2 ^ 32 \<and> (got - want) mod 2 ^ 32 < 2 ^ 31"

definition zone_state_in_sync :: "dns_zone \<Rightarrow> int \<Rightarrow> int \<Rightarrow> string \<Rightarrow> bool" where
  "zone_state_in_sync z current target driver =
     (if zone_kind (zone_type z) \<in> {''secondary'', ''stub''}
      then (if driver = ''powerdns'' then current \<noteq> 0 else current = target)
      else current = target)"

definition serial_behind :: "dns_zone \<Rightarrow> int \<Rightarrow> int \<Rightarrow> string \<Rightarrow> bool" where
  "serial_behind z current target driver =
     (if zone_kind (zone_type z) \<in> {''secondary'', ''stub''} then \<not> zone_state_in_sync z current target driver
      else current \<noteq> target \<and> (target - current) mod 2 ^ 32 < 2 ^ 31)"

section \<open>The floor of the PowerDNS agent\<close>

text \<open>\<open>content.split()\<close> and \<open>int(text)\<close>; the latter for an optional sign and decimal digits, with
  single underscores between them.\<close>

fun split_ws :: "string \<Rightarrow> string \<Rightarrow> string list" where
  "split_ws acc [] = (if acc = [] then [] else [rev acc])"
| "split_ws acc (c # cs) =
     (if py_isspace c then (if acc = [] then split_ws [] cs else rev acc # split_ws [] cs)
      else split_ws (c # acc) cs)"

fun digit_groups :: "string \<Rightarrow> bool" where
  "digit_groups [] = False"
| "digit_groups [c] = is_digit c"
| "digit_groups (c # d # cs) = (is_digit c \<and> (if d = CHR ''_'' then digit_groups cs else digit_groups (d # cs)))"

definition py_int :: "string \<Rightarrow> int option" where
  "py_int s = (let ds = (case s of [] \<Rightarrow> [] | c # cs \<Rightarrow> if c = CHR ''-'' \<or> c = CHR ''+'' then cs else s) in
     if \<not> digit_groups ds then None
     else let n = int (digits_val (filter is_digit ds) 0) in Some (if s ! 0 = CHR ''-'' then - n else n))"

lemma digit_groups_plain: "list_all is_digit ds \<Longrightarrow> ds \<noteq> [] \<Longrightarrow> digit_groups ds \<and> filter is_digit ds = ds"
proof -
  assume d: "list_all is_digit ds" "ds \<noteq> []"
  then have "digit_groups ds"
    by (induction ds rule: digit_groups.induct) (auto simp: is_digit_def)
  then show "digit_groups ds \<and> filter is_digit ds = ds" using d(1) by (simp add: filter_id_conv list_all_iff)
qed

definition soa_parts :: "string \<Rightarrow> string list option" where
  "soa_parts content = (let parts = split_ws [] content in
     if length parts \<noteq> 7 then None else case py_int (parts ! 2) of None \<Rightarrow> None | Some _ \<Rightarrow> Some parts)"

definition soa_serial :: "string \<Rightarrow> int option" where
  "soa_serial content = (case soa_parts content of None \<Rightarrow> None | Some parts \<Rightarrow> py_int (parts ! 2))"

definition soa_with_serial :: "string \<Rightarrow> int \<Rightarrow> string" where
  "soa_with_serial content serial = (case soa_parts content of None \<Rightarrow> content
     | Some parts \<Rightarrow> py_join '' '' (parts[2 := int_str (serial mod 2 ^ 32)]))"

definition soa_fields :: "string list \<Rightarrow> string list" where
  "soa_fields parts = map (\<lambda>x. py_rstrip_char CHR ''.'' (py_lower x)) (take 2 parts @ drop 3 parts)"

definition soa_same_ignoring_serial :: "string \<Rightarrow> string \<Rightarrow> bool" where
  "soa_same_ignoring_serial a b = (case (soa_parts a, soa_parts b) of
     (Some pa, Some pb) \<Rightarrow> soa_fields pa = soa_fields pb | _ \<Rightarrow> False)"

definition floor_soa_content :: "string \<Rightarrow> string option \<Rightarrow> string" where
  "floor_soa_content desired served =
     (case (soa_serial desired, soa_serial (case served of None \<Rightarrow> [] | Some s \<Rightarrow> s), served) of
        (Some want, Some have', Some s) \<Rightarrow>
          (if serial_later want have' then desired
           else if soa_same_ignoring_serial desired s then s
           else soa_with_serial desired (have' + 1))
      | _ \<Rightarrow> desired)"

section \<open>The report of served serials\<close>

definition SERIAL_ADOPT_HEADROOM :: int where "SERIAL_ADOPT_HEADROOM = 1000000"

definition SERIAL_ADOPT_MAX :: int where "SERIAL_ADOPT_MAX = 2 ^ 31 - 1 - SERIAL_ADOPT_HEADROOM"

record zone_state =
  zs_server_id :: uuid
  zs_zone_id :: uuid
  current_serial :: int
  reported_at :: py_datetime

record serial_db =
  zones :: "dns_zone list"
  zone_states :: "zone_state list"
  audit_rows :: "audit_log list"

definition zone_key :: "string \<Rightarrow> string" where
  "zone_key name = py_lower (py_rstrip_char CHR ''.'' name)"

definition serial_now :: "dns_zone \<Rightarrow> int" where
  "serial_now z = (case last_serial z of None \<Rightarrow> 0 | Some s \<Rightarrow> s)"

text \<open>\<open>serial_by_zone\<close>, a dict in order of first insertion, and the names that are skipped.\<close>

fun match_reports :: "dns_zone list \<Rightarrow> (uuid \<times> int) list \<Rightarrow> nat \<Rightarrow> (string \<times> int) list \<Rightarrow> (uuid \<times> int) list \<times> nat" where
  "match_reports zs acc skipped [] = (acc, skipped)"
| "match_reports zs acc skipped ((name, serial) # es) =
     (case filter (\<lambda>z. zone_key (dz_name z) = zone_key name) zs of
        [z] \<Rightarrow> match_reports zs (dict_put (dz_id z) serial acc) skipped es
      | _ \<Rightarrow> match_reports zs acc (Suc skipped) es)"

definition adopts :: "py_datetime \<Rightarrow> dns_zone \<Rightarrow> int \<Rightarrow> bool" where
  "adopts now z serial \<longleftrightarrow> zone_kind (zone_type z) = ''primary'' \<and>
     serial_later serial (serial_now z) \<and>
     serial \<le> min (max (serial_now z) (today_base now) + SERIAL_ADOPT_HEADROOM) SERIAL_ADOPT_MAX"

definition adoption_audit :: "uuid \<Rightarrow> dns_zone \<Rightarrow> int \<Rightarrow> audit_log" where
  "adoption_audit srv z serial =
     (new_audit_log ''system:dns-agent'' ''dns.zone.serial_adopted'' ''dns_zone'' (dz_id z) (dz_name z))
       \<lparr>al_auth_source := Some ''system'', al_result := Some ''success'',
        new_value := PyDict [(''server_id'', PyStr srv), (''previous_serial'', PyInt (serial_now z)),
          (''serial'', PyInt serial),
          (''reason'', PyStr ''the PowerDNS server serves a later serial than the control plane'')]\<rparr>"

fun adopt_loop :: "py_datetime \<Rightarrow> uuid \<Rightarrow> (uuid \<times> int) list \<Rightarrow> serial_db \<Rightarrow> serial_db" where
  "adopt_loop now srv [] db = db"
| "adopt_loop now srv ((zid, serial) # es) db =
     (case find (\<lambda>z. dz_id z = zid) (zones db) of
        None \<Rightarrow> adopt_loop now srv es db
      | Some z \<Rightarrow>
        (if \<not> adopts now z serial then adopt_loop now srv es db
         else adopt_loop now srv es
           (db\<lparr>zones := map (\<lambda>x. if dz_id x = zid then x\<lparr>last_serial := Some serial\<rparr> else x) (zones db),
               audit_rows := audit_rows db @
                 (if serial_now z = 0 \<and> serial = 1 then [] else [adoption_audit srv z serial])\<rparr>)))"

definition put_state :: "py_datetime \<Rightarrow> uuid \<Rightarrow> uuid \<times> int \<Rightarrow> zone_state list \<Rightarrow> zone_state list" where
  "put_state now srv e sts =
     (if list_ex (\<lambda>st. zs_server_id st = srv \<and> zs_zone_id st = fst e) sts
      then map (\<lambda>st. if zs_server_id st = srv \<and> zs_zone_id st = fst e
             then st\<lparr>current_serial := snd e, reported_at := now\<rparr> else st) sts
      else sts @ [\<lparr>zs_server_id = srv, zs_zone_id = fst e, current_serial = snd e, reported_at = now\<rparr>])"

text \<open>\<open>agent_zone_state\<close>: \<open>zones db\<close> are the live zones of the server's group. The answer counts the zones
  updated and the names skipped.\<close>

definition agent_zone_state :: "py_datetime \<Rightarrow> uuid \<Rightarrow> string \<Rightarrow> (string \<times> int) list \<Rightarrow> serial_db \<Rightarrow>
    (nat \<times> nat) \<times> serial_db" where
  "agent_zone_state now srv driver body db =
     (if body = [] then ((0, 0), db)
      else let (serials, skipped) = match_reports (zones db) [] 0 body;
             db1 = (if driver = ''powerdns'' then adopt_loop now srv serials db else db) in
        ((length serials, skipped),
         db1\<lparr>zone_states := fold (put_state now srv) serials (zone_states db1)\<rparr>))"

section \<open>A new serial is a later serial\<close>

text \<open>The comparison of the code is RFC 1982's, the subtraction of 32-bit words.\<close>

lemma serial_later_word:
  "serial_later a b \<longleftrightarrow> 0 < (word_of_int a - word_of_int b :: 32 word) \<and> (word_of_int a - word_of_int b :: 32 word) < 2 ^ 31"
proof -
  have "uint (word_of_int a - word_of_int b :: 32 word) = (a - b) mod 2 ^ 32"
    by (simp only: of_int_diff [symmetric] uint_word_of_int) simp
  moreover have "uint (2 ^ 31 :: 32 word) = 2 ^ 31" by simp
  ultimately show ?thesis unfolding serial_later_def word_less_def by simp
qed

lemma serial_later_step:
  assumes "0 < n - c" "n - c < 2 ^ 31"
  shows "serial_later n c"
  using assms by (simp add: serial_later_def)

lemma today_base_bound:
  assumes "year now \<le> 2147" "month now \<le> 12" "day now \<le> 31"
  shows "0 \<le> today_base now" "today_base now < 2 ^ 31"
  using assms by (auto simp: today_base_def)

lemma next_serial_cases:
  obtains (base) "next_serial current now = today_base now" "today_base now > current"
    | (step) "next_serial current now = current + 1"
proof -
  have "next_serial current now = today_base now \<and> today_base now > current \<or> next_serial current now = current + 1"
    by (simp add: next_serial_def Let_def)
  then show thesis using that by blast
qed

lemma bump_later:
  assumes "0 \<le> current" "current < 2 ^ 32" "year now \<le> 2147" "month now \<le> 12" "day now \<le> 31"
  shows "1 \<le> compute_next_serial current now" "compute_next_serial current now < 2 ^ 32"
    "serial_later (compute_next_serial current now) current"
proof -
  let ?n = "compute_next_serial current now"
  note b = today_base_bound [OF assms(3-5)]
  have "1 \<le> ?n \<and> ?n < 2 ^ 32 \<and> serial_later ?n current"
  proof (cases current now rule: next_serial_cases)
    case base
    then have "?n = today_base now" using b assms(1) by (simp add: compute_next_serial_def SERIAL_MODULUS_def Let_def)
    then show ?thesis using base(2) b assms(1) serial_later_step [of "today_base now" current] by simp
  next
    case step
    show ?thesis
    proof (cases "current + 1 = 2 ^ 32")
      case True
      then have "?n = 1" "current = 2 ^ 32 - 1" using step by (simp_all add: compute_next_serial_def SERIAL_MODULUS_def)
      then show ?thesis by (simp add: serial_later_def)
    next
      case False
      then have "?n = current + 1" using step assms(1,2) by (simp add: compute_next_serial_def SERIAL_MODULUS_def Let_def)
      then show ?thesis using False assms(1,2) by (simp add: serial_later_def)
    qed
  qed
  then show "1 \<le> ?n" "?n < 2 ^ 32" "serial_later ?n current" by simp_all
qed

text \<open>C26: Every bump moves a zone to a serial that secondaries take for a later one. Up to the end of the year
  2147, whatever 32-bit serial a zone has, the next one is between 1 and the largest 32-bit number and later
  than it in the modular order of 32-bit words, through the wrap-around included; the bump stores what it
  returns.\<close>

theorem bump_is_later_serial:
  assumes "0 \<le> serial_now z" "serial_now z < 2 ^ 32" "year now \<le> 2147" "month now \<le> 12" "day now \<le> 31"
    "bump_zone_serial z now = (n, z')"
  shows "1 \<le> n \<and> n < 2 ^ 32 \<and> z' = z\<lparr>last_serial := Some n\<rparr> \<and> serial_later n (serial_now z) \<and>
    0 < (word_of_int n - word_of_int (serial_now z) :: 32 word) \<and>
    (word_of_int n - word_of_int (serial_now z) :: 32 word) < 2 ^ 31"
  using bump_later [OF assms(1-5)] assms(6) serial_later_word [of n "serial_now z"]
  by (auto simp: bump_zone_serial_def serial_now_def Let_def split: option.splits)

definition new_year_2027 :: py_datetime where
  "new_year_2027 = \<lparr>year = 2027, month = 1, day = 1, hour = 0, minute = 0, second = 0, microsecond = 0\<rparr>"

definition last_zone :: dns_zone where
  "last_zone = \<lparr>dz_id = ''z'', dz_name = ''example.com.'', zone_type = None, last_serial = Some (2 ^ 32 - 1)\<rparr>"

theorem bump_is_later_serial_witness:
  "bump_zone_serial last_zone new_year_2027 = (1, last_zone\<lparr>last_serial := Some 1\<rparr>) \<and> serial_later 1 (2 ^ 32 - 1)"
proof -
  have b: "bump_zone_serial last_zone new_year_2027 = (1, last_zone\<lparr>last_serial := Some 1\<rparr>)"
    by (simp add: bump_zone_serial_def last_zone_def new_year_2027_def compute_next_serial_def next_serial_def
        today_base_def SERIAL_MODULUS_def)
  have "serial_now last_zone = 2 ^ 32 - 1" by (simp add: serial_now_def last_zone_def)
  then show ?thesis using bump_is_later_serial [OF _ _ _ _ _ b] b by (simp add: new_year_2027_def)
qed

text \<open>From 2148 on a zone at serial 0 jumps by more than half the number space.\<close>

lemma serial_horizon:
  "\<not> serial_later (compute_next_serial 0 (new_year_2027\<lparr>year := 2148\<rparr>)) 0"
  by (simp add: compute_next_serial_def next_serial_def today_base_def SERIAL_MODULUS_def serial_later_def new_year_2027_def)

section \<open>The floor\<close>

definition token :: "string \<Rightarrow> bool" where
  "token s \<longleftrightarrow> s \<noteq> [] \<and> list_all (\<lambda>c. \<not> py_isspace c) s"

lemma split_ws_tokens:
  assumes "list_all (\<lambda>c. \<not> py_isspace c) acc"
  shows "list_all token (split_ws acc s)"
  using assms
proof (induction acc s rule: split_ws.induct)
  case (2 acc c cs)
  then show ?case by (cases "py_isspace c"; cases "acc = []") (simp_all add: token_def)
qed (simp add: token_def)

lemma split_ws_token:
  "list_all (\<lambda>c. \<not> py_isspace c) s \<Longrightarrow> split_ws acc (s @ CHR '' '' # rest) =
     (if acc = [] \<and> s = [] then split_ws [] rest else (rev acc @ s) # split_ws [] rest)"
proof (induction s arbitrary: acc)
  case Nil
  have "py_isspace (CHR '' '')" by (simp add: py_isspace_def)
  then show ?case by simp
qed simp

lemma split_ws_end: "list_all (\<lambda>c. \<not> py_isspace c) s \<Longrightarrow> split_ws acc s = (if acc = [] \<and> s = [] then [] else [rev acc @ s])"
  by (induction s arbitrary: acc) simp_all

lemma split_join: "list_all token ts \<Longrightarrow> split_ws [] (py_join '' '' ts) = ts"
proof (induction "'' ''::string" ts rule: py_join.induct)
  case (2 x)
  then show ?case by (simp add: split_ws_end token_def)
next
  case (3 x y zs)
  then show ?case by (simp add: split_ws_token token_def)
qed simp

lemma int_str_token: "0 \<le> i \<Longrightarrow> token (int_str i) \<and> py_int (int_str i) = Some i"
proof -
  assume i: "0 \<le> i"
  let ?d = "nat_digits (nat i)"
  have d: "list_all is_digit ?d" "?d \<noteq> []" "int_str i = ?d"
    using i nat_digits_digits [of "nat i"] by (simp_all add: int_str_def nat_digits.simps [of "nat i"])
  have ns: "is_digit c \<Longrightarrow> \<not> py_isspace c \<and> c \<noteq> CHR ''-'' \<and> c \<noteq> CHR ''+''" for c
    by (auto simp: is_digit_def py_isspace_def Let_def)
  obtain c cs where c: "?d = c # cs" using d(2) by (cases ?d) auto
  have "digits_val ?d 0 = nat i" by (rule digits_val_nat_digits)
  then have "py_int ?d = Some i" using i d(1) ns [of c] digit_groups_plain [OF d(1,2)] by (simp add: py_int_def Let_def c)
  moreover have "token ?d" using d(1,2) ns by (auto simp: token_def list_all_iff)
  ultimately show ?thesis using d(3) by simp
qed

lemma soa_with_serial_serial:
  assumes "soa_serial content = Some want"
  shows "soa_serial (soa_with_serial content n) = Some (n mod 2 ^ 32)"
    "soa_same_ignoring_serial (soa_with_serial content n) content"
proof -
  from assms obtain parts where p: "soa_parts content = Some parts" by (auto simp: soa_serial_def split: option.splits)
  then have parts: "parts = split_ws [] content" "length parts = 7"
    by (auto simp: soa_parts_def Let_def split: if_splits option.splits)
  let ?new = "parts[2 := int_str (n mod 2 ^ 32)]"
  have t: "token (int_str (n mod 2 ^ 32))" "py_int (int_str (n mod 2 ^ 32)) = Some (n mod 2 ^ 32)"
    using int_str_token [of "n mod 2 ^ 32"] by simp_all
  have "list_all token parts" unfolding parts(1) by (rule split_ws_tokens) simp
  then have "list_all token ?new" using t(1) set_update_subset_insert [of parts 2] by (fastforce simp: list_all_iff)
  then have "split_ws [] (py_join '' '' ?new) = ?new" by (rule split_join)
  moreover have "soa_with_serial content n = py_join '' '' ?new" by (simp add: soa_with_serial_def p)
  ultimately have new: "soa_parts (soa_with_serial content n) = Some ?new"
    using t(2) parts(2) by (simp add: soa_parts_def Let_def)
  show "soa_serial (soa_with_serial content n) = Some (n mod 2 ^ 32)"
    using t(2) parts(2) by (simp add: soa_serial_def new)
  show "soa_same_ignoring_serial (soa_with_serial content n) content"
    by (simp add: soa_same_ignoring_serial_def new p soa_fields_def)
qed

text \<open>C25: A PowerDNS server is never told to go back. Whatever SOA the control plane asks for, the one the agent
  publishes over a served SOA has the served serial or a later one; the very serial asked for when that is
  later; and a strictly later serial whenever name server, contact or timers change, so that a secondary
  sees the change. Its other fields are those asked for.\<close>

theorem published_serial_never_regresses:
  assumes "soa_serial desired = Some want" "soa_serial served = Some have'" "0 \<le> have'" "have' < 2 ^ 32"
  shows "\<exists>r. soa_serial (floor_soa_content desired (Some served)) = Some r \<and> serial_at_least r have' \<and>
    (serial_later want have' \<longrightarrow> floor_soa_content desired (Some served) = desired) \<and>
    (\<not> soa_same_ignoring_serial desired served \<longrightarrow> serial_later r have') \<and>
    soa_same_ignoring_serial (floor_soa_content desired (Some served)) desired"
proof -
  have refl: "soa_same_ignoring_serial c c" if "soa_serial c = Some i" for c i
    using that by (auto simp: soa_same_ignoring_serial_def soa_serial_def split: option.splits)
  have sym: "soa_same_ignoring_serial b a" if "soa_same_ignoring_serial a b" for a b
    using that by (auto simp: soa_same_ignoring_serial_def split: option.splits)
  have wrap: "serial_later ((have' + 1) mod 2 ^ 32) have'"
    by (simp add: serial_later_def mod_diff_left_eq)
  consider (later) "serial_later want have'" | (same) "\<not> serial_later want have'" "soa_same_ignoring_serial desired served"
    | (changed) "\<not> serial_later want have'" "\<not> soa_same_ignoring_serial desired served" by blast
  then show ?thesis
  proof cases
    case later
    then have "floor_soa_content desired (Some served) = desired" using assms(1,2) by (simp add: floor_soa_content_def)
    then show ?thesis using later assms(1) refl [OF assms(1)] by (auto simp: serial_at_least_def serial_later_def)
  next
    case same
    then have "floor_soa_content desired (Some served) = served" using assms(1,2) by (simp add: floor_soa_content_def)
    then show ?thesis using same assms(2) sym [OF same(2)] by (auto simp: serial_at_least_def)
  next
    case changed
    then have "floor_soa_content desired (Some served) = soa_with_serial desired (have' + 1)"
      using assms(1,2) by (simp add: floor_soa_content_def)
    then show ?thesis using changed wrap soa_with_serial_serial [OF assms(1), of "have' + 1"]
      by (auto simp: serial_at_least_def serial_later_def)
  qed
qed

theorem published_serial_never_regresses_witness:
  "\<exists>r. soa_serial (floor_soa_content ''ns1. admin. 5 1 1 1 60'' (Some ''ns2. admin. 2026010105 1 1 1 60'')) = Some r \<and>
     serial_later r 2026010105"
proof -
  have s: "soa_serial ''ns1. admin. 5 1 1 1 60'' = Some 5" "soa_serial ''ns2. admin. 2026010105 1 1 1 60'' = Some 2026010105"
    "\<not> soa_same_ignoring_serial ''ns1. admin. 5 1 1 1 60'' ''ns2. admin. 2026010105 1 1 1 60''"
    by code_simp+
  show ?thesis using published_serial_never_regresses [OF s(1,2)] s(3) by auto
qed

section \<open>What a report changes\<close>

lemma dict_put_keys: "fst ` set (dict_put k v kvs) = insert k (fst ` set kvs)"
  by (induction k v kvs rule: dict_put.induct) auto

lemma dict_put_distinct: "distinct (map fst kvs) \<Longrightarrow> distinct (map fst (dict_put k v kvs))"
  by (induction k v kvs rule: dict_put.induct) (auto simp: dict_put_keys)

lemma dict_put_set: "(k', v') \<in> set (dict_put k v kvs) \<Longrightarrow> k' = k \<and> v' = v \<or> (k', v') \<in> set kvs"
  by (induction k v kvs rule: dict_put.induct) (auto split: if_splits)

lemma match_reports_dict:
  assumes "match_reports zs acc n body = (serials, m)" "distinct (map fst acc)"
  shows "distinct (map fst serials)"
    "(i, s) \<in> set serials \<Longrightarrow> (i, s) \<in> set acc \<or>
      (\<exists>z name. z \<in> set zs \<and> dz_id z = i \<and> (name, s) \<in> set body \<and> zone_key name = zone_key (dz_name z))"
proof -
  have "distinct (map fst serials) \<and> (\<forall>i s. (i, s) \<in> set serials \<longrightarrow> (i, s) \<in> set acc \<or>
      (\<exists>z name. z \<in> set zs \<and> dz_id z = i \<and> (name, s) \<in> set body \<and> zone_key name = zone_key (dz_name z)))"
    using assms
  proof (induction zs acc n body arbitrary: serials rule: match_reports.induct)
    case (2 zs acc n name serial es)
    show ?case
    proof (cases "\<exists>z. filter (\<lambda>z. zone_key (dz_name z) = zone_key name) zs = [z]")
      case True
      then obtain z where f: "filter (\<lambda>z. zone_key (dz_name z) = zone_key name) zs = [z]" by blast
      have "z \<in> set (filter (\<lambda>z. zone_key (dz_name z) = zone_key name) zs)" unfolding f by simp
      then have z: "z \<in> set zs" "zone_key (dz_name z) = zone_key name" by simp_all
      have "match_reports zs (dict_put (dz_id z) serial acc) n es = (serials, m)" using "2.prems"(1) f by simp
      from "2.IH"(2) [OF f refl this dict_put_distinct [OF "2.prems"(2)]] show ?thesis
        using z dict_put_set [of _ _ "dz_id z" serial acc] by (metis list.set_intros(1,2))
    next
      case False
      then have "match_reports zs acc (Suc n) es = (serials, m)" using "2.prems"(1) by (auto split: list.splits)
      moreover have "distinct (map fst serials) \<and> (\<forall>i s. (i, s) \<in> set serials \<longrightarrow> (i, s) \<in> set acc \<or>
          (\<exists>z na. z \<in> set zs \<and> dz_id z = i \<and> (na, s) \<in> set es \<and> zone_key na = zone_key (dz_name z)))"
      proof (cases "filter (\<lambda>z. zone_key (dz_name z) = zone_key name) zs")
        case Nil
        from "2.IH"(1) [OF Nil calculation "2.prems"(2)] show ?thesis .
      next
        case (Cons a list)
        then obtain b list' where "list = b # list'" using False by (cases list) auto
        from "2.IH"(3) [OF Cons this calculation "2.prems"(2)] show ?thesis .
      qed
      ultimately show ?thesis by (metis list.set_intros(2))
    qed
  qed auto
  then show "distinct (map fst serials)" "(i, s) \<in> set serials \<Longrightarrow> (i, s) \<in> set acc \<or>
      (\<exists>z name. z \<in> set zs \<and> dz_id z = i \<and> (name, s) \<in> set body \<and> zone_key name = zone_key (dz_name z))" by blast+
qed

lemma mono_elems:
  assumes "list_all2 P xs ys" "\<And>x y. x \<in> set xs \<Longrightarrow> P x y \<Longrightarrow> Q x y"
  shows "list_all2 Q xs ys"
  using assms by (induction xs ys rule: list_all2_induct) auto

text \<open>How a report may change one zone.\<close>

definition moved_forward :: "py_datetime \<Rightarrow> (uuid \<times> int) list \<Rightarrow> dns_zone \<Rightarrow> dns_zone \<Rightarrow> bool" where
  "moved_forward now serials z z' \<longleftrightarrow> z' = z \<or>
     (\<exists>s. (dz_id z, s) \<in> set serials \<and> adopts now z s \<and> z' = z\<lparr>last_serial := Some s\<rparr>)"

lemma adopt_loop_zones:
  assumes "distinct (map fst serials)" "distinct (map dz_id (zones db))"
  shows "list_all2 (moved_forward now serials) (zones db) (zones (adopt_loop now srv serials db))"
  using assms
proof (induction serials arbitrary: db)
  case Nil
  then show ?case by (simp add: moved_forward_def list_all2_same)
next
  case (Cons e es)
  obtain i s where e: "e = (i, s)" by (cases e)
  have weaken: "list_all2 (moved_forward now (e # es)) xs ys" if "list_all2 (moved_forward now es) xs ys" for xs ys
    by (rule list_all2_mono [OF that]) (auto simp: moved_forward_def)
  show ?case
  proof (cases "find (\<lambda>z. dz_id z = i) (zones db)")
    case None
    then show ?thesis using Cons.IH [of db] Cons.prems weaken by (simp add: e)
  next
    case (Some z)
    show ?thesis
    proof (cases "adopts now z s")
      case False
      then show ?thesis using Some Cons.IH [of db] Cons.prems weaken by (simp add: e)
    next
      case True
      let ?f = "\<lambda>x. if dz_id x = i then x\<lparr>last_serial := Some s\<rparr> else x"
      let ?db = "db\<lparr>zones := map ?f (zones db), audit_rows := audit_rows db @
        (if serial_now z = 0 \<and> s = 1 then [] else [adoption_audit srv z s])\<rparr>"
      have z: "z \<in> set (zones db)" "dz_id z = i" using find_SomeD [OF Some] by simp_all
      have uniq: "x = z" if "x \<in> set (zones db)" "dz_id x = i" for x
        using that z Cons.prems(2) by (metis distinct_map inj_on_eq_iff)
      have ids: "map dz_id (zones ?db) = map dz_id (zones db)" by simp
      have "list_all2 (moved_forward now es) (zones ?db) (zones (adopt_loop now srv es ?db))"
        by (rule Cons.IH) (use Cons.prems ids in \<open>simp_all only: list.map distinct.simps\<close>)
      then have "list_all2 (\<lambda>x. moved_forward now es (?f x)) (zones db) (zones (adopt_loop now srv es ?db))"
        by (simp add: list_all2_map1)
      then have "list_all2 (moved_forward now (e # es)) (zones db) (zones (adopt_loop now srv es ?db))"
      proof (rule mono_elems)
        fix x y assume x: "x \<in> set (zones db)" and m: "moved_forward now es (?f x) y"
        show "moved_forward now (e # es) x y"
        proof (cases "dz_id x = i")
          case True
          have "i \<notin> fst ` set es" using Cons.prems(1) by (simp add: e)
          then have "y = x\<lparr>last_serial := Some s\<rparr>" using m True by (auto simp: moved_forward_def image_iff)
          then show ?thesis using \<open>adopts now z s\<close> uniq [OF x True] True by (auto simp: moved_forward_def e)
        next
          case False
          then show ?thesis using m by (auto simp: moved_forward_def e)
        qed
      qed
      then show ?thesis using Some True by (simp add: e)
    qed
  qed
qed

lemma put_state_row:
  "\<exists>st \<in> set (put_state now srv e sts). zs_server_id st = srv \<and> zs_zone_id st = fst e \<and> current_serial st = snd e"
proof (cases "list_ex (\<lambda>st. zs_server_id st = srv \<and> zs_zone_id st = fst e) sts")
  case True
  then obtain st where st: "st \<in> set sts" "zs_server_id st = srv" "zs_zone_id st = fst e" by (auto simp: list_ex_iff)
  then have "st\<lparr>current_serial := snd e, reported_at := now\<rparr> \<in> set (put_state now srv e sts)"
    using True by (force simp: put_state_def)
  then show ?thesis by (rule bexI [rotated]) (use st in simp)
qed (auto simp: put_state_def)

lemma put_state_other:
  assumes "st \<in> set sts" "zs_zone_id st \<noteq> fst e"
  shows "st \<in> set (put_state now srv e sts)"
  using assms by (force simp: put_state_def)

lemma fold_put_state:
  assumes "distinct (map fst serials)" "e \<in> set serials"
  shows "\<exists>st \<in> set (fold (put_state now srv) serials sts).
    zs_server_id st = srv \<and> zs_zone_id st = fst e \<and> current_serial st = snd e"
proof -
  have later: "st \<in> set (fold (put_state now srv) es sts)" if "st \<in> set sts" "zs_zone_id st \<notin> fst ` set es" for es st sts
    using that by (induction es arbitrary: sts) (auto simp: put_state_other)
  obtain as bs where s: "serials = as @ e # bs" using split_list [OF assms(2)] by blast
  let ?mid = "put_state now srv e (fold (put_state now srv) as sts)"
  obtain st where st: "st \<in> set ?mid" "zs_server_id st = srv" "zs_zone_id st = fst e" "current_serial st = snd e"
    using put_state_row by blast
  have "fst e \<notin> fst ` set bs" using assms(1) by (simp add: s)
  then show ?thesis using later [OF st(1), of bs] st by (auto simp: s)
qed

text \<open>A report moves a zone's serial only forward and only within bounds. Every zone of the group keeps its
  row, or, when a PowerDNS server reports a later serial for a primary zone, takes exactly a serial that was
  reported under its name, never one past the ceiling; and each zone the report names once has a state row
  of this server with the reported serial.\<close>

theorem serial_report_forward_only:
  assumes "agent_zone_state now srv driver body db = (ans, db')" "distinct (map dz_id (zones db))" "body \<noteq> []"
  shows "list_all2 (\<lambda>z z'. z' = z \<or> driver = ''powerdns'' \<and> zone_kind (zone_type z) = ''primary'' \<and>
      (\<exists>s name. (name, s) \<in> set body \<and> zone_key name = zone_key (dz_name z) \<and> z' = z\<lparr>last_serial := Some s\<rparr> \<and>
        serial_later s (serial_now z) \<and> s \<le> SERIAL_ADOPT_MAX \<and>
        s \<le> max (serial_now z) (today_base now) + SERIAL_ADOPT_HEADROOM)) (zones db) (zones db') \<and>
    (\<forall>(i, s) \<in> set (fst (match_reports (zones db) [] 0 body)).
       \<exists>st \<in> set (zone_states db'). zs_server_id st = srv \<and> zs_zone_id st = i \<and> current_serial st = s)"
proof -
  obtain serials n where m: "match_reports (zones db) [] 0 body = (serials, n)" by fastforce
  have d: "distinct (map fst serials)" by (rule match_reports_dict(1) [OF m]) simp
  have named: "\<exists>name. (name, s) \<in> set body \<and> zone_key name = zone_key (dz_name z)"
    if "(dz_id z, s) \<in> set serials" "z \<in> set (zones db)" for z s
    using match_reports_dict(2) [OF m _ that(1)] that(2) assms(2)
    by (auto simp: distinct_map inj_on_def)
  have zs: "zones db' = (if driver = ''powerdns'' then zones (adopt_loop now srv serials db) else zones db)"
    and st: "\<exists>sts. zone_states db' = fold (put_state now srv) serials sts"
    using assms(1,3) m by (auto simp: agent_zone_state_def Let_def split: if_splits)
  have "list_all2 (\<lambda>z z'. z' = z \<or> driver = ''powerdns'' \<and> zone_kind (zone_type z) = ''primary'' \<and>
      (\<exists>s name. (name, s) \<in> set body \<and> zone_key name = zone_key (dz_name z) \<and> z' = z\<lparr>last_serial := Some s\<rparr> \<and>
        serial_later s (serial_now z) \<and> s \<le> SERIAL_ADOPT_MAX \<and>
        s \<le> max (serial_now z) (today_base now) + SERIAL_ADOPT_HEADROOM)) (zones db) (zones db')"
  proof (cases "driver = ''powerdns''")
    case True
    then have "list_all2 (moved_forward now serials) (zones db) (zones db')"
      using adopt_loop_zones [OF d assms(2), of now srv] zs by simp
    then show ?thesis
      by (rule mono_elems) (use True named in \<open>auto simp: moved_forward_def adopts_def, blast\<close>)
  qed (simp add: zs list_all2_same)
  moreover have "\<exists>x \<in> set (zone_states db'). zs_server_id x = srv \<and> zs_zone_id x = i \<and> current_serial x = s"
    if "(i, s) \<in> set serials" for i s
    using st fold_put_state [OF d that] by fastforce
  ultimately show ?thesis using m by auto
qed

definition served_db :: serial_db where
  "served_db = \<lparr>zones = [last_zone\<lparr>last_serial := Some 2026010100\<rparr>], zone_states = [], audit_rows = []\<rparr>"

theorem serial_report_forward_only_witness:
  "\<exists>ans db'. agent_zone_state new_year_2027 ''srv'' ''powerdns'' [(''EXAMPLE.com'', 2026010107)] served_db = (ans, db') \<and>
     map last_serial (zones db') = [Some 2026010107] \<and>
     (\<exists>st \<in> set (zone_states db'). zs_zone_id st = ''z'' \<and> current_serial st = 2026010107)"
proof -
  obtain ans db' where a: "agent_zone_state new_year_2027 ''srv'' ''powerdns'' [(''EXAMPLE.com'', 2026010107)] served_db = (ans, db')"
    by fastforce
  have d: "distinct (map dz_id (zones served_db))" by (simp add: served_db_def)
  have "map last_serial (zones (snd (agent_zone_state new_year_2027 ''srv'' ''powerdns'' [(''EXAMPLE.com'', 2026010107)] served_db))) =
      [Some 2026010107]" "(''z'', 2026010107) \<in> set (fst (match_reports (zones served_db) [] 0 [(''EXAMPLE.com'', 2026010107)]))"
    by code_simp+
  then show ?thesis using serial_report_forward_only [OF a d] a by fastforce
qed

text \<open>A zone past the ceiling never catches up: neither the server's serial is adopted nor is the server read
  as behind.\<close>

lemma adoption_stops_at_ceiling:
  assumes "SERIAL_ADOPT_MAX < s"
  shows "\<not> adopts now z s"
  using assms by (simp add: adopts_def)

end
