(* ===== verification/Dns_Records.thy ===== *)
theory Dns_Records
  imports Json "HOL-Library.Code_Target_Nat"
begin

text \<open>
  Record identity, the CNAME rule and the RRset an operation carries: \<^verbatim>\<open>services/dns/record_identity.py\<close>,
  \<^verbatim>\<open>services/dns/cname_conflict.py\<close> and \<^verbatim>\<open>services/dns/rrset.py\<close>. A table is the list of its live rows.
\<close>

section \<open>Rows\<close>

record dns_record =
  rec_id :: uuid
  rec_zone_id :: uuid
  rec_view_id :: "uuid option"
  rec_name :: string
  rec_fqdn :: string
  rec_type :: string
  rec_value :: string
  rec_ttl :: "int option"
  rec_priority :: "int option"
  rec_weight :: "int option"
  rec_port :: "int option"
  rec_created_at :: datetime
  rec_owners :: "(string \<times> uuid) list"

text \<open>PostgreSQL's \<open>btrim(text)\<close>, which takes off blanks only.\<close>

definition btrim :: "string \<Rightarrow> string" where
  "btrim s = rev (dropWhile (\<lambda>c. c = CHR '' '') (rev (dropWhile (\<lambda>c. c = CHR '' '') s)))"

definition find_identical_record :: "dns_record list \<Rightarrow> uuid \<Rightarrow> uuid option \<Rightarrow> string \<Rightarrow> string \<Rightarrow> string \<Rightarrow>
    int option \<Rightarrow> int option \<Rightarrow> int option \<Rightarrow> uuid option \<Rightarrow> dns_record option" where
  "find_identical_record table zid view name rtype value prio weight port exclude =
     find (\<lambda>r. rec_zone_id r = zid \<and> rec_view_id r = view \<and> py_lower (rec_name r) = py_lower name \<and>
       py_upper (rec_type r) = py_upper rtype \<and> btrim (rec_value r) = py_strip value \<and>
       rec_priority r = prio \<and> rec_weight r = weight \<and> rec_port r = port \<and>
       (case exclude of None \<Rightarrow> True | Some x \<Rightarrow> rec_id r \<noteq> x)) table"

section \<open>The CNAME rule\<close>

definition APEX_CNAME_DETAIL :: string where
  "APEX_CNAME_DETAIL = ''A CNAME cannot be at the zone apex: the apex always holds the zone'' @ squote @ ''s SOA '' @
     ''and NS records, and a CNAME must be the only record at its name (RFC 1034 '' @
     ''section 3.6.2, RFC 2181 section 10.1). Use A / AAAA records at the apex, '' @
     ''or an ALIAS where the group'' @ squote @ ''s servers support one.''"

definition is_apex :: "string \<Rightarrow> bool" where
  "is_apex name \<longleftrightarrow> py_strip name = [] \<or> py_strip name = ''@''"

definition views_overlap :: "uuid option \<Rightarrow> uuid option \<Rightarrow> bool" where
  "views_overlap a b \<longleftrightarrow> a = None \<or> b = None \<or> a = b"

definition is_cname :: "string \<Rightarrow> bool" where
  "is_cname t \<longleftrightarrow> py_upper (py_strip t) = ''CNAME''"

definition types_conflict :: "string \<Rightarrow> string \<Rightarrow> bool" where
  "types_conflict t u \<longleftrightarrow> is_cname t \<or> is_cname u"

definition find_cname_conflict :: "dns_record list \<Rightarrow> uuid \<Rightarrow> uuid option \<Rightarrow> string \<Rightarrow> string \<Rightarrow> uuid option \<Rightarrow>
    dns_record option" where
  "find_cname_conflict table zid view name rtype exclude =
     (case sort_key rec_created_at (filter (\<lambda>r. rec_zone_id r = zid \<and> py_lower (rec_name r) = py_lower (py_strip name) \<and>
         (view = None \<or> rec_view_id r = None \<or> rec_view_id r = view) \<and>
         (is_cname rtype \<or> py_upper (rec_type r) = ''CNAME'') \<and>
         (case exclude of None \<Rightarrow> True | Some x \<Rightarrow> rec_id r \<noteq> x)) table) of
        [] \<Rightarrow> None | r # _ \<Rightarrow> Some r)"

definition find_record_insert_conflict :: "dns_record list \<Rightarrow> uuid \<Rightarrow> string \<Rightarrow> string \<Rightarrow> string \<Rightarrow> uuid \<Rightarrow> dns_record option" where
  "find_record_insert_conflict table zid name rtype own_fk own_id =
     (let rt = py_upper (py_strip rtype) in
      find (\<lambda>r. map_of (rec_owners r) own_fk \<noteq> Some own_id \<and>
          (py_upper (py_strip (rec_type r)) = rt \<or> types_conflict rt (rec_type r)))
        (sort_key rec_created_at (filter (\<lambda>r. rec_zone_id r = zid \<and> py_lower (rec_name r) = py_lower (py_strip name)) table)))"

definition describe :: "string \<Rightarrow> string \<Rightarrow> string \<Rightarrow> string \<Rightarrow> uuid option \<Rightarrow> string" where
  "describe rtype fqdn other_type other_value other_id =
     (let name = py_rstrip_char CHR ''.'' fqdn; rt = py_upper (py_strip rtype);
          ref = (case other_id of None \<Rightarrow> [] | Some i \<Rightarrow> '' (id '' @ i @ '')'');
          what = (if py_upper other_type = ''CNAME''
            then (if rt = ''CNAME''
                  then name @ '' already has a CNAME to '' @ other_value @ ref @ '', and a name holds at most one CNAME''
                  else name @ '' is a CNAME to '' @ other_value @ ref @ '', so it can hold no '' @ rt @ '' record'')
            else name @ '' already holds data ('' @ other_type @ '' '' @ other_value @ ref @ ''), so it cannot take a CNAME'') in
      what @ ''. A CNAME must be the only record at its name (RFC 1034 section '' @
        ''3.6.2, RFC 2181 section 10.1); PowerDNS and BIND both refuse a zone '' @
        ''that breaks this, and the server stops applying it.'')"

definition describe_cname_conflict :: "string \<Rightarrow> string \<Rightarrow> dns_record \<Rightarrow> string" where
  "describe_cname_conflict rtype fqdn existing = describe rtype fqdn (rec_type existing) (rec_value existing) (Some (rec_id existing))"

record name_row =
  nr_name :: string
  nr_type :: string
  nr_value :: string
  nr_view_id :: "uuid option"

definition rel :: "string \<Rightarrow> string" where
  "rel name = (let n = py_rstrip_char CHR ''.'' (py_lower (py_strip name)) in if n = [] then ''@'' else n)"

definition meet :: "name_row \<Rightarrow> name_row \<Rightarrow> bool" where
  "meet a b \<longleftrightarrow> rel (nr_name a) = rel (nr_name b) \<and> views_overlap (nr_view_id a) (nr_view_id b) \<and>
     types_conflict (nr_type a) (nr_type b)"

text \<open>The first pass: data rows that meet a row that stays.\<close>

definition refused_data :: "name_row list \<Rightarrow> name_row list \<Rightarrow> (nat \<times> string) list" where
  "refused_data new standing = List.map_filter (\<lambda>(i, row).
     if is_cname (nr_type row) then None
     else map_option (\<lambda>st. (i, describe (nr_type row) (nr_name row) (nr_type st) (nr_value st) None))
       (find (meet row) standing)) (enumerate 0 new)"

text \<open>The second pass: CNAMEs, in order, with the ones kept so far.\<close>

definition cname_rival :: "name_row list \<Rightarrow> name_row list \<Rightarrow> (nat \<times> string) list \<Rightarrow> name_row list \<Rightarrow> nat \<Rightarrow> name_row \<Rightarrow>
    name_row option" where
  "cname_rival new standing refused kept i row =
     (case find (meet row) standing of Some st \<Rightarrow> Some st
      | None \<Rightarrow> (case find (\<lambda>(j, r). j \<notin> fst ` set refused \<and> j \<noteq> i \<and> meet row r \<and> \<not> is_cname (nr_type r)) (enumerate 0 new) of
           Some (_, r) \<Rightarrow> Some r
         | None \<Rightarrow> find (meet row) kept))"

fun refuse_cnames :: "name_row list \<Rightarrow> name_row list \<Rightarrow> (nat \<times> string) list \<Rightarrow> name_row list \<Rightarrow> (nat \<times> name_row) list \<Rightarrow>
    (nat \<times> string) list" where
  "refuse_cnames new standing refused kept [] = refused"
| "refuse_cnames new standing refused kept ((i, row) # rows) =
     (if \<not> is_cname (nr_type row) then refuse_cnames new standing refused kept rows
      else if is_apex (nr_name row) then refuse_cnames new standing (refused @ [(i, APEX_CNAME_DETAIL)]) kept rows
      else case cname_rival new standing refused kept i row of
        Some r \<Rightarrow> refuse_cnames new standing
          (refused @ [(i, describe ''CNAME'' (nr_name row) (nr_type r) (nr_value r) None)]) kept rows
      | None \<Rightarrow> refuse_cnames new standing refused (kept @ [row]) rows)"

definition refused_by_cname_rule :: "name_row list \<Rightarrow> name_row list \<Rightarrow> (nat \<times> string) list" where
  "refused_by_cname_rule new standing =
     refuse_cnames new standing (refused_data new standing) [] (enumerate 0 new)"

section \<open>The RRset an operation carries\<close>

definition DNS_TTL_MAX :: int where "DNS_TTL_MAX = 2 ^ 31 - 1"

definition ZONE_DEFAULT_TTL :: int where "ZONE_DEFAULT_TTL = 3600"

definition servable_ttl :: "int option \<Rightarrow> int option" where
  "servable_ttl t = (case t of None \<Rightarrow> None | Some n \<Rightarrow> if n < 0 \<or> n > DNS_TTL_MAX then None else Some n)"

definition RRSET_OPS :: "string list" where "RRSET_OPS = [''create'', ''update'', ''delete'']"

record rr_member =
  mb_value :: string
  mb_ttl :: "int option"
  mb_priority :: "int option"
  mb_weight :: "int option"
  mb_port :: "int option"
  mb_id :: "uuid option"

text \<open>The wire form of a set: one TTL and the members without TTL and id.\<close>

record rrset =
  rs_ttl :: int
  rs_members :: "(string \<times> int option \<times> int option \<times> int option) list"

record op_record =
  or_type :: "string option"
  or_name :: "string option"
  or_value :: "string option"
  or_ttl :: "int option"
  or_priority :: "int option"
  or_weight :: "int option"
  or_port :: "int option"
  or_record_id :: "uuid option"
  or_rrset_action :: "string option"
  or_rrset :: "rrset option"

record record_op =
  ro_op :: string
  ro_record :: op_record

definition rrset_key :: "op_record \<Rightarrow> (string \<times> string) option" where
  "rrset_key r = (case or_type r of None \<Rightarrow> None
     | Some t \<Rightarrow> if t = [] \<or> t = ''DNSSEC_OP'' then None
         else Some (py_lower (case or_name r of None \<Rightarrow> ''@'' | Some n \<Rightarrow> if n = [] then ''@'' else n), py_upper t))"

definition rrset_target :: "string \<Rightarrow> op_record \<Rightarrow> (string \<times> string) option" where
  "rrset_target op r = (if op \<notin> set RRSET_OPS \<or> or_value r = None then None else rrset_key r)"

definition row_member :: "dns_record \<Rightarrow> rr_member" where
  "row_member r = \<lparr>mb_value = rec_value r, mb_ttl = rec_ttl r, mb_priority = rec_priority r, mb_weight = rec_weight r,
     mb_port = rec_port r, mb_id = Some (rec_id r)\<rparr>"

definition op_member :: "op_record \<Rightarrow> rr_member" where
  "op_member r = \<lparr>mb_value = (case or_value r of None \<Rightarrow> [] | Some v \<Rightarrow> v), mb_ttl = or_ttl r, mb_priority = or_priority r,
     mb_weight = or_weight r, mb_port = or_port r, mb_id = or_record_id r\<rparr>"

definition same_rr :: "rr_member \<Rightarrow> rr_member \<Rightarrow> bool" where
  "same_rr a b \<longleftrightarrow> py_strip (mb_value a) = py_strip (mb_value b) \<and> mb_priority a = mb_priority b \<and>
     mb_weight a = mb_weight b \<and> mb_port a = mb_port b"

definition row_key :: "dns_record \<Rightarrow> string \<times> string" where
  "row_key r = (py_lower (if rec_name r = [] then ''@'' else rec_name r), py_upper (rec_type r))"

text \<open>The live members of one key; the query asks for the keys' names, in chunks.\<close>

definition resolve_rrsets :: "dns_record list \<Rightarrow> uuid \<Rightarrow> (string \<times> string) list \<Rightarrow> string \<times> string \<Rightarrow> rr_member list" where
  "resolve_rrsets table zid keys k = (if k \<notin> set keys then []
     else map row_member (filter (\<lambda>r. rec_zone_id r = zid \<and> py_lower (rec_name r) \<in> fst ` set keys \<and> row_key r = k) table))"

fun unique_members :: "rr_member list \<Rightarrow> rr_member list \<Rightarrow> rr_member list" where
  "unique_members kept [] = kept"
| "unique_members kept (m # ms) = unique_members (if list_ex (same_rr m) kept then kept else kept @ [m]) ms"

definition fold_op :: "string \<Rightarrow> op_record \<Rightarrow> rr_member list \<Rightarrow> rr_member list" where
  "fold_op op r members =
     (let own = op_member r;
          desired = (if op = ''delete'' \<and> mb_id own \<noteq> None then filter (\<lambda>m. mb_id m \<noteq> mb_id own) members
            else filter (\<lambda>m. \<not> same_rr m own) members @ (if op \<noteq> ''delete'' then [own] else []))
      in unique_members [] desired)"

definition rrset_payload :: "rr_member list \<Rightarrow> int option \<Rightarrow> rrset" where
  "rrset_payload members zone_ttl =
     (let default = (case servable_ttl zone_ttl of None \<Rightarrow> ZONE_DEFAULT_TTL | Some t \<Rightarrow> t);
          ttls = map (\<lambda>m. case servable_ttl (mb_ttl m) of None \<Rightarrow> default | Some t \<Rightarrow> t) members in
      \<lparr>rs_ttl = (case ttls of [] \<Rightarrow> default | t # ts \<Rightarrow> fold min ts t),
       rs_members = map (\<lambda>m. (mb_value m, mb_priority m, mb_weight m, mb_port m)) members\<rparr>)"

definition stampable :: "bool \<Rightarrow> record_op \<Rightarrow> bool" where
  "stampable agentless o' \<longleftrightarrow> (let a = or_rrset_action (ro_record o') in
     a = None \<or> a = Some [] \<or> agentless \<and> ro_op o' = ''update'' \<and> a = Some ''add'')"

definition op_key :: "record_op \<Rightarrow> (string \<times> string) option" where
  "op_key o' = rrset_target (ro_op o') (ro_record o')"

text \<open>The dict \<open>final\<close>, folded over the operations in order.\<close>

fun fold_batch :: "record_op list \<Rightarrow> (string \<times> string \<Rightarrow> rr_member list) \<Rightarrow> string \<times> string \<Rightarrow> rr_member list" where
  "fold_batch [] final = final"
| "fold_batch (o' # os) final = (case op_key o' of None \<Rightarrow> fold_batch os final
     | Some k \<Rightarrow> fold_batch os (final(k := fold_op (ro_op o') (ro_record o') (final k))))"

definition batch_sets :: "bool \<Rightarrow> dns_record list \<Rightarrow> uuid \<Rightarrow> record_op list \<Rightarrow> string \<times> string \<Rightarrow> rr_member list" where
  "batch_sets agentless table zid ops =
     (let todo = filter (stampable agentless) ops in
      fold_batch todo (resolve_rrsets table zid (List.map_filter op_key todo)))"

definition stamp_rrsets_for_ops :: "bool \<Rightarrow> dns_record list \<Rightarrow> uuid \<Rightarrow> int option \<Rightarrow> record_op list \<Rightarrow> record_op list" where
  "stamp_rrsets_for_ops agentless table zid zone_ttl ops =
     map (\<lambda>o'. if stampable agentless o'
       then (case op_key o' of None \<Rightarrow> o'
             | Some k \<Rightarrow> o'\<lparr>ro_record := (ro_record o')\<lparr>or_rrset := Some (rrset_payload (batch_sets agentless table zid ops k) zone_ttl)\<rparr>\<rparr>)
       else o') ops"

section \<open>Which rows of a batch are refused\<close>

text \<open>When row \<open>i\<close> is to be refused, given the set \<open>R\<close> of refused rows.\<close>

definition refusable :: "name_row list \<Rightarrow> name_row list \<Rightarrow> nat set \<Rightarrow> nat \<Rightarrow> bool" where
  "refusable new standing R i \<longleftrightarrow> (\<exists>st \<in> set standing. meet (new ! i) st) \<or>
     is_cname (nr_type (new ! i)) \<and> (is_apex (nr_name (new ! i)) \<or>
       (\<exists>l < length new. l \<notin> R \<and> (\<not> is_cname (nr_type (new ! l)) \<or> l < i) \<and> meet (new ! i) (new ! l)))"

definition decided :: "name_row list \<Rightarrow> name_row list \<Rightarrow> nat \<Rightarrow> nat set \<Rightarrow> name_row list \<Rightarrow> bool" where
  "decided new standing k R kept \<longleftrightarrow>
     (\<forall>i < length new. is_cname (nr_type (new ! i)) \<and> k \<le> i \<longrightarrow> i \<notin> R) \<and>
     (\<forall>i < length new. \<not> is_cname (nr_type (new ! i)) \<or> i < k \<longrightarrow> (i \<in> R \<longleftrightarrow> refusable new standing R i)) \<and>
     set kept = {new ! l | l. l < k \<and> l < length new \<and> is_cname (nr_type (new ! l)) \<and> l \<notin> R}"

lemma meet_sym: "meet a b \<longleftrightarrow> meet b a"
  by (auto simp: meet_def views_overlap_def types_conflict_def)

lemma enumerate_mem: "(i, x) \<in> set (enumerate 0 xs) \<longleftrightarrow> i < length xs \<and> x = xs ! i"
  by (auto simp: in_set_enumerate_eq)

lemma refused_data_iff:
  assumes "i < length new"
  shows "i \<in> fst ` set (refused_data new standing) \<longleftrightarrow>
    \<not> is_cname (nr_type (new ! i)) \<and> (\<exists>st \<in> set standing. meet (new ! i) st)"
proof -
  have map_filter_set: "set (List.map_filter f xs) = {y. \<exists>x \<in> set xs. f x = Some y}" for f :: "'a \<Rightarrow> 'b option" and xs
    by (induction xs) (auto split: option.splits)
  have ex: "(\<exists>st. find (meet r) standing = Some st) \<longleftrightarrow> (\<exists>st \<in> set standing. meet r st)" for r
    using find_None_conv [of "meet r" standing] by (cases "find (meet r) standing") auto
  show ?thesis
  proof
    assume "i \<in> fst ` set (refused_data new standing)"
    then obtain row where r: "(i, row) \<in> set (enumerate 0 new)" "\<not> is_cname (nr_type row)" "\<exists>st. find (meet row) standing = Some st"
      by (auto simp: refused_data_def map_filter_set split: if_splits)
    then show "\<not> is_cname (nr_type (new ! i)) \<and> (\<exists>st \<in> set standing. meet (new ! i) st)" using ex by (auto simp: enumerate_mem)
  next
    assume r: "\<not> is_cname (nr_type (new ! i)) \<and> (\<exists>st \<in> set standing. meet (new ! i) st)"
    then obtain st where "find (meet (new ! i)) standing = Some st" using ex by blast
    then have "(i, describe (nr_type (new ! i)) (nr_name (new ! i)) (nr_type st) (nr_value st) None) \<in> set (refused_data new standing)"
      using r assms by (auto simp: refused_data_def map_filter_set intro!: bexI [of _ "(i, new ! i)"] simp: enumerate_mem)
    then show "i \<in> fst ` set (refused_data new standing)" by force
  qed
qed

lemma decided_start: "decided new standing 0 (fst ` set (refused_data new standing)) []"
  by (auto simp: decided_def refused_data_iff refusable_def)

text \<open>Row \<open>k\<close>, a CNAME, is refused or kept.\<close>

lemma refusable_insert:
  assumes "is_cname (nr_type (new ! k))" "i \<le> k"
  shows "refusable new standing (insert k R) i \<longleftrightarrow> refusable new standing R i"
  using assms by (auto simp: refusable_def)

lemma decided_skip:
  assumes "decided new standing k R kept" "k < length new" "\<not> is_cname (nr_type (new ! k))"
  shows "decided new standing (Suc k) R kept"
  using assms unfolding decided_def by (auto simp: less_Suc_eq_le le_less)

lemma refusable_data:
  assumes "\<not> is_cname (nr_type (new ! i))"
  shows "refusable new standing R i \<longleftrightarrow> (\<exists>st \<in> set standing. meet (new ! i) st)"
  using assms by (simp add: refusable_def)

lemma decided_refuse:
  assumes "decided new standing k R kept" "k < length new" "is_cname (nr_type (new ! k))" "refusable new standing R k"
  shows "decided new standing (Suc k) (insert k R) kept"
proof -
  have data: "i \<noteq> k" if "\<not> is_cname (nr_type (new ! i))" for i using that assms(3) by auto
  have "(i \<in> insert k R) = refusable new standing (insert k R) i"
    if "i < length new" "\<not> is_cname (nr_type (new ! i)) \<or> i < Suc k" for i
  proof (cases "is_cname (nr_type (new ! i))")
    case True
    then have "i \<le> k" using that by simp
    then show ?thesis using refusable_insert [OF assms(3)] assms(1,4) that(1) True
      by (cases "i = k") (auto simp: decided_def)
  next
    case False
    then show ?thesis using data [OF False] refusable_data [OF False] assms(1) that(1) by (auto simp: decided_def)
  qed
  moreover have "set kept = {new ! l | l. l < Suc k \<and> l < length new \<and> is_cname (nr_type (new ! l)) \<and> l \<notin> insert k R}"
    using assms(1) unfolding decided_def by (auto simp: less_Suc_eq)
  ultimately show ?thesis using assms(1) unfolding decided_def by auto
qed

lemma decided_keep:
  assumes "decided new standing k R kept" "k < length new" "is_cname (nr_type (new ! k))" "\<not> refusable new standing R k"
  shows "decided new standing (Suc k) R (kept @ [new ! k])"
proof -
  have k: "k \<notin> R" using assms(1-3) by (simp add: decided_def)
  have kept: "set kept = {new ! l | l. l < k \<and> l < length new \<and> is_cname (nr_type (new ! l)) \<and> l \<notin> R}"
    using assms(1) by (simp add: decided_def)
  have "set (kept @ [new ! k]) = {new ! l | l. l < Suc k \<and> l < length new \<and> is_cname (nr_type (new ! l)) \<and> l \<notin> R}"
    unfolding set_append kept using k assms(2,3) by (auto simp: less_Suc_eq)
  moreover have "\<forall>i < length new. \<not> is_cname (nr_type (new ! i)) \<or> i < Suc k \<longrightarrow> (i \<in> R \<longleftrightarrow> refusable new standing R i)"
    using assms(1,4) k unfolding decided_def by (metis less_SucE)
  moreover have "\<forall>i < length new. is_cname (nr_type (new ! i)) \<and> Suc k \<le> i \<longrightarrow> i \<notin> R" using assms(1) by (simp add: decided_def)
  ultimately show ?thesis unfolding decided_def by (intro conjI)
qed

lemma cname_rival_iff:
  assumes "decided new standing k (fst ` set refused) kept" "k < length new" "is_cname (nr_type (new ! k))"
    "\<not> is_apex (nr_name (new ! k))"
  shows "cname_rival new standing refused kept k (new ! k) \<noteq> None \<longleftrightarrow> refusable new standing (fst ` set refused) k"
proof -
  let ?R = "fst ` set refused" and ?P = "\<lambda>(j, r). j \<notin> fst ` set refused \<and> j \<noteq> k \<and> meet (new ! k) r \<and> \<not> is_cname (nr_type r)"
  have "find (meet (new ! k)) standing \<noteq> None \<longleftrightarrow> (\<exists>st \<in> set standing. meet (new ! k) st)"
    by (simp add: find_None_conv)
  moreover have "find ?P (enumerate 0 new) \<noteq> None \<longleftrightarrow>
      (\<exists>l < length new. l \<notin> ?R \<and> meet (new ! k) (new ! l) \<and> \<not> is_cname (nr_type (new ! l)))"
    unfolding find_None_conv using assms(3) by (force simp: enumerate_mem)
  moreover have "find (meet (new ! k)) kept \<noteq> None \<longleftrightarrow> (\<exists>l < length new. l \<notin> ?R \<and> l < k \<and>
      is_cname (nr_type (new ! l)) \<and> meet (new ! k) (new ! l))"
    unfolding find_None_conv using assms(1,2) unfolding decided_def by auto
  ultimately show ?thesis using assms(3,4) unfolding cname_rival_def refusable_def
    by (auto split: option.splits)
qed

lemma refuse_cnames_decided:
  assumes "decided new standing k (fst ` set refused) kept" "k \<le> length new"
  shows "\<exists>kept'. decided new standing (length new)
    (fst ` set (refuse_cnames new standing refused kept (enumerate k (drop k new)))) kept'"
  using assms
proof (induction "length new - k" arbitrary: k refused kept)
  case 0
  then show ?case by auto
next
  case (Suc n)
  then have k: "k < length new" by simp
  have e: "enumerate k (drop k new) = (k, new ! k) # enumerate (Suc k) (drop (Suc k) new)"
    using k by (simp add: Cons_nth_drop_Suc [symmetric])
  note IH = Suc.hyps(1) [of "Suc k"]
  have n: "n = length new - Suc k" "Suc k \<le> length new" using Suc.hyps(2) k by simp_all
  show ?case
  proof (cases "is_cname (nr_type (new ! k))")
    case False
    then show ?thesis using IH [OF n(1) decided_skip [OF Suc.prems(1) k False] n(2)] by (simp add: e)
  next
    case True
    have ref: "\<exists>kept'. decided new standing (length new) (fst ` set (refuse_cnames new standing (refused @ [(k, msg)]) kept
        (enumerate (Suc k) (drop (Suc k) new)))) kept'" if "refusable new standing (fst ` set refused) k" for msg
      by (rule IH [OF n(1) _ n(2)]) (use decided_refuse [OF Suc.prems(1) k True that] in simp)
    show ?thesis
    proof (cases "is_apex (nr_name (new ! k))")
      case apex: True
      then show ?thesis using True ref by (simp add: e refusable_def)
    next
      case False
      note iff = cname_rival_iff [OF Suc.prems(1) k True False]
      show ?thesis
      proof (cases "cname_rival new standing refused kept k (new ! k)")
        case None
        then have "decided new standing (Suc k) (fst ` set refused) (kept @ [new ! k])"
          using decided_keep [OF Suc.prems(1) k True] iff by simp
        from IH [OF n(1) this n(2)] show ?thesis using None True False by (simp add: e)
      next
        case (Some r)
        then show ?thesis using ref iff True False by (simp add: e)
      qed
    qed
  qed
qed

definition refused_rows :: "name_row list \<Rightarrow> name_row list \<Rightarrow> nat set" where
  "refused_rows new standing = fst ` set (refused_by_cname_rule new standing)"

text \<open>C27: An imported batch keeps every zone loadable and refuses no more than it must. After the check no row
  that is kept shares its name, in an overlapping view, with a row that stays or with another kept row
  where one of them is a CNAME, and no kept CNAME is at the apex. A row is refused exactly when a row that
  stays is in its way, or it is a CNAME at the apex, or a CNAME whose name is taken by a kept data row
  or by an earlier kept CNAME.\<close>

theorem import_batch_obeys_cname_rule:
  "(\<forall>i < length new. i \<notin> refused_rows new standing \<longrightarrow>
      (\<forall>st \<in> set standing. \<not> meet (new ! i) st) \<and>
      (\<forall>j < length new. j \<notin> refused_rows new standing \<and> j \<noteq> i \<longrightarrow> \<not> meet (new ! i) (new ! j)) \<and>
      \<not> (is_cname (nr_type (new ! i)) \<and> is_apex (nr_name (new ! i)))) \<and>
    (\<forall>i < length new. i \<in> refused_rows new standing \<longleftrightarrow> (\<exists>st \<in> set standing. meet (new ! i) st) \<or>
       is_cname (nr_type (new ! i)) \<and> (is_apex (nr_name (new ! i)) \<or>
         (\<exists>j < length new. j \<notin> refused_rows new standing \<and> (\<not> is_cname (nr_type (new ! j)) \<or> j < i) \<and> meet (new ! i) (new ! j))))"
proof -
  obtain kept where "decided new standing (length new) (refused_rows new standing) kept"
    using refuse_cnames_decided [OF decided_start, of new standing] by (auto simp: refused_rows_def refused_by_cname_rule_def)
  then have iff: "i \<in> refused_rows new standing \<longleftrightarrow> refusable new standing (refused_rows new standing) i" if "i < length new" for i
    using that by (simp add: decided_def)
  have "\<not> meet (new ! i) (new ! j)" if "i < length new" "j < length new" "i \<notin> refused_rows new standing" "j \<notin> refused_rows new standing" "i \<noteq> j" for i j
  proof
    assume m: "meet (new ! i) (new ! j)"
    then have m': "meet (new ! j) (new ! i)" using meet_sym by blast
    have c: "is_cname (nr_type (new ! i)) \<or> is_cname (nr_type (new ! j))" using m by (simp add: meet_def types_conflict_def)
    have "\<not> refusable new standing (refused_rows new standing) i" "\<not> refusable new standing (refused_rows new standing) j" using iff that by simp_all
    then show False using c m m' that unfolding refusable_def by (metis nat_neq_iff)
  qed
  then show ?thesis using iff unfolding refusable_def by blast
qed

definition cname_batch :: "name_row list" where
  "cname_batch = map (\<lambda>(n, t). \<lparr>nr_name = n, nr_type = t, nr_value = ''x'', nr_view_id = None\<rparr>)
     [(''www'', ''CNAME''), (''WWW.'', ''A''), (''ftp'', ''CNAME''), (''ftp'', '' cname''), (''@'', ''CNAME''), (''old'', ''TXT'')]"

definition cname_standing :: "name_row list" where
  "cname_standing = [\<lparr>nr_name = ''old'', nr_type = ''CNAME'', nr_value = ''y'', nr_view_id = Some ''v''\<rparr>]"

theorem import_batch_obeys_cname_rule_witness:
  "refused_rows cname_batch cname_standing = {0, 3, 4, 5} \<and> \<not> meet (cname_batch ! 1) (cname_batch ! 2)"
proof -
  have r: "refused_rows cname_batch cname_standing = {0, 3, 4, 5}" "length cname_batch = 6" by code_simp+
  then show ?thesis using conjunct1 [OF import_batch_obeys_cname_rule [of cname_batch cname_standing]] by simp
qed

section \<open>The check against the database\<close>

definition row_as_name_row :: "dns_record \<Rightarrow> name_row" where
  "row_as_name_row r = \<lparr>nr_name = rec_name r, nr_type = rec_type r, nr_value = rec_value r, nr_view_id = rec_view_id r\<rparr>"

text \<open>Stored names are relative, without a trailing dot, and types without blanks.\<close>

definition plain_row :: "dns_record \<Rightarrow> bool" where
  "plain_row r \<longleftrightarrow> rel (rec_name r) = py_lower (rec_name r) \<and> py_strip (rec_type r) = rec_type r"

lemma first_created:
  "(case sort_key f xs of [] \<Rightarrow> None | x # _ \<Rightarrow> Some x) = Some r \<Longrightarrow> r \<in> set xs \<and> (\<forall>x \<in> set xs. f r \<le> f x)"
proof -
  assume a: "(case sort_key f xs of [] \<Rightarrow> None | x # _ \<Rightarrow> Some x) = Some r"
  then obtain ys where s: "sort_key f xs = r # ys" by (cases "sort_key f xs") auto
  have "sorted (map f (r # ys))" unfolding s [symmetric] by simp
  moreover have "set xs = set (r # ys)" unfolding s [symmetric] by simp
  ultimately show ?thesis by auto
qed

text \<open>The query and the in-memory check are one rule. Over plainly stored rows and a plain name, the database
  check finds a row exactly when some live row of the zone meets the new one, and it reports the oldest
  such row.\<close>

theorem database_check_is_in_memory_check:
  assumes "\<forall>r \<in> set table. plain_row r" "rel name = py_lower (py_strip name)"
  shows "(find_cname_conflict table zid view name rtype None = None \<longleftrightarrow>
      \<not> (\<exists>r \<in> set table. rec_zone_id r = zid \<and>
         meet \<lparr>nr_name = name, nr_type = rtype, nr_value = v, nr_view_id = view\<rparr> (row_as_name_row r))) \<and>
    (\<forall>r. find_cname_conflict table zid view name rtype None = Some r \<longrightarrow> r \<in> set table \<and> rec_zone_id r = zid \<and>
       meet \<lparr>nr_name = name, nr_type = rtype, nr_value = v, nr_view_id = view\<rparr> (row_as_name_row r) \<and>
       (\<forall>x \<in> set table. rec_zone_id x = zid \<and>
          meet \<lparr>nr_name = name, nr_type = rtype, nr_value = v, nr_view_id = view\<rparr> (row_as_name_row x) \<longrightarrow>
          rec_created_at r \<le> rec_created_at x))"
proof -
  let ?new = "\<lparr>nr_name = name, nr_type = rtype, nr_value = v, nr_view_id = view\<rparr>"
  let ?P = "\<lambda>r. rec_zone_id r = zid \<and> py_lower (rec_name r) = py_lower (py_strip name) \<and>
         (view = None \<or> rec_view_id r = None \<or> rec_view_id r = view) \<and>
         (is_cname rtype \<or> py_upper (rec_type r) = ''CNAME'') \<and>
         (case (None :: uuid option) of None \<Rightarrow> True | Some x \<Rightarrow> rec_id r \<noteq> x)"
  have eq: "?P r \<longleftrightarrow> rec_zone_id r = zid \<and> meet ?new (row_as_name_row r)" if "r \<in> set table" for r
    using assms that by (auto simp: plain_row_def meet_def row_as_name_row_def types_conflict_def is_cname_def views_overlap_def)
  have f: "find_cname_conflict table zid view name rtype None =
      (case sort_key rec_created_at (filter ?P table) of [] \<Rightarrow> None | r # _ \<Rightarrow> Some r)"
    by (simp add: find_cname_conflict_def)
  have "find_cname_conflict table zid view name rtype None = None \<longleftrightarrow> filter ?P table = []"
    unfolding f by (metis (no_types, lifting) list.case_eq_if option.distinct(1) set_empty set_sort)
  then have "find_cname_conflict table zid view name rtype None = None \<longleftrightarrow>
      \<not> (\<exists>r \<in> set table. rec_zone_id r = zid \<and> meet ?new (row_as_name_row r))"
    unfolding filter_empty_conv using eq by blast
  moreover have "r \<in> set table \<and> rec_zone_id r = zid \<and> meet ?new (row_as_name_row r) \<and>
       (\<forall>x \<in> set table. rec_zone_id x = zid \<and> meet ?new (row_as_name_row x) \<longrightarrow> rec_created_at r \<le> rec_created_at x)"
    if "find_cname_conflict table zid view name rtype None = Some r" for r
    using first_created [OF that [unfolded f]] eq by auto
  ultimately show ?thesis by blast
qed

definition www_rows :: "dns_record list" where
  "www_rows = map (\<lambda>(i, n, t, c). \<lparr>rec_id = i, rec_zone_id = ''z'', rec_view_id = None, rec_name = n, rec_fqdn = n @ ''.example.com'',
     rec_type = t, rec_value = ''10.0.0.1'', rec_ttl = None, rec_priority = None, rec_weight = None, rec_port = None,
     rec_created_at = c, rec_owners = []\<rparr>) [(''a'', ''www'', ''A'', 20), (''b'', ''www'', ''AAAA'', 10), (''c'', ''ftp'', ''A'', 0)]"

theorem database_check_is_in_memory_check_witness:
  "\<exists>r. find_cname_conflict www_rows ''z'' None ''WWW'' ''CNAME'' None = Some r \<and> rec_created_at r \<le> 20"
proof -
  have p: "\<forall>r \<in> set www_rows. plain_row r" "rel ''WWW'' = py_lower (py_strip ''WWW'')" by code_simp+
  have m: "www_rows ! 0 \<in> set www_rows" "rec_zone_id (www_rows ! 0) = ''z''" "rec_created_at (www_rows ! 0) = 20"
    "meet \<lparr>nr_name = ''WWW'', nr_type = ''CNAME'', nr_value = [], nr_view_id = None\<rparr> (row_as_name_row (www_rows ! 0))"
    by code_simp+
  show ?thesis using database_check_is_in_memory_check [OF p, of "''z''" None "''CNAME''" "[]"] m
    by (metis (no_types, lifting) option.exhaust)
qed

section \<open>Folding a batch\<close>

definition rr_key :: "rr_member \<Rightarrow> string \<times> int option \<times> int option \<times> int option" where
  "rr_key m = (py_strip (mb_value m), mb_priority m, mb_weight m, mb_port m)"

abbreviation twin_free :: "rr_member list \<Rightarrow> bool" where
  "twin_free ms \<equiv> distinct (map rr_key ms)"

lemma same_rr_key: "same_rr a b \<longleftrightarrow> rr_key a = rr_key b"
  by (auto simp: same_rr_def rr_key_def)

lemma unique_members_keys:
  "rr_key ` set (unique_members kept ms) = rr_key ` set kept \<union> rr_key ` set ms"
  "twin_free kept \<Longrightarrow> twin_free (unique_members kept ms)"
proof -
  show "rr_key ` set (unique_members kept ms) = rr_key ` set kept \<union> rr_key ` set ms"
    by (induction kept ms rule: unique_members.induct) (auto simp: list_ex_iff same_rr_key)
  show "twin_free (unique_members kept ms)" if "twin_free kept"
    using that
  proof (induction kept ms rule: unique_members.induct)
    case (2 kept m ms)
    have "twin_free (if list_ex (same_rr m) kept then kept else kept @ [m])"
      using "2.prems" by (auto simp: list_ex_iff same_rr_key)
    then show ?case using "2.IH" by simp
  qed simp
qed

lemma unique_members_id: "twin_free (kept @ ms) \<Longrightarrow> unique_members kept ms = kept @ ms"
  by (induction kept ms rule: unique_members.induct) (auto simp: list_ex_iff same_rr_key)

text \<open>What one operation does to the set of members it is applied to.\<close>

definition op_effect :: "record_op \<Rightarrow> rr_member set \<Rightarrow> rr_member set" where
  "op_effect o' S = (let own = op_member (ro_record o') in
     if ro_op o' = ''delete'' \<and> mb_id own \<noteq> None then {m \<in> S. mb_id m \<noteq> mb_id own}
     else {m \<in> S. rr_key m \<noteq> rr_key own} \<union> (if ro_op o' \<noteq> ''delete'' then {own} else {}))"

lemma distinct_map_filter: "distinct (map f xs) \<Longrightarrow> distinct (map f (filter P xs))"
  by (induction xs) auto

lemma fold_op_effect:
  assumes "twin_free ms"
  shows "set (fold_op (ro_op o') (ro_record o') ms) = op_effect o' (set ms)" "twin_free (fold_op (ro_op o') (ro_record o') ms)"
proof -
  let ?own = "op_member (ro_record o')"
  show "twin_free (fold_op (ro_op o') (ro_record o') ms)" by (simp add: fold_op_def Let_def unique_members_keys(2))
  have "twin_free (filter (\<lambda>m. rr_key m \<noteq> rr_key ?own) ms @ [?own])" using assms by (auto simp: distinct_map_filter)
  then show "set (fold_op (ro_op o') (ro_record o') ms) = op_effect o' (set ms)"
    using assms distinct_map_filter [OF assms]
    by (auto simp: fold_op_def op_effect_def Let_def same_rr_key unique_members_id)
qed

text \<open>The dict, one key at a time.\<close>

lemma fold_batch_key:
  "fold_batch os final k = fold (\<lambda>o'. fold_op (ro_op o') (ro_record o')) (filter (\<lambda>o'. op_key o' = Some k) os) (final k)"
proof (induction os arbitrary: final)
  case (Cons o' os)
  then show ?case by (cases "op_key o'") simp_all
qed simp

lemma fold_ops_effect:
  assumes "twin_free ms"
  shows "set (fold (\<lambda>o'. fold_op (ro_op o') (ro_record o')) os ms) = fold op_effect os (set ms) \<and>
    twin_free (fold (\<lambda>o'. fold_op (ro_op o') (ro_record o')) os ms)"
  using assms by (induction os arbitrary: ms) (simp_all add: fold_op_effect)

text \<open>A server that writes the whole set each operation carries, as the agents do.\<close>

definition serve :: "record_op list \<Rightarrow> (string \<times> string \<Rightarrow> rrset) \<Rightarrow> string \<times> string \<Rightarrow> rrset" where
  "serve os s = fold (\<lambda>o' s. case (op_key o', or_rrset (ro_record o')) of (Some k, Some rs) \<Rightarrow> s(k := rs) | _ \<Rightarrow> s) os s"

lemma serve_last:
  assumes "\<forall>o' \<in> set os. op_key o' = Some k \<longrightarrow> or_rrset (ro_record o') = Some rs"
    "\<exists>o' \<in> set os. op_key o' = Some k"
  shows "serve os s k = rs"
proof -
  have gen: "serve os s k = (if \<exists>o' \<in> set os. op_key o' = Some k then rs else s k)"
    if "\<forall>o' \<in> set os. op_key o' = Some k \<longrightarrow> or_rrset (ro_record o') = Some rs" for os s
    using that by (induction os arbitrary: s) (auto simp: serve_def split: option.splits)
  show ?thesis using gen [OF assms(1)] assms(2) by simp
qed

lemma stamped_key: "op_key (o'\<lparr>ro_record := (ro_record o')\<lparr>or_rrset := x\<rparr>\<rparr>) = op_key o'"
  by (simp add: op_key_def rrset_target_def rrset_key_def split: option.split)

text \<open>C28: A batch of record operations converges to the set it describes, in whatever order and however often
  its operations are applied. Where the live rows of a name and type hold no resource record twice, the
  set every operation of the batch carries is that of applying all of them in order, holds no resource
  record twice, and is what a server that received any of them, in any order, with repetitions, serves.\<close>

theorem batch_converges_in_any_order:
  assumes "\<forall>o' \<in> set ops. stampable agentless o'" "\<exists>o' \<in> set ops. op_key o' = Some k"
    "twin_free (resolve_rrsets table zid (List.map_filter op_key ops) k)"
  shows "set (batch_sets agentless table zid ops k) =
      fold op_effect (filter (\<lambda>o'. op_key o' = Some k) ops) (set (resolve_rrsets table zid (List.map_filter op_key ops) k)) \<and>
    twin_free (batch_sets agentless table zid ops k) \<and>
    (\<forall>applied s. set applied \<subseteq> set (stamp_rrsets_for_ops agentless table zid zone_ttl ops) \<and>
       (\<exists>o' \<in> set applied. op_key o' = Some k) \<longrightarrow>
       serve applied s k = rrset_payload (batch_sets agentless table zid ops k) zone_ttl)"
proof -
  let ?set = "batch_sets agentless table zid ops k"
  have todo: "filter (stampable agentless) ops = ops" using assms(1) by (simp add: filter_id_conv)
  have "set ?set = fold op_effect (filter (\<lambda>o'. op_key o' = Some k) ops) (set (resolve_rrsets table zid (List.map_filter op_key ops) k)) \<and>
      twin_free ?set"
    unfolding batch_sets_def todo Let_def fold_batch_key by (rule fold_ops_effect [OF assms(3)])
  moreover have "serve applied s k = rrset_payload ?set zone_ttl"
    if "set applied \<subseteq> set (stamp_rrsets_for_ops agentless table zid zone_ttl ops)" "\<exists>o' \<in> set applied. op_key o' = Some k" for applied s
  proof (rule serve_last [OF _ that(2)], intro ballI impI)
    fix o' assume o': "o' \<in> set applied" "op_key o' = Some k"
    let ?stamp = "\<lambda>p k. p\<lparr>ro_record := (ro_record p)\<lparr>or_rrset := Some (rrset_payload (batch_sets agentless table zid ops k) zone_ttl)\<rparr>\<rparr>"
    have "o' \<in> set (stamp_rrsets_for_ops agentless table zid zone_ttl ops)" using that(1) o'(1) by blast
    then obtain p where p: "p \<in> set ops" "o' = (if stampable agentless p then (case op_key p of None \<Rightarrow> p | Some k \<Rightarrow> ?stamp p k) else p)"
      unfolding stamp_rrsets_for_ops_def set_map by blast
    then have "o' = (case op_key p of None \<Rightarrow> p | Some k \<Rightarrow> ?stamp p k)" using assms(1) by simp
    then show "or_rrset (ro_record o') = Some (rrset_payload ?set zone_ttl)"
      using o'(2) by (cases "op_key p") (auto simp: stamped_key)
  qed
  ultimately show ?thesis by blast
qed

definition delete_of :: "uuid \<Rightarrow> string \<Rightarrow> record_op" where
  "delete_of i v = \<lparr>ro_op = ''delete'', ro_record = \<lparr>or_type = Some ''A'', or_name = Some ''www'', or_value = Some v, or_ttl = None,
     or_priority = None, or_weight = None, or_port = None, or_record_id = Some i, or_rrset_action = None, or_rrset = None\<rparr>\<rparr>"

definition robin :: "(uuid \<times> string) list \<Rightarrow> dns_record list" where
  "robin ivs = map (\<lambda>(i, v). (www_rows ! 0)\<lparr>rec_id := i, rec_value := v\<rparr>) ivs"

theorem batch_converges_in_any_order_witness:
  "\<forall>s. rs_members (serve (rev (stamp_rrsets_for_ops False (robin [(''a'', ''10.0.0.1''), (''b'', ''10.0.0.2''), (''c'', ''10.0.0.3'')])
       ''z'' None [delete_of ''a'' ''10.0.0.1'', delete_of ''b'' ''10.0.0.2''])) s (''www'', ''A'')) = [(''10.0.0.3'', None, None, None)]"
proof -
  let ?t = "robin [(''a'', ''10.0.0.1''), (''b'', ''10.0.0.2''), (''c'', ''10.0.0.3'')]"
  let ?ops = "[delete_of ''a'' ''10.0.0.1'', delete_of ''b'' ''10.0.0.2'']"
  have h: "\<forall>o' \<in> set ?ops. stampable False o'" "\<exists>o' \<in> set ?ops. op_key o' = Some (''www'', ''A'')"
    "twin_free (resolve_rrsets ?t ''z'' (List.map_filter op_key ?ops) (''www'', ''A''))" by code_simp+
  have p: "rs_members (rrset_payload (batch_sets False ?t ''z'' ?ops (''www'', ''A'')) None) = [(''10.0.0.3'', None, None, None)]"
    "\<exists>o' \<in> set (rev (stamp_rrsets_for_ops False ?t ''z'' None ?ops)). op_key o' = Some (''www'', ''A'')" by code_simp+
  let ?st = "stamp_rrsets_for_ops False ?t ''z'' None ?ops"
  have "serve (rev ?st) s (''www'', ''A'') = rrset_payload (batch_sets False ?t ''z'' ?ops (''www'', ''A'')) None" for s
    using batch_converges_in_any_order [OF h, of None, THEN conjunct2, THEN conjunct2, THEN spec, of "rev ?st", THEN spec, of s] p(2)
    by (simp only: set_rev order_refl simp_thms)
  then show ?thesis using p(1) by simp
qed

text \<open>With twins in the table the order of a batch matters: the copy that stays is dropped together with the
  duplicate when another record of the name is deleted first, although deleting the duplicate alone keeps it.\<close>

theorem batch_delete_drops_live_twin:
  "let t = robin [(''a'', ''10.0.0.1''), (''b'', ''10.0.0.1''), (''c'', ''10.0.0.3'')] in
   batch_sets False t ''z'' [delete_of ''c'' ''10.0.0.3'', delete_of ''a'' ''10.0.0.1''] (''www'', ''A'') = [] \<and>
   map mb_value (batch_sets False t ''z'' [delete_of ''a'' ''10.0.0.1'', delete_of ''c'' ''10.0.0.3''] (''www'', ''A'')) = [''10.0.0.1'']"
  by code_simp

end
