(* ===== verification/Soft_Delete.thy ===== *)
theory Soft_Delete
  imports Subnet_Boundary Dns_Records
begin

text \<open>
  The Trash (\<^verbatim>\<open>services/soft_delete.py\<close>): collecting what a deletion takes with it, stamping it, and restoring a
  batch with every check that can refuse it, including the overlap rules of \<^verbatim>\<open>api/v1/ipam/router.py\<close> and
  \<^verbatim>\<open>api/v1/dhcp/scopes.py\<close> that a restore borrows from the create path. The soft-deletable tables are one list
  of rows; a query sees the rows that are not in the Trash unless it asks for all of them. The row locks
  of a restore are left out.
\<close>

section \<open>Rows\<close>

text \<open>The columns the module reads, per model.\<close>

datatype row_data =
    IPSpace string
  | IPBlock uuid "uuid option" ipnet string
  | Subnet uuid "uuid option" ipnet string
  | DNSZone uuid "uuid option" string
  | DNSRecord dns_record bool "uuid option"
  | DHCPScope uuid uuid string bool
  | Customer string
  | OverlayNetwork string "uuid option"
  | NetworkService string "uuid option"
  | DHCPPool uuid string ip_addr ip_addr
  | DHCPStaticAssignment uuid string ip_addr

record row =
  r_id :: uuid
  r_data :: row_data
  deleted_at :: "datetime option"
  deleted_by_user_id :: "uuid option"
  deletion_batch_id :: "uuid option"

record address_row =
  ad_id :: uuid
  ad_subnet_id :: uuid
  ad_status :: string
  ad_address :: string

definition live :: "row \<Rightarrow> bool" where
  "live r \<longleftrightarrow> deleted_at r = None"

definition SOFT_DELETE_RESOURCE_TYPES :: "string list" where
  "SOFT_DELETE_RESOURCE_TYPES = [''ip_space'', ''ip_block'', ''subnet'', ''dns_zone'', ''dns_record'', ''dhcp_scope'',
     ''customer'', ''overlay_network'', ''network_service'']"

definition TYPE_TO_MODEL :: "string list" where
  "TYPE_TO_MODEL = SOFT_DELETE_RESOURCE_TYPES @ [''dhcp_pool'', ''dhcp_static_assignment'']"

fun resource_type :: "row_data \<Rightarrow> string" where
  "resource_type (IPSpace _) = ''ip_space''"
| "resource_type (IPBlock _ _ _ _) = ''ip_block''"
| "resource_type (Subnet _ _ _ _) = ''subnet''"
| "resource_type (DNSZone _ _ _) = ''dns_zone''"
| "resource_type (DNSRecord _ _ _) = ''dns_record''"
| "resource_type (DHCPScope _ _ _ _) = ''dhcp_scope''"
| "resource_type (Customer _) = ''customer''"
| "resource_type (OverlayNetwork _ _) = ''overlay_network''"
| "resource_type (NetworkService _ _) = ''network_service''"
| "resource_type (DHCPPool _ _ _ _) = ''dhcp_pool''"
| "resource_type (DHCPStaticAssignment _ _ _) = ''dhcp_static_assignment''"

definition obj_key :: "row \<Rightarrow> string \<times> uuid" where
  "obj_key r = (resource_type (r_data r), r_id r)"

definition record_label :: "string \<Rightarrow> string \<Rightarrow> string" where
  "record_label fqdn rtype = fqdn @ '' '' @ rtype"

definition net_label :: "ipnet \<Rightarrow> string \<Rightarrow> string" where
  "net_label n name = py_strip (str_net n @ (if name = [] then [] else '' '' @ name))"

definition row_display :: "row \<Rightarrow> string" where
  "row_display r = (case r_data r of
       IPSpace name \<Rightarrow> name
     | IPBlock _ _ n name \<Rightarrow> net_label n name
     | Subnet _ _ n name \<Rightarrow> net_label n name
     | DNSZone _ _ name \<Rightarrow> name
     | DNSRecord d _ _ \<Rightarrow> record_label (rec_fqdn d) (rec_type d)
     | DHCPScope _ _ name _ \<Rightarrow> if name = [] then r_id r else name
     | Customer name \<Rightarrow> name
     | OverlayNetwork name _ \<Rightarrow> name
     | NetworkService name _ \<Rightarrow> name
     | DHCPPool _ t a b \<Rightarrow> t @ '' pool '' @ str_ip a @ ''-'' @ str_ip b
     | DHCPStaticAssignment _ mac ip \<Rightarrow> mac @ '' -> '' @ str_ip ip)"

section \<open>Collecting a batch\<close>

definition blocks_of_space :: "row list \<Rightarrow> uuid \<Rightarrow> row list" where
  "blocks_of_space t i = filter (\<lambda>r. live r \<and> (case r_data r of IPBlock s _ _ _ \<Rightarrow> s = i | _ \<Rightarrow> False)) t"

definition subnets_of_space :: "row list \<Rightarrow> uuid \<Rightarrow> row list" where
  "subnets_of_space t i = filter (\<lambda>r. live r \<and> (case r_data r of Subnet s _ _ _ \<Rightarrow> s = i | _ \<Rightarrow> False)) t"

definition blocks_of_block :: "row list \<Rightarrow> uuid \<Rightarrow> row list" where
  "blocks_of_block t i = filter (\<lambda>r. live r \<and> (case r_data r of IPBlock _ p _ _ \<Rightarrow> p = Some i | _ \<Rightarrow> False)) t"

definition subnets_of_block :: "row list \<Rightarrow> uuid \<Rightarrow> row list" where
  "subnets_of_block t i = filter (\<lambda>r. live r \<and> (case r_data r of Subnet _ b _ _ \<Rightarrow> b = Some i | _ \<Rightarrow> False)) t"

definition scopes_of_subnet :: "row list \<Rightarrow> uuid \<Rightarrow> row list" where
  "scopes_of_subnet t i = filter (\<lambda>r. live r \<and> (case r_data r of DHCPScope _ s _ _ \<Rightarrow> s = i | _ \<Rightarrow> False)) t"

definition pools_of_scope :: "row list \<Rightarrow> uuid \<Rightarrow> row list" where
  "pools_of_scope t i = filter (\<lambda>r. live r \<and> (case r_data r of DHCPPool s _ _ _ \<Rightarrow> s = i | _ \<Rightarrow> False)) t"

definition statics_of_scope :: "row list \<Rightarrow> uuid \<Rightarrow> row list" where
  "statics_of_scope t i = filter (\<lambda>r. live r \<and> (case r_data r of DHCPStaticAssignment s _ _ \<Rightarrow> s = i | _ \<Rightarrow> False)) t"

text \<open>\<open>for x in xs: out.extend(walk(x)); out.append(x)\<close>, and the loop of a space that skips subnets it has.\<close>

fun walk_all :: "(row \<Rightarrow> row list option) \<Rightarrow> row list \<Rightarrow> row list option" where
  "walk_all f [] = Some []"
| "walk_all f (r # rs) = (case f r of None \<Rightarrow> None
     | Some ds \<Rightarrow> (case walk_all f rs of None \<Rightarrow> None | Some out \<Rightarrow> Some (ds @ r # out)))"

fun walk_new :: "(row \<Rightarrow> row list option) \<Rightarrow> row list \<Rightarrow> row list \<Rightarrow> row list option" where
  "walk_new f out [] = Some out"
| "walk_new f out (r # rs) =
     (if r_id r \<in> r_id ` set out then walk_new f out rs
      else case f r of None \<Rightarrow> None | Some ds \<Rightarrow> walk_new f (out @ ds @ [r]) rs)"

text \<open>The walk recurses without a visited set; the fuel is the recursion limit and \<open>None\<close> its
  \<open>RecursionError\<close>.\<close>

fun collect_descendants :: "nat \<Rightarrow> row list \<Rightarrow> row \<Rightarrow> row list option" where
  "collect_descendants 0 t root = None"
| "collect_descendants (Suc n) t root = (case r_data root of
       IPSpace _ \<Rightarrow> (case walk_all (collect_descendants n t) (blocks_of_space t (r_id root)) of None \<Rightarrow> None
         | Some out \<Rightarrow> walk_new (collect_descendants n t) out (subnets_of_space t (r_id root)))
     | IPBlock _ _ _ _ \<Rightarrow> (case walk_all (collect_descendants n t) (blocks_of_block t (r_id root)) of None \<Rightarrow> None
         | Some out \<Rightarrow> (case walk_all (collect_descendants n t) (subnets_of_block t (r_id root)) of None \<Rightarrow> None
             | Some out' \<Rightarrow> Some (out @ out')))
     | Subnet _ _ _ _ \<Rightarrow> walk_all (collect_descendants n t) (scopes_of_subnet t (r_id root))
     | DHCPScope _ _ _ _ \<Rightarrow> Some (pools_of_scope t (r_id root) @ statics_of_scope t (r_id root))
     | _ \<Rightarrow> Some [])"

record soft_delete_batch =
  batch_id :: uuid
  batch_rows :: "row list"
  bulk :: "(uuid \<times> nat) list"

definition counts :: "soft_delete_batch \<Rightarrow> (string \<times> nat) list" where
  "counts b = fold (\<lambda>(k, n) out. dict_put k ((case map_of out k of None \<Rightarrow> 0 | Some m \<Rightarrow> m) + n) out)
     (map (\<lambda>r. (resource_type (r_data r), 1)) (batch_rows b) @ map (\<lambda>(_, n). (''dns_record'', n)) (bulk b)) []"

definition audit_old_value :: "soft_delete_batch \<Rightarrow> row \<Rightarrow> pyval" where
  "audit_old_value b r = PyDict ((''deletion_batch_id'', PyStr (batch_id b)) #
     (let cascaded = filter (\<lambda>(z, n). obj_key r = (''dns_zone'', z) \<and> n \<noteq> 0) (bulk b) in
      if cascaded = [] then [] else [(''cascaded'', PyDict [(''dns_record'', PyInt (int (snd (last cascaded))))])]))"

definition in_zone :: "uuid \<Rightarrow> row \<Rightarrow> bool" where
  "in_zone z r = (case r_data r of DNSRecord d _ _ \<Rightarrow> rec_zone_id d = z | _ \<Rightarrow> False)"

definition is_zone :: "row \<Rightarrow> bool" where
  "is_zone r = (case r_data r of DNSZone _ _ _ \<Rightarrow> True | _ \<Rightarrow> False)"

definition attach_bulk :: "row list \<Rightarrow> row list \<Rightarrow> (uuid \<times> nat) list" where
  "attach_bulk t objs = map (\<lambda>z. (r_id z, length (filter (\<lambda>r. in_zone (r_id z) r \<and> live r) t))) (filter is_zone objs)"

fun new_rows :: "(string \<times> uuid) set \<Rightarrow> row list \<Rightarrow> row list" where
  "new_rows keys [] = []"
| "new_rows keys (r # rs) = (if obj_key r \<in> keys then new_rows keys rs else r # new_rows (insert (obj_key r) keys) rs)"

definition add_to_batch :: "nat \<Rightarrow> row list \<Rightarrow> soft_delete_batch \<Rightarrow> row \<Rightarrow> soft_delete_batch option" where
  "add_to_batch limit t b root = (case collect_descendants limit t root of None \<Rightarrow> None
     | Some ds \<Rightarrow> (let added = new_rows (obj_key ` set (batch_rows b)) (ds @ [root]) in
         Some (b\<lparr>batch_rows := batch_rows b @ added, bulk := bulk b @ attach_bulk t added\<rparr>)))"

definition collect_soft_delete_batch :: "nat \<Rightarrow> row list \<Rightarrow> uuid \<Rightarrow> row \<Rightarrow> soft_delete_batch option" where
  "collect_soft_delete_batch limit t fresh root = add_to_batch limit t \<lparr>batch_id = fresh, batch_rows = [], bulk = []\<rparr> root"

section \<open>Stamping\<close>

definition stamp :: "datetime \<Rightarrow> uuid option \<Rightarrow> uuid \<Rightarrow> row \<Rightarrow> row" where
  "stamp now user b r = r\<lparr>deleted_at := Some now, deleted_by_user_id := user, deletion_batch_id := Some b\<rparr>"

definition stamp_bulk :: "datetime \<Rightarrow> uuid option \<Rightarrow> uuid \<Rightarrow> uuid \<Rightarrow> row list \<Rightarrow> row list" where
  "stamp_bulk now user b z t = map (\<lambda>r. if in_zone z r \<and> live r then stamp now user b r else r) t"

fun apply_bulk :: "datetime \<Rightarrow> uuid option \<Rightarrow> uuid \<Rightarrow> (uuid \<times> nat) list \<Rightarrow> row list \<Rightarrow> (uuid \<times> nat) list \<times> row list" where
  "apply_bulk now user b [] t = ([], t)"
| "apply_bulk now user b ((z, _) # zs) t =
     (let (done', t') = apply_bulk now user b zs (stamp_bulk now user b z t) in
      ((z, length (filter (\<lambda>r. in_zone z r \<and> live r) t)) # done', t'))"

definition apply_soft_delete :: "datetime \<Rightarrow> uuid option \<Rightarrow> soft_delete_batch \<Rightarrow> row list \<Rightarrow> soft_delete_batch \<times> row list" where
  "apply_soft_delete now user b t =
     (let t1 = fold (\<lambda>x. map (\<lambda>r. if obj_key r = obj_key x then stamp now user (batch_id b) r else r)) (batch_rows b) t;
          (children, t2) = apply_bulk now user (batch_id b) (bulk b) t1
      in (b\<lparr>bulk := children\<rparr>, t2))"

definition in_batch :: "uuid \<Rightarrow> row \<Rightarrow> bool" where
  "in_batch b r \<longleftrightarrow> deletion_batch_id r = Some b"

definition batch_resource_types :: "row list \<Rightarrow> uuid \<Rightarrow> string list" where
  "batch_resource_types t b = filter (\<lambda>ty. list_ex (\<lambda>r. resource_type (r_data r) = ty \<and> in_batch b r) t) TYPE_TO_MODEL"

section \<open>What a restored row would clash with\<close>

record conflict =
  cf_type :: string
  cf_id :: uuid
  cf_display :: string
  cf_reason :: string
  cf_parent :: "(string \<times> uuid \<times> string) option"

definition parent_ref :: "row \<Rightarrow> string \<times> uuid \<times> string" where
  "parent_ref p = (resource_type (r_data p), r_id p, row_display p)"

definition parent_reason :: "string \<Rightarrow> string \<Rightarrow> string" where
  "parent_reason kind display = ''its '' @ kind @ '' '' @ display @ '' is in the Trash - restore '' @ display @
     '' from the Trash first (that brings back the rows deleted with it)''"

text \<open>The parents of a row: what the message calls it, its model and its id.\<close>

definition parent_candidates :: "row_data \<Rightarrow> (string \<times> string \<times> uuid option) list" where
  "parent_candidates d = (case d of
       Subnet s b _ _ \<Rightarrow> [(''block'', ''ip_block'', b), (''IP space'', ''ip_space'', Some s)]
     | IPBlock s p _ _ \<Rightarrow> [(''parent block'', ''ip_block'', p), (''IP space'', ''ip_space'', Some s)]
     | DHCPScope _ s _ _ \<Rightarrow> [(''subnet'', ''subnet'', Some s)]
     | DHCPPool s _ _ _ \<Rightarrow> [(''DHCP scope'', ''dhcp_scope'', Some s)]
     | DHCPStaticAssignment s _ _ \<Rightarrow> [(''DHCP scope'', ''dhcp_scope'', Some s)]
     | DNSRecord r _ _ \<Rightarrow> [(''zone'', ''dns_zone'', Some (rec_zone_id r))]
     | NetworkService _ c \<Rightarrow> [(''customer'', ''customer'', c)]
     | OverlayNetwork _ c \<Rightarrow> [(''customer'', ''customer'', c)]
     | _ \<Rightarrow> [])"

definition trashed_parent_row :: "row list \<Rightarrow> string \<Rightarrow> uuid option \<Rightarrow> uuid option \<Rightarrow> row option" where
  "trashed_parent_row t ty pid b = (case pid of None \<Rightarrow> None
     | Some i \<Rightarrow> (case find (\<lambda>r. obj_key r = (ty, i)) t of None \<Rightarrow> None
         | Some p \<Rightarrow> if live p \<or> deletion_batch_id p = b then None else Some p))"

definition trashed_parent :: "row list \<Rightarrow> row \<Rightarrow> (string \<times> row) option" where
  "trashed_parent t obj = (case List.map_filter (\<lambda>(kind, ty, pid).
       map_option (\<lambda>p. (kind, p)) (trashed_parent_row t ty pid (deletion_batch_id obj))) (parent_candidates (r_data obj)) of
     [] \<Rightarrow> None | f # _ \<Rightarrow> Some f)"

definition trashed_parent_reason :: "row list \<Rightarrow> row \<Rightarrow> string option" where
  "trashed_parent_reason t obj = map_option (\<lambda>(kind, p). parent_reason kind (row_display p)) (trashed_parent t obj)"

text \<open>\<open>_assert_no_overlap\<close>, \<open>_assert_no_block_overlap\<close> and \<open>_assert_no_overlapping_group_cidr\<close>; \<open>Inl\<close> is the
  detail of the 409.\<close>

definition subnet_of :: "ipnet \<Rightarrow> ipnet \<Rightarrow> bool" where
  "subnet_of a b \<longleftrightarrow> version a = version b \<and> network_address b \<le> network_address a \<and> broadcast_address a \<le> broadcast_address b"

definition assert_no_overlap :: "row list \<Rightarrow> uuid \<Rightarrow> ipnet \<Rightarrow> uuid \<Rightarrow> string + unit" where
  "assert_no_overlap t space n exclude =
     (case List.map_filter (\<lambda>r. case r_data r of Subnet s _ m _ \<Rightarrow>
          if s = space \<and> overlaps m n \<and> live r \<and> r_id r \<noteq> exclude then Some m else None | _ \<Rightarrow> None) t of
        [] \<Rightarrow> Inr ()
      | m # _ \<Rightarrow> Inl (''Network '' @ str_net n @ '' overlaps with existing subnet '' @ str_net m))"

fun block_siblings :: "ipnet \<Rightarrow> (uuid \<times> ipnet) list \<Rightarrow> string + uuid list" where
  "block_siblings n [] = Inr []"
| "block_siblings n ((i, m) # sibs) =
     (if m = n then Inl (''Block '' @ str_net n @ '' already exists at this level'')
      else if subnet_of m n then (case block_siblings n sibs of Inl e \<Rightarrow> Inl e | Inr is \<Rightarrow> Inr (i # is))
      else if subnet_of n m then Inl (''Block '' @ str_net n @ '' is contained in existing block '' @ str_net m @
        ''; set parent_block_id to that block instead of placing it at the same level.'')
      else Inl (''Block '' @ str_net n @ '' overlaps with existing block '' @ str_net m))"

definition assert_no_block_overlap :: "row list \<Rightarrow> uuid \<Rightarrow> ipnet \<Rightarrow> uuid option \<Rightarrow> uuid \<Rightarrow> string + uuid list" where
  "assert_no_block_overlap t space n parent exclude =
     block_siblings n (List.map_filter (\<lambda>r. case r_data r of IPBlock s p m _ \<Rightarrow>
       if s = space \<and> overlaps m n \<and> live r \<and> p = parent \<and> r_id r \<noteq> exclude then Some (r_id r, m) else None | _ \<Rightarrow> None) t)"

definition assert_no_overlapping_group_cidr :: "row list \<Rightarrow> uuid \<Rightarrow> uuid \<Rightarrow> ipnet \<Rightarrow> uuid \<Rightarrow> string + unit" where
  "assert_no_overlapping_group_cidr t gid sid n exclude =
     (case List.map_filter (\<lambda>r. case r_data r of DHCPScope g s _ active \<Rightarrow>
          if g = gid \<and> s \<noteq> sid \<and> active \<and> live r \<and> r_id r \<noteq> exclude
          then (case find (\<lambda>x. obj_key x = (''subnet'', s)) t of
                  Some x \<Rightarrow> (case r_data x of Subnet _ _ m _ \<Rightarrow> if overlaps m n then Some m else None | _ \<Rightarrow> None)
                | None \<Rightarrow> None)
          else None | _ \<Rightarrow> None) t of
        [] \<Rightarrow> Inr ()
      | m # _ \<Rightarrow> Inl (''An active scope in this DHCP server group already covers '' @ str_net m @ '', which overlaps '' @
          str_net n @ '' (another IP space). Duplicate or overlapping prefixes on one Kea server reject the whole '' @
          ''config at load, taking down DHCP for every scope in the group - use a separate DHCP server '' @
          ''group per overlapping IP space (#844).''))"

text \<open>A live row other than the one restored, with the given data.\<close>

definition other_live :: "row list \<Rightarrow> row \<Rightarrow> (row_data \<Rightarrow> bool) \<Rightarrow> bool" where
  "other_live t obj P = list_ex (\<lambda>r. live r \<and> obj_key r \<noteq> obj_key obj \<and> P (r_data r)) t"

definition block_check :: "row list \<Rightarrow> row \<Rightarrow> uuid \<Rightarrow> uuid option \<Rightarrow> ipnet \<Rightarrow> string option" where
  "block_check t obj space parent n =
     (if other_live t obj (\<lambda>d. case d of IPBlock s _ m _ \<Rightarrow> s = space \<and> m = n | _ \<Rightarrow> False)
      then Some (''An active block with CIDR '' @ str_net n @ '' already exists in this space'')
      else case assert_no_block_overlap t space n parent (r_id obj) of Inl e \<Rightarrow> Some e
      | Inr [] \<Rightarrow> None
      | Inr (i # _) \<Rightarrow> Some (''Block '' @ str_net n @ '' would contain existing block '' @
          (case find (\<lambda>r. obj_key r = (''ip_block'', i) \<and> live r) t of
             Some r \<Rightarrow> (case r_data r of IPBlock _ _ m _ \<Rightarrow> str_net m | _ \<Rightarrow> ''None'') | None \<Rightarrow> ''None'') @
          '' at the same level; a restore does not re-parent live blocks. Move or delete that block first''))"

definition scope_restore_check :: "row list \<Rightarrow> row \<Rightarrow> uuid \<Rightarrow> uuid \<Rightarrow> bool \<Rightarrow> string option" where
  "scope_restore_check t obj gid sid active =
     (if other_live t obj (\<lambda>d. case d of DHCPScope g s _ _ \<Rightarrow> g = gid \<and> s = sid | _ \<Rightarrow> False)
      then Some ''An active DHCP scope already exists for this group + subnet''
      else if \<not> active then None
      else case find (\<lambda>x. obj_key x = (''subnet'', sid)) t of
        Some x \<Rightarrow> (case r_data x of
           Subnet _ _ n _ \<Rightarrow> (case assert_no_overlapping_group_cidr t gid sid n (r_id obj) of Inl e \<Rightarrow> Some e | Inr _ \<Rightarrow> None)
         | _ \<Rightarrow> None)
      | None \<Rightarrow> None)"

definition group_of_scope :: "row list \<Rightarrow> uuid \<Rightarrow> uuid option" where
  "group_of_scope t i = (case find (\<lambda>x. obj_key x = (''dhcp_scope'', i)) t of None \<Rightarrow> None
     | Some x \<Rightarrow> (case r_data x of DHCPScope g _ _ _ \<Rightarrow> Some g | _ \<Rightarrow> None))"

definition live_scope_of_group :: "row list \<Rightarrow> uuid \<Rightarrow> uuid \<Rightarrow> bool" where
  "live_scope_of_group t i gid = list_ex (\<lambda>x. obj_key x = (''dhcp_scope'', i) \<and> live x \<and>
     (case r_data x of DHCPScope g _ _ _ \<Rightarrow> g = gid | _ \<Rightarrow> False)) t"

definition default_conflict_check :: "row list \<Rightarrow> row \<Rightarrow> string option" where
  "default_conflict_check t obj = (case trashed_parent_reason t obj of Some e \<Rightarrow> Some e
     | None \<Rightarrow> (case r_data obj of
         IPSpace name \<Rightarrow> if other_live t obj (\<lambda>d. case d of IPSpace m \<Rightarrow> m = name | _ \<Rightarrow> False)
           then Some (''An active IP space named '' @ quoted name @ '' already exists'') else None
       | IPBlock s p n _ \<Rightarrow> block_check t obj s p n
       | Subnet s _ n _ \<Rightarrow>
           if other_live t obj (\<lambda>d. case d of Subnet s' _ m _ \<Rightarrow> s' = s \<and> m = n | _ \<Rightarrow> False)
           then Some (''An active subnet with CIDR '' @ str_net n @ '' already exists in this space'')
           else (case assert_no_overlap t s n (r_id obj) of Inl e \<Rightarrow> Some e | Inr _ \<Rightarrow> None)
       | Customer name \<Rightarrow> if other_live t obj (\<lambda>d. case d of Customer m \<Rightarrow> m = name | _ \<Rightarrow> False)
           then Some (''An active customer named '' @ quoted name @ '' already exists'') else None
       | OverlayNetwork name _ \<Rightarrow> if other_live t obj (\<lambda>d. case d of OverlayNetwork m _ \<Rightarrow> m = name | _ \<Rightarrow> False)
           then Some (''An active overlay named '' @ quoted name @ '' already exists'') else None
       | NetworkService name c \<Rightarrow>
           if other_live t obj (\<lambda>d. case d of NetworkService m c' \<Rightarrow> c' = c \<and> m = name | _ \<Rightarrow> False)
           then Some (''An active service named '' @ quoted name @ '' already exists for this customer'') else None
       | DNSZone g v name \<Rightarrow> if other_live t obj (\<lambda>d. case d of DNSZone g' v' m \<Rightarrow> g' = g \<and> v' = v \<and> m = name | _ \<Rightarrow> False)
           then Some (''An active zone '' @ quoted name @ '' already exists in this group/view'') else None
       | DHCPScope g s _ active \<Rightarrow> scope_restore_check t obj g s active
       | DHCPStaticAssignment s mac _ \<Rightarrow> (case group_of_scope t s of None \<Rightarrow> None
           | Some g \<Rightarrow> if other_live t obj (\<lambda>d. case d of DHCPStaticAssignment s' m _ \<Rightarrow> m = mac \<and> live_scope_of_group t s' g | _ \<Rightarrow> False)
               then Some (''MAC '' @ mac @ '' has since been reserved by a live scope in this group'') else None)
       | _ \<Rightarrow> None))"

section \<open>Restoring a batch\<close>

definition identical_records :: "dns_record \<Rightarrow> dns_record \<Rightarrow> bool" where
  "identical_records a b \<longleftrightarrow> rec_zone_id a = rec_zone_id b \<and> py_lower (rec_name a) = py_lower (rec_name b) \<and>
     py_upper (rec_type a) = py_upper (rec_type b) \<and> btrim (rec_value a) = btrim (rec_value b) \<and>
     rec_view_id a = rec_view_id b \<and> rec_priority a = rec_priority b \<and> rec_weight a = rec_weight b \<and> rec_port a = rec_port b"

definition cname_clash :: "dns_record \<Rightarrow> dns_record \<Rightarrow> bool" where
  "cname_clash a b \<longleftrightarrow> rec_zone_id a = rec_zone_id b \<and> py_lower (rec_name a) = py_lower (rec_name b) \<and>
     (rec_view_id a = None \<or> rec_view_id b = None \<or> rec_view_id a = rec_view_id b) \<and>
     (py_upper (rec_type a) = ''CNAME'' \<or> py_upper (rec_type b) = ''CNAME'')"

text \<open>The records of a table, each with its row; all of them, and the live ones.\<close>

definition records :: "row list \<Rightarrow> (row \<times> dns_record) list" where
  "records t = List.map_filter (\<lambda>r. case r_data r of DNSRecord d _ _ \<Rightarrow> Some (r, d) | _ \<Rightarrow> None) t"

definition live_records :: "row list \<Rightarrow> (row \<times> dns_record) list" where
  "live_records t = filter (\<lambda>(r, _). live r) (records t)"

definition batch_records :: "row list \<Rightarrow> uuid \<Rightarrow> (row \<times> dns_record) list" where
  "batch_records t b = filter (\<lambda>(r, _). in_batch b r) (records t)"

definition live_duplicate_exists :: "row list \<Rightarrow> row \<times> dns_record \<Rightarrow> bool" where
  "live_duplicate_exists t x = list_ex (\<lambda>(r, d). identical_records d (snd x) \<and> r_id r \<noteq> r_id (fst x)) (live_records t)"

definition live_cname_clash_exists :: "row list \<Rightarrow> row \<times> dns_record \<Rightarrow> bool" where
  "live_cname_clash_exists t x = list_ex (\<lambda>(r, d). cname_clash d (snd x) \<and> r_id r \<noteq> r_id (fst x)) (live_records t)"

definition record_conflicts :: "row list \<Rightarrow> uuid \<Rightarrow> (uuid \<times> string) list" where
  "record_conflicts t b = map (\<lambda>(r, d). (r_id r, record_label (rec_fqdn d) (rec_type d)))
     (filter (live_duplicate_exists t) (batch_records t b))"

text \<open>One entry per record of the batch, with the oldest live row in its way.\<close>

fun first_of_each :: "uuid set \<Rightarrow> (uuid \<times> 'v) list \<Rightarrow> (uuid \<times> 'v) list" where
  "first_of_each seen [] = []"
| "first_of_each seen ((k, v) # kvs) =
     (if k \<in> seen then first_of_each seen kvs else (k, v) # first_of_each (insert k seen) kvs)"

definition record_cname_conflicts :: "row list \<Rightarrow> uuid \<Rightarrow> (uuid \<times> string \<times> string) list" where
  "record_cname_conflicts t b = first_of_each {} (map (\<lambda>((r, d), (_, e)).
       (r_id r, record_label (rec_fqdn d) (rec_type d), describe_cname_conflict (rec_type d) (rec_fqdn d) e))
     (sort_key (\<lambda>(_, (_, e)). rec_created_at e)
       [(x, y). x \<leftarrow> batch_records t b, y \<leftarrow> live_records t, cname_clash (snd y) (snd x) \<and> r_id (fst y) \<noteq> r_id (fst x)]))"

definition record_parent_conflicts :: "row list \<Rightarrow> uuid \<Rightarrow> (uuid \<times> string \<times> string \<times> row) list" where
  "record_parent_conflicts t b = List.map_filter (\<lambda>(r, d).
     case find (\<lambda>z. obj_key z = (''dns_zone'', rec_zone_id d)) t of None \<Rightarrow> None
     | Some z \<Rightarrow> if \<not> live z \<and> deletion_batch_id z \<noteq> Some b
         then Some (r_id r, record_label (rec_fqdn d) (rec_type d), parent_reason ''zone'' (row_display z), z) else None)
     (batch_records t b)"

definition orphan_record_reason :: "string \<Rightarrow> string" where
  "orphan_record_reason a = ''its IP address '' @ a @ '' is an orphan, so it would name a host that no longer publishes '' @
     ''one. Restore the address first, then this record''"

definition address_of :: "address_row list \<Rightarrow> uuid option \<Rightarrow> address_row option" where
  "address_of ads i = (case i of None \<Rightarrow> None | Some x \<Rightarrow> find (\<lambda>a. ad_id a = x) ads)"

text \<open>\<open>orphan_record_owners(batch_id=...)\<close>.\<close>

definition orphan_record_owners :: "row list \<Rightarrow> address_row list \<Rightarrow> uuid \<Rightarrow> (uuid \<times> string \<times> string) list" where
  "orphan_record_owners t ads b = List.map_filter (\<lambda>r. case r_data r of
       DNSRecord d auto ip \<Rightarrow>
         (case (address_of ads ip, find (\<lambda>z. obj_key z = (''dns_zone'', rec_zone_id d)) t) of
            (Some a, Some z) \<Rightarrow>
              (if auto \<and> \<not> live r \<and> ad_status a = ''orphan'' \<and> deletion_batch_id z \<noteq> deletion_batch_id r \<and> in_batch b r
               then Some (r_id r, record_label (rec_fqdn d) (rec_type d), ad_address a) else None)
          | _ \<Rightarrow> None)
     | _ \<Rightarrow> None) t"

text \<open>The subnet in the Trash that a record of the batch belongs to.\<close>

definition holding_subnet :: "row list \<Rightarrow> address_row list \<Rightarrow> uuid \<Rightarrow> row \<Rightarrow> row option" where
  "holding_subnet t ads b r = (case r_data r of
       DNSRecord _ auto ip \<Rightarrow>
         (if \<not> in_batch b r \<or> \<not> auto then None
          else case address_of ads ip of None \<Rightarrow> None
          | Some a \<Rightarrow> (case find (\<lambda>s. obj_key s = (''subnet'', ad_subnet_id a)) t of None \<Rightarrow> None
              | Some s \<Rightarrow> if live s \<or> deletion_batch_id s = None \<or> deletion_batch_id s = Some b then None else Some s))
     | _ \<Rightarrow> None)"

definition held_entry :: "row \<Rightarrow> nat \<Rightarrow> conflict" where
  "held_entry s n = \<lparr>cf_type = ''subnet'', cf_id = r_id s,
     cf_display = nat_digits n @ '' IPAM record'' @ (if n = 1 then [] else ''s'') @ '' of '' @ row_display s,
     cf_reason = ''subnet '' @ row_display s @ '' is in the Trash - its records stay there with it and come back when it is restored'',
     cf_parent = Some (parent_ref s)\<rparr>"

definition hold_records_with_trashed_subnet :: "row list \<Rightarrow> address_row list \<Rightarrow> uuid \<Rightarrow> row list \<times> uuid set \<times> conflict list" where
  "hold_records_with_trashed_subnet t ads b =
     (let moved = filter (\<lambda>r. holding_subnet t ads b r \<noteq> None) t;
          subs = List.map_filter (holding_subnet t ads b) t;
          names = rev (remdups (rev subs)) in
      (map (\<lambda>r. case holding_subnet t ads b r of None \<Rightarrow> r
             | Some s \<Rightarrow> r\<lparr>deleted_at := deleted_at s, deleted_by_user_id := deleted_by_user_id s,
                 deletion_batch_id := deletion_batch_id s\<rparr>) t,
       set (map r_id moved), map (\<lambda>s. held_entry s (length (filter (\<lambda>x. x = s) subs))) names))"

record restore_result =
  restored :: "row list"
  conflicts :: "conflict list"
  rs_bulk :: "(uuid \<times> nat) list"
  held_back :: "conflict list"

definition restore_total :: "restore_result \<Rightarrow> nat" where
  "restore_total r = length (restored r) + sum_list (map snd (rs_bulk r))"

definition plain_conflict :: "string \<Rightarrow> uuid \<Rightarrow> string \<Rightarrow> string \<Rightarrow> conflict" where
  "plain_conflict ty i display reason = \<lparr>cf_type = ty, cf_id = i, cf_display = display, cf_reason = reason, cf_parent = None\<rparr>"

text \<open>The checks on the records of the batch: the refused ids and their entries.\<close>

record record_checks =
  rc_twins :: "uuid set"
  rc_cnames :: "uuid set"
  rc_parents :: "uuid set"
  rc_entries :: "conflict list"

definition check_records :: "row list \<Rightarrow> address_row list \<Rightarrow> uuid \<Rightarrow> record_checks" where
  "check_records t ads b =
     (let twins = record_conflicts t b;
          cnames = filter (\<lambda>(i, _). i \<notin> fst ` set twins) (record_cname_conflicts t b);
          parents = record_parent_conflicts t b;
          orphans = filter (\<lambda>(i, _). i \<notin> fst ` set twins \<and> i \<notin> fst ` set parents) (orphan_record_owners t ads b) in
      \<lparr>rc_twins = fst ` set twins, rc_cnames = fst ` set cnames, rc_parents = fst ` set parents \<union> fst ` set orphans,
       rc_entries = map (\<lambda>(i, label, reason). plain_conflict ''dns_record'' i label reason) cnames @
         map (\<lambda>(i, label). plain_conflict ''dns_record'' i label ''An identical record already exists in zone'') twins @
         map (\<lambda>(i, label, reason, z). (plain_conflict ''dns_record'' i label reason)\<lparr>cf_parent := Some (parent_ref z)\<rparr>) parents @
         map (\<lambda>(i, label, a). plain_conflict ''dns_record'' i label (orphan_record_reason a)) orphans\<rparr>)"

definition no_checks :: record_checks where
  "no_checks = \<lparr>rc_twins = {}, rc_cnames = {}, rc_parents = {}, rc_entries = []\<rparr>"

definition object_conflict :: "row list \<Rightarrow> row \<Rightarrow> string \<Rightarrow> conflict" where
  "object_conflict t obj reason = (plain_conflict (resource_type (r_data obj)) (r_id obj) (row_display obj) reason)
     \<lparr>cf_parent := map_option (\<lambda>(_, p). parent_ref p) (trashed_parent t obj)\<rparr>"

definition is_record :: "row \<Rightarrow> bool" where
  "is_record r = (case r_data r of DNSRecord _ _ _ \<Rightarrow> True | _ \<Rightarrow> False)"

text \<open>The rows of the batch other than records, model by model.\<close>

definition batch_objects :: "row list \<Rightarrow> uuid \<Rightarrow> row list" where
  "batch_objects t b = concat (map (\<lambda>ty. filter (\<lambda>r. resource_type (r_data r) = ty \<and> in_batch b r) t)
     (filter (\<lambda>ty. ty \<noteq> ''dns_record'') TYPE_TO_MODEL))"

definition unstamp :: "row \<Rightarrow> row" where
  "unstamp r = r\<lparr>deleted_at := None, deleted_by_user_id := None, deletion_batch_id := None\<rparr>"

text \<open>The UPDATE of one zone's records, with the number of rows it matched.\<close>

definition unstamp_zone :: "uuid \<Rightarrow> record_checks \<Rightarrow> uuid \<Rightarrow> row list \<Rightarrow> nat \<times> row list" where
  "unstamp_zone b rc z t =
     (let hit = (\<lambda>r. in_zone z r \<and> in_batch b r \<and> (case r_data r of
            DNSRecord d _ _ \<Rightarrow> (rc_cnames rc = {} \<or> \<not> live_cname_clash_exists t (r, d)) \<and>
              (rc_twins rc = {} \<or> \<not> live_duplicate_exists t (r, d))
          | _ \<Rightarrow> False)) in
      (length (filter hit t), map (\<lambda>r. if hit r then unstamp r else r) t))"

fun unstamp_zones :: "uuid \<Rightarrow> record_checks \<Rightarrow> uuid list \<Rightarrow> row list \<Rightarrow> (uuid \<times> nat) list \<times> row list" where
  "unstamp_zones b rc [] t = ([], t)"
| "unstamp_zones b rc (z # zs) t =
     (let (n, t1) = unstamp_zone b rc z t; (cs, t2) = unstamp_zones b rc zs t1 in
      ((if n = 0 then cs else (z, n) # cs), t2))"

definition restore_batch :: "(row list \<Rightarrow> row \<Rightarrow> string option) option \<Rightarrow> bool \<Rightarrow> address_row list \<Rightarrow> uuid \<Rightarrow> row list \<Rightarrow>
    restore_result \<times> row list" where
  "restore_batch check skip ads b t =
     (let rc = (case check of None \<Rightarrow> no_checks | Some _ \<Rightarrow> check_records t ads b);
          refusal = (\<lambda>obj. case check of None \<Rightarrow> None | Some f \<Rightarrow> f t obj);
          objs = batch_objects t b;
          kept = filter (\<lambda>o'. refusal o' = None) objs;
          found = rc_entries rc @ List.map_filter (\<lambda>o'. map_option (object_conflict t o') (refusal o')) objs;
          zone_ids = map r_id (filter is_zone kept);
          loose = filter (\<lambda>r. is_record r \<and> in_batch b r \<and> \<not> list_ex (\<lambda>z. in_zone z r) zone_ids \<and>
            r_id r \<notin> rc_twins rc \<union> rc_parents rc \<union> rc_cnames rc) t in
      if found \<noteq> [] \<and> \<not> skip then (\<lparr>restored = [], conflicts = found, rs_bulk = [], held_back = []\<rparr>, t)
      else let (t1, held, entries) = hold_records_with_trashed_subnet t ads b;
             back = filter (\<lambda>o'. r_id o' \<notin> held) (kept @ loose);
             (bulk', t2) = unstamp_zones b rc zone_ids t1;
             t3 = map (\<lambda>r. if obj_key r \<in> obj_key ` set back then unstamp r else r) t2
        in (\<lparr>restored = back, conflicts = found, rs_bulk = bulk', held_back = entries\<rparr>, t3))"

definition audit_new_value :: "restore_result \<Rightarrow> row \<Rightarrow> uuid \<Rightarrow> pyval" where
  "audit_new_value res obj b = PyDict ((''deletion_batch_id'', PyStr b) #
     (case map_of (rs_bulk res) (r_id obj) of None \<Rightarrow> [] | Some n \<Rightarrow> [(''restored'', PyDict [(''dns_record'', PyInt (int n))])]) @
     (if held_back res \<noteq> [] \<and> is_zone obj then [(''held_back'', PyList (map (PyStr \<circ> cf_display) (held_back res)))] else []))"

section \<open>What a deletion takes with it\<close>

text \<open>The child of a row in the tree the deletion walks. A record hangs on its zone but is not walked, and
  nothing cascades from a customer.\<close>

definition names_parent :: "row \<Rightarrow> row \<Rightarrow> bool" where
  "names_parent c p \<longleftrightarrow> (\<exists>kind. (kind, resource_type (r_data p), Some (r_id p)) \<in> set (parent_candidates (r_data c))) \<and>
     resource_type (r_data p) \<noteq> ''customer''"

definition walked_child :: "row list \<Rightarrow> row \<Rightarrow> row \<Rightarrow> bool" where
  "walked_child t c p \<longleftrightarrow> c \<in> set t \<and> live c \<and> \<not> is_record c \<and> names_parent c p"

inductive descends :: "row list \<Rightarrow> row \<Rightarrow> row \<Rightarrow> bool" for t root where
  descends_root: "descends t root root"
| descends_child: "descends t root x \<Longrightarrow> walked_child t c x \<Longrightarrow> descends t root c"

definition children :: "row list \<Rightarrow> row \<Rightarrow> row set" where
  "children t p = {c. walked_child t c p}"

lemmas child_defs = children_def walked_child_def names_parent_def is_record_def parent_candidates_def

lemma children_cases:
  "children t r = (case r_data r of
       IPSpace _ \<Rightarrow> set (blocks_of_space t (r_id r)) \<union> set (subnets_of_space t (r_id r))
     | IPBlock _ _ _ _ \<Rightarrow> set (blocks_of_block t (r_id r)) \<union> set (subnets_of_block t (r_id r))
     | Subnet _ _ _ _ \<Rightarrow> set (scopes_of_subnet t (r_id r))
     | DHCPScope _ _ _ _ \<Rightarrow> set (pools_of_scope t (r_id r)) \<union> set (statics_of_scope t (r_id r))
     | _ \<Rightarrow> {})"
  by (cases "r_data r")
    (auto simp: child_defs blocks_of_space_def subnets_of_space_def blocks_of_block_def subnets_of_block_def
      scopes_of_subnet_def pools_of_scope_def statics_of_scope_def split: row_data.splits)

lemma walk_all_mem:
  assumes "walk_all f rs = Some out"
  shows "x \<in> set out \<longleftrightarrow> (\<exists>r \<in> set rs. x = r \<or> (\<exists>ds. f r = Some ds \<and> x \<in> set ds))"
    "r \<in> set rs \<Longrightarrow> \<exists>ds. f r = Some ds"
proof -
  have "(\<forall>x. x \<in> set out \<longleftrightarrow> (\<exists>r \<in> set rs. x = r \<or> (\<exists>ds. f r = Some ds \<and> x \<in> set ds))) \<and> (\<forall>r \<in> set rs. \<exists>ds. f r = Some ds)"
    using assms by (induction f rs arbitrary: out rule: walk_all.induct) (auto split: option.splits)
  then show "x \<in> set out \<longleftrightarrow> (\<exists>r \<in> set rs. x = r \<or> (\<exists>ds. f r = Some ds \<and> x \<in> set ds))"
    "r \<in> set rs \<Longrightarrow> \<exists>ds. f r = Some ds" by blast+
qed

text \<open>The subtree below a row, without the row.\<close>

definition below :: "row list \<Rightarrow> row \<Rightarrow> row set" where
  "below t r = {x. \<exists>c \<in> children t r. descends t c x}"

lemma descends_trans: "descends t x y \<Longrightarrow> descends t r x \<Longrightarrow> descends t r y"
  by (induction rule: descends.induct) (auto intro: descends_child)

lemma descends_below: "descends t r x \<longleftrightarrow> x = r \<or> x \<in> below t r"
proof
  show "x = r \<or> x \<in> below t r" if "descends t r x"
    using that by (induction rule: descends.induct) (auto simp: below_def children_def intro: descends_root descends_child)
  show "descends t r x" if "x = r \<or> x \<in> below t r"
    using that descends_trans [of t _ x r] descends_child [OF descends_root, of t _ r]
    by (auto simp: below_def children_def intro: descends_root)
qed

lemma below_children: "below t r = (\<Union>c \<in> children t r. insert c (below t c))"
  unfolding below_def [of t r] descends_below by blast

lemma below_mono: "x \<in> below t r \<Longrightarrow> below t x \<subseteq> below t r"
  using descends_trans descends_below unfolding below_def [of t r] by blast

lemma below_in_table: "x \<in> below t r \<Longrightarrow> x \<in> set t \<and> live x \<and> \<not> is_record x"
proof -
  have "descends t c x \<Longrightarrow> walked_child t c r \<Longrightarrow> x \<in> set t \<and> live x \<and> \<not> is_record x" for c
    by (induction rule: descends.induct) (auto simp: walked_child_def)
  then show "x \<in> below t r \<Longrightarrow> x \<in> set t \<and> live x \<and> \<not> is_record x" by (auto simp: below_def children_def)
qed

lemma walk_all_below:
  assumes "walk_all f rs = Some out" "\<And>r ds. r \<in> set rs \<Longrightarrow> f r = Some ds \<Longrightarrow> set ds = below t r"
  shows "set out = (\<Union>r \<in> set rs. insert r (below t r))"
proof (rule set_eqI)
  fix x
  have "(\<exists>ds. f r = Some ds \<and> x \<in> set ds) \<longleftrightarrow> x \<in> below t r" if "r \<in> set rs" for r
    using walk_all_mem(2) [OF assms(1) that] assms(2) [OF that] by auto
  then show "x \<in> set out \<longleftrightarrow> x \<in> (\<Union>r \<in> set rs. insert r (below t r))"
    unfolding walk_all_mem(1) [OF assms(1)] by auto
qed

lemma same_row: "distinct (map r_id t) \<Longrightarrow> x \<in> set t \<Longrightarrow> y \<in> set t \<Longrightarrow> r_id x = r_id y \<Longrightarrow> x = y"
  by (auto simp: distinct_map dest: inj_onD)

lemma walk_new_below:
  assumes "walk_new f out rs = Some out'" "\<And>r ds. r \<in> set rs \<Longrightarrow> f r = Some ds \<Longrightarrow> set ds = below t r"
    "distinct (map r_id t)" "set rs \<subseteq> set t" "set out \<subseteq> set t" "\<And>r. r \<in> set out \<Longrightarrow> below t r \<subseteq> set out"
  shows "set out' = set out \<union> (\<Union>r \<in> set rs. insert r (below t r))"
  using assms
proof (induction f out rs rule: walk_new.induct)
  case (2 f out r rs)
  show ?case
  proof (cases "r_id r \<in> r_id ` set out")
    case True
    then obtain x where x: "x \<in> set out" "r_id x = r_id r" by auto
    then have "x = r" using same_row [OF "2.prems"(3)] "2.prems"(4,5) by auto
    then have "insert r (below t r) \<subseteq> set out" using x(1) "2.prems"(6) [of r] by simp
    moreover have "walk_new f out rs = Some out'" using "2.prems"(1) True by simp
    then have "set out' = set out \<union> (\<Union>r \<in> set rs. insert r (below t r))"
      by (rule "2.IH"(1) [OF True]) (use "2.prems" in simp_all)
    ultimately show ?thesis by auto
  next
    case False
    then obtain ds where ds: "f r = Some ds" "walk_new f (out @ ds @ [r]) rs = Some out'"
      using "2.prems"(1) by (auto split: option.splits)
    have set: "set ds = below t r" using "2.prems"(2) ds(1) by simp
    have sub: "set (out @ ds @ [r]) \<subseteq> set t" using "2.prems"(4,5) set below_in_table by auto
    have closed: "below t x \<subseteq> set (out @ ds @ [r])" if "x \<in> set (out @ ds @ [r])" for x
      using that "2.prems"(6) set below_mono [of x t r] by auto
    have "set out' = set (out @ ds @ [r]) \<union> (\<Union>r \<in> set rs. insert r (below t r))"
      by (rule "2.IH"(2) [OF False ds(1) ds(2) _ "2.prems"(3) _ sub closed]) (use "2.prems"(2,4) in simp_all)
    then show ?thesis using set by auto
  qed
qed simp

lemma collect_below:
  assumes "collect_descendants n t root = Some ds" "distinct (map r_id t)"
  shows "set ds = below t root"
  using assms(1)
proof (induction n arbitrary: root ds)
  case (Suc n)
  note below = below_children [of t root] children_cases [of t root]
  show ?case
  proof (cases "r_data root")
    case (IPSpace name)
    then obtain out where out: "walk_all (collect_descendants n t) (blocks_of_space t (r_id root)) = Some out"
      "walk_new (collect_descendants n t) out (subnets_of_space t (r_id root)) = Some ds"
      using Suc.prems by (auto split: option.splits)
    have o: "set out = (\<Union>r \<in> set (blocks_of_space t (r_id root)). insert r (below t r))"
      by (rule walk_all_below [OF out(1)]) (rule Suc.IH)
    have closed: "below t x \<subseteq> set out" if "x \<in> set out" for x
      using that below_mono unfolding o by blast
    have "set ds = set out \<union> (\<Union>r \<in> set (subnets_of_space t (r_id root)). insert r (below t r))"
      by (rule walk_new_below [OF out(2) _ assms(2) _ _ closed])
        (use Suc.IH below_in_table o in \<open>auto simp: subnets_of_space_def blocks_of_space_def\<close>)
    then show ?thesis using o below IPSpace by auto
  next
    case (IPBlock s p m name)
    then obtain out out' where out: "walk_all (collect_descendants n t) (blocks_of_block t (r_id root)) = Some out"
      "walk_all (collect_descendants n t) (subnets_of_block t (r_id root)) = Some out'" "ds = out @ out'"
      using Suc.prems by (auto split: option.splits)
    show ?thesis using walk_all_below [OF out(1), of t] walk_all_below [OF out(2), of t] Suc.IH out(3) below IPBlock by auto
  next
    case (Subnet s p m name)
    then have "walk_all (collect_descendants n t) (scopes_of_subnet t (r_id root)) = Some ds" using Suc.prems by simp
    from walk_all_below [OF this, of t] show ?thesis using Suc.IH below Subnet by auto
  next
    case (DHCPScope g s name act)
    have leaf: "below t c = {}" if "c \<in> set (pools_of_scope t (r_id root)) \<union> set (statics_of_scope t (r_id root))" for c
      using that below_children [of t c] children_cases [of t c]
      by (auto simp: pools_of_scope_def statics_of_scope_def split: row_data.splits)
    then show ?thesis using DHCPScope Suc.prems below by auto
  qed (use Suc.prems below in auto)
qed simp

lemma new_rows_keys: "obj_key ` set (new_rows K rs) = obj_key ` set rs - K" "set (new_rows K rs) \<subseteq> set rs"
  "distinct (map obj_key (new_rows K rs))"
proof -
  have "obj_key ` set (new_rows K rs) = obj_key ` set rs - K \<and> set (new_rows K rs) \<subseteq> set rs \<and> distinct (map obj_key (new_rows K rs))"
  proof (induction K rs rule: new_rows.induct)
    case (2 K r rs)
    then show ?case by (cases "obj_key r \<in> K") auto
  qed simp
  then show "obj_key ` set (new_rows K rs) = obj_key ` set rs - K" "set (new_rows K rs) \<subseteq> set rs"
    "distinct (map obj_key (new_rows K rs))" by blast+
qed

lemma batch_of_root:
  assumes "collect_soft_delete_batch limit t b root = Some batch" "distinct (map r_id t)" "root \<in> set t"
  shows "set (batch_rows batch) = insert root (below t root)" "distinct (map obj_key (batch_rows batch))" "batch_id batch = b"
    "fst ` set (bulk batch) = r_id ` {x \<in> set (batch_rows batch). is_zone x}"
proof -
  obtain ds where ds: "collect_descendants limit t root = Some ds"
    "batch = \<lparr>batch_id = b, batch_rows = new_rows {} (ds @ [root]), bulk = attach_bulk t (new_rows {} (ds @ [root]))\<rparr>"
    using assms(1) by (auto simp: collect_soft_delete_batch_def add_to_batch_def Let_def split: option.splits)
  have set: "set (ds @ [root]) = insert root (below t root)" using collect_below [OF ds(1) assms(2)] by auto
  have sub: "insert root (below t root) \<subseteq> set t" using below_in_table assms(3) by blast
  have "set (ds @ [root]) \<subseteq> set (new_rows {} (ds @ [root]))"
  proof
    fix x assume x: "x \<in> set (ds @ [root])"
    then have "obj_key x \<in> obj_key ` set (new_rows {} (ds @ [root]))" using new_rows_keys(1) [of "{}"] by auto
    then obtain y where y: "y \<in> set (new_rows {} (ds @ [root]))" "obj_key y = obj_key x" by auto
    then have "y \<in> set (ds @ [root])" using new_rows_keys(2) by blast
    then have "y = x" using same_row [OF assms(2), of y x] x y(2) sub unfolding set by (auto simp: obj_key_def)
    then show "x \<in> set (new_rows {} (ds @ [root]))" using y(1) by simp
  qed
  then have "set (new_rows {} (ds @ [root])) = set (ds @ [root])" using new_rows_keys(2) by blast
  then show "set (batch_rows batch) = insert root (below t root)" using set ds(2) by simp
  show "distinct (map obj_key (batch_rows batch))" using new_rows_keys(3) ds(2) by simp
  show "batch_id batch = b" "fst ` set (bulk batch) = r_id ` {x \<in> set (batch_rows batch). is_zone x}"
    using ds(2) by (auto simp: attach_bulk_def image_iff)
qed

section \<open>The table after a deletion\<close>

lemma stamp_simps [simp]: "obj_key (stamp n u b r) = obj_key r" "r_data (stamp n u b r) = r_data r" "r_id (stamp n u b r) = r_id r"
  "\<not> live (stamp n u b r)" "in_zone z (stamp n u b r) = in_zone z r" "stamp n u b (stamp n u b r) = stamp n u b r"
  by (simp_all add: stamp_def obj_key_def live_def in_zone_def)

lemma stamp_rows:
  "fold (\<lambda>x. map (\<lambda>r. if obj_key r = obj_key x then stamp n u b r else r)) xs t =
     map (\<lambda>r. if obj_key r \<in> obj_key ` set xs then stamp n u b r else r) t"
proof (induction xs arbitrary: t)
  case (Cons x xs)
  show ?case unfolding fold_Cons comp_apply Cons.IH by auto
qed simp

lemma apply_bulk_rows:
  "snd (apply_bulk n u b zs t) = map (\<lambda>r. if live r \<and> (\<exists>z \<in> fst ` set zs. in_zone z r) then stamp n u b r else r) t"
proof (induction zs arbitrary: t)
  case (Cons z zs)
  obtain i k where z: "z = (i, k)" by (cases z)
  have "snd (apply_bulk n u b (z # zs) t) = snd (apply_bulk n u b zs (stamp_bulk n u b i t))"
    by (simp add: z Let_def split: prod.splits)
  then show ?case unfolding Cons.IH by (auto simp: stamp_bulk_def z)
qed simp

definition hit :: "soft_delete_batch \<Rightarrow> row \<Rightarrow> bool" where
  "hit batch r \<longleftrightarrow> obj_key r \<in> obj_key ` set (batch_rows batch) \<or> live r \<and> (\<exists>z \<in> fst ` set (bulk batch). in_zone z r)"

lemma apply_rows:
  "snd (apply_soft_delete n u batch t) = map (\<lambda>r. if hit batch r then stamp n u (batch_id batch) r else r) t"
proof -
  let ?t = "map (\<lambda>r. if obj_key r \<in> obj_key ` set (batch_rows batch) then stamp n u (batch_id batch) r else r) t"
  have "snd (apply_soft_delete n u batch t) = snd (apply_bulk n u (batch_id batch) (bulk batch) ?t)"
    unfolding apply_soft_delete_def Let_def stamp_rows by (simp split: prod.splits)
  then show ?thesis unfolding apply_bulk_rows by (auto simp: hit_def)
qed

text \<open>No live row below a row in the Trash.\<close>

definition sound_tree :: "row list \<Rightarrow> bool" where
  "sound_tree t \<longleftrightarrow> (\<forall>c \<in> set t. \<forall>p \<in> set t. live c \<and> names_parent c p \<longrightarrow> live p)"

lemma record_parent_zone:
  assumes "is_record c" "names_parent c p"
  shows "is_zone p" "in_zone (r_id p) c"
  using assms by (cases "r_data p"; auto simp: is_record_def names_parent_def parent_candidates_def is_zone_def in_zone_def
      split: row_data.splits)+

lemma in_zone_type: "in_zone z p \<Longrightarrow> resource_type (r_data p) = ''dns_record''"
  by (cases "r_data p") (simp_all add: in_zone_def)

lemma candidate_type: "(k, ty, i) \<in> set (parent_candidates d) \<Longrightarrow> ty \<noteq> ''dns_record''"
  by (cases d) (auto simp: parent_candidates_def)

lemma parent_not_record: "names_parent c p \<Longrightarrow> \<not> in_zone z p"
  unfolding names_parent_def using in_zone_type candidate_type by metis

lemma names_parent_data: "names_parent c p \<longleftrightarrow> names_parent c' p'" if "r_data c = r_data c'" "r_data p = r_data p'" "r_id p = r_id p'"
  using that by (simp add: names_parent_def)

lemma sound_tree_map:
  assumes "\<And>r. r_data (F r) = r_data r" "\<And>r. r_id (F r) = r_id r"
  shows "sound_tree (map F t) \<longleftrightarrow> (\<forall>c \<in> set t. \<forall>p \<in> set t. live (F c) \<and> names_parent c p \<longrightarrow> live (F p))"
proof -
  have "names_parent (F c) (F p) \<longleftrightarrow> names_parent c p" for c p by (rule names_parent_data) (rule assms)+
  then show ?thesis unfolding sound_tree_def set_map ball_simps by simp
qed

lemma delete_keeps_tree:
  assumes "collect_soft_delete_batch limit t b root = Some batch" "distinct (map r_id t)" "root \<in> set t" "sound_tree t"
  shows "sound_tree (snd (apply_soft_delete n u batch t))"
proof -
  note batch = batch_of_root [OF assms(1-3)]
  let ?F = "\<lambda>r. if hit batch r then stamp n u (batch_id batch) r else r"
  have "live (?F p)" if c: "c \<in> set t" and p: "p \<in> set t" and l: "live (?F c)" and np: "names_parent c p" for c p
  proof (rule ccontr)
    assume dead: "\<not> live (?F p)"
    have cl: "live c" "\<not> hit batch c" using l by (auto split: if_splits)
    have "live p" using assms(4) c p cl(1) np unfolding sound_tree_def by blast
    then have "hit batch p" using dead by (auto split: if_splits)
    then obtain x where x: "x \<in> set (batch_rows batch)" "obj_key x = obj_key p"
      using parent_not_record [OF np] by (auto simp: hit_def)
    have "x \<in> set t" using x(1) below_in_table assms(3) unfolding batch(1) by auto
    then have "x = p" using same_row [OF assms(2), of x p] p x(2) by (auto simp: obj_key_def)
    then have p': "p \<in> set (batch_rows batch)" using x(1) by simp
    show False
    proof (cases "is_record c")
      case True
      then have "r_id p \<in> fst ` set (bulk batch)" using record_parent_zone(1) [OF True np] p' unfolding batch(4) by auto
      then show False using record_parent_zone(2) [OF True np] cl by (auto simp: hit_def)
    next
      case False
      then have "walked_child t c p" using c cl(1) np by (simp add: walked_child_def)
      moreover have "descends t root p" using p' unfolding batch(1) descends_below by blast
      ultimately have "descends t root c" by (rule descends_child [rotated])
      then have "c \<in> set (batch_rows batch)" unfolding batch(1) descends_below by blast
      then show False using cl(2) by (auto simp: hit_def)
    qed
  qed
  then have "\<forall>c \<in> set t. \<forall>p \<in> set t. live (?F c) \<and> names_parent c p \<longrightarrow> live (?F p)" by blast
  moreover have "r_data (?F r) = r_data r" "r_id (?F r) = r_id r" for r by (cases "hit batch r"; simp)+
  ultimately show ?thesis unfolding apply_rows using sound_tree_map [of ?F t] by (simp only: simp_thms)
qed

text \<open>The walk returns when the blocks nest without a cycle.\<close>

lemma walk_all_total: "\<forall>r \<in> set rs. f r \<noteq> None \<Longrightarrow> \<exists>out. walk_all f rs = Some out"
  by (induction rs) (fastforce split: option.splits)+

lemma walk_new_total: "\<forall>r \<in> set rs. f r \<noteq> None \<Longrightarrow> \<exists>out'. walk_new f out rs = Some out'"
  by (induction rs arbitrary: out) (fastforce split: option.splits)+

definition is_block :: "row \<Rightarrow> bool" where
  "is_block r = (case r_data r of IPBlock _ _ _ _ \<Rightarrow> True | _ \<Rightarrow> False)"

definition height :: "(row \<Rightarrow> nat) \<Rightarrow> row \<Rightarrow> nat \<Rightarrow> nat" where
  "height depth r deepest = (case r_data r of IPSpace _ \<Rightarrow> deepest + 5 | IPBlock _ _ _ _ \<Rightarrow> depth r + 4 | Subnet _ _ _ _ \<Rightarrow> 3
     | DHCPScope _ _ _ _ \<Rightarrow> 2 | _ \<Rightarrow> 1)"

lemma collect_total:
  assumes "\<And>c p. p \<in> set t \<Longrightarrow> is_block c \<Longrightarrow> is_block p \<Longrightarrow> walked_child t c p \<Longrightarrow> depth c < depth p"
    "\<And>r. depth r \<le> deepest" "height depth root deepest \<le> n" "root \<in> set t"
  shows "\<exists>ds. collect_descendants n t root = Some ds"
  using assms(3,4)
proof (induction n arbitrary: root)
  case 0
  then show ?case by (simp add: height_def split: row_data.splits)
next
  case (Suc n)
  have smaller: "height depth c deepest < height depth root deepest" if c: "c \<in> children t root" for c
  proof (cases "is_block c \<and> is_block root")
    case True
    then have "depth c < depth root" using c assms(1) [OF Suc.prems(2)] by (auto simp: children_def)
    then show ?thesis using True by (auto simp: height_def is_block_def split: row_data.splits)
  next
    case False
    then show ?thesis using c assms(2) [of c] unfolding children_cases
      by (auto simp: height_def is_block_def blocks_of_space_def subnets_of_space_def blocks_of_block_def
          subnets_of_block_def scopes_of_subnet_def pools_of_scope_def statics_of_scope_def split: row_data.splits)
  qed
  have IH: "collect_descendants n t c \<noteq> None" if "c \<in> children t root" for c
    using Suc.IH [of c] Suc.prems smaller [OF that] that by (fastforce simp: children_def walked_child_def)
  show ?case
  proof (cases "r_data root")
    case (IPSpace name)
    then have l: "\<forall>r \<in> set (blocks_of_space t (r_id root)). collect_descendants n t r \<noteq> None"
      "\<forall>r \<in> set (subnets_of_space t (r_id root)). collect_descendants n t r \<noteq> None"
      using IH by (simp_all add: children_cases)
    obtain out where o: "walk_all (collect_descendants n t) (blocks_of_space t (r_id root)) = Some out"
      using walk_all_total [OF l(1)] by blast
    show ?thesis using walk_new_total [OF l(2), of out] o IPSpace by simp
  next
    case (IPBlock s p m name)
    then have l: "\<forall>r \<in> set (blocks_of_block t (r_id root)). collect_descendants n t r \<noteq> None"
      "\<forall>r \<in> set (subnets_of_block t (r_id root)). collect_descendants n t r \<noteq> None"
      using IH by (simp_all add: children_cases)
    show ?thesis using walk_all_total [OF l(1)] walk_all_total [OF l(2)] IPBlock by auto
  next
    case (Subnet s p m name)
    then have "\<forall>r \<in> set (scopes_of_subnet t (r_id root)). collect_descendants n t r \<noteq> None"
      using IH by (simp add: children_cases)
    from walk_all_total [OF this] show ?thesis using Subnet by simp
  qed auto
qed

section \<open>The table after a restore\<close>

definition moved :: "row \<Rightarrow> row \<Rightarrow> row" where
  "moved r s = r\<lparr>deleted_at := deleted_at s, deleted_by_user_id := deleted_by_user_id s, deletion_batch_id := deletion_batch_id s\<rparr>"

text \<open>What becomes of one row when a batch comes back whole.\<close>

definition restored_row :: "row list \<Rightarrow> address_row list \<Rightarrow> uuid \<Rightarrow> row \<Rightarrow> row" where
  "restored_row t ads b r = (case holding_subnet t ads b r of Some s \<Rightarrow> moved r s
     | None \<Rightarrow> if in_batch b r then unstamp r else r)"

lemma unstamp_simps [simp]: "obj_key (unstamp r) = obj_key r" "r_data (unstamp r) = r_data r" "r_id (unstamp r) = r_id r"
  "live (unstamp r)" "in_zone z (unstamp r) = in_zone z r" "\<not> in_batch b (unstamp r)" "unstamp (unstamp r) = unstamp r"
  by (simp_all add: unstamp_def obj_key_def live_def in_zone_def in_batch_def)

lemma moved_simps [simp]: "obj_key (moved r s) = obj_key r" "r_data (moved r s) = r_data r" "r_id (moved r s) = r_id r"
  "live (moved r s) = live s" "in_zone z (moved r s) = in_zone z r" "in_batch b (moved r s) = in_batch b s"
  by (simp_all add: moved_def obj_key_def live_def in_zone_def in_batch_def)

lemma unstamp_zone_all:
  assumes "rc_cnames rc = {}" "rc_twins rc = {}"
  shows "snd (unstamp_zone b rc z t) = map (\<lambda>r. if in_zone z r \<and> in_batch b r then unstamp r else r) t"
proof -
  have "in_zone z r \<and> in_batch b r \<and> (case r_data r of
          DNSRecord d _ _ \<Rightarrow> (rc_cnames rc = {} \<or> \<not> live_cname_clash_exists t (r, d)) \<and>
            (rc_twins rc = {} \<or> \<not> live_duplicate_exists t (r, d))
        | _ \<Rightarrow> False) \<longleftrightarrow> in_zone z r \<and> in_batch b r" for r
    by (cases "r_data r") (simp_all add: in_zone_def assms)
  then show ?thesis unfolding unstamp_zone_def Let_def by simp
qed

lemma unstamp_zones_all:
  assumes "rc_cnames rc = {}" "rc_twins rc = {}"
  shows "snd (unstamp_zones b rc zs t) = map (\<lambda>r. if (\<exists>z \<in> set zs. in_zone z r) \<and> in_batch b r then unstamp r else r) t"
proof (induction zs arbitrary: t)
  case (Cons z zs)
  have "snd (unstamp_zones b rc (z # zs) t) = snd (unstamp_zones b rc zs (snd (unstamp_zone b rc z t)))"
    by (simp add: Let_def split: prod.splits)
  then show ?case unfolding Cons.IH unstamp_zone_all [OF assms] by auto
qed simp

lemma type_covered: "resource_type d \<in> set TYPE_TO_MODEL"
  by (cases d) (simp_all add: TYPE_TO_MODEL_def SOFT_DELETE_RESOURCE_TYPES_def)

lemma is_record_type: "is_record r \<longleftrightarrow> resource_type (r_data r) = ''dns_record''"
  by (cases "r_data r") (simp_all add: is_record_def)

lemma batch_objects_set: "x \<in> set (batch_objects t b) \<longleftrightarrow> x \<in> set t \<and> in_batch b x \<and> \<not> is_record x"
  using type_covered [of "r_data x"] by (auto simp: batch_objects_def is_record_type)

lemma holding_facts:
  assumes "holding_subnet t ads b r = Some s"
  shows "in_batch b r" "is_record r" "\<not> live s" "\<not> in_batch b s" "s \<in> set t"
  using assms by (auto simp: holding_subnet_def is_record_def in_batch_def find_Some_iff
      split: row_data.splits if_splits option.splits)

lemma hold_rows:
  "hold_records_with_trashed_subnet t ads b =
     (map (\<lambda>r. case holding_subnet t ads b r of None \<Rightarrow> r | Some s \<Rightarrow> moved r s) t,
      r_id ` {r \<in> set t. holding_subnet t ads b r \<noteq> None},
      snd (snd (hold_records_with_trashed_subnet t ads b)))"
  by (simp add: hold_records_with_trashed_subnet_def Let_def moved_def split: option.splits)

lemma no_entries:
  assumes "rc_entries (check_records t ads b) = []"
  shows "rc_twins (check_records t ads b) = {}" "rc_cnames (check_records t ads b) = {}"
    "rc_parents (check_records t ads b) = {}" "record_conflicts t b = []" "record_cname_conflicts t b = []"
    "record_parent_conflicts t b = []" "orphan_record_owners t ads b = []"
proof -
  have none: "record_conflicts t b = []" "record_parent_conflicts t b = []" using assms by (simp_all add: check_records_def Let_def)
  have "record_cname_conflicts t b = []" "orphan_record_owners t ads b = []"
    using assms unfolding check_records_def Let_def none by (simp_all add: split_def)
  note none = none this
  show "record_conflicts t b = []" "record_cname_conflicts t b = []" "record_parent_conflicts t b = []"
    "orphan_record_owners t ads b = []" by (rule none)+
  show "rc_twins (check_records t ads b) = {}" "rc_cnames (check_records t ads b) = {}" "rc_parents (check_records t ads b) = {}"
    unfolding check_records_def Let_def none by simp_all
qed

lemma id_mem:
  assumes "distinct (map r_id t)" "x \<in> set t"
  shows "r_id x \<in> r_id ` {r \<in> set t. P r} \<longleftrightarrow> P x"
proof
  assume "r_id x \<in> r_id ` {r \<in> set t. P r}"
  then obtain y where "y \<in> set t" "P y" "r_id x = r_id y" by blast
  then show "P x" using same_row [OF assms] by simp
qed (use assms(2) in blast)

lemma key_mem:
  assumes "distinct (map r_id t)" "x \<in> set t"
  shows "obj_key x \<in> obj_key ` {r \<in> set t. P r} \<longleftrightarrow> P x"
proof
  assume "obj_key x \<in> obj_key ` {r \<in> set t. P r}"
  then obtain y where "y \<in> set t" "P y" "obj_key x = obj_key y" by blast
  then show "P x" using same_row [OF assms] by (simp add: obj_key_def)
qed (use assms(2) in blast)

text \<open>The rows a whole batch brings back besides the records of its zones.\<close>

lemma rows_back:
  fixes t ads b
  defines "H \<equiv> holding_subnet t ads b"
  assumes "distinct (map r_id t)"
  shows "set (filter (\<lambda>o'. r_id o' \<notin> r_id ` {r \<in> set t. H r \<noteq> None}) (batch_objects t b @
      filter (\<lambda>r. is_record r \<and> in_batch b r \<and> \<not> list_ex (\<lambda>z. in_zone z r) zs) t)) =
    {x \<in> set t. H x = None \<and> in_batch b x \<and> \<not> (\<exists>z \<in> set zs. in_zone z x)}" (is "set ?returned = ?B")
proof (rule set_eqI)
  fix x
  have "x \<in> set t \<Longrightarrow> r_id x \<notin> r_id ` {r \<in> set t. H r \<noteq> None} \<longleftrightarrow> H x = None"
    using id_mem [OF assms(2), of x "\<lambda>r. H r \<noteq> None"] by simp
  moreover have "\<not> is_record x \<Longrightarrow> \<not> in_zone z x" for z using in_zone_type is_record_type by blast
  moreover have "x \<in> set (filter (\<lambda>r. is_record r \<and> in_batch b r \<and> \<not> list_ex (\<lambda>z. in_zone z r) zs) t) \<longleftrightarrow>
      x \<in> set t \<and> is_record x \<and> in_batch b x \<and> \<not> (\<exists>z \<in> set zs. in_zone z x)"
    by (simp add: list_ex_iff)
  ultimately show "x \<in> set ?returned \<longleftrightarrow> x \<in> ?B" unfolding set_filter set_append using batch_objects_set by blast
qed

lemma restore_whole:
  assumes "restore_batch check skip ads b t = (res, t')" "conflicts res = []" "distinct (map r_id t)"
  shows "t' = map (restored_row t ads b) t" "\<And>f. check = Some f \<Longrightarrow> rc_entries (check_records t ads b) = []"
    "\<And>f x. check = Some f \<Longrightarrow> x \<in> set t \<Longrightarrow> in_batch b x \<Longrightarrow> \<not> is_record x \<Longrightarrow> f t x = None"
proof -
  define rc where "rc = (case check of None \<Rightarrow> no_checks | Some _ \<Rightarrow> check_records t ads b)"
  define refusal where "refusal = (\<lambda>obj. case check of None \<Rightarrow> None | Some f \<Rightarrow> f t obj)"
  let ?objs = "batch_objects t b"
  let ?kept = "filter (\<lambda>o'. refusal o' = None) ?objs"
  let ?zs = "map r_id (filter is_zone ?kept)"
  let ?loose = "filter (\<lambda>r. is_record r \<and> in_batch b r \<and> \<not> list_ex (\<lambda>z. in_zone z r) ?zs \<and>
            r_id r \<notin> rc_twins rc \<union> rc_parents rc \<union> rc_cnames rc) t"
  let ?H = "\<lambda>r. case holding_subnet t ads b r of None \<Rightarrow> r | Some s \<Rightarrow> moved r s"
  let ?held = "r_id ` {r \<in> set t. holding_subnet t ads b r \<noteq> None}"
  let ?returned = "filter (\<lambda>o'. r_id o' \<notin> ?held) (?kept @ ?loose)"
  have run: "conflicts res = rc_entries rc @ List.map_filter (\<lambda>o'. map_option (object_conflict t o') (refusal o')) ?objs"
    "conflicts res = [] \<Longrightarrow> t' = map (\<lambda>r. if obj_key r \<in> obj_key ` set ?returned then unstamp r else r)
       (snd (unstamp_zones b rc ?zs (map ?H t)))"
    using assms(1) unfolding restore_batch_def Let_def rc_def [symmetric] refusal_def [symmetric]
    by (subst (asm) hold_rows; auto split: if_splits prod.splits)+
  have entries: "rc_entries rc = []" using run(1) assms(2) by simp
  have kept: "refusal o' = None" if "o' \<in> set ?objs" for o'
    using run(1) assms(2) that by (auto simp: map_filter_def filter_empty_conv)
  show ent: "\<And>f. check = Some f \<Longrightarrow> rc_entries (check_records t ads b) = []" using entries by (simp add: rc_def)
  show "\<And>f x. check = Some f \<Longrightarrow> x \<in> set t \<Longrightarrow> in_batch b x \<Longrightarrow> \<not> is_record x \<Longrightarrow> f t x = None"
    using kept by (simp add: batch_objects_set refusal_def)
  have none: "rc_twins rc = {}" "rc_cnames rc = {}" "rc_parents rc = {}"
    using no_entries(1-3) [of t ads b] ent by (cases check; simp add: rc_def no_checks_def)+
  have back_key: "obj_key r \<in> obj_key ` set ?returned \<longleftrightarrow> holding_subnet t ads b r = None \<and> in_batch b r \<and>
      \<not> (\<exists>z \<in> set ?zs. in_zone z r)" if r: "r \<in> set t" for r
  proof -
    have "?kept = ?objs" using kept by (simp add: filter_id_conv)
    then have "set ?returned = {x \<in> set t. holding_subnet t ads b x = None \<and> in_batch b x \<and> \<not> (\<exists>z \<in> set ?zs. in_zone z x)}"
      unfolding none using rows_back [OF assms(3), of ads b ?zs] by simp
    then show ?thesis by (simp only: key_mem [OF assms(3) r])
  qed
  have "(let y = (if (\<exists>z \<in> set ?zs. in_zone z (?H r)) \<and> in_batch b (?H r) then unstamp (?H r) else ?H r) in
       if obj_key y \<in> obj_key ` set ?returned then unstamp y else y) = restored_row t ads b r" if "r \<in> set t" for r
    using back_key [OF that] holding_facts(4) [of t ads b r]
    by (cases "holding_subnet t ads b r") (auto simp: restored_row_def Let_def)
  then show "t' = map (restored_row t ads b) t"
    unfolding run(2) [OF assms(2)] unstamp_zones_all [OF none(2,1)] map_map comp_def Let_def by (intro map_cong [OF refl]) 
qed

end
