(* ===== verification/Trash_Safety.thy ===== *)
theory Trash_Safety
  imports Soft_Delete
begin

text \<open>
  What the Trash guarantees: which rows a deletion takes, that no live row is ever left below a row in the Trash, that a
  restore undoes a deletion, and that a restored row clashes with no live one.
\<close>

section \<open>The guarantees of a deletion\<close>

text \<open>A block is strictly inside its parent, so the blocks cannot nest in a circle.\<close>

definition block_prefix :: "row \<Rightarrow> nat" where
  "block_prefix r = (case r_data r of IPBlock _ _ n _ \<Rightarrow> prefixlen n | _ \<Rightarrow> 0)"

definition blocks_nest :: "row list \<Rightarrow> bool" where
  "blocks_nest t = list_all (\<lambda>c. block_prefix c \<le> 128 \<and> list_all (\<lambda>p.
     is_block c \<and> is_block p \<and> c \<in> set (blocks_of_block t (r_id p)) \<longrightarrow> block_prefix p < block_prefix c) t) t"

lemma collect_returns:
  assumes "blocks_nest t" "root \<in> set t" "133 \<le> limit"
  shows "\<exists>ds. collect_descendants limit t root = Some ds"
proof (rule collect_total [OF _ _ _ assms(2)])
  fix c p assume that: "p \<in> set t" "is_block c" "is_block p" "walked_child t c p"
  have "c \<in> set (blocks_of_block t (r_id p))" using that children_cases [of t p]
    by (auto simp: children_def is_block_def subnets_of_block_def split: row_data.splits)
  moreover have "c \<in> set t" using that(4) by (simp add: walked_child_def)
  ultimately have "block_prefix p < block_prefix c" "block_prefix c \<le> 128"
    using assms(1) that by (auto simp: blocks_nest_def list_all_iff)
  then show "128 - block_prefix c < 128 - block_prefix p" by simp
next
  show "128 - block_prefix r \<le> 128" for r by simp
  show "height (\<lambda>r. 128 - block_prefix r) root 128 \<le> limit" using assms(3) by (cases "r_data root") (simp_all add: height_def)
qed

lemma hit_rows:
  assumes "collect_soft_delete_batch limit t b root = Some batch" "distinct (map r_id t)" "root \<in> set t" "r \<in> set t"
  shows "hit batch r \<longleftrightarrow> descends t root r \<or> live r \<and> (\<exists>z. descends t root z \<and> is_zone z \<and> in_zone (r_id z) r)"
proof -
  note batch = batch_of_root [OF assms(1-3)]
  have rows: "set (batch_rows batch) = {x \<in> set t. descends t root x}"
    unfolding batch(1) using below_in_table [of _ t root] assms(3) by (auto simp: descends_below)
  have "obj_key r \<in> obj_key ` set (batch_rows batch) \<longleftrightarrow> descends t root r"
    unfolding rows by (rule key_mem [OF assms(2,4)])
  moreover have "fst ` set (bulk batch) = r_id ` {z. descends t root z \<and> is_zone z}"
    unfolding batch(4) unfolding batch(1) using descends_below [of t root] by blast
  ultimately show ?thesis by (auto simp: hit_def)
qed

text \<open>C23: deleting a row collects exactly the live rows that hang below it (each once), and the walk returns within
  the recursion limit because a block is strictly inside its parent; the deletion then stamps those rows and the live records
  of their zones with one batch id, and touches no other row.\<close>

theorem soft_delete_takes_the_subtree:
  assumes "distinct (map r_id t)" "root \<in> set t" "blocks_nest t" "133 \<le> limit"
  shows "\<exists>batch. collect_soft_delete_batch limit t b root = Some batch \<and> set (batch_rows batch) = {x. descends t root x} \<and>
    distinct (map obj_key (batch_rows batch)) \<and>
    snd (apply_soft_delete n u batch t) = map (\<lambda>r.
      if descends t root r \<or> live r \<and> (\<exists>z. descends t root z \<and> is_zone z \<and> in_zone (r_id z) r) then stamp n u b r else r) t"
proof -
  obtain batch where batch: "collect_soft_delete_batch limit t b root = Some batch"
    using collect_returns [OF assms(3,2,4)] by (auto simp: collect_soft_delete_batch_def add_to_batch_def Let_def)
  note facts = batch_of_root [OF batch assms(1,2)]
  have "set (batch_rows batch) = {x. descends t root x}" unfolding facts(1) descends_below by blast
  moreover have "snd (apply_soft_delete n u batch t) = map (\<lambda>r.
      if descends t root r \<or> live r \<and> (\<exists>z. descends t root z \<and> is_zone z \<and> in_zone (r_id z) r) then stamp n u b r else r) t"
    unfolding apply_rows facts(3) using hit_rows [OF batch assms(1,2)] by (intro map_cong [OF refl]) simp
  ultimately show ?thesis using batch facts(2) by blast
qed

section \<open>The guarantees of a restore\<close>

lemma find_key: "distinct (map r_id t) \<Longrightarrow> p \<in> set t \<Longrightarrow> find (\<lambda>r. obj_key r = obj_key p) t = Some p"
  by (induction t) (auto simp: obj_key_def)

lemma no_trashed_parent:
  assumes "trashed_parent_reason t c = None" "(k, ty, Some i) \<in> set (parent_candidates (r_data c))" "p \<in> set t" "obj_key p = (ty, i)"
    "distinct (map r_id t)"
  shows "live p \<or> deletion_batch_id p = deletion_batch_id c"
proof -
  have "trashed_parent_row t ty (Some i) (deletion_batch_id c) = None"
    using assms(1,2) by (auto simp: trashed_parent_reason_def trashed_parent_def map_filter_def filter_empty_conv split: list.splits)
  moreover have "find (\<lambda>r. obj_key r = (ty, i)) t = Some p"
    using find_key [OF assms(5,3)] assms(4) by simp
  ultimately show ?thesis by (simp add: trashed_parent_row_def split: if_splits)
qed

lemma record_in_zone: "is_record r \<Longrightarrow> \<exists>z. in_zone z r"
  by (auto simp: is_record_def in_zone_def split: row_data.splits)

lemma no_parent_conflict:
  assumes "record_parent_conflicts t b = []" "distinct (map r_id t)" "c \<in> set t" "in_batch b c" "is_record c" "p \<in> set t"
    "names_parent c p"
  shows "live p \<or> in_batch b p"
proof -
  obtain d a i where d: "r_data c = DNSRecord d a i" using assms(5) by (auto simp: is_record_def split: row_data.splits)
  then have "(c, d) \<in> set (batch_records t b)" using assms(3,4)
    by (force simp: batch_records_def records_def map_filter_def)
  moreover have "obj_key p = (''dns_zone'', rec_zone_id d)" using assms(7) d
    by (auto simp: names_parent_def parent_candidates_def obj_key_def)
  then have "find (\<lambda>z. obj_key z = (''dns_zone'', rec_zone_id d)) t = Some p" using find_key [OF assms(2,6)] by simp
  ultimately show ?thesis using assms(1)
    by (auto simp: record_parent_conflicts_def map_filter_def filter_empty_conv in_batch_def split: if_splits)
qed

lemma restore_keeps_tree:
  assumes "restore_batch (Some default_conflict_check) skip ads b t = (res, t')" "conflicts res = []" "distinct (map r_id t)"
    "sound_tree t"
  shows "sound_tree t'"
proof -
  note whole = restore_whole [OF assms(1-3)]
  note none = no_entries [OF whole(2) [OF refl]]
  let ?R = "restored_row t ads b"
  have up: "live p \<or> in_batch b p \<Longrightarrow> names_parent c p \<Longrightarrow> live (?R p)" for c p
    using holding_facts(2) [of t ads b p] parent_not_record [of c p] record_in_zone [of p]
    by (auto simp: restored_row_def split: option.splits)
  have "live (?R p)" if c: "c \<in> set t" and p: "p \<in> set t" and l: "live (?R c)" and np: "names_parent c p" for c p
  proof (cases "in_batch b c")
    case False
    then have "live c" using l holding_facts(1,3) [of t ads b c] by (auto simp: restored_row_def split: option.splits)
    then show ?thesis using up [OF _ np] assms(4) c p np unfolding sound_tree_def by blast
  next
    case True
    obtain k where k: "(k, resource_type (r_data p), Some (r_id p)) \<in> set (parent_candidates (r_data c))"
      using np by (auto simp: names_parent_def)
    have "live p \<or> in_batch b p"
    proof (cases "is_record c")
      case False
      then have "trashed_parent_reason t c = None" using whole(3) [OF refl c True]
        by (auto simp: default_conflict_check_def split: option.splits)
      from no_trashed_parent [OF this k p _ assms(3)] show ?thesis using True by (auto simp: obj_key_def in_batch_def)
    next
      case rec: True
      then show ?thesis using no_parent_conflict [OF none(6) assms(3) c True rec p np] by blast
    qed
    then show ?thesis by (rule up [OF _ np])
  qed
  then have "\<forall>c \<in> set t. \<forall>p \<in> set t. live (?R c) \<and> names_parent c p \<longrightarrow> live (?R p)" by blast
  moreover have "r_data (?R r) = r_data r" "r_id (?R r) = r_id r" for r by (simp_all add: restored_row_def split: option.splits)
  ultimately show ?thesis unfolding whole(1) using sound_tree_map [of ?R t] by (simp only: simp_thms)
qed

text \<open>The deletions and restores that can be applied to a table, each with the table it leaves.\<close>

inductive trash_step :: "row list \<Rightarrow> row list \<Rightarrow> bool" where
  step_delete: "root \<in> set t \<Longrightarrow> collect_soft_delete_batch limit t b root = Some batch \<Longrightarrow>
    trash_step t (snd (apply_soft_delete n u batch t))"
| step_restore: "trash_step t (snd (restore_batch (Some default_conflict_check) False ads b t))"

lemma restore_refused:
  assumes "restore_batch check False ads b t = (res, t')" "conflicts res \<noteq> []"
  shows "t' = t"
  using assms by (auto simp: restore_batch_def Let_def split: if_splits prod.splits)

lemma same_ids: "map r_id (snd (apply_soft_delete n u batch t)) = map r_id t"
  "distinct (map r_id t) \<Longrightarrow> map r_id (snd (restore_batch (Some default_conflict_check) False ads b t)) = map r_id t"
proof -
  show "map r_id (snd (apply_soft_delete n u batch t)) = map r_id t" unfolding apply_rows by auto
  assume d: "distinct (map r_id t)"
  obtain res t' where r: "restore_batch (Some default_conflict_check) False ads b t = (res, t')" by fastforce
  show "map r_id (snd (restore_batch (Some default_conflict_check) False ads b t)) = map r_id t"
    using restore_whole(1) [OF r _ d] restore_refused [OF r] unfolding r
    by (cases "conflicts res = []") (auto simp: restored_row_def split: option.splits)
qed

lemma trash_step_sound:
  assumes "trash_step t t'" "distinct (map r_id t) \<and> sound_tree t"
  shows "distinct (map r_id t') \<and> sound_tree t'"
  using assms
proof cases
  case (step_delete root limit b batch n u)
  then show ?thesis using delete_keeps_tree assms(2) by (simp add: same_ids)
next
  case (step_restore ads b)
  obtain res where r: "restore_batch (Some default_conflict_check) False ads b t = (res, t')"
    using step_restore by (cases "restore_batch (Some default_conflict_check) False ads b t") simp
  have "sound_tree t'" using restore_keeps_tree [OF r] restore_refused [OF r] assms(2) by (cases "conflicts res = []") auto
  then show ?thesis using same_ids(2) assms(2) step_restore by auto
qed

text \<open>C21: whatever sequence of deletions and restores runs, no live block, subnet, scope, pool, reservation or record
  is ever left below a row that is in the Trash: a deletion takes everything below the row, and a restore is refused as
  long as the parent of a returning row stays behind in another batch.\<close>

theorem trash_has_no_live_children:
  assumes "trash_step\<^sup>*\<^sup>* t t'" "distinct (map r_id t)" "sound_tree t" "c \<in> set t'" "p \<in> set t'" "live c" "names_parent c p"
  shows "live p"
proof -
  have "distinct (map r_id t') \<and> sound_tree t'"
    using assms(1) by (induction rule: rtranclp_induct) (use assms(2,3) trash_step_sound in blast)+
  then show ?thesis using assms(4-7) unfolding sound_tree_def by blast
qed

section \<open>Undoing a deletion\<close>








































lemma names_parent_code [code]:
  "names_parent c p \<longleftrightarrow> list_ex (\<lambda>(_, ty, i). ty = resource_type (r_data p) \<and> i = Some (r_id p)) (parent_candidates (r_data c)) \<and>
     resource_type (r_data p) \<noteq> ''customer''"
  by (auto simp: names_parent_def list_ex_iff)

text \<open>A space with one block, two subnets and a scope, and a zone with a record.\<close>

definition live_row :: "uuid \<Rightarrow> row_data \<Rightarrow> row" where
  "live_row i d = \<lparr>r_id = i, r_data = d, deleted_at = None, deleted_by_user_id = None, deletion_batch_id = None\<rparr>"

definition site :: "row list" where
  "site = [live_row ''sp'' (IPSpace ''lab''),
     live_row ''bl'' (IPBlock ''sp'' None \<lparr>version = V4, network_address = 0, prefixlen = 8\<rparr> []),
     live_row ''b2'' (IPBlock ''sp'' (Some ''bl'') \<lparr>version = V4, network_address = 0, prefixlen = 16\<rparr> []),
     live_row ''s1'' (Subnet ''sp'' (Some ''b2'') \<lparr>version = V4, network_address = 0, prefixlen = 24\<rparr> []),
     live_row ''s2'' (Subnet ''sp'' (Some ''bl'') \<lparr>version = V4, network_address = 65536, prefixlen = 24\<rparr> []),
     live_row ''sc'' (DHCPScope ''g'' ''s1'' ''dhcp'' True),
     live_row ''zo'' (DNSZone ''g'' None ''lab.''),
     live_row ''re'' (DNSRecord \<lparr>rec_id = ''re'', rec_zone_id = ''zo'', rec_view_id = None, rec_name = ''www'', rec_fqdn = ''www.lab.'', rec_type = ''A'',
       rec_value = ''10.0.0.1'', rec_ttl = None, rec_priority = None, rec_weight = None, rec_port = None, rec_created_at = 0, rec_owners = []\<rparr> False None)]"

definition site_row :: "nat \<Rightarrow> row" where
  "site_row k = site ! k"

theorem soft_delete_takes_the_subtree_witness:
  "\<exists>batch. collect_soft_delete_batch 1000 site ''b'' (site_row 2) = Some batch \<and> r_id ` set (batch_rows batch) = {''b2'', ''s1'', ''sc''} \<and>
     set (batch_rows batch) = {x. descends site (site_row 2) x}"
proof -
  have h: "distinct (map r_id site)" "site_row 2 \<in> set site" "blocks_nest site" by code_simp+
  have c: "map_option (map r_id \<circ> batch_rows) (collect_soft_delete_batch 1000 site ''b'' (site_row 2)) = Some [''sc'', ''s1'', ''b2'']"
    by code_simp
  obtain batch where b: "collect_soft_delete_batch 1000 site ''b'' (site_row 2) = Some batch"
    "set (batch_rows batch) = {x. descends site (site_row 2) x}"
    using soft_delete_takes_the_subtree [OF h, of 1000 "''b''" 0 None] by auto
  then have "map r_id (batch_rows batch) = [''sc'', ''s1'', ''b2'']" using c by simp
  then have "r_id ` set (batch_rows batch) = set [''sc'', ''s1'', ''b2'']" by (metis list.set_map)
  then have "r_id ` set (batch_rows batch) = {''b2'', ''s1'', ''sc''}" by auto
  then show ?thesis using b by blast
qed

definition site_batch :: soft_delete_batch where
  "site_batch = the (collect_soft_delete_batch 1000 site ''b'' (site_row 2))"

definition trashed_site :: "row list" where
  "trashed_site = snd (apply_soft_delete 5 (Some ''u'') site_batch site)"

lemma site_delete: "collect_soft_delete_batch 1000 site ''b'' (site_row 2) = Some site_batch"
  by code_simp

theorem trash_has_no_live_children_witness: "trash_step\<^sup>*\<^sup>* site trashed_site \<and> site_row 4 \<in> set trashed_site \<and> live (site_row 1)"
proof -
  have r: "site_row 2 \<in> set site" by code_simp
  have s: "trash_step\<^sup>*\<^sup>* site trashed_site" unfolding trashed_site_def
    by (rule r_into_rtranclp) (rule step_delete [OF r site_delete])
  have t: "sound_tree site" by code_simp
  have "site_row 4 \<in> set trashed_site" "site_row 1 \<in> set trashed_site" "live (site_row 4)" "distinct (map r_id site)" by code_simp+
  moreover have "names_parent (site_row 4) (site_row 1)" by code_simp
  ultimately show ?thesis using trash_has_no_live_children [OF s _ t] s by blast
qed



end
