(* ===== verification/Event_Outbox.thy ===== *)
theory Event_Outbox
  imports Audit_Log "HOL-Library.Code_Target_Nat"
begin

text \<open>
  Typed events from the audit log to webhook receivers: the mapping and the session hooks of
  \<^verbatim>\<open>services/event_publisher.py\<close>, the outbox rows of \<^verbatim>\<open>models/event_subscription.py\<close>, and the delivery worker of
  \<^verbatim>\<open>services/event_delivery.py\<close> with the redaction of \<^verbatim>\<open>services/audit_redact.py\<close>. The name and value patterns of the
  redaction, the decryption, HMAC-SHA256 and the HTTP client are arguments.
\<close>

section \<open>From audit rows to events\<close>

definition VERB_MAP :: "(string \<times> string) list" where
  "VERB_MAP = [(''create'', ''created''), (''update'', ''updated''), (''delete'', ''deleted'')]"

definition RESOURCE_NAMESPACE :: "(string \<times> string) list" where
  "RESOURCE_NAMESPACE =
    [(''ip_space'', ''space''), (''ip_block'', ''block''), (''subnet'', ''subnet''),
     (''ip_address'', ''ip''), (''nat_mapping'', ''ipam.nat''), (''subnet_plan'', ''ipam.plan''),
     (''address_set'', ''ipam.address_set''), (''dns_zone'', ''dns.zone''), (''dns_record'', ''dns.record''),
     (''dns_server'', ''dns.server''), (''dns_server_group'', ''dns.group''), (''dns_pool'', ''dns.pool''),
     (''dns_pool_member'', ''dns.pool.member''), (''dns_view'', ''dns.view''), (''dns_blocklist'', ''dns.blocklist''),
     (''tsig_key'', ''dns.tsig''), (''dhcp_scope'', ''dhcp.scope''), (''dhcp_server'', ''dhcp.server''),
     (''dhcp_server_group'', ''dhcp.group''), (''dhcp_pool'', ''dhcp.pool''), (''dhcp_static_assignment'', ''dhcp.static''),
     (''dhcp_lease'', ''dhcp.lease''), (''dhcp_mac_block'', ''dhcp.macblock''), (''vlan'', ''vlan''),
     (''router'', ''router''), (''user'', ''auth.user''), (''group'', ''auth.group''),
     (''role'', ''auth.role''), (''auth_provider'', ''auth.provider''), (''kubernetes_cluster'', ''integration.kubernetes''),
     (''docker_host'', ''integration.docker''), (''proxmox_node'', ''integration.proxmox''), (''tailscale_tenant'', ''integration.tailscale''),
     (''platform'', ''system''), (''backup_target'', ''backup.target''), (''appliance_certificate'', ''appliance.tls''),
     (''firewall_policy'', ''firewall.policy''), (''firewall_rule'', ''firewall.rule''), (''firewall_alias'', ''firewall.alias'')]"

definition SPECIAL_EVENT_MAP :: "((string \<times> string) \<times> string) list" where
  "SPECIAL_EVENT_MAP =
    [((''backup_created'', ''platform''), ''system.backup_completed''),
     ((''backup_restored'', ''platform''), ''system.restore_performed''),
     ((''backup_target_run_success'', ''backup_target''), ''system.backup_completed''),
     ((''backup_target_run_failed'', ''backup_target''), ''system.backup_failed''),
     ((''backup_restored'', ''backup_target''), ''system.restore_performed''),
     ((''factory_reset_performed'', ''platform''), ''system.factory_reset''),
     ((''activate_certificate'', ''appliance_certificate''), ''appliance.tls.activated''),
     ((''generate_csr'', ''appliance_certificate''), ''appliance.tls.csr_generated''),
     ((''import_signed_cert'', ''appliance_certificate''), ''appliance.tls.csr_signed''),
     ((''appliance.pairing_code_created'', ''pairing_code''), ''appliance.pairing_code.created''),
     ((''appliance.pairing_code_claimed'', ''pairing_code''), ''appliance.pairing_code.claimed''),
     ((''appliance.pairing_code_revoked'', ''pairing_code''), ''appliance.pairing_code.revoked''),
     ((''upgrade.planned'', ''system_upgrade_run''), ''system.upgrade.planned''),
     ((''upgrade.started'', ''system_upgrade_run''), ''system.upgrade.started''),
     ((''upgrade.succeeded'', ''system_upgrade_run''), ''system.upgrade.succeeded''),
     ((''upgrade.halted'', ''system_upgrade_run''), ''system.upgrade.halted''),
     ((''upgrade.resumed'', ''system_upgrade_run''), ''system.upgrade.resumed''),
     ((''upgrade.aborted'', ''system_upgrade_run''), ''system.upgrade.aborted''),
     ((''upgrade.failed'', ''system_upgrade_run''), ''system.upgrade.failed''),
     ((''upgrade.node_failed'', ''system_upgrade_run''), ''system.upgrade.failed''),
     ((''upgrade.chart_bump_failed'', ''system_upgrade_run''), ''system.upgrade.failed''),
     ((''upgrade.shared_tag_hold_failed'', ''system_upgrade_run''), ''system.upgrade.failed''),
     ((''upgrade.post_upgrade_verify_failed'', ''system_upgrade_run''), ''system.upgrade.failed''),
     ((''requested'', ''change_request''), ''change_request.requested''),
     ((''approved'', ''change_request''), ''change_request.approved''),
     ((''rejected'', ''change_request''), ''change_request.rejected''),
     ((''cancelled'', ''change_request''), ''change_request.cancelled''),
     ((''executed'', ''change_request''), ''change_request.executed''),
     ((''failed'', ''change_request''), ''change_request.failed''),
     ((''expired'', ''change_request''), ''change_request.expired''),
     ((''approvals.break_glass'', ''approval_control''), ''governance.break_glass''),
     ((''first_seen'', ''ip_mac_observation''), ''device.first_seen''),
     ((''acknowledged'', ''ip_mac_observation''), ''device.acknowledged'')]"

definition audit_to_event_type :: "string \<Rightarrow> string \<Rightarrow> string option" where
  "audit_to_event_type action rtype = (case map_of SPECIAL_EVENT_MAP (action, rtype) of Some e \<Rightarrow> Some e
     | None \<Rightarrow> (case map_of RESOURCE_NAMESPACE rtype of None \<Rightarrow> None
         | Some ns \<Rightarrow> Some (ns @ ''.'' @ (case map_of VERB_MAP action of Some v \<Rightarrow> v | None \<Rightarrow> action))))"

section \<open>Redaction\<close>

definition REDACTED :: string where "REDACTED = ''[redacted]''"

definition MAX_DEPTH :: nat where "MAX_DEPTH = 12"

text \<open>The patterns: which field names are credentials, and what a text looks like without them.\<close>

record redaction =
  secret_key :: "string \<Rightarrow> bool"
  redact_string :: "string \<Rightarrow> string"

text \<open>\<open>v not in (None, "", [], {}) and not isinstance(v, bool | int)\<close>.\<close>

fun hideable :: "pyval \<Rightarrow> bool" where
  "hideable PyNone = False"
| "hideable (PyBool _) = False"
| "hideable (PyInt _) = False"
| "hideable (PyStr s) = (s \<noteq> [])"
| "hideable (PyList vs) = (vs \<noteq> [])"
| "hideable (PyDict kvs) = (kvs \<noteq> [])"
| "hideable _ = True"

fun redact_audit_value :: "redaction \<Rightarrow> nat \<Rightarrow> pyval \<Rightarrow> pyval" where
  "redact_audit_value R d (PyDict kvs) = (if MAX_DEPTH < d then PyStr REDACTED
     else PyDict (map (\<lambda>(k, v). (k, if secret_key R k \<and> hideable v then PyStr REDACTED else redact_audit_value R (Suc d) v)) kvs))"
| "redact_audit_value R d (PyList vs) = (if MAX_DEPTH < d then PyStr REDACTED
     else PyList (map (redact_audit_value R (Suc d)) vs))"
| "redact_audit_value R d (PyStr s) = (if MAX_DEPTH < d then PyStr REDACTED else PyStr (redact_string R s))"
| "redact_audit_value R d v = (if MAX_DEPTH < d then PyStr REDACTED else v)"

definition AUDIT_CONTENT_FIELDS :: "string list" where
  "AUDIT_CONTENT_FIELDS = [''old_value'', ''new_value'', ''error_detail'']"

definition redact_audit_payload :: "redaction \<Rightarrow> (string \<times> pyval) list \<Rightarrow> (string \<times> pyval) list" where
  "redact_audit_payload R payload =
     map (\<lambda>(k, v). (k, if k \<in> set AUDIT_CONTENT_FIELDS \<and> v \<noteq> PyNone then redact_audit_value R 0 v else v)) payload"

section \<open>Writing the outbox\<close>

text \<open>\<open>list(row.changed_fields or [])\<close> of a column that holds a list or nothing.\<close>

definition field_list :: "pyval \<Rightarrow> pyval" where
  "field_list v = (case v of PyList vs \<Rightarrow> PyList vs | _ \<Rightarrow> PyList [])"

definition serialize_audit :: "redaction \<Rightarrow> py_datetime \<Rightarrow> audit_log \<Rightarrow> string \<Rightarrow> (string \<times> pyval) list" where
  "serialize_audit R now r event_type =
     [(''event_id'', PyStr (case al_id r of None \<Rightarrow> ''None'' | Some i \<Rightarrow> i)),
      (''event_type'', PyStr event_type),
      (''occurred_at'', PyStr (isoformat (case timestamp r of None \<Rightarrow> now | Some t \<Rightarrow> t))),
      (''actor'', PyDict [(''user_id'', opt_str (al_user_id r)), (''display_name'', PyStr (user_display_name r)),
         (''auth_source'', opt_str (al_auth_source r))]),
      (''resource'', PyDict [(''type'', PyStr (al_resource_type r)), (''id'', PyStr (al_resource_id r)),
         (''display'', PyStr (resource_display r))]),
      (''action'', PyStr (al_action r)),
      (''result'', opt_str (al_result r)),
      (''old_value'', redact_audit_value R 0 (old_value r)),
      (''new_value'', redact_audit_value R 0 (new_value r)),
      (''changed_fields'', field_list (changed_fields r))]"

record event_subscription =
  sub_id :: uuid
  enabled :: bool
  url :: string
  secret_encrypted :: "string option"
  event_types :: "string list option"
  headers_encrypted :: "string option"
  timeout_seconds :: int
  max_attempts :: int

datatype outbox_state = Pending | InFlight | Delivered | Failed | Dead

record event_outbox =
  ob_id :: uuid
  subscription_id :: uuid
  event_type :: string
  payload :: "(string \<times> pyval) list"
  ob_state :: outbox_state
  attempts :: int
  next_attempt_at :: datetime
  last_error :: "string option"
  last_status_code :: "int option"
  delivered_at :: "datetime option"

definition subscription_matches :: "event_subscription \<Rightarrow> string \<Rightarrow> bool" where
  "subscription_matches s e = (case event_types s of None \<Rightarrow> True | Some ts \<Rightarrow> ts = [] \<or> e \<in> set ts)"

type_synonym snapshot = "string \<times> (string \<times> pyval) list"

definition outbox_row :: "uuid \<Rightarrow> datetime \<Rightarrow> event_subscription \<Rightarrow> snapshot \<Rightarrow> event_outbox" where
  "outbox_row i now s snap = \<lparr>ob_id = i, subscription_id = sub_id s, event_type = fst snap, payload = snd snap,
     ob_state = Pending, attempts = 0, next_attempt_at = now, last_error = None, last_status_code = None, delivered_at = None\<rparr>"

text \<open>The rows one publication adds, with the ids the database gives them. \<open>known\<close> is the cache that remembers that
  there is no enabled subscription, \<open>fails\<close> an exception in the session of its own, which drops the events.\<close>

definition publish_outbox_rows :: "bool \<Rightarrow> bool \<Rightarrow> (nat \<Rightarrow> uuid) \<Rightarrow> datetime \<Rightarrow> event_subscription list \<Rightarrow> snapshot list \<Rightarrow>
    event_outbox list \<times> bool" where
  "publish_outbox_rows known fails fresh now subs snaps =
     (if snaps = [] \<or> known \<or> fails then ([], known)
      else let live = filter enabled subs in
        if live = [] then ([], True)
        else let hits = concat (map (\<lambda>snap. map (\<lambda>s. (s, snap)) (filter (\<lambda>s. subscription_matches s (fst snap)) live)) snaps) in
          (map (\<lambda>(k, s, snap). outbox_row (fresh k) now s snap) (enumerate 0 hits), known))"

text \<open>The hooks on a session: what a flush notes, a commit hands over and a rollback forgets.\<close>

definition after_flush :: "redaction \<Rightarrow> py_datetime \<Rightarrow> audit_log list \<Rightarrow> snapshot list \<Rightarrow> snapshot list" where
  "after_flush R now new_audits pending = pending @ List.map_filter (\<lambda>r.
     map_option (\<lambda>e. (e, serialize_audit R now r e)) (audit_to_event_type (al_action r) (al_resource_type r))) new_audits"

definition after_commit :: "snapshot list \<Rightarrow> snapshot list \<times> snapshot list" where
  "after_commit pending = ([], pending)"

definition after_rollback :: "snapshot list \<Rightarrow> snapshot list" where
  "after_rollback pending = []"

section \<open>Delivering a row\<close>

definition BATCH_SIZE :: nat where "BATCH_SIZE = 100"

definition MAX_BACKOFF_SECONDS :: int where "MAX_BACKOFF_SECONDS = 600"

definition backoff_seconds :: "int \<Rightarrow> int" where
  "backoff_seconds attempt = min (2 ^ nat (max 1 attempt)) MAX_BACKOFF_SECONDS"

text \<open>\<open>s.encode("utf-8")\<close> of a Latin-1 text, and the test that \<open>s.encode("ascii")\<close> makes.\<close>

definition utf8_char :: "char \<Rightarrow> string" where
  "utf8_char c = (let n = (of_char c :: nat) in if n < 128 then [c] else [char_of (192 + n div 64), char_of (128 + n mod 64)])"

definition utf8 :: "string \<Rightarrow> string" where
  "utf8 s = concat (map utf8_char s)"

definition is_ascii :: "string \<Rightarrow> bool" where
  "is_ascii s = list_all (\<lambda>c. (of_char c :: nat) < 128) s"

record post_request =
  rq_url :: string
  rq_body :: string
  rq_headers :: "(string \<times> string) list"
  rq_timeout :: int

text \<open>What \<open>client.post\<close> can do: answer, raise an \<open>HTTPError\<close> or a \<open>ValueError\<close> (with their descriptions), or raise
  anything else.\<close>

datatype post_outcome = Response int string | HTTPError string | ValueError string | OtherError string

record delivery_env =
  decrypt_str :: "string \<Rightarrow> string + string"
  decrypt_dict :: "string \<Rightarrow> string + (string \<times> string) list"
  hmac_sha256 :: "string \<Rightarrow> string \<Rightarrow> string"
  post :: "post_request \<Rightarrow> post_outcome"
  patterns :: redaction
  unix_time :: int
  sw_version :: string

definition sign :: "delivery_env \<Rightarrow> string \<Rightarrow> string \<Rightarrow> string \<Rightarrow> string" where
  "sign E secret ts body = (if secret = [] then [] else ''sha256='' @ hmac_sha256 E (utf8 secret) (ts @ ''.'' @ body))"

definition subscription_headers :: "delivery_env \<Rightarrow> event_subscription \<Rightarrow> string + (string \<times> string) list" where
  "subscription_headers E s = (case headers_encrypted s of None \<Rightarrow> Inr []
     | Some c \<Rightarrow> if c = [] then Inr [] else decrypt_dict E c)"

text \<open>Adding the custom headers: skip the platform's own names, refuse what cannot be sent.\<close>

fun merge_headers :: "(string \<times> string) list \<Rightarrow> (string \<times> string) list \<Rightarrow> string + (string \<times> string) list" where
  "merge_headers hs [] = Inr hs"
| "merge_headers hs ((k, v) # kvs) =
     (if py_startswith (py_lower k) ''x-spatiumddi-'' then merge_headers hs kvs
      else if \<not> is_ascii k then Inl ''headers: a stored custom header name is not ASCII; re-save the subscription''
      else if \<not> is_ascii v then Inl (''headers: stored header '' @ quoted k @
        '' has a non-ASCII value that cannot be sent; re-save the subscription'')
      else merge_headers (dict_put k v hs) kvs)"

definition own_headers :: "delivery_env \<Rightarrow> event_outbox \<Rightarrow> string \<Rightarrow> string \<Rightarrow> (string \<times> string) list" where
  "own_headers E row ts sig = [(''Content-Type'', ''application/json''), (''User-Agent'', ''SpatiumDDI/'' @ sw_version E),
      (''X-SpatiumDDI-Event'', event_type row), (''X-SpatiumDDI-Delivery'', ob_id row), (''X-SpatiumDDI-Timestamp'', ts)] @
     (if sig = [] then [] else [(''X-SpatiumDDI-Signature'', sig)])"

definition delivery_body :: "delivery_env \<Rightarrow> event_outbox \<Rightarrow> string" where
  "delivery_body E row = json_dumps False '','' '':'' (PyDict (redact_audit_payload (patterns E) (payload row)))"

text \<open>The request of a row, or the error that keeps it from being made.\<close>

definition delivery_request :: "delivery_env \<Rightarrow> event_subscription \<Rightarrow> event_outbox \<Rightarrow> string \<Rightarrow> string + post_request" where
  "delivery_request E s row secret =
     (let body = delivery_body E row; ts = int_str (unix_time E); sig = sign E secret ts body in
      case subscription_headers E s of Inl e \<Rightarrow> Inl (''headers decrypt failed: '' @ e)
      | Inr custom \<Rightarrow> (case merge_headers (own_headers E row ts sig) custom of Inl e \<Rightarrow> Inl e
          | Inr hs \<Rightarrow> Inr \<lparr>rq_url = url s, rq_body = body, rq_headers = hs,
              rq_timeout = max 1 (min 30 (if timeout_seconds s = 0 then 10 else timeout_seconds s))\<rparr>))"

text \<open>\<open>_deliver_one\<close>: status and error, or an exception that leaves the drain.\<close>

definition deliver_one :: "delivery_env \<Rightarrow> event_subscription \<Rightarrow> event_outbox \<Rightarrow> string \<Rightarrow>
    string + (int option \<times> string option)" where
  "deliver_one E s row secret = (case delivery_request E s row secret of Inl e \<Rightarrow> Inr (None, Some e)
     | Inr rq \<Rightarrow> (case post E rq of
         Response code txt \<Rightarrow> Inr (Some code, if 200 \<le> code \<and> code < 300 then None
           else Some (''http '' @ int_str code @ '': '' @ take 200 txt))
       | HTTPError e \<Rightarrow> Inr (None, Some (''transport: '' @ e))
       | ValueError e \<Rightarrow> Inr (None, Some (''headers: '' @ e))
       | OtherError e \<Rightarrow> Inl e))"

section \<open>A pass of the worker\<close>

definition attempt_limit :: "event_subscription \<Rightarrow> int" where
  "attempt_limit s = max 1 (if max_attempts s = 0 then 8 else max_attempts s)"

text \<open>One claimed row; \<open>at\<close> is the clock when its delivery has returned.\<close>

definition handle_row :: "delivery_env \<Rightarrow> event_subscription list \<Rightarrow> datetime \<Rightarrow> event_outbox \<Rightarrow> string + event_outbox" where
  "handle_row E subs at row = (case find (\<lambda>s. sub_id s = subscription_id row) subs of
       None \<Rightarrow> Inr (row\<lparr>ob_state := Dead, last_error := Some ''subscription not enabled''\<rparr>)
     | Some s \<Rightarrow>
         if \<not> enabled s then Inr (row\<lparr>ob_state := Dead, last_error := Some ''subscription not enabled''\<rparr>)
         else case (case secret_encrypted s of None \<Rightarrow> Inr [] | Some c \<Rightarrow> if c = [] then Inr [] else decrypt_str E c) of
           Inl e \<Rightarrow> Inr (row\<lparr>ob_state := Dead, last_error := Some (''secret decrypt failed: '' @ e)\<rparr>)
         | Inr secret \<Rightarrow> (case deliver_one E s row secret of Inl e \<Rightarrow> Inl e
             | Inr (code, err) \<Rightarrow>
                 (let row' = row\<lparr>attempts := attempts row + 1, last_status_code := code, last_error := err\<rparr> in
                  if err = None then Inr (row'\<lparr>ob_state := Delivered, delivered_at := Some at\<rparr>)
                  else if attempt_limit s \<le> attempts row' then Inr (row'\<lparr>ob_state := Dead\<rparr>)
                  else Inr (row'\<lparr>ob_state := Failed, next_attempt_at := at + seconds (backoff_seconds (attempts row'))\<rparr>))))"

fun handle_all :: "delivery_env \<Rightarrow> event_subscription list \<Rightarrow> (uuid \<Rightarrow> datetime) \<Rightarrow> event_outbox list \<Rightarrow>
    string + event_outbox list" where
  "handle_all E subs clock [] = Inr []"
| "handle_all E subs clock (r # rs) = (case handle_row E subs (clock (ob_id r)) (r\<lparr>ob_state := InFlight\<rparr>) of Inl e \<Rightarrow> Inl e
     | Inr r' \<Rightarrow> (case handle_all E subs clock rs of Inl e \<Rightarrow> Inl e | Inr rs' \<Rightarrow> Inr (r' # rs')))"

definition due :: "datetime \<Rightarrow> event_outbox \<Rightarrow> bool" where
  "due now r \<longleftrightarrow> ob_state r \<in> {Pending, Failed} \<and> next_attempt_at r \<le> now"

text \<open>\<open>SELECT ... FOR UPDATE SKIP LOCKED\<close>: the oldest due rows no other worker holds.\<close>

definition claim :: "datetime \<Rightarrow> uuid set \<Rightarrow> event_outbox list \<Rightarrow> event_outbox list" where
  "claim now locked t = take BATCH_SIZE (sort_key next_attempt_at (filter (\<lambda>r. due now r \<and> ob_id r \<notin> locked) t))"

record pass_counts =
  claimed :: nat
  delivered :: nat
  failed :: nat
  dead :: nat

definition count_state :: "outbox_state \<Rightarrow> event_outbox list \<Rightarrow> nat" where
  "count_state st rs = length (filter (\<lambda>r. ob_state r = st) rs)"

definition put_rows :: "event_outbox list \<Rightarrow> event_outbox list \<Rightarrow> event_outbox list" where
  "put_rows rs t = map (\<lambda>r. case find (\<lambda>r'. ob_id r' = ob_id r) rs of None \<Rightarrow> r | Some r' \<Rightarrow> r') t"

text \<open>The answer of the pass and the committed table; an exception commits nothing.\<close>

definition process_due_outbox :: "delivery_env \<Rightarrow> event_subscription list \<Rightarrow> (uuid \<Rightarrow> datetime) \<Rightarrow> datetime \<Rightarrow> uuid set \<Rightarrow>
    event_outbox list \<Rightarrow> (string + pass_counts) \<times> event_outbox list" where
  "process_due_outbox E subs clock now locked t =
     (let rows = claim now locked t in
      if rows = [] then (Inr \<lparr>claimed = 0, delivered = 0, failed = 0, dead = 0\<rparr>, t)
      else case handle_all E subs clock rows of Inl e \<Rightarrow> (Inl e, t)
      | Inr rows' \<Rightarrow> (Inr \<lparr>claimed = length rows, delivered = count_state Delivered rows',
          failed = count_state Failed rows', dead = count_state Dead rows'\<rparr>, put_rows rows' t))"

definition reset_outbox_row :: "datetime \<Rightarrow> event_outbox \<Rightarrow> event_outbox" where
  "reset_outbox_row now row = row\<lparr>ob_state := Pending, attempts := 0, last_error := None, last_status_code := None, next_attempt_at := now\<rparr>"

section \<open>Every delivery ends\<close>

















record outbox_pass =
  ps_env :: delivery_env
  ps_clock :: "uuid \<Rightarrow> datetime"
  ps_now :: datetime

fun run_passes :: "event_subscription list \<Rightarrow> outbox_pass list \<Rightarrow> event_outbox list \<Rightarrow> event_outbox list" where
  "run_passes subs [] t = t"
| "run_passes subs (p # ps) t = run_passes subs ps (snd (process_due_outbox (ps_env p) subs (ps_clock p) (ps_now p) {} t))"




definition quiet_client :: "(post_request \<Rightarrow> post_outcome) \<Rightarrow> delivery_env" where
  "quiet_client f = \<lparr>decrypt_str = Inr, decrypt_dict = (\<lambda>_. Inr []), hmac_sha256 = (\<lambda>k m. []), post = f,
     patterns = \<lparr>secret_key = (\<lambda>k. k = ''password''), redact_string = (\<lambda>s. s)\<rparr>, unix_time = 0, sw_version = ''dev''\<rparr>"

definition hook :: "uuid \<Rightarrow> int \<Rightarrow> event_subscription" where
  "hook i n = \<lparr>sub_id = i, enabled = True, url = ''https://'' @ i, secret_encrypted = None, event_types = None,
     headers_encrypted = None, timeout_seconds = 10, max_attempts = n\<rparr>"

definition queued :: "uuid \<Rightarrow> uuid \<Rightarrow> event_outbox" where
  "queued i s = outbox_row i 0 (hook s 0) (''subnet.created'', [(''new_value'', PyNone)])"

definition only_a :: "post_request \<Rightarrow> post_outcome" where
  "only_a rq = (if rq_url rq = ''https://a'' then Response 204 [] else Response 500 ''busy'')"

definition pass_at :: "datetime \<Rightarrow> outbox_pass" where
  "pass_at n = \<lparr>ps_env = quiet_client only_a, ps_clock = (\<lambda>_. n), ps_now = n\<rparr>"



section \<open>What a receiver gets\<close>

definition platform_header :: "string \<Rightarrow> bool" where
  "platform_header k = py_startswith (py_lower k) ''x-spatiumddi-''"

lemma dict_put_other: "\<not> P k \<Longrightarrow> filter (\<lambda>(k, _). P k) (dict_put k v hs) = filter (\<lambda>(k, _). P k) hs"
  by (induction hs) auto

lemma merge_keeps_platform: "merge_headers hs custom = Inr hs' \<Longrightarrow>
    filter (\<lambda>(k, _). platform_header k) hs' = filter (\<lambda>(k, _). platform_header k) hs"
  by (induction hs custom rule: merge_headers.induct)
    (auto simp: platform_header_def dict_put_other split: if_splits)

text \<open>What the patterns are assumed to do: leave empty and redacted texts alone, and need one pass.\<close>

definition pattern_laws :: "redaction \<Rightarrow> bool" where
  "pattern_laws R \<longleftrightarrow> redact_string R [] = [] \<and> redact_string R REDACTED = REDACTED \<and>
     (\<forall>s. redact_string R (redact_string R s) = redact_string R s)"

text \<open>No credential at any depth: nothing readable under the name of one, and no text the patterns would change.\<close>

fun clean :: "redaction \<Rightarrow> pyval \<Rightarrow> bool" where
  "clean R (PyDict kvs) = list_all (\<lambda>(k, v). (secret_key R k \<longrightarrow> \<not> hideable v \<or> v = PyStr REDACTED) \<and> clean R v) kvs"
| "clean R (PyList vs) = list_all (clean R) vs"
| "clean R (PyStr s) = (redact_string R s = s)"
| "clean R v = True"

lemma redact_clean: "pattern_laws R \<Longrightarrow> clean R (redact_audit_value R d v)"
proof (induction R d v rule: redact_audit_value.induct)
  case (1 R d kvs)
  have "hideable (redact_audit_value R (Suc d) v) \<longrightarrow> redact_audit_value R (Suc d) v = PyStr REDACTED" if "\<not> hideable v" for v
    using that 1(2) by (cases v) (auto simp: pattern_laws_def)
  then show ?case using 1 by (auto simp: list_all_iff pattern_laws_def)
qed (auto simp: list_all_iff pattern_laws_def)

text \<open>A receiver can tell the platform's requests from others and learns no credential: the \<open>X-SpatiumDDI\<close> headers are
  exactly the ones the worker computed, whatever custom headers the subscription has, the signature covers the timestamp
  and the very body sent, and the old and new values in that body carry no credential at any depth.\<close>

theorem receiver_gets_signed_clean_event:
  assumes "pattern_laws (patterns E)" "delivery_request E s row secret = Inr rq"
  shows "filter (\<lambda>(k, _). platform_header k) (rq_headers rq) =
      [(''X-SpatiumDDI-Event'', event_type row), (''X-SpatiumDDI-Delivery'', ob_id row),
       (''X-SpatiumDDI-Timestamp'', int_str (unix_time E))] @
      (if secret = [] then [] else [(''X-SpatiumDDI-Signature'',
         ''sha256='' @ hmac_sha256 E (utf8 secret) (int_str (unix_time E) @ ''.'' @ rq_body rq))]) \<and>
    (\<exists>p. rq_body rq = json_dumps False '','' '':'' (PyDict p) \<and> map fst p = map fst (payload row) \<and>
       list_all (\<lambda>(k, v). k \<in> set AUDIT_CONTENT_FIELDS \<longrightarrow> clean (patterns E) v) p) \<and>
    1 \<le> rq_timeout rq \<and> rq_timeout rq \<le> 30"
proof -
  let ?ts = "int_str (unix_time E)"
  let ?body = "delivery_body E row"
  let ?sig = "sign E secret ?ts ?body"
  obtain custom hs where hs: "merge_headers (own_headers E row ?ts ?sig) custom = Inr hs" "rq_headers rq = hs" "rq_body rq = ?body"
    "1 \<le> rq_timeout rq" "rq_timeout rq \<le> 30"
    using assms(2) by (auto simp: delivery_request_def Let_def split: sum.splits)
  have names: "platform_header ''X-SpatiumDDI-Event''" "platform_header ''X-SpatiumDDI-Delivery''"
    "platform_header ''X-SpatiumDDI-Timestamp''" "platform_header ''X-SpatiumDDI-Signature''"
    "\<not> platform_header ''Content-Type''" "\<not> platform_header ''User-Agent''" by code_simp+
  have "filter (\<lambda>(k, _). platform_header k) (rq_headers rq) = filter (\<lambda>(k, _). platform_header k) (own_headers E row ?ts ?sig)"
    unfolding hs(2) by (rule merge_keeps_platform [OF hs(1)])
  also have "\<dots> = [(''X-SpatiumDDI-Event'', event_type row), (''X-SpatiumDDI-Delivery'', ob_id row), (''X-SpatiumDDI-Timestamp'', ?ts)] @
      (if secret = [] then [] else [(''X-SpatiumDDI-Signature'', ''sha256='' @ hmac_sha256 E (utf8 secret) (?ts @ ''.'' @ rq_body rq))])"
    unfolding hs(3) by (simp add: own_headers_def sign_def names)
  finally have headers: "filter (\<lambda>(k, _). platform_header k) (rq_headers rq) = \<dots>" .
  let ?p = "redact_audit_payload (patterns E) (payload row)"
  have "clean R PyNone" for R by simp
  then have "list_all (\<lambda>(k, v). k \<in> set AUDIT_CONTENT_FIELDS \<longrightarrow> clean (patterns E) v) ?p"
    using redact_clean [OF assms(1)] by (auto simp: redact_audit_payload_def list_all_iff)
  moreover have "map fst ?p = map fst (payload row)" by (simp add: redact_audit_payload_def comp_def split_def)
  ultimately show ?thesis using headers hs(3-5) unfolding delivery_body_def by blast
qed

section \<open>From commits to outbox rows\<close>

datatype session_event = Flush "audit_log list" | Commit | Rollback

text \<open>The snapshots handed over by the hooks, one list per commit that has any.\<close>

fun hooks :: "redaction \<Rightarrow> py_datetime \<Rightarrow> session_event list \<Rightarrow> snapshot list \<Rightarrow> snapshot list list" where
  "hooks R now [] pending = []"
| "hooks R now (Flush rows # es) pending = hooks R now es (if rows = [] then pending else after_flush R now rows pending)"
| "hooks R now (Commit # es) pending = (if pending = [] then hooks R now es pending
     else let (pending', out) = after_commit pending in out # hooks R now es pending')"
| "hooks R now (Rollback # es) pending = hooks R now es (after_rollback pending)"

text \<open>The audit rows that a history of the session commits.\<close>

fun committed :: "session_event list \<Rightarrow> audit_log list \<Rightarrow> audit_log list" where
  "committed [] acc = []"
| "committed (Flush rows # es) acc = committed es (acc @ rows)"
| "committed (Commit # es) acc = acc @ committed es []"
| "committed (Rollback # es) acc = committed es []"

definition typed_event :: "redaction \<Rightarrow> py_datetime \<Rightarrow> audit_log \<Rightarrow> snapshot option" where
  "typed_event R now r = map_option (\<lambda>e. (e, serialize_audit R now r e)) (audit_to_event_type (al_action r) (al_resource_type r))"

lemma map_filter_append: "List.map_filter f (xs @ ys) = List.map_filter f xs @ List.map_filter f ys"
  by (simp add: map_filter_def)

lemma hooks_committed:
  "concat (hooks R now es (List.map_filter (typed_event R now) acc)) = List.map_filter (typed_event R now) (committed es acc)"
proof (induction es arbitrary: acc)
  case (Cons e es)
  have nil: "List.map_filter f [] = []" for f :: "audit_log \<Rightarrow> snapshot option" by (simp add: map_filter_simps)
  show ?case
  proof (cases e)
    case (Flush rows)
    have "(if rows = [] then List.map_filter (typed_event R now) acc
        else after_flush R now rows (List.map_filter (typed_event R now) acc)) = List.map_filter (typed_event R now) (acc @ rows)"
      by (simp add: after_flush_def map_filter_append typed_event_def [abs_def] nil)
    then show ?thesis using Cons.IH [of "acc @ rows"] Flush by simp
  next
    case Commit
    then show ?thesis using Cons.IH [of "[]"] by (simp add: after_commit_def map_filter_append nil)
  next
    case Rollback
    then show ?thesis using Cons.IH [of "[]"] by (simp add: after_rollback_def nil)
  qed
qed (simp add: map_filter_simps)

lemma hits_of_subscription:
  assumes "distinct (map sub_id subs)" "s \<in> set subs"
  shows "filter (\<lambda>(s', _). sub_id s' = sub_id s)
      (concat (map (\<lambda>snap. map (\<lambda>s. (s, snap)) (filter (\<lambda>s. subscription_matches s (fst snap)) (filter enabled subs))) snaps)) =
    map (Pair s) (filter (\<lambda>snap. enabled s \<and> subscription_matches s (fst snap)) snaps)"
proof (induction snaps)
  case (Cons snap snaps)
  have "filter (\<lambda>(s', _). sub_id s' = sub_id s) (map (\<lambda>s. (s, snap)) (filter (\<lambda>s. subscription_matches s (fst snap)) (filter enabled subs))) =
      (if enabled s \<and> subscription_matches s (fst snap) then [(s, snap)] else [])"
    using assms
  proof (induction subs)
    case (Cons a subs)
    have "filter (\<lambda>(s', _). sub_id s' = sub_id s) (map (\<lambda>s. (s, snap)) (filter P subs)) = []" if "sub_id s \<notin> sub_id ` set subs" for P
      using that by (force simp: filter_empty_conv image_iff)
    then show ?case using Cons by (auto simp: image_iff)
  qed simp
  then show ?case using Cons.IH by simp
qed simp

text \<open>an event goes out for a committed change and for nothing else: the hooks hand over the typed events of exactly the audit rows
  that a history of flushes, commits and rollbacks commits, in order, and publishing them queues for each subscription
  one pending delivery per event it asks for, in that order, and none while it is disabled.\<close>

theorem committed_events_are_queued:
  assumes "distinct (map sub_id subs)" "s \<in> set subs"
  shows "let snaps = List.map_filter (typed_event R now) (committed es []);
      rows = fst (publish_outbox_rows False False fresh at subs (concat (hooks R now es []))) in
    map (\<lambda>r. (event_type r, payload r)) (filter (\<lambda>r. subscription_id r = sub_id s) rows) =
      filter (\<lambda>snap. enabled s \<and> subscription_matches s (fst snap)) snaps \<and>
    list_all (\<lambda>r. ob_state r = Pending \<and> attempts r = 0 \<and> next_attempt_at r = at) rows"
proof -
  let ?snaps = "List.map_filter (typed_event R now) (committed es [])"
  let ?hits = "concat (map (\<lambda>snap. map (\<lambda>s. (s, snap)) (filter (\<lambda>s. subscription_matches s (fst snap)) (filter enabled subs))) ?snaps)"
  have published: "concat (hooks R now es []) = ?snaps" using hooks_committed [of R now es "[]"] by (simp add: map_filter_simps)
  have "?hits = []" if "filter enabled subs = []" unfolding that by simp
  then have rows: "fst (publish_outbox_rows False False fresh at subs ?snaps) =
      map (\<lambda>(k, s, snap). outbox_row (fresh k) at s snap) (enumerate 0 ?hits)"
    by (cases "?snaps = []"; cases "filter enabled subs = []") (simp_all add: publish_outbox_rows_def Let_def del: filter_filter)
  have numbered: "map (\<lambda>r. (event_type r, payload r)) (filter (\<lambda>r. subscription_id r = sub_id s)
      (map (\<lambda>(k, s, snap). outbox_row (fresh k) at s snap) (enumerate n hs))) =
      map snd (filter (\<lambda>(s', _). sub_id s' = sub_id s) hs)" for n hs
    by (induction hs arbitrary: n) (auto simp: outbox_row_def)
  have "map (\<lambda>r. (event_type r, payload r)) (filter (\<lambda>r. subscription_id r = sub_id s)
      (fst (publish_outbox_rows False False fresh at subs ?snaps))) =
      filter (\<lambda>snap. enabled s \<and> subscription_matches s (fst snap)) ?snaps"
    unfolding rows numbered hits_of_subscription [OF assms] by (simp add: comp_def)
  moreover have "list_all (\<lambda>r. ob_state r = Pending \<and> attempts r = 0 \<and> next_attempt_at r = at)
      (fst (publish_outbox_rows False False fresh at subs ?snaps))"
    unfolding rows by (auto simp: list_all_iff outbox_row_def)
  ultimately show ?thesis unfolding published Let_def by blast
qed

definition noon :: py_datetime where
  "noon = \<lparr>year = 2026, month = 1, day = 1, hour = 12, minute = 0, second = 0, microsecond = 0\<rparr>"

definition subnet_audit :: "string \<Rightarrow> audit_log" where
  "subnet_audit a = (new_audit_log ''root'' a ''subnet'' ''s1'' ''10.0.0.0/24'')\<lparr>al_id := Some ''e1''\<rparr>"

definition two_hooks :: "event_subscription list" where
  "two_hooks = [hook ''a'' 8, (hook ''b'' 8)\<lparr>event_types := Some [''subnet.deleted'']\<rparr>]"

definition day_of_work :: "session_event list" where
  "day_of_work = [Flush [subnet_audit ''create''], Rollback, Flush [subnet_audit ''update'', subnet_audit ''delete''], Commit]"

definition plain :: redaction where
  "plain = patterns (quiet_client only_a)"

theorem committed_events_are_queued_witness:
  "map event_type (fst (publish_outbox_rows False False nat_digits 0 two_hooks (concat (hooks plain noon day_of_work [])))) =
     [''subnet.updated'', ''subnet.deleted'', ''subnet.deleted''] \<and>
   map fst (filter (\<lambda>snap. enabled (hook ''a'' 8) \<and> subscription_matches (hook ''a'' 8) (fst snap))
     (List.map_filter (typed_event plain noon) (committed day_of_work []))) = [''subnet.updated'', ''subnet.deleted'']"
proof -
  have d: "distinct (map sub_id two_hooks)" "hook ''a'' 8 \<in> set two_hooks" by code_simp+
  have a: "map event_type (fst (publish_outbox_rows False False nat_digits 0 two_hooks (concat (hooks plain noon day_of_work [])))) =
      [''subnet.updated'', ''subnet.deleted'', ''subnet.deleted'']" by code_simp
  have b: "map event_type (filter (\<lambda>r. subscription_id r = sub_id (hook ''a'' 8))
      (fst (publish_outbox_rows False False nat_digits 0 two_hooks (concat (hooks plain noon day_of_work []))))) =
      [''subnet.updated'', ''subnet.deleted'']" by code_simp
  from arg_cong [OF committed_events_are_queued [OF d, of plain noon day_of_work nat_digits 0, unfolded Let_def, THEN conjunct1], of "map fst"]
  show ?thesis unfolding map_map comp_def fst_conv a b by simp
qed

definition signing_env :: delivery_env where
  "signing_env = (quiet_client only_a)\<lparr>decrypt_dict := (\<lambda>_. Inr [(''X-SpatiumDDI-Signature'', ''forged''), (''Authorization'', ''t'')]),
     hmac_sha256 := (\<lambda>k m. k @ m)\<rparr>"

definition password_row :: event_outbox where
  "password_row = (queued ''1'' ''a'')\<lparr>payload := [(''new_value'', PyDict [(''password'', PyStr ''hunter2'')])]\<rparr>"

theorem receiver_gets_signed_clean_event_witness:
  "\<exists>rq. delivery_request signing_env ((hook ''a'' 8)\<lparr>headers_encrypted := Some ''c''\<rparr>) password_row ''k'' = Inr rq \<and>
     map fst (filter (\<lambda>(k, _). platform_header k) (rq_headers rq)) =
       [''X-SpatiumDDI-Event'', ''X-SpatiumDDI-Delivery'', ''X-SpatiumDDI-Timestamp'', ''X-SpatiumDDI-Signature''] \<and>
     rq_body rq = json_dumps False '','' '':'' (PyDict [(''new_value'', PyDict [(''password'', PyStr REDACTED)])])"
proof -
  have l: "pattern_laws (patterns signing_env)"
    by (simp add: pattern_laws_def signing_env_def quiet_client_def)
  have "\<not> isl (delivery_request signing_env ((hook ''a'' 8)\<lparr>headers_encrypted := Some ''c''\<rparr>) password_row ''k'')" by code_simp
  then obtain rq where rq: "delivery_request signing_env ((hook ''a'' 8)\<lparr>headers_encrypted := Some ''c''\<rparr>) password_row ''k'' = Inr rq"
    by (auto simp: isl_def) (metis sum.exhaust)
  have "map_sum id rq_body (delivery_request signing_env ((hook ''a'' 8)\<lparr>headers_encrypted := Some ''c''\<rparr>) password_row ''k'') =
      Inr (json_dumps False '','' '':'' (PyDict [(''new_value'', PyDict [(''password'', PyStr REDACTED)])]))" by code_simp
  then show ?thesis using receiver_gets_signed_clean_event [OF l rq] rq by auto
qed

section \<open>A client error the worker does not expect\<close>

text \<open>An exception other than \<open>HTTPError\<close> and \<open>ValueError\<close> (\<open>httpx.InvalidURL\<close> is one) rolls the whole pass back: the row it
  belongs to keeps its attempts and stays due, and so does every other row of the batch although it has been posted, pass after pass.\<close>

definition bad_url :: "post_request \<Rightarrow> post_outcome" where
  "bad_url rq = (if rq_url rq = ''https://b'' then OtherError ''Invalid port'' else Response 204 [])"

theorem bad_url_stalls_the_outbox:
  "run_passes [hook ''a'' 8, hook ''b'' 8] (replicate n ((pass_at 0)\<lparr>ps_env := quiet_client bad_url\<rparr>)) [queued ''1'' ''a'', queued ''2'' ''b''] =
     [queued ''1'' ''a'', queued ''2'' ''b'']"
proof (induction n)
  case (Suc n)
  have "snd (process_due_outbox (quiet_client bad_url) [hook ''a'' 8, hook ''b'' 8] (\<lambda>_. 0) 0 {} [queued ''1'' ''a'', queued ''2'' ''b'']) =
      [queued ''1'' ''a'', queued ''2'' ''b'']" by code_simp
  then show ?case using Suc by (simp add: pass_at_def)
qed simp

text \<open>With the default of eight attempts the waits add up to little over four minutes.\<close>

lemma default_backoff_total: "sum_list (map backoff_seconds [1, 2, 3, 4, 5, 6, 7]) = 254"
  by code_simp

end
