(* ===== verification/Reverse_Zones.thy ===== *)
theory Reverse_Zones
  imports Net "HOL-Library.Code_Target_Nat"
begin

text \<open>
  The reverse zones of a subnet: the pieces it is divided into and the way back from a zone name to its network
  (\<^verbatim>\<open>services/dns/sync_check.py\<close>), and the names of the zones (\<^verbatim>\<open>services/dns/reverse_zone.py\<close>).
\<close>

section \<open>Pieces and names\<close>

text \<open>\<open>net.supernet(new_prefix=p)\<close> for a shorter prefix.\<close>

definition supernet_to :: "nat \<Rightarrow> ipnet \<Rightarrow> ipnet" where
  "supernet_to p n = (let size = 2 ^ (max_prefixlen (version n) - p) in
     n\<lparr>network_address := network_address n - network_address n mod size, prefixlen := p\<rparr>)"

definition reverse_unit :: "ipnet \<Rightarrow> nat" where
  "reverse_unit n = (case version n of V4 \<Rightarrow> if 16 < prefixlen n then 24 else if 8 < prefixlen n then 16 else 8
     | V6 \<Rightarrow> (let u = (prefixlen n + 3) div 4 * 4 in if u = 0 then 4 else u))"

definition reverse_zone_pieces :: "ipnet \<Rightarrow> ipnet list" where
  "reverse_zone_pieces n = (let u = reverse_unit n in
     if u \<le> prefixlen n then (if version n = V4 \<and> u < prefixlen n then [supernet_to u n] else [n])
     else case subnets n u of Some ns \<Rightarrow> ns | None \<Rightarrow> [])"

text \<open>Bits per label, labels in a full pointer, the digits of an address from the last label on, and a digit's text.\<close>

fun label_bits :: "ip_version \<Rightarrow> nat" where
  "label_bits V4 = 8" | "label_bits V6 = 4"

fun total_labels :: "ip_version \<Rightarrow> nat" where
  "total_labels V4 = 4" | "total_labels V6 = 32"

fun label_text :: "ip_version \<Rightarrow> nat \<Rightarrow> string" where
  "label_text V4 d = nat_digits d" | "label_text V6 d = [hex_digit d]"

fun arpa :: "ip_version \<Rightarrow> string list" where
  "arpa V4 = [''in-addr'', ''arpa'']" | "arpa V6 = [''ip6'', ''arpa'']"

definition label_digits :: "ip_version \<Rightarrow> nat \<Rightarrow> nat list" where
  "label_digits v a = map (\<lambda>k. a div (2 ^ label_bits v) ^ k mod 2 ^ label_bits v) [0 ..< total_labels v]"

text \<open>\<open>text.split(c)\<close> and \<open>address.reverse_pointer\<close>.\<close>

fun split_char :: "char \<Rightarrow> string \<Rightarrow> string \<Rightarrow> string list" where
  "split_char d acc [] = [rev acc]"
| "split_char d acc (c # cs) = (if c = d then rev acc # split_char d [] cs else split_char d (c # acc) cs)"

abbreviation py_split :: "char \<Rightarrow> string \<Rightarrow> string list" where
  "py_split d s \<equiv> split_char d [] s"

definition reverse_pointer :: "ip_version \<times> nat \<Rightarrow> string" where
  "reverse_pointer va = py_join ''.'' (map (label_text (fst va)) (label_digits (fst va) (snd va)) @ arpa (fst va))"

definition zone_name :: "ipnet \<Rightarrow> string" where
  "zone_name piece = (let parts = py_split CHR ''.'' (reverse_pointer (version piece, network_address piece));
       total = total_labels (version piece); labels = prefixlen piece div label_bits (version piece);
       keep = drop (total - labels) (take total parts) in
     py_join ''.'' (keep @ drop total parts) @ ''.'')"

definition compute_reverse_zone_names :: "cidr_column \<Rightarrow> string list option" where
  "compute_reverse_zone_names network =
     (case ip_network network of None \<Rightarrow> None | Some net \<Rightarrow> Some (map zone_name (reverse_zone_pieces net)))"

section \<open>Reading an address\<close>

fun from_digits :: "nat \<Rightarrow> nat list \<Rightarrow> nat" where
  "from_digits b [] = 0"
| "from_digits b (d # ds) = d + b * from_digits b ds"

text \<open>\<open>o.isascii() and o.isdigit() and int(o) <= 255\<close>, and what the address parser refuses on top of it.\<close>

definition octet_ok :: "string \<Rightarrow> bool" where
  "octet_ok s \<longleftrightarrow> s \<noteq> [] \<and> list_all is_digit s \<and> digits_val s 0 \<le> 255"

definition leading_zero :: "string \<Rightarrow> bool" where
  "leading_zero s \<longleftrightarrow> 1 < length s \<and> hd s = CHR ''0''"

text \<open>\<open>IPv4Address(text)\<close>, and \<open>IPv6Address(text)\<close> for a text with no dot in it; \<open>None\<close> is the \<open>ValueError\<close>.\<close>

definition ipv4_address :: "string \<Rightarrow> nat option" where
  "ipv4_address s = (let parts = py_split CHR ''.'' s in
     if length parts = 4 \<and> list_all (\<lambda>p. octet_ok p \<and> \<not> leading_zero p) parts
     then Some (from_digits 256 (rev (map (\<lambda>p. digits_val p 0) parts))) else None)"

definition parse_hextet :: "string \<Rightarrow> nat option" where
  "parse_hextet s = (if s = [] \<or> 4 < length s then None
     else map_option (\<lambda>ds. from_digits 16 (rev ds)) (those (map hex_val s)))"

definition hextets_value :: "nat \<Rightarrow> string list \<Rightarrow> string list \<Rightarrow> nat option" where
  "hextets_value skipped hi lo = (case (those (map parse_hextet hi), those (map parse_hextet lo)) of
     (Some xs, Some ys) \<Rightarrow> Some (from_digits 65536 (rev (xs @ replicate skipped 0 @ ys))) | _ \<Rightarrow> None)"

definition ipv6_parts :: "string list \<Rightarrow> nat option" where
  "ipv6_parts parts = (let n = length parts in if n < 3 \<or> 9 < n then None
     else case filter (\<lambda>i. parts ! i = []) [1 ..< n - 1] of
       [] \<Rightarrow> (if n \<noteq> 8 \<or> hd parts = [] \<or> last parts = [] then None else hextets_value 0 parts [])
     | [i] \<Rightarrow> (let hi = (if hd parts = [] then i - 1 else i);
                  lo = (if last parts = [] then n - i - 2 else n - i - 1) in
         if hd parts = [] \<and> hi \<noteq> 0 \<or> last parts = [] \<and> lo \<noteq> 0 \<or> 7 < hi + lo then None
         else hextets_value (8 - (hi + lo)) (take hi parts) (drop (n - lo) parts))
     | _ \<Rightarrow> None)"

definition ipv6_address :: "string \<Rightarrow> nat option" where
  "ipv6_address s = (case py_partition s ''%'' of (addr, scoped, scope) \<Rightarrow>
     if CHR ''/'' \<in> set s \<or> scoped \<and> (scope = [] \<or> CHR ''%'' \<in> set scope) \<or> addr = [] then None
     else ipv6_parts (py_split CHR '':'' addr))"

text \<open>\<open>":".join(hexstr[i : i + 4] for i in range(0, 32, 4))\<close>.\<close>

definition colon_groups :: "string \<Rightarrow> string" where
  "colon_groups h = py_join '':'' (map (\<lambda>i. take 4 (drop (4 * i) h)) [0 ..< 8])"

section \<open>From a name to its network or address\<close>

definition lower_hex :: "char \<Rightarrow> bool" where
  "lower_hex c \<longleftrightarrow> c \<in> set ''0123456789abcdef''"

text \<open>\<open>Inl\<close> is the \<open>ValueError\<close> of the address parser.\<close>

definition reverse_zone_network :: "string \<Rightarrow> string + ipnet option" where
  "reverse_zone_network name =
     (let labels = py_split CHR ''.'' (py_rstrip_char CHR ''.'' (py_lower name)); k = length labels - 2;
          front = rev (take k labels);
          network = (\<lambda>v a. case a of None \<Rightarrow> Inl ''ValueError''
            | Some x \<Rightarrow> Inr (Some \<lparr>version = v, network_address = x, prefixlen = label_bits v * k\<rparr>)) in
      if drop k labels = arpa V4
      then (if \<not> (1 \<le> k \<and> k \<le> 3 \<and> list_all octet_ok front) then Inr None
            else network V4 (ipv4_address (py_join ''.'' (front @ replicate (4 - k) ''0''))))
      else if drop k labels = arpa V6
      then (if \<not> (1 \<le> k \<and> k \<le> 32 \<and> list_all (\<lambda>n. length n = 1 \<and> lower_hex (hd n)) front) then Inr None
            else network V6 (ipv6_address (colon_groups (concat front @ replicate (32 - length (concat front)) CHR ''0''))))
      else Inr None)"

definition ptr_address :: "string \<Rightarrow> string \<Rightarrow> (ip_version \<times> nat) option" where
  "ptr_address record_name zname =
     (let strip = py_rstrip_char CHR ''.'';
          owner = (if record_name \<in> {'''', ''@''} then strip zname else strip record_name @ ''.'' @ strip zname);
          labels = py_split CHR ''.'' (py_lower owner); k = length labels - 2 in
      if drop k labels = arpa V4 \<and> length labels = 6
      then map_option (Pair V4) (ipv4_address (py_join ''.'' (rev (take 4 labels))))
      else if drop k labels = arpa V6 \<and> length labels = 34
      then map_option (Pair V6) (ipv6_address (colon_groups (concat (rev (take 32 labels)))))
      else None)"

definition expected_ptr :: "ip_version \<times> nat \<Rightarrow> string \<Rightarrow> string \<Rightarrow> string \<times> string" where
  "expected_ptr addr hostname zname =
     (let rev_full = reverse_pointer addr @ ''.''; z = py_rstrip_char CHR ''.'' zname @ ''.'' in
      (if rev_full = z then ''@'' else take (length rev_full - (length z + 1)) rev_full, hostname))"

section \<open>The zone an address's pointer goes into\<close>

record rev_zone =
  rz_id :: uuid
  rz_name :: string
  rz_zone_type :: string
  rz_kind :: string
  rz_linked_subnet_id :: "uuid option"

record reverse_candidate =
  rc_zone :: rev_zone
  rc_linked_space_id :: "uuid option"
  rc_linked_network :: "cidr_column option"
  rc_in_group :: bool

record rev_subnet =
  rs_id :: uuid
  rs_space_id :: uuid
  rs_network :: cidr_column

definition ipam_authors_zone :: "rev_zone \<Rightarrow> bool" where
  "ipam_authors_zone z \<longleftrightarrow> rz_zone_type z = ''primary''"

definition reverse_owner_key :: "rev_zone \<Rightarrow> nat \<times> bool" where
  "reverse_owner_key z = (length (py_rstrip_char CHR ''.'' (rz_name z)), ipam_authors_zone z)"

definition cidrs_overlap :: "cidr_column option \<Rightarrow> cidr_column option \<Rightarrow> bool" where
  "cidrs_overlap a b = (case (Option.bind a ip_network, Option.bind b ip_network) of
     (Some na, Some nb) \<Rightarrow> version na = version nb \<and> overlaps na nb | _ \<Rightarrow> False)"

definition covers :: "ip_version \<times> nat \<Rightarrow> string \<Rightarrow> bool" where
  "covers addr name \<longleftrightarrow> (let rev_pointer = reverse_pointer addr @ ''.''; zname = py_rstrip_char CHR ''.'' name @ ''.'' in
     py_endswith rev_pointer (''.'' @ zname) \<or> rev_pointer = zname)"

definition own_zone :: "rev_subnet \<Rightarrow> rev_zone \<Rightarrow> bool" where
  "own_zone subnet z \<longleftrightarrow> rz_linked_subnet_id z = Some (rs_id subnet) \<and> rz_kind z = ''reverse''"

definition cross_space :: "rev_subnet \<Rightarrow> reverse_candidate \<Rightarrow> bool" where
  "cross_space subnet c \<longleftrightarrow> \<not> own_zone subnet (rc_zone c) \<and> rc_linked_space_id c \<noteq> None \<and>
     rc_linked_space_id c \<noteq> Some (rs_space_id subnet) \<and> cidrs_overlap (rc_linked_network c) (Some (rs_network subnet))"

fun pick_loop :: "rev_subnet \<Rightarrow> ip_version \<times> nat \<Rightarrow> rev_zone option \<Rightarrow> reverse_candidate list \<Rightarrow> rev_zone option" where
  "pick_loop subnet addr best [] = best"
| "pick_loop subnet addr best (c # cs) = (let z = rc_zone c in
     if \<not> (own_zone subnet z \<or> rc_in_group c) \<or> \<not> covers addr (rz_name z) then pick_loop subnet addr best cs
     else if cross_space subnet c then pick_loop subnet addr best cs
     else case best of None \<Rightarrow> pick_loop subnet addr (Some z) cs
       | Some b \<Rightarrow> pick_loop subnet addr (if reverse_owner_key b < reverse_owner_key z then Some z else best) cs)"

definition pick_reverse_zone :: "rev_subnet \<Rightarrow> ip_version \<times> nat \<Rightarrow> reverse_candidate list \<Rightarrow> rev_zone option" where
  "pick_reverse_zone subnet addr candidates = (case pick_loop subnet addr None candidates of
     Some z \<Rightarrow> if ipam_authors_zone z then Some z else None | None \<Rightarrow> None)"

text \<open>\<open>ip_address(start)\<close> of an integer: the IPv4 address where the integer is one.\<close>

definition ip_address_int :: "nat \<Rightarrow> ip_version \<times> nat" where
  "ip_address_int n = (if n < 2 ^ 32 then V4 else V6, n)"

fun candidate_starts :: "ipnet \<Rightarrow> reverse_candidate list \<Rightarrow> string + nat list" where
  "candidate_starts net [] = Inr []"
| "candidate_starts net (c # cs) = (case reverse_zone_network (rz_name (rc_zone c)) of Inl e \<Rightarrow> Inl e
     | Inr covered \<Rightarrow> (case candidate_starts net cs of Inl e \<Rightarrow> Inl e
         | Inr starts \<Rightarrow> Inr (case covered of None \<Rightarrow> starts | Some n \<Rightarrow>
             if version n = version net \<and> overlaps n net
             then max (network_address n) (network_address net) # starts else starts)))"

fun zones_at :: "rev_subnet \<Rightarrow> reverse_candidate list \<Rightarrow> uuid list \<Rightarrow> nat list \<Rightarrow> rev_zone list" where
  "zones_at subnet candidates seen [] = []"
| "zones_at subnet candidates seen (s # ss) = (case pick_reverse_zone subnet (ip_address_int s) candidates of
     Some z \<Rightarrow> if rz_id z \<in> set seen then zones_at subnet candidates seen ss
       else z # zones_at subnet candidates (rz_id z # seen) ss
   | None \<Rightarrow> zones_at subnet candidates seen ss)"

definition subnet_reverse_zones :: "rev_subnet \<Rightarrow> reverse_candidate list \<Rightarrow> string + rev_zone list" where
  "subnet_reverse_zones subnet candidates = (case ip_network (rs_network subnet) of None \<Rightarrow> Inr []
     | Some net \<Rightarrow> (case candidate_starts net candidates of Inl e \<Rightarrow> Inl e
         | Inr starts \<Rightarrow> Inr (zones_at subnet candidates []
             (sort (remdups (map network_address (reverse_zone_pieces net) @ starts))))))"

section \<open>Labels\<close>

lemma from_digits_append: "from_digits b (xs @ ys) = from_digits b xs + b ^ length xs * from_digits b ys"
  by (induction xs) (simp_all add: algebra_simps)

lemma from_digits_zeros: "from_digits b (replicate k 0) = 0"
  by (induction k) simp_all

lemma from_digits_div:
  assumes "a < b ^ t" "m \<le> t"
  shows "from_digits b (map (\<lambda>k. a div b ^ k mod b) [m ..< t]) = a div b ^ m"
  using assms(2)
proof (induction "t - m" arbitrary: m)
  case 0
  then show ?case using assms(1) by simp
next
  case (Suc j)
  then have "m < t" by simp
  then have "map (\<lambda>k. a div b ^ k mod b) [m ..< t] = a div b ^ m mod b # map (\<lambda>k. a div b ^ k mod b) [Suc m ..< t]"
    by (simp add: upt_conv_Cons)
  moreover have "from_digits b (map (\<lambda>k. a div b ^ k mod b) [Suc m ..< t]) = a div b ^ Suc m"
    using Suc \<open>m < t\<close> by simp
  moreover have "a div b ^ Suc m = a div b ^ m div b" by (metis div_mult2_eq mult.commute power_Suc)
  ultimately show ?case by simp
qed

definition plain_label :: "string \<Rightarrow> bool" where
  "plain_label s \<longleftrightarrow> s \<noteq> [] \<and> list_all (\<lambda>c. c \<noteq> CHR ''.'' \<and> ascii_lower c = c) s"

lemma split_char_label: "d \<notin> set s \<Longrightarrow> split_char d acc (s @ r) = split_char d (rev s @ acc) r"
  by (induction s arbitrary: acc) auto

lemma split_char_join: "xs \<noteq> [] \<Longrightarrow> list_all (\<lambda>s. d \<notin> set s) xs \<Longrightarrow> py_split d (py_join [d] xs) = xs"
proof (induction xs rule: induct_list012)
  case (2 x)
  then show ?case using split_char_label [of d x "[]" "[]"] by simp
next
  case (3 x y zs)
  then show ?case by (simp add: split_char_label)
qed simp

lemma set_join: "set (py_join sep xs) \<subseteq> set sep \<union> (\<Union>x \<in> set xs. set x)"
  by (induction xs rule: induct_list012) auto

lemma partition_absent: "c \<notin> set s \<Longrightarrow> py_partition s [c] = (s, False, [])"
  by (induction s) (auto simp: py_startswith_def)

lemma plain_no_dot: "list_all plain_label xs \<Longrightarrow> list_all (\<lambda>s. CHR ''.'' \<notin> set s) xs"
  unfolding list_all_iff plain_label_def by blast

lemma split_join_dots: "xs \<noteq> [] \<Longrightarrow> list_all plain_label xs \<Longrightarrow> py_split CHR ''.'' (py_join ''.'' xs) = xs"
  by (rule split_char_join [OF _ plain_no_dot])

lemma plain_lower: "plain_label s \<Longrightarrow> map ascii_lower s = s"
  unfolding plain_label_def list_all_iff by (blast intro: map_idI)

lemma join_plain:
  assumes "xs \<noteq> []" "list_all plain_label xs"
  shows "py_lower (py_join ''.'' xs) = py_join ''.'' xs" "py_join ''.'' xs \<noteq> []" "last (py_join ''.'' xs) \<noteq> CHR ''.''"
proof -
  have dot: "ascii_lower CHR ''.'' = CHR ''.''" by code_simp
  have "map ascii_lower (py_join ''.'' xs) = py_join ''.'' xs \<and> py_join ''.'' xs \<noteq> [] \<and> last (py_join ''.'' xs) \<noteq> CHR ''.''"
    using assms
  proof (induction xs rule: induct_list012)
    case (2 x)
    then have "plain_label x" by simp
    then have "x \<noteq> []" "last x \<in> set x" "\<forall>c\<in>set x. c \<noteq> CHR ''.''" by (auto simp: plain_label_def list_all_iff)
    then show ?case using plain_lower [OF \<open>plain_label x\<close>] by auto
  next
    case (3 x y zs)
    have "map ascii_lower x = x" using 3(4) plain_lower by simp
    moreover have "map ascii_lower (py_join ''.'' (y # zs)) = py_join ''.'' (y # zs)" "py_join ''.'' (y # zs) \<noteq> []"
      "last (py_join ''.'' (y # zs)) \<noteq> CHR ''.''" using 3(2) 3(4) by simp_all
    ultimately show ?case by (simp add: dot)
  qed simp
  then show "py_lower (py_join ''.'' xs) = py_join ''.'' xs" "py_join ''.'' xs \<noteq> []" "last (py_join ''.'' xs) \<noteq> CHR ''.''"
    by (simp_all add: py_lower_def)
qed

lemma name_labels:
  assumes "xs \<noteq> []" "list_all plain_label xs"
  shows "py_split CHR ''.'' (py_rstrip_char CHR ''.'' (py_lower (py_join ''.'' xs @ ''.''))) = xs"
proof -
  have dot: "ascii_lower CHR ''.'' = CHR ''.''" by code_simp
  note j = join_plain [OF assms]
  have "py_lower (py_join ''.'' xs @ ''.'') = py_join ''.'' xs @ ''.''" using j(1) by (simp add: py_lower_def dot)
  moreover have "py_rstrip_char CHR ''.'' (py_join ''.'' xs @ ''.'') = py_join ''.'' xs"
  proof -
    have "dropWhile (\<lambda>x. x = CHR ''.'') (rev (py_join ''.'' xs)) = rev (py_join ''.'' xs)"
      using j(2,3) by (simp add: dropWhile_eq_self_iff hd_rev)
    then show ?thesis by (simp add: py_rstrip_char_def)
  qed
  ultimately show ?thesis using split_join_dots [OF assms] by simp
qed

lemma digit_plain: "is_digit c \<Longrightarrow> c \<noteq> CHR ''.'' \<and> ascii_lower c = c"
  by (auto simp: is_digit_def ascii_lower_def)

lemma hex_plain: "d < 16 \<Longrightarrow> hex_digit d \<noteq> CHR ''.'' \<and> ascii_lower (hex_digit d) = hex_digit d"
proof -
  have "\<forall>d \<in> set [0 ..< 16]. hex_digit d \<noteq> CHR ''.'' \<and> ascii_lower (hex_digit d) = hex_digit d \<and> lower_hex (hex_digit d) \<and>
    hex_digit d \<notin> set '':%/''" by code_simp
  then show "d < 16 \<Longrightarrow> hex_digit d \<noteq> CHR ''.'' \<and> ascii_lower (hex_digit d) = hex_digit d" by simp
qed

lemma hex_chars: "d < 16 \<Longrightarrow> lower_hex (hex_digit d)" "d < 16 \<Longrightarrow> hex_digit d \<notin> set '':%/''"
proof -
  have "\<forall>d \<in> set [0 ..< 16]. lower_hex (hex_digit d) \<and> hex_digit d \<notin> set '':%/''" by code_simp
  then show "d < 16 \<Longrightarrow> lower_hex (hex_digit d)" "d < 16 \<Longrightarrow> hex_digit d \<notin> set '':%/''" by (metis atLeastLessThan_iff le0 set_upt)+
qed

lemma label_plain: "d < 2 ^ label_bits v \<Longrightarrow> plain_label (label_text v d)"
proof (cases v)
  case V4
  then show ?thesis using nat_digits_hd [of d] nat_digits_digits [of d] digit_plain by (auto simp: plain_label_def list_all_iff)
next
  case V6
  then show "d < 2 ^ label_bits v \<Longrightarrow> plain_label (label_text v d)" using hex_plain [of d] by (simp add: plain_label_def)
qed

lemma arpa_plain: "list_all plain_label (arpa v)"
proof -
  have "list_all plain_label (arpa V4)" "list_all plain_label (arpa V6)" by code_simp+
  then show ?thesis by (cases v) simp_all
qed

lemma labels_plain: "list_all (\<lambda>d. d < 2 ^ label_bits v) ds \<Longrightarrow> list_all plain_label (map (label_text v) ds @ arpa v)"
  using label_plain arpa_plain by (auto simp: list_all_iff)

lemma arpa_length [simp]: "length (arpa v) = 2" "arpa v \<noteq> []"
  by (cases v; simp)+

lemma octets_read:
  assumes "length ds = 4" "list_all (\<lambda>d. d < 256) ds"
  shows "ipv4_address (py_join ''.'' (map nat_digits ds)) = Some (from_digits 256 (rev ds))"
proof -
  have "list_all plain_label (map nat_digits ds)" using assms(2) label_plain [where v = V4] by (auto simp: list_all_iff)
  moreover have "map nat_digits ds \<noteq> []" using assms(1) by auto
  ultimately have s: "py_split CHR ''.'' (py_join ''.'' (map nat_digits ds)) = map nat_digits ds" by (intro split_join_dots)
  have "octet_ok (nat_digits d) \<and> \<not> leading_zero (nat_digits d)" if "d < 256" for d
    using that nat_digits_hd [of d] nat_digits_digits [of d] digits_val_nat_digits [of d]
    by (cases "d = 0") (auto simp: octet_ok_def leading_zero_def)
  then have "list_all (\<lambda>p. octet_ok p \<and> \<not> leading_zero p) (map nat_digits ds)" using assms(2) by (auto simp: list_all_iff)
  then show ?thesis unfolding ipv4_address_def s Let_def using assms(1) by (simp add: digits_val_nat_digits comp_def)
qed

lemma those_map_Some: "(\<And>x. x \<in> set xs \<Longrightarrow> f x = Some (g x)) \<Longrightarrow> those (map f xs) = Some (map g xs)"
  by (induction xs) auto

lemma hextet_read: "ds \<noteq> [] \<Longrightarrow> length ds \<le> 4 \<Longrightarrow> list_all (\<lambda>d. d < 16) ds \<Longrightarrow>
    parse_hextet (map hex_digit ds) = Some (from_digits 16 (rev ds))"
  using those_map_Some [of ds "\<lambda>d. hex_val (hex_digit d)" id] by (auto simp: parse_hextet_def list_all_iff comp_def)

lemma from_digits_groups:
  "\<forall>g \<in> set gs. length g = 4 \<Longrightarrow> from_digits 65536 (rev (map (\<lambda>g. from_digits 16 (rev g)) gs)) = from_digits 16 (rev (concat gs))"
proof (induction gs rule: rev_induct)
  case (snoc g gs)
  have "from_digits 16 (rev (concat (gs @ [g]))) = from_digits 16 (rev g) + 16 ^ 4 * from_digits 16 (rev (concat gs))"
    using snoc.prems by (simp add: from_digits_append)
  then show ?case using snoc by simp
qed simp

lemma concat_chunks: "concat (map (\<lambda>i. take n (drop (n * i) xs)) [0 ..< m]) = take (n * m) xs"
  by (induction m) (simp_all add: take_add add.commute [of n])

lemma nibbles_read:
  assumes "length ds = 32" "list_all (\<lambda>d. d < 16) ds"
  shows "ipv6_address (colon_groups (map hex_digit ds)) = Some (from_digits 16 (rev ds))"
proof -
  define gs where "gs = map (\<lambda>i. take 4 (drop (4 * i) ds)) [0 ..< 8]"
  define ps where "ps = map (map hex_digit) gs"
  have ps: "colon_groups (map hex_digit ds) = py_join '':'' ps"
    by (simp add: colon_groups_def ps_def gs_def take_map drop_map comp_def)
  have len: "length ps = 8" by (simp add: ps_def gs_def)
  have g4: "\<forall>g \<in> set gs. length g = 4" using assms(1) by (auto simp: gs_def)
  have "\<forall>g \<in> set gs. set g \<subseteq> set ds" unfolding gs_def set_map using set_take_subset set_drop_subset by fastforce
  then have small: "\<forall>g \<in> set gs. \<forall>d \<in> set g. d < 16" using assms(2) unfolding list_all_iff by blast
  have ne: "\<forall>p \<in> set ps. p \<noteq> []" using g4 by (auto simp: ps_def)
  have chars: "\<forall>p \<in> set ps. \<forall>c \<in> set p. c \<notin> set '':%/''" using small hex_chars(2) by (auto simp: ps_def)
  have seps: "CHR '':'' \<in> set '':%/''" "CHR ''%'' \<in> set '':%/''" "CHR ''/'' \<in> set '':%/''" by simp_all
  have ps0: "ps \<noteq> []" using len by auto
  have "list_all (\<lambda>s. CHR '':'' \<notin> set s) ps" unfolding list_all_iff using chars seps by blast
  then have "py_split CHR '':'' (py_join '':'' ps) = ps" by (rule split_char_join [OF ps0])
  moreover have "ipv6_parts ps = Some (from_digits 16 (rev ds))"
  proof -
    have "hd ps \<noteq> []" "last ps \<noteq> []" using ne len by (metis hd_in_set last_in_set list.size(3) zero_neq_numeral)+
    moreover have "filter (\<lambda>i. ps ! i = []) [1 ..< length ps - 1] = []" using ne by (auto simp: filter_empty_conv)
    moreover have "those (map parse_hextet ps) = Some (map (\<lambda>g. from_digits 16 (rev g)) gs)"
    proof -
      have "parse_hextet (map hex_digit g) = Some (from_digits 16 (rev g))" if "g \<in> set gs" for g
        using that g4 small by (intro hextet_read) (auto simp: list_all_iff)
      then show ?thesis unfolding ps_def map_map by (intro those_map_Some) simp
    qed
    moreover have "concat gs = ds" using concat_chunks [of 4 ds 8] assms(1) by (simp add: gs_def)
    ultimately show ?thesis using len from_digits_groups [OF g4] by (simp add: ipv6_parts_def hextets_value_def)
  qed
  moreover have "CHR ''%'' \<notin> set (py_join '':'' ps)" "CHR ''/'' \<notin> set (py_join '':'' ps)"
  proof -
    have "x \<notin> set (py_join '':'' ps)" if "x \<in> set '':%/''" "x \<noteq> CHR '':''" for x
      using set_join [of "'':''" ps] chars that unfolding list.set by blast
    then show "CHR ''%'' \<notin> set (py_join '':'' ps)" "CHR ''/'' \<notin> set (py_join '':'' ps)" using seps by simp_all
  qed
  moreover have "py_join '':'' ps \<noteq> []" using ne ps0 by (cases "('':'', ps)" rule: py_join.cases) auto
  ultimately show ?thesis unfolding ps ipv6_address_def by (simp add: partition_absent)
qed

section \<open>Names and networks\<close>

lemma label_digits_less: "list_all (\<lambda>d. d < 2 ^ label_bits v) (label_digits v a)"
  by (simp add: label_digits_def list_all_iff)

lemma length_label_digits [simp]: "length (label_digits v a) = total_labels v"
  by (simp add: label_digits_def)

lemma pointer_labels: "py_split CHR ''.'' (reverse_pointer (v, a)) = map (label_text v) (label_digits v a) @ arpa v"
  unfolding reverse_pointer_def fst_conv snd_conv
  by (rule split_join_dots [OF _ labels_plain [OF label_digits_less]]) simp

lemma zone_name_labels:
  "zone_name n = py_join ''.'' (map (label_text (version n)) (drop (total_labels (version n) - prefixlen n div label_bits (version n))
     (label_digits (version n) (network_address n))) @ arpa (version n)) @ ''.''"
  by (simp add: zone_name_def pointer_labels Let_def drop_map)

lemma concat_nibbles: "concat (rev (map (label_text V6) ds)) = map hex_digit (rev ds)"
  by (induction ds) simp_all

lemma network_of_labels:
  assumes "1 \<le> length ds" "length ds \<le> (case v of V4 \<Rightarrow> 3 | V6 \<Rightarrow> 32)" "list_all (\<lambda>d. d < 2 ^ label_bits v) ds"
    and labels: "py_split CHR ''.'' (py_rstrip_char CHR ''.'' (py_lower name)) = map (label_text v) ds @ arpa v"
  shows "reverse_zone_network name =
    Inr (Some \<lparr>version = v, network_address = from_digits (2 ^ label_bits v) (replicate (total_labels v - length ds) 0 @ ds),
      prefixlen = label_bits v * length ds\<rparr>)"
proof -
  show ?thesis
  proof (cases v)
    case V4
    let ?os = "rev ds @ replicate (4 - length ds) 0"
    have os: "length ?os = 4" "list_all (\<lambda>d. d < 256) ?os" using assms V4 by (auto simp: list_all_iff)
    have "rev (map (label_text V4) ds) @ replicate (4 - length ds) ''0'' = map nat_digits ?os" by (simp add: rev_map map_replicate_const)
    then have "ipv4_address (py_join ''.'' (rev (map (label_text V4) ds) @ replicate (4 - length ds) ''0'')) =
      Some (from_digits 256 (replicate (4 - length ds) 0 @ ds))" using octets_read [OF os] by simp
    moreover have "list_all octet_ok (rev (map (label_text V4) ds))"
      using assms(3) V4 nat_digits_hd nat_digits_digits digits_val_nat_digits by (auto simp: list_all_iff octet_ok_def)
    ultimately show ?thesis using assms(1,2) V4 unfolding reverse_zone_network_def labels by (simp add: Let_def)
  next
    case V6
    let ?os = "rev ds @ replicate (32 - length ds) 0"
    have os: "length ?os = 32" "list_all (\<lambda>d. d < 16) ?os" using assms V6 by (auto simp: list_all_iff)
    have "hex_digit 0 = CHR ''0''" by code_simp
    then have "concat (rev (map (label_text V6) ds)) @ replicate (32 - length (concat (rev (map (label_text V6) ds)))) CHR ''0'' =
      map hex_digit ?os" unfolding concat_nibbles by (simp add: map_replicate_const)
    then have "ipv6_address (colon_groups (concat (rev (map (label_text V6) ds)) @
        replicate (32 - length (concat (rev (map (label_text V6) ds)))) CHR ''0'')) =
      Some (from_digits 16 (replicate (32 - length ds) 0 @ ds))" using nibbles_read [OF os] by simp
    moreover have "list_all (\<lambda>n. length n = 1 \<and> lower_hex (hd n)) (rev (map (label_text V6) ds))"
      using assms(3) V6 hex_chars(1) by (auto simp: list_all_iff)
    ultimately show ?thesis using assms(1,2) V6 unfolding reverse_zone_network_def labels by (simp add: Let_def)
  qed
qed

text \<open>A network a reverse zone can stand for: its prefix ends on a label, and there is a label.\<close>

definition zone_net :: "ipnet \<Rightarrow> bool" where
  "zone_net n \<longleftrightarrow> wf_net n \<and> label_bits (version n) dvd prefixlen n \<and> 0 < prefixlen n \<and> (version n = V4 \<longrightarrow> prefixlen n \<le> 24)"

lemma bits_total: "label_bits v * total_labels v = max_prefixlen v"
  by (cases v) simp_all

lemma zone_net_labels:
  assumes "zone_net n"
  shows "prefixlen n = label_bits (version n) * (prefixlen n div label_bits (version n))"
    "1 \<le> prefixlen n div label_bits (version n)" "prefixlen n div label_bits (version n) \<le> total_labels (version n)"
    "prefixlen n div label_bits (version n) \<le> (case version n of V4 \<Rightarrow> 3 | V6 \<Rightarrow> 32)"
    "num_addresses n = (2 ^ label_bits (version n)) ^ (total_labels (version n) - prefixlen n div label_bits (version n))"
    "network_address n < (2 ^ label_bits (version n)) ^ total_labels (version n)"
proof -
  let ?v = "version n"
  obtain k where k: "prefixlen n = label_bits ?v * k" using assms unfolding zone_net_def by (elim conjE dvdE)
  have "0 < label_bits ?v" by (cases ?v) simp_all
  then have div: "prefixlen n div label_bits ?v = k" using k by simp
  have kt: "1 \<le> k" "k \<le> total_labels ?v" "k \<le> (case ?v of V4 \<Rightarrow> 3 | V6 \<Rightarrow> 32)"
    using assms k by (cases ?v; auto simp: zone_net_def wf_net_def)+
  then show "prefixlen n = label_bits (version n) * (prefixlen n div label_bits (version n))"
    "1 \<le> prefixlen n div label_bits (version n)" "prefixlen n div label_bits (version n) \<le> total_labels (version n)"
    "prefixlen n div label_bits (version n) \<le> (case version n of V4 \<Rightarrow> 3 | V6 \<Rightarrow> 32)" unfolding div using k by simp_all
  show "num_addresses n = (2 ^ label_bits ?v) ^ (total_labels ?v - prefixlen n div label_bits ?v)"
    unfolding div by (simp add: num_addresses_def k bits_total [symmetric] right_diff_distrib' flip: power_mult)
  show "network_address n < (2 ^ label_bits ?v) ^ total_labels ?v"
    using assms by (simp add: zone_net_def wf_net_def bits_total flip: power_mult)
qed

definition zone_digits :: "ipnet \<Rightarrow> nat list" where
  "zone_digits n = drop (total_labels (version n) - prefixlen n div label_bits (version n))
     (label_digits (version n) (network_address n))"

lemma zone_digits_less: "list_all (\<lambda>d. d < 2 ^ label_bits (version n)) (zone_digits n)"
  by (simp add: zone_digits_def label_digits_def drop_map list_all_iff)

lemma zone_name_network:
  assumes "zone_net n"
  shows "reverse_zone_network (zone_name n) = Inr (Some n)"
proof -
  let ?v = "version n"
  let ?b = "2 ^ label_bits ?v :: nat" and ?t = "total_labels ?v" and ?k = "prefixlen n div label_bits ?v"
  note z = zone_net_labels [OF assms]
  have len: "length (zone_digits n) = ?k" using z(3) by (simp add: zone_digits_def)
  have "?b ^ (?t - ?k) dvd network_address n" using assms z(5) unfolding zone_net_def wf_net_def by simp
  then have "from_digits ?b (replicate (?t - ?k) 0 @ zone_digits n) = network_address n"
    using from_digits_div [OF z(6), of "?t - ?k"]
    by (simp add: from_digits_append from_digits_zeros zone_digits_def label_digits_def drop_map)
  moreover have "zone_name n = py_join ''.'' (map (label_text ?v) (zone_digits n) @ arpa ?v) @ ''.''"
    unfolding zone_name_labels zone_digits_def ..
  ultimately show ?thesis
    using network_of_labels [OF _ _ zone_digits_less name_labels [OF _ labels_plain [OF zone_digits_less]]] len z(1,2,4) by simp
qed

section \<open>Pointers and zones\<close>

lemma split_append_sep: "split_char d acc (x @ d # y) = split_char d acc x @ py_split d y"
  by (induction x arbitrary: acc) auto

lemma endswith_iff: "py_endswith s p \<longleftrightarrow> (\<exists>x. s = x @ p)"
proof
  assume "py_endswith s p"
  then have "rev s = rev p @ drop (length p) (rev s)" unfolding py_endswith_def by (metis append_take_drop_id)
  then show "\<exists>x. s = x @ p" by (metis rev_append rev_rev_ident)
qed (auto simp: py_endswith_def)

lemma rstrip_id: "s = [] \<or> last s \<noteq> CHR ''.'' \<Longrightarrow> py_rstrip_char CHR ''.'' s = s"
proof -
  assume "s = [] \<or> last s \<noteq> CHR ''.''"
  then have "dropWhile (\<lambda>x. x = CHR ''.'') (rev s) = rev s" by (auto simp: dropWhile_eq_self_iff hd_rev)
  then show ?thesis by (simp add: py_rstrip_char_def)
qed

lemma join_append: "xs \<noteq> [] \<Longrightarrow> ys \<noteq> [] \<Longrightarrow> py_join d (xs @ ys) = py_join d xs @ d @ py_join d ys"
proof (induction xs rule: induct_list012)
  case (2 x)
  then show ?case by (cases ys) auto
qed auto

text \<open>A name covers an address when the pointer is the name, or a text, a dot and the name.\<close>

lemma covers_cases:
  assumes "covers va name"
  obtains "reverse_pointer va = py_rstrip_char CHR ''.'' name"
  | x where "reverse_pointer va = x @ CHR ''.'' # py_rstrip_char CHR ''.'' name"
  using assms by (auto simp: covers_def Let_def endswith_iff)

lemma pointer_plain: "list_all plain_label (map (label_text v) (label_digits v a) @ arpa v)"
  by (rule labels_plain [OF label_digits_less])

lemma covers_labels:
  assumes "zs \<noteq> []" "list_all plain_label zs"
  shows "covers (v, a) (py_join ''.'' zs @ ''.'') \<longleftrightarrow> (\<exists>xs. map (label_text v) (label_digits v a) @ arpa v = xs @ zs)"
proof
  have strip: "py_rstrip_char CHR ''.'' (py_join ''.'' zs @ ''.'') = py_join ''.'' zs"
    using rstrip_id [of "py_join ''.'' zs"] join_plain(3) [OF assms] by (simp add: py_rstrip_char_def)
  note sz = split_join_dots [OF assms]
  show "\<exists>xs. map (label_text v) (label_digits v a) @ arpa v = xs @ zs" if "covers (v, a) (py_join ''.'' zs @ ''.'')"
    using that
  proof (cases rule: covers_cases)
    case 1
    then show ?thesis using pointer_labels [of v a] sz unfolding strip by simp
  next
    case (2 x)
    then have "map (label_text v) (label_digits v a) @ arpa v = py_split CHR ''.'' x @ zs"
      using pointer_labels [of v a] sz split_append_sep [of "CHR ''.''" "[]" x "py_join ''.'' zs"] unfolding strip by simp
    then show ?thesis by blast
  qed
  show "covers (v, a) (py_join ''.'' zs @ ''.'')" if xs: "\<exists>xs. map (label_text v) (label_digits v a) @ arpa v = xs @ zs"
  proof -
    from xs obtain xs where p: "reverse_pointer (v, a) = py_join ''.'' (xs @ zs)" by (auto simp: reverse_pointer_def)
    show ?thesis
    proof (cases "xs = []")
      case True
      then show ?thesis using p by (simp add: covers_def strip Let_def)
    next
      case False
      then show ?thesis using p join_append [OF False assms(1)] by (auto simp: covers_def strip Let_def endswith_iff)
    qed
  qed
qed

lemma label_text_inject:
  assumes "c < 2 ^ label_bits v" "d < 2 ^ label_bits v" "label_text v c = label_text v d"
  shows "c = d"
proof (cases v)
  case V4
  then have "digits_val (nat_digits c) 0 = digits_val (nat_digits d) 0" using assms(3) by simp
  then show ?thesis unfolding digits_val_nat_digits .
next
  case V6
  then have "hex_val (hex_digit c) = hex_val (hex_digit d)" using assms(3) by simp
  then show ?thesis using assms(1,2) V6 by simp
qed

lemma high_digits_eq:
  fixes a b c :: nat
  assumes "a < b ^ t" "c < b ^ t" "m \<le> t"
  shows "map (\<lambda>k. a div b ^ k mod b) [m ..< t] = map (\<lambda>k. c div b ^ k mod b) [m ..< t] \<longleftrightarrow> a div b ^ m = c div b ^ m"
proof
  assume "map (\<lambda>k. a div b ^ k mod b) [m ..< t] = map (\<lambda>k. c div b ^ k mod b) [m ..< t]"
  then show "a div b ^ m = c div b ^ m" using from_digits_div [OF assms(1,3)] from_digits_div [OF assms(2,3)] by metis
next
  assume eq: "a div b ^ m = c div b ^ m"
  have "x div b ^ k = x div b ^ m div b ^ (k - m)" if "m \<le> k" for x k :: nat
    using that by (simp add: div_mult2_eq [symmetric] flip: power_add)
  then have "a div b ^ k = c div b ^ k" if "m \<le> k" for k using eq that by presburger
  then show "map (\<lambda>k. a div b ^ k mod b) [m ..< t] = map (\<lambda>k. c div b ^ k mod b) [m ..< t]" by (intro map_cong refl) simp
qed


lemma arpa_suffix:
  assumes "ls @ arpa v = ls' @ arpa w"
  shows "v = w \<and> ls = ls'"
proof -
  have "arpa v = arpa w" "ls = ls'" using assms append_eq_append_conv [of ls ls' "arpa v" "arpa w"] by simp_all
  then show ?thesis by (cases v; cases w) auto
qed

lemma suffix_of_pointer:
  assumes "zone_net n"
  shows "(\<exists>xs. map (label_text (version n)) (label_digits (version n) a) = xs @ map (label_text (version n)) (zone_digits n)) \<longleftrightarrow>
    drop (total_labels (version n) - prefixlen n div label_bits (version n)) (label_digits (version n) a) = zone_digits n"
proof
  let ?w = "version n"
  let ?D = "label_digits ?w a" and ?t = "total_labels ?w" and ?k = "prefixlen n div label_bits ?w"
  assume "\<exists>xs. map (label_text ?w) ?D = xs @ map (label_text ?w) (zone_digits n)"
  then obtain xs where xs: "map (label_text ?w) ?D = xs @ map (label_text ?w) (zone_digits n)" by blast
  have "length xs = ?t - ?k" using arg_cong [OF xs, of length] zone_net_labels(3) [OF assms] by (simp add: zone_digits_def)
  then have "map (label_text ?w) (drop (?t - ?k) ?D) = map (label_text ?w) (zone_digits n)"
    using arg_cong [OF xs, of "drop (?t - ?k)"] by (simp add: drop_map)
  moreover have "inj_on (label_text ?w) (set (drop (?t - ?k) ?D) \<union> set (zone_digits n))"
    using label_text_inject zone_digits_less [of n] label_digits_less [of ?w a] set_drop_subset [of "?t - ?k" ?D]
    unfolding inj_on_def list_all_iff by blast
  ultimately show "drop (?t - ?k) ?D = zone_digits n" by (simp add: inj_on_map_eq_map)
next
  let ?w = "version n"
  let ?D = "label_digits ?w a" and ?m = "total_labels ?w - prefixlen n div label_bits ?w"
  assume "drop ?m ?D = zone_digits n"
  then show "\<exists>xs. map (label_text ?w) ?D = xs @ map (label_text ?w) (zone_digits n)"
    by (metis append_take_drop_id map_append)
qed

lemma covers_zone_name:
  assumes "zone_net n" "a < 2 ^ max_prefixlen v"
  shows "covers (v, a) (zone_name n) \<longleftrightarrow> (v, a) \<in> addresses n"
proof -
  let ?w = "version n"
  let ?b = "2 ^ label_bits ?w :: nat" and ?t = "total_labels ?w" and ?k = "prefixlen n div label_bits ?w"
  let ?Z = "map (label_text ?w) (zone_digits n)"
  note z = zone_net_labels [OF assms(1)]
  have "zone_name n = py_join ''.'' (?Z @ arpa ?w) @ ''.''" unfolding zone_name_labels zone_digits_def ..
  then have "covers (v, a) (zone_name n) \<longleftrightarrow> (\<exists>xs. map (label_text v) (label_digits v a) @ arpa v = xs @ ?Z @ arpa ?w)"
    using covers_labels [of "?Z @ arpa ?w"] labels_plain [OF zone_digits_less] by simp
  also have "\<dots> \<longleftrightarrow> v = ?w \<and> (\<exists>xs. map (label_text ?w) (label_digits ?w a) = xs @ ?Z)"
    using arpa_suffix [of "map (label_text v) (label_digits v a)" v "_ @ ?Z" ?w] by auto
  also have "\<dots> \<longleftrightarrow> v = ?w \<and> drop (?t - ?k) (label_digits ?w a) = zone_digits n" using suffix_of_pointer [OF assms(1)] by simp
  also have "\<dots> \<longleftrightarrow> v = ?w \<and> a div num_addresses n = network_address n div num_addresses n"
  proof (cases "v = ?w")
    case True
    then have "a < ?b ^ ?t" using assms(2) by (simp add: bits_total flip: power_mult)
    from high_digits_eq [OF this z(6), of "?t - ?k"] show ?thesis by (simp add: z(5) zone_digits_def label_digits_def drop_map)
  qed simp
  also have "\<dots> \<longleftrightarrow> contains n (v, a)"
  proof -
    have "num_addresses n dvd network_address n" using assms(1) by (simp add: zone_net_def wf_net_def)
    then have "a - a mod num_addresses n = network_address n \<longleftrightarrow> a div num_addresses n = network_address n div num_addresses n"
      by (auto simp: minus_mod_eq_mult_div)
    then show ?thesis by (simp add: contains_def)
  qed
  also have "\<dots> \<longleftrightarrow> (v, a) \<in> addresses n" using assms(1) by (intro contains_iff) (simp add: zone_net_def)
  finally show ?thesis .
qed

section \<open>The owner name of a pointer\<close>

lemma address_of_labels:
  assumes "a < 2 ^ max_prefixlen v"
  shows "from_digits (2 ^ label_bits v) (label_digits v a) = a"
proof -
  have "a < (2 ^ label_bits v) ^ total_labels v" using assms by (simp add: bits_total flip: power_mult)
  from from_digits_div [OF this, of 0] show ?thesis by (simp add: label_digits_def)
qed

text \<open>The text left of the zone in a pointer: no empty label, so it neither is empty nor ends in a dot, and it is not the apex.\<close>

lemma left_labels:
  assumes "reverse_pointer (v, a) = x @ CHR ''.'' # y"
  shows "x \<noteq> []" "last x \<noteq> CHR ''.''" "x \<noteq> ''@''"
proof -
  let ?L = "map (label_text v) (label_digits v a) @ arpa v"
  have sp: "py_split CHR ''.'' x @ py_split CHR ''.'' y = ?L"
    using pointer_labels [of v a] split_append_sep [of "CHR ''.''" "[]" x y] assms by simp
  have plain: "list_all plain_label (py_split CHR ''.'' x)" using pointer_plain [of v a] unfolding sp [symmetric] by simp
  show "x \<noteq> []"
  proof
    assume "x = []"
    then show False using plain by (simp add: plain_label_def)
  qed
  show "last x \<noteq> CHR ''.''"
  proof
    assume "last x = CHR ''.''"
    then have "x = butlast x @ CHR ''.'' # []" using \<open>x \<noteq> []\<close> by (metis append_butlast_last_id)
    then have "[] \<in> set (py_split CHR ''.'' x)" using split_append_sep [of "CHR ''.''" "[]" "butlast x" "[]"]
      by (metis in_set_conv_decomp rev.simps(1) split_char.simps(1))
    then show False using plain by (auto simp: plain_label_def list_all_iff)
  qed
  show "x \<noteq> ''@''"
  proof
    assume "x = ''@''"
    then have "hd ?L = ''@''" unfolding sp [symmetric] by simp
    moreover have "label_digits v a \<noteq> []" by (cases v) (simp_all add: label_digits_def)
    ultimately have "label_text v (hd (label_digits v a)) = ''@''" by (simp add: hd_append hd_map)
    moreover have "hd (label_digits v a) < 2 ^ label_bits v"
      using label_digits_less [of v a] \<open>label_digits v a \<noteq> []\<close> by (simp add: list_all_iff)
    ultimately show False
      using nat_digits_digits [of "hd (label_digits v a)"] hex_val_digit [of "hd (label_digits v a)"]
      by (cases v) (auto simp: is_digit_def hex_val_def)
  qed
qed

lemma pointer_lower: "py_lower (reverse_pointer (v, a)) = reverse_pointer (v, a)"
  using join_plain(1) [OF _ pointer_plain] by (simp add: reverse_pointer_def)

lemma owner_reads_back:
  assumes "a < 2 ^ max_prefixlen v" "(if r \<in> {'''', ''@''} then py_rstrip_char CHR ''.'' z
     else py_rstrip_char CHR ''.'' r @ ''.'' @ py_rstrip_char CHR ''.'' z) = reverse_pointer (v, a)"
  shows "ptr_address r z = Some (v, a)"
proof -
  let ?L = "map (label_text v) (label_digits v a)"
  note p = pointer_lower [of v a] pointer_labels [of v a]
  show ?thesis
  proof (cases v)
    case V4
    have "ipv4_address (py_join ''.'' (map nat_digits (rev (label_digits V4 a)))) = Some (from_digits 256 (label_digits V4 a))"
      using octets_read [of "rev (label_digits V4 a)"] label_digits_less [of V4 a] by (simp add: list_all_iff)
    moreover have "rev (take 4 (?L @ arpa V4)) = map nat_digits (rev (label_digits V4 a))" using V4 by (simp add: rev_map label_digits_def)
    ultimately show ?thesis unfolding ptr_address_def Let_def assms(2) p
      using V4 address_of_labels [OF assms(1)] by (simp add: label_digits_def)
  next
    case V6
    have "ipv6_address (colon_groups (map hex_digit (rev (label_digits V6 a)))) = Some (from_digits 16 (label_digits V6 a))"
      using nibbles_read [of "rev (label_digits V6 a)"] label_digits_less [of V6 a] by (simp add: list_all_iff)
    moreover have "concat (rev (take 32 (?L @ arpa V6))) = map hex_digit (rev (label_digits V6 a))"
      using V6 concat_nibbles [of "label_digits V6 a"] by simp
    ultimately show ?thesis unfolding ptr_address_def Let_def assms(2) p
      using V6 address_of_labels [OF assms(1)] by (simp add: label_digits_def)
  qed
qed

lemma ptr_in_zone:
  assumes "a < 2 ^ max_prefixlen v" "covers (v, a) zname"
  shows "ptr_address (fst (expected_ptr (v, a) hostname zname)) zname = Some (v, a)"
proof (rule owner_reads_back [OF assms(1)])
  let ?z = "py_rstrip_char CHR ''.'' zname"
  show "(if fst (expected_ptr (v, a) hostname zname) \<in> {'''', ''@''} then ?z
     else py_rstrip_char CHR ''.'' (fst (expected_ptr (v, a) hostname zname)) @ ''.'' @ ?z) = reverse_pointer (v, a)"
    using assms(2)
  proof (cases rule: covers_cases)
    case 1
    then show ?thesis by (simp add: expected_ptr_def Let_def)
  next
    case (2 x)
    then have "fst (expected_ptr (v, a) hostname zname) = x" by (auto simp: expected_ptr_def Let_def)
    then show ?thesis using left_labels [OF 2] rstrip_id [of x] 2 by simp
  qed
qed

text \<open>The owner name IPAM gives the pointer of an address, in any stored zone that covers the address, reads back as
  exactly that address.\<close>

theorem expected_ptr_reads_back:
  assumes "a < 2 ^ max_prefixlen v" "covers (v, a) zname"
  shows "ptr_address (fst (expected_ptr (v, a) hostname zname)) zname = Some (v, a)"
  by (rule ptr_in_zone [OF assms])

theorem expected_ptr_reads_back_witness:
  "ptr_address (fst (expected_ptr (V4, 167839249) ''www'' ''1.10.in-addr.arpa.'')) ''1.10.in-addr.arpa.'' = Some (V4, 167839249)"
proof -
  have "covers (V4, 167839249) ''1.10.in-addr.arpa.''" by code_simp
  then show ?thesis by (intro expected_ptr_reads_back) simp
qed

end
