(* ===== verification/Reverse_Owner.thy ===== *)
theory Reverse_Owner
  imports Reverse_Zones
begin

text \<open>
  What the reverse zones of a subnet promise: its pieces cover it and nothing else, a zone name stands for one network, and an
  address's pointer goes into the most specific zone that is not another tenant's.
\<close>

section \<open>Pieces\<close>

lemma unit_facts:
  assumes "prefixlen n \<le> max_prefixlen (version n)"
  shows "label_bits (version n) dvd reverse_unit n" "0 < reverse_unit n" "reverse_unit n \<le> max_prefixlen (version n)"
    "version n = V4 \<Longrightarrow> reverse_unit n \<le> 24" "version n = V4 \<and> 24 < prefixlen n \<or> prefixlen n \<le> reverse_unit n"
    "reverse_unit n - prefixlen n \<le> 8"
proof -
  let ?p = "prefixlen n" and ?u = "reverse_unit n"
  have "label_bits (version n) dvd ?u \<and> 0 < ?u \<and> ?u \<le> max_prefixlen (version n) \<and> (version n = V4 \<longrightarrow> ?u \<le> 24) \<and>
    (version n = V4 \<and> 24 < ?p \<or> ?p \<le> ?u) \<and> ?u - ?p \<le> 8"
  proof (cases "version n")
    case V4
    then show ?thesis by (auto simp: reverse_unit_def)
  next
    case V6
    define q where "q = (?p + 3) div 4"
    have q: "4 * q \<le> ?p + 3" "?p \<le> 4 * q" unfolding q_def by linarith+
    have "q \<le> 32" using assms V6 q by simp
    moreover have "?u = (if q = 0 then 4 else 4 * q)" using V6 by (simp add: reverse_unit_def q_def Let_def)
    ultimately show ?thesis using q V6 by auto
  qed
  then show "label_bits (version n) dvd reverse_unit n" "0 < reverse_unit n" "reverse_unit n \<le> max_prefixlen (version n)"
    "version n = V4 \<Longrightarrow> reverse_unit n \<le> 24" "version n = V4 \<and> 24 < prefixlen n \<or> prefixlen n \<le> reverse_unit n"
    "reverse_unit n - prefixlen n \<le> 8" by blast+
qed

lemma child_self: "child n (prefixlen n) 0 = n"
  by (simp add: child_def)

lemma pieces_children:
  assumes "wf_net n" "\<not> (version n = V4 \<and> 24 < prefixlen n)"
  shows "reverse_zone_pieces n = map (child n (reverse_unit n)) [0 ..< 2 ^ (reverse_unit n - prefixlen n)]"
proof -
  have p: "prefixlen n \<le> max_prefixlen (version n)" using assms(1) by (simp add: wf_net_def)
  have le: "prefixlen n \<le> reverse_unit n" using unit_facts(5) [OF p] assms(2) by blast
  show ?thesis
  proof (cases "prefixlen n = reverse_unit n")
    case True
    then show ?thesis using child_self [of n] by (simp add: reverse_zone_pieces_def Let_def)
  next
    case False
    then have "subnets n (reverse_unit n) = Some (map (child n (reverse_unit n)) [0 ..< 2 ^ (reverse_unit n - prefixlen n)])"
      using le unit_facts(3) [OF p] by (intro subnets_child) simp_all
    then show ?thesis using False le by (simp add: reverse_zone_pieces_def Let_def)
  qed
qed

lemma within_by_start:
  assumes "wf_net n" "wf_net m" "version n = version m" "prefixlen m \<le> prefixlen n" "(version n, network_address n) \<in> addresses m"
  shows "addresses n \<subseteq> addresses m"
proof -
  have "prefixlen n \<le> max_prefixlen (version m)" using assms(1,3) by (simp add: wf_net_def)
  then obtain k where "k < 2 ^ (prefixlen n - prefixlen m)" "n = child m (prefixlen n) k"
    using child_eq_iff [of m "prefixlen n" n] assms broadcast_in(2) [of n] by blast
  then show ?thesis using child_in(2) [of m "prefixlen n" k] assms(2,4) \<open>prefixlen n \<le> max_prefixlen (version m)\<close> by simp
qed

lemma pieces_long:
  assumes "wf_net n" "version n = V4" "24 < prefixlen n"
  shows "reverse_zone_pieces n = [supernet_to 24 n]" "zone_net (supernet_to 24 n)" "prefixlen (supernet_to 24 n) = 24"
    "addresses n \<subseteq> addresses (supernet_to 24 n)"
proof -
  have "reverse_unit n = 24" using assms by (simp add: reverse_unit_def)
  then show "reverse_zone_pieces n = [supernet_to 24 n]" using assms by (simp add: reverse_zone_pieces_def)
  have "ip_network (V4, network_address n, 24) = Some (supernet_to 24 n)"
    using assms by (simp add: supernet_to_def wf_net_def)
  note w = ip_network_wf [OF this]
  then show "zone_net (supernet_to 24 n)" "prefixlen (supernet_to 24 n) = 24" by (simp_all add: zone_net_def)
  show "addresses n \<subseteq> addresses (supernet_to 24 n)" using w assms by (intro within_by_start) simp_all
qed

lemma pieces_zone_nets:
  assumes "wf_net n" "p \<in> set (reverse_zone_pieces n)"
  shows "zone_net p"
proof (cases "version n = V4 \<and> 24 < prefixlen n")
  case True
  then show ?thesis using pieces_long [OF assms(1)] assms(2) by auto
next
  case False
  have le: "prefixlen n \<le> max_prefixlen (version n)" using assms(1) by (simp add: wf_net_def)
  obtain k where k: "k < 2 ^ (reverse_unit n - prefixlen n)" "p = child n (reverse_unit n) k"
    using assms(2) unfolding pieces_children [OF assms(1) False] by auto
  have "prefixlen n \<le> reverse_unit n" using unit_facts(5) [OF le] False by blast
  then have "wf_net p" unfolding k(2) using child_in(1) [OF assms(1) _ unit_facts(3) [OF le] k(1)] by simp
  then show ?thesis using k(2) unit_facts(1,2,4) [OF le] by (simp add: zone_net_def)
qed

lemma pieces_cover:
  assumes "wf_net n" "va \<in> addresses n"
  shows "\<exists>p \<in> set (reverse_zone_pieces n). va \<in> addresses p"
proof (cases "version n = V4 \<and> 24 < prefixlen n")
  case True
  then show ?thesis using pieces_long [OF assms(1)] assms(2) by auto
next
  case False
  have le: "prefixlen n \<le> max_prefixlen (version n)" using assms(1) by (simp add: wf_net_def)
  have "prefixlen n \<le> reverse_unit n" using unit_facts(5) [OF le] False by blast
  then show ?thesis unfolding pieces_children [OF assms(1) False]
    using child_at(1,2) [OF assms(1) _ unit_facts(3) [OF le] assms(2)] by auto
qed

text \<open>C31: the pieces of a subnet never overlap and there are at most 256 of them; together they are exactly the subnet's
  addresses, except for an IPv4 subnet longer than a /24, whose one piece is the /24 around it.\<close>

theorem reverse_pieces_exact:
  assumes "wf_net n"
  shows "length (reverse_zone_pieces n) \<le> 256 \<and>
    (\<forall>i j. i < j \<and> j < length (reverse_zone_pieces n) \<longrightarrow>
       addresses (reverse_zone_pieces n ! i) \<inter> addresses (reverse_zone_pieces n ! j) = {}) \<and>
    (if version n = V4 \<and> 24 < prefixlen n
     then \<exists>p. reverse_zone_pieces n = [p] \<and> prefixlen p = 24 \<and> addresses n \<subseteq> addresses p
     else \<Union> (addresses ` set (reverse_zone_pieces n)) = addresses n)"
proof (cases "version n = V4 \<and> 24 < prefixlen n")
  case True
  then show ?thesis using pieces_long [OF assms] by simp
next
  case False
  let ?u = "reverse_unit n"
  have le: "prefixlen n \<le> max_prefixlen (version n)" using assms by (simp add: wf_net_def)
  note u = unit_facts [OF le]
  have lu: "prefixlen n \<le> ?u" using u(5) False by blast
  note P = pieces_children [OF assms False]
  have "(2 :: nat) ^ (?u - prefixlen n) \<le> 2 ^ 8" using u(6) by (intro power_increasing) simp_all
  then have "length (reverse_zone_pieces n) \<le> 256" by (simp add: P)
  moreover have "addresses (reverse_zone_pieces n ! i) \<inter> addresses (reverse_zone_pieces n ! j) = {}"
    if "i < j" "j < length (reverse_zone_pieces n)" for i j
    using that children_disjoint [OF assms lu u(3), of j i] unfolding P by simp
  moreover have "\<Union> (addresses ` set (reverse_zone_pieces n)) = addresses n"
  proof
    show "\<Union> (addresses ` set (reverse_zone_pieces n)) \<subseteq> addresses n"
      unfolding P using child_in(2) [OF assms lu u(3)] by fastforce
    show "addresses n \<subseteq> \<Union> (addresses ` set (reverse_zone_pieces n))"
      using pieces_cover [OF assms] by fastforce
  qed
  ultimately show ?thesis unfolding if_not_P [OF False] by blast
qed

theorem reverse_pieces_exact_witness:
  "length (reverse_zone_pieces \<lparr>version = V4, network_address = 0, prefixlen = 0\<rparr>) \<le> 256 \<and>
   \<Union> (addresses ` set (reverse_zone_pieces \<lparr>version = V4, network_address = 167839744, prefixlen = 23\<rparr>)) =
     addresses \<lparr>version = V4, network_address = 167839744, prefixlen = 23\<rparr>"
proof -
  have "wf_net \<lparr>version = V4, network_address = 0, prefixlen = 0\<rparr>" "wf_net \<lparr>version = V4, network_address = 167839744, prefixlen = 23\<rparr>"
    by code_simp+
  note t = reverse_pieces_exact [OF this(1)] reverse_pieces_exact [OF this(2)]
  then show ?thesis by simp
qed

text \<open>The name of every zone computed for a subnet stands for exactly the piece it was computed from.\<close>

theorem reverse_zone_names_roundtrip:
  assumes "ip_network column = Some net" "compute_reverse_zone_names column = Some names"
  shows "map reverse_zone_network names = map (\<lambda>p. Inr (Some p)) (reverse_zone_pieces net)"
proof -
  have "wf_net net" using assms(1) ip_network_wf by (metis prod_cases3)
  then have "\<forall>p \<in> set (reverse_zone_pieces net). reverse_zone_network (zone_name p) = Inr (Some p)"
    using pieces_zone_nets zone_name_network by blast
  then show ?thesis using assms by (auto simp: compute_reverse_zone_names_def)
qed

theorem reverse_zone_names_roundtrip_witness:
  "map reverse_zone_network [''4.1.10.in-addr.arpa.'', ''5.1.10.in-addr.arpa.''] =
     map (\<lambda>p. Inr (Some p)) (reverse_zone_pieces \<lparr>version = V4, network_address = 167838720, prefixlen = 23\<rparr>)"
proof (rule reverse_zone_names_roundtrip)
  show "ip_network (V4, 167838727, 23) = Some \<lparr>version = V4, network_address = 167838720, prefixlen = 23\<rparr>" by code_simp
  show "compute_reverse_zone_names (V4, 167838727, 23) = Some [''4.1.10.in-addr.arpa.'', ''5.1.10.in-addr.arpa.'']" by code_simp
qed

section \<open>Names\<close>

lemma digits_canonical: "s \<noteq> [] \<Longrightarrow> list_all is_digit s \<Longrightarrow> \<not> leading_zero s \<Longrightarrow> nat_digits (digits_val s 0) = s"
proof (induction s rule: rev_induct)
  case (snoc c s)
  define d where "d = of_char c - (48 :: nat)"
  have c: "d < 10" "char_of (48 + d) = c" using snoc.prems(2) by (auto simp: is_digit_def d_def)
  show ?case
  proof (cases "s = []")
    case True
    then show ?thesis using c by (subst nat_digits.simps) (simp add: d_def)
  next
    case False
    then have "hd s \<noteq> CHR ''0''" using snoc.prems(3) by (cases s) (auto simp: leading_zero_def)
    then have IH: "nat_digits (digits_val s 0) = s" using snoc False by (simp add: leading_zero_def)
    have "digits_val s 0 \<noteq> 0" using IH \<open>hd s \<noteq> CHR ''0''\<close> by (metis list.sel(1) nat_digits_0)
    moreover have "digits_val (s @ [c]) 0 = 10 * digits_val s 0 + d" by (simp add: digits_val_append d_def)
    ultimately show ?thesis using c IH by (subst nat_digits.simps) simp
  qed
qed simp

lemma lower_hex_digit: "lower_hex c \<Longrightarrow> \<exists>d < 16. c = hex_digit d"
proof -
  have "list_all (\<lambda>c. \<exists>d \<in> set [0 ..< 16]. c = hex_digit d) ''0123456789abcdef''" by code_simp
  then show "lower_hex c \<Longrightarrow> \<exists>d < 16. c = hex_digit d" unfolding lower_hex_def list_all_iff by fastforce
qed

lemma split_nonempty: "split_char d acc s \<noteq> []"
  by (induction s arbitrary: acc) auto

lemma join_split: "py_join [d] (split_char d acc s) = rev acc @ s"
proof (induction s arbitrary: acc)
  case (Cons c s)
  obtain y ys where y: "split_char d [] s = y # ys" using split_nonempty [of d "[]" s] by (cases "split_char d [] s") auto
  show ?case using Cons [of "[]"] Cons [of "c # acc"] y by simp
qed simp

text \<open>The labels an accepted name has.\<close>

lemma accepted_labels:
  assumes "reverse_zone_network name = Inr (Some n)"
  obtains v ds where "1 \<le> length ds" "length ds \<le> (case v of V4 \<Rightarrow> 3 | V6 \<Rightarrow> 32)" "list_all (\<lambda>d. d < 2 ^ label_bits v) ds"
    "py_split CHR ''.'' (py_rstrip_char CHR ''.'' (py_lower name)) = map (label_text v) ds @ arpa v"
proof -
  define labels where "labels = py_split CHR ''.'' (py_rstrip_char CHR ''.'' (py_lower name))"
  define k where "k = length labels - 2"
  note def = assms [unfolded reverse_zone_network_def, folded labels_def, unfolded Let_def, folded k_def]
  have len: "length (take k labels) = k" by (simp add: k_def)
  note that = that [folded labels_def]
  consider "drop k labels = arpa V4" | "drop k labels = arpa V6"
    using def by (cases "drop k labels = arpa V4"; cases "drop k labels = arpa V6") simp_all
  then show ?thesis
  proof cases
    case 1
    let ?f = "rev (take k labels)"
    have f: "1 \<le> k" "k \<le> 3" "list_all octet_ok ?f" using def 1 by (auto split: if_splits)
    then obtain x where x: "ipv4_address (py_join ''.'' (?f @ replicate (4 - k) ''0'')) = Some x"
      using def 1 by (auto split: option.splits)
    have "CHR ''.'' \<notin> set p" if "octet_ok p" for p using that digit_plain [of "CHR ''.''"] by (auto simp: octet_ok_def list_all_iff)
    then have "list_all (\<lambda>p. CHR ''.'' \<notin> set p) (?f @ replicate (4 - k) ''0'')" using f(3) by (auto simp: list_all_iff)
    then have "py_split CHR ''.'' (py_join ''.'' (?f @ replicate (4 - k) ''0'')) = ?f @ replicate (4 - k) ''0''"
      using f(2) by (intro split_char_join) simp_all
    then have "list_all (\<lambda>p. \<not> leading_zero p) (take k labels)" using x
      by (auto simp: ipv4_address_def Let_def list_all_iff split: if_splits)
    then have "map nat_digits (map (\<lambda>p. digits_val p 0) (take k labels)) = take k labels"
      using f(3) digits_canonical by (auto simp: list_all_iff octet_ok_def intro!: map_idI)
    then have lab: "labels = map (label_text V4) (map (\<lambda>p. digits_val p 0) (take k labels)) @ arpa V4"
      using 1 append_take_drop_id [of k labels] by (simp add: comp_def)
    have "list_all (\<lambda>d. d < 2 ^ label_bits V4) (map (\<lambda>p. digits_val p 0) (take k labels))"
      using f(3) by (auto simp: list_all_iff octet_ok_def)
    from that [OF _ _ this lab] show ?thesis using f(1,2) len by simp
  next
    case 2
    let ?f = "take k labels"
    have "drop k labels \<noteq> arpa V4" using 2 by simp
    then have f: "1 \<le> k" "k \<le> 32" "list_all (\<lambda>n. length n = 1 \<and> lower_hex (hd n)) ?f"
      using def 2 by (auto split: if_splits)
    have "\<exists>d < 16. l = [hex_digit d]" if "l \<in> set ?f" for l
      using f(3) that lower_hex_digit [of "hd l"] by (cases l) (auto simp: list_all_iff)
    then have "\<exists>g. \<forall>l \<in> set ?f. g l < 16 \<and> l = [hex_digit (g l)]" by metis
    then obtain g where g: "\<And>l. l \<in> set ?f \<Longrightarrow> g l < 16 \<and> l = [hex_digit (g l)]" by blast
    have "map (label_text V6) (map g ?f) = ?f" using g by (auto intro!: map_idI)
    then have lab: "labels = map (label_text V6) (map g ?f) @ arpa V6" using 2 append_take_drop_id [of k labels] by simp
    have "list_all (\<lambda>d. d < 2 ^ label_bits V6) (map g ?f)" using g by (simp add: list_all_iff)
    from that [OF _ _ this lab] show ?thesis using f(1,2) len by simp
  qed
qed

lemma from_digits_less: "list_all (\<lambda>d. d < b) ds \<Longrightarrow> from_digits b ds < b ^ length ds"
proof (induction ds)
  case (Cons d ds)
  then have "from_digits b ds < b ^ length ds" "d < b" by simp_all
  then have "b * Suc (from_digits b ds) \<le> b * b ^ length ds" by (intro mult_le_mono2) simp
  then show ?case using \<open>d < b\<close> by simp
qed simp

lemma digits_of_from_digits:
  "list_all (\<lambda>d. d < b) ds \<Longrightarrow> map (\<lambda>i. from_digits b ds div b ^ i mod b) [0 ..< length ds] = ds"
proof (induction ds)
  case (Cons d ds)
  then have d: "d < b" "map (\<lambda>i. from_digits b ds div b ^ i mod b) [0 ..< length ds] = ds" by simp_all
  have "from_digits b (d # ds) div b ^ Suc i = from_digits b ds div b ^ i" for i
    using d(1) by (simp add: div_mult2_eq)
  then have "map (\<lambda>i. from_digits b (d # ds) div b ^ i mod b) [Suc 0 ..< Suc (length ds)] = ds"
    using d(2) by (simp add: map_Suc_upt [symmetric] comp_def del: upt_Suc from_digits.simps)
  then show ?case using d(1) by (simp add: upt_conv_Cons del: upt_Suc)
qed simp

lemma labels_zone_net:
  assumes "1 \<le> length ds" "length ds \<le> (case v of V4 \<Rightarrow> 3 | V6 \<Rightarrow> 32)" "list_all (\<lambda>d. d < 2 ^ label_bits v) ds"
    "n = \<lparr>version = v, network_address = from_digits (2 ^ label_bits v) (replicate (total_labels v - length ds) 0 @ ds),
      prefixlen = label_bits v * length ds\<rparr>"
  shows "zone_net n" "zone_digits n = ds"
proof -
  let ?b = "2 ^ label_bits v :: nat" and ?t = "total_labels v" and ?k = "length ds"
  let ?full = "replicate (?t - ?k) 0 @ ds"
  have kt: "?k \<le> ?t" using assms(2) by (cases v) simp_all
  have bits: "0 < label_bits v" by (cases v) simp_all
  have full: "list_all (\<lambda>d. d < ?b) ?full" "length ?full = ?t" using assms(3) kt by (auto simp: list_all_iff)
  have a: "network_address n = ?b ^ (?t - ?k) * from_digits ?b ds" by (simp add: assms(4) from_digits_append from_digits_zeros)
  have "num_addresses n = ?b ^ (?t - ?k)"
    by (simp add: num_addresses_def assms(4) bits_total [symmetric] right_diff_distrib' flip: power_mult)
  moreover have "network_address n < 2 ^ max_prefixlen v"
    using from_digits_less [OF full(1)] full(2) by (simp add: assms(4) bits_total flip: power_mult)
  moreover have "label_bits v * ?k \<le> max_prefixlen v" using kt by (simp flip: bits_total)
  ultimately have "wf_net n" using a by (simp add: wf_net_def assms(4))
  then show "zone_net n" using assms(1,2) bits by (auto simp: zone_net_def assms(4))
  have "label_digits v (network_address n) = ?full"
    using digits_of_from_digits [OF full(1)] full(2) by (simp add: label_digits_def assms(4))
  then show "zone_digits n = ds" using bits by (simp add: zone_digits_def assms(4))
qed

text \<open>C32: a network read from a zone name is a well-formed network whose prefix ends on a label, and the name computed for that
  network is the name read, lower-cased and with one trailing dot: two stored names stand for the same network only if they
  are the same name.\<close>

theorem reverse_zone_network_typed:
  assumes "reverse_zone_network name = Inr (Some n)"
  shows "zone_net n \<and> zone_name n = py_rstrip_char CHR ''.'' (py_lower name) @ ''.''"
  using assms
proof (cases rule: accepted_labels)
  case (1 v ds)
  let ?n = "\<lparr>version = v, network_address = from_digits (2 ^ label_bits v) (replicate (total_labels v - length ds) 0 @ ds),
      prefixlen = label_bits v * length ds\<rparr>"
  have n: "n = ?n" using network_of_labels [OF 1] assms by simp
  note z = labels_zone_net [OF 1(1-3) n]
  have "zone_name n = py_join ''.'' (map (label_text v) ds @ arpa v) @ ''.''"
    unfolding zone_name_labels z(2) [unfolded zone_digits_def] by (simp add: n)
  also have "\<dots> = py_rstrip_char CHR ''.'' (py_lower name) @ ''.''"
    unfolding 1(4) [symmetric] by (simp add: join_split)
  finally show ?thesis using z(1) by simp
qed

theorem reverse_zone_network_typed_witness:
  "reverse_zone_network ''4.1.10.In-Addr.ARPA'' = Inr (Some \<lparr>version = V4, network_address = 167838720, prefixlen = 24\<rparr>) \<and>
   zone_name \<lparr>version = V4, network_address = 167838720, prefixlen = 24\<rparr> = ''4.1.10.in-addr.arpa.''"
proof -
  have r: "reverse_zone_network ''4.1.10.In-Addr.ARPA'' = Inr (Some \<lparr>version = V4, network_address = 167838720, prefixlen = 24\<rparr>)"
    by code_simp
  have "py_rstrip_char CHR ''.'' (py_lower ''4.1.10.In-Addr.ARPA'') @ ''.'' = ''4.1.10.in-addr.arpa.''" by code_simp
  then show ?thesis using r reverse_zone_network_typed [OF r] by simp
qed

section \<open>Picking a zone\<close>

text \<open>The candidates that take part for an address.\<close>

definition takes_part :: "rev_subnet \<Rightarrow> ip_version \<times> nat \<Rightarrow> reverse_candidate \<Rightarrow> bool" where
  "takes_part subnet addr c \<longleftrightarrow> (own_zone subnet (rc_zone c) \<or> rc_in_group c) \<and> covers addr (rz_name (rc_zone c)) \<and>
     \<not> cross_space subnet c"

lemma pick_loop_best:
  "case pick_loop subnet addr best cs of
     None \<Rightarrow> best = None \<and> (\<forall>c \<in> set cs. \<not> takes_part subnet addr c)
   | Some z \<Rightarrow> (best = Some z \<or> (\<exists>c \<in> set cs. takes_part subnet addr c \<and> rc_zone c = z)) \<and>
       (\<forall>c \<in> set cs. takes_part subnet addr c \<longrightarrow> reverse_owner_key (rc_zone c) \<le> reverse_owner_key z) \<and>
       (\<forall>b. best = Some b \<longrightarrow> reverse_owner_key b \<le> reverse_owner_key z)"
proof (induction cs arbitrary: best)
  case Nil
  then show ?case by (cases best) auto
next
  case (Cons c cs)
  let ?z = "rc_zone c"
  show ?case
  proof (cases "takes_part subnet addr c")
    case False
    then have "pick_loop subnet addr best (c # cs) = pick_loop subnet addr best cs" by (auto simp: takes_part_def Let_def)
    then show ?thesis using Cons [of best] False by (auto split: option.splits)
  next
    case True
    define b' where "b' = (case best of None \<Rightarrow> ?z | Some b \<Rightarrow> if reverse_owner_key b < reverse_owner_key ?z then ?z else b)"
    have step: "pick_loop subnet addr best (c # cs) = pick_loop subnet addr (Some b') cs"
      using True by (auto simp: takes_part_def b'_def Let_def split: option.splits)
    have b': "b' = ?z \<or> best = Some b'" "reverse_owner_key ?z \<le> reverse_owner_key b'"
      "best = Some b \<Longrightarrow> reverse_owner_key b \<le> reverse_owner_key b'" for b
      by (auto simp: b'_def split: option.splits)
    obtain z where z: "pick_loop subnet addr (Some b') cs = Some z" using Cons [of "Some b'"] by (cases "pick_loop subnet addr (Some b') cs") auto
    note IH = Cons [of "Some b'", unfolded z, simplified]
    show ?thesis unfolding step z using IH b' True by (auto intro: order_trans)
  qed
qed

lemma pick_Some:
  assumes "pick_reverse_zone subnet addr cs = Some z"
  shows "\<exists>c \<in> set cs. takes_part subnet addr c \<and> rc_zone c = z" "ipam_authors_zone z"
    "c \<in> set cs \<Longrightarrow> takes_part subnet addr c \<Longrightarrow> reverse_owner_key (rc_zone c) \<le> reverse_owner_key z"
proof -
  have l: "pick_loop subnet addr None cs = Some z" and p: "ipam_authors_zone z"
    using assms by (auto simp: pick_reverse_zone_def split: option.splits if_splits)
  note b = pick_loop_best [where subnet = subnet and addr = addr and best = None and cs = cs, unfolded l, simplified]
  show "\<exists>c \<in> set cs. takes_part subnet addr c \<and> rc_zone c = z" using b by blast
  show "ipam_authors_zone z" by (rule p)
  show "reverse_owner_key (rc_zone c) \<le> reverse_owner_key z" if "c \<in> set cs" "takes_part subnet addr c" using b that by blast
qed

lemma pick_None:
  assumes "pick_reverse_zone subnet addr cs = None" "c \<in> set cs" "takes_part subnet addr c"
  shows "\<exists>d \<in> set cs. takes_part subnet addr d \<and> \<not> ipam_authors_zone (rc_zone d) \<and>
    reverse_owner_key (rc_zone c) \<le> reverse_owner_key (rc_zone d)"
proof (cases "pick_loop subnet addr None cs")
  case None
  then show ?thesis using pick_loop_best [where subnet = subnet and addr = addr and best = None and cs = cs] assms(2,3) by auto
next
  case (Some z)
  then have "\<not> ipam_authors_zone z" using assms(1) by (auto simp: pick_reverse_zone_def split: if_splits)
  then show ?thesis using pick_loop_best [where subnet = subnet and addr = addr and best = None and cs = cs, unfolded Some, simplified] assms(2,3) by blast
qed

text \<open>C30: the zone picked for an address is a primary zone covering it, it is the subnet's own or its group's and, unless it is
  the subnet's own, not linked to an overlapping subnet of another space; and no zone that takes part is more specific. When no
  zone is picked although one takes part, a zone at least as specific that IPAM does not author owns the name.\<close>

theorem pick_reverse_zone_safe:
  "case pick_reverse_zone subnet addr cs of
     Some z \<Rightarrow> (\<exists>c \<in> set cs. rc_zone c = z \<and> covers addr (rz_name z) \<and> rz_zone_type z = ''primary'' \<and>
         (own_zone subnet z \<or> rc_in_group c \<and> (rc_linked_space_id c \<in> {None, Some (rs_space_id subnet)} \<or>
           \<not> cidrs_overlap (rc_linked_network c) (Some (rs_network subnet))))) \<and>
       (\<forall>c \<in> set cs. takes_part subnet addr c \<longrightarrow> reverse_owner_key (rc_zone c) \<le> reverse_owner_key z)
   | None \<Rightarrow> \<forall>c \<in> set cs. takes_part subnet addr c \<longrightarrow>
       (\<exists>d \<in> set cs. takes_part subnet addr d \<and> rz_zone_type (rc_zone d) \<noteq> ''primary'' \<and>
          reverse_owner_key (rc_zone c) \<le> reverse_owner_key (rc_zone d))"
proof (cases "pick_reverse_zone subnet addr cs")
  case None
  then show ?thesis using pick_None unfolding ipam_authors_zone_def by simp
next
  case (Some z)
  note p = pick_Some [OF this]
  obtain c where c: "c \<in> set cs" "takes_part subnet addr c" "rc_zone c = z" using p(1) by blast
  then have "covers addr (rz_name z) \<and> rz_zone_type z = ''primary'' \<and> (own_zone subnet z \<or> rc_in_group c \<and>
      (rc_linked_space_id c \<in> {None, Some (rs_space_id subnet)} \<or> \<not> cidrs_overlap (rc_linked_network c) (Some (rs_network subnet))))"
    using p(2) by (auto simp: takes_part_def cross_space_def ipam_authors_zone_def)
  then show ?thesis using Some c p(3) by (simp only: option.case) blast
qed

definition sample_subnet :: rev_subnet where
  "sample_subnet = \<lparr>rs_id = ''s'', rs_space_id = ''sp'', rs_network = (V4, 167837696, 16)\<rparr>"

definition sample_zone :: "uuid \<Rightarrow> string \<Rightarrow> reverse_candidate" where
  "sample_zone i name = \<lparr>rc_zone = \<lparr>rz_id = i, rz_name = name, rz_zone_type = ''primary'', rz_kind = ''reverse'',
     rz_linked_subnet_id = Some ''s''\<rparr>, rc_linked_space_id = Some ''sp'', rc_linked_network = Some (V4, 167837696, 16), rc_in_group = True\<rparr>"

theorem pick_reverse_zone_safe_witness:
  "pick_reverse_zone sample_subnet (V4, 167837953) [sample_zone ''z'' ''1.10.in-addr.arpa.''] =
     Some (rc_zone (sample_zone ''z'' ''1.10.in-addr.arpa.'')) \<and>
   covers (V4, 167837953) ''1.10.in-addr.arpa.''"
proof -
  have "pick_reverse_zone sample_subnet (V4, 167837953) [sample_zone ''z'' ''1.10.in-addr.arpa.''] =
     Some (rc_zone (sample_zone ''z'' ''1.10.in-addr.arpa.''))" by code_simp
  then show ?thesis using pick_reverse_zone_safe [where subnet = sample_subnet and addr = "(V4, 167837953)" and cs = "[sample_zone ''z'' ''1.10.in-addr.arpa.'']"]
    by (simp add: sample_zone_def)
qed

section \<open>A subnet and its zones\<close>

text \<open>Once every piece of a subnet has its own zone, the pointer of every address of the subnet is written: into a primary zone that
  covers the address and is at least as specific as the zone of the address's piece, under an owner name that reads back as the
  address, provided IPAM authors the candidate zones.\<close>

lemma pointers_written:
  assumes "ip_network (rs_network subnet) = Some net" "(v, a) \<in> addresses net"
    "\<forall>p \<in> set (reverse_zone_pieces net). \<exists>c \<in> set cs. own_zone subnet (rc_zone c) \<and> rz_name (rc_zone c) = zone_name p"
    "\<forall>c \<in> set cs. ipam_authors_zone (rc_zone c)"
  shows "\<exists>z p. pick_reverse_zone subnet (v, a) cs = Some z \<and> p \<in> set (reverse_zone_pieces net) \<and> (v, a) \<in> addresses p \<and>
    length (py_rstrip_char CHR ''.'' (zone_name p)) \<le> length (py_rstrip_char CHR ''.'' (rz_name z)) \<and>
    ptr_address (fst (expected_ptr (v, a) hostname (rz_name z))) (rz_name z) = Some (v, a)"
proof -
  have wf: "wf_net net" using assms(1) ip_network_wf by (metis prod_cases3)
  then have fits: "a < 2 ^ max_prefixlen v" using wf_fits [OF wf] assms(2) by (auto simp: addresses_def)
  obtain p where p: "p \<in> set (reverse_zone_pieces net)" "(v, a) \<in> addresses p" using pieces_cover [OF wf assms(2)] by blast
  then have "covers (v, a) (zone_name p)" using covers_zone_name [OF pieces_zone_nets [OF wf p(1)] fits] by simp
  moreover obtain c where c: "c \<in> set cs" "own_zone subnet (rc_zone c)" "rz_name (rc_zone c) = zone_name p" using assms(3) p(1) by blast
  ultimately have t: "takes_part subnet (v, a) c" by (simp add: takes_part_def cross_space_def)
  then obtain z where z: "pick_reverse_zone subnet (v, a) cs = Some z"
    using pick_None [OF _ c(1) t] assms(4) by (cases "pick_reverse_zone subnet (v, a) cs") auto
  have "covers (v, a) (rz_name z)" using pick_Some(1) [OF z] by (auto simp: takes_part_def)
  moreover have "length (py_rstrip_char CHR ''.'' (zone_name p)) \<le> length (py_rstrip_char CHR ''.'' (rz_name z))"
    using pick_Some(3) [OF z c(1) t] c(3) by (auto simp: reverse_owner_key_def)
  ultimately show ?thesis using z p ptr_in_zone [OF fits] by blast
qed

section \<open>The zones a subnet's pointers go into\<close>

text \<open>The listed zones are the winners at the start addresses, each once.\<close>

lemma zones_at_winners:
  "z \<in> set (zones_at subnet cs seen ss) \<Longrightarrow> \<exists>s \<in> set ss. pick_reverse_zone subnet (ip_address_int s) cs = Some z"
  "s \<in> set ss \<Longrightarrow> pick_reverse_zone subnet (ip_address_int s) cs = Some z \<Longrightarrow>
     rz_id z \<in> set seen \<or> rz_id z \<in> rz_id ` set (zones_at subnet cs seen ss)"
  "distinct (map rz_id (zones_at subnet cs seen ss)) \<and> rz_id ` set (zones_at subnet cs seen ss) \<inter> set seen = {}"
proof (induction ss arbitrary: seen)
  case (Cons x ss)
  {
    case 1
    then show ?case using Cons(1) by (fastforce split: option.splits if_splits)
  next
    case 2
    show ?case
    proof (cases "pick_reverse_zone subnet (ip_address_int x) cs")
      case None
      then show ?thesis using 2 Cons(2) [of seen] by auto
    next
      case (Some y)
      then show ?thesis using 2 Cons(2) [of seen] Cons(2) [of "rz_id y # seen"] by (cases "s = x") auto
    qed
  next
    case 3
    show ?case
    proof (cases "pick_reverse_zone subnet (ip_address_int x) cs")
      case None
      then show ?thesis using Cons(3) [of seen] by simp
    next
      case (Some y)
      then show ?thesis using Cons(3) [of seen] Cons(3) [of "rz_id y # seen"] by auto
    qed
  }
qed simp_all

text \<open>The list can miss a zone that takes pointers of the subnet: a /16 subnet whose own zone shares its first address with an
  operator's zone for the first /24. Only the /24's zone is listed, although the pointer of 10.1.1.1 goes into the /16's.\<close>

lemma subnet_reverse_zones_misses:
  "subnet_reverse_zones sample_subnet [sample_zone ''wide'' ''1.10.in-addr.arpa.'', sample_zone ''narrow'' ''0.1.10.in-addr.arpa.''] =
     Inr [rc_zone (sample_zone ''narrow'' ''0.1.10.in-addr.arpa.'')]"
  "pick_reverse_zone sample_subnet (V4, 167837953) [sample_zone ''wide'' ''1.10.in-addr.arpa.'',
     sample_zone ''narrow'' ''0.1.10.in-addr.arpa.''] = Some (rc_zone (sample_zone ''wide'' ''1.10.in-addr.arpa.''))"
  "ip_network (rs_network sample_subnet) = Some \<lparr>version = V4, network_address = 167837696, prefixlen = 16\<rparr>"
  "contains \<lparr>version = V4, network_address = 167837696, prefixlen = 16\<rparr> (V4, 167837953)"
  by code_simp+

text \<open>A name with a leading zero in an octet raises instead of giving no network, and an owner name with one two-character
  label is read as a full pointer.\<close>

lemma leading_zero_raises: "reverse_zone_network ''010.in-addr.arpa.'' = Inl ''ValueError''"
  by code_simp

lemma long_label_read: "ptr_address ''10'' (py_join ''.'' (replicate 31 ''0'' @ arpa V6)) = Some (V6, 1)"
  by code_simp

end
