(* ===== verification/Reverse_Lifecycle.thy ===== *)
theory Reverse_Lifecycle
  imports Reverse_Owner
begin

text \<open>
  The life of the reverse zones IPAM creates (\<^verbatim>\<open>services/dns/reverse_zone.py\<close>): the group they go into, their creation with
  a subnet, and what becomes of them when the subnet is deleted. The tables hold live rows and rows in the Trash; an ordinary query
  sees the live ones.
\<close>

section \<open>Tables\<close>

record zone_row =
  zr_zone :: rev_zone
  zr_group_id :: uuid
  zr_auto :: bool
  zr_deleted_at :: "datetime option"
  zr_deleted_by :: "uuid option"
  zr_batch :: "uuid option"

text \<open>The DNS settings of a subnet, a block or a space.\<close>

record dns_settings =
  dns_inherit :: bool
  dns_zone_id :: "string option"
  dns_group_ids :: "string list"

record subnet_row =
  sr_subnet :: rev_subnet
  sr_dns :: dns_settings
  sr_block_id :: uuid
  sr_skip_reverse_zone :: bool
  sr_deleted_at :: "datetime option"
  sr_deleted_by :: "uuid option"
  sr_batch :: "uuid option"

record ptr_row =
  pt_id :: uuid
  pt_zone_id :: uuid
  pt_auto :: bool
  pt_address_id :: "uuid option"
  pt_deleted_at :: "datetime option"
  pt_deleted_by :: "uuid option"
  pt_batch :: "uuid option"

record rev_block =
  rb_id :: uuid
  rb_space_id :: uuid
  rb_parent :: "uuid option"
  rb_dns :: dns_settings

record rev_group =
  rg_id :: uuid
  rg_auto_at_provider :: bool
  rg_drivers :: "string list"

text \<open>The effects next to the tables: audit rows (zone and its name), zones to be pushed to agentless servers, groups to wake, and
  zones whose queued operations were discarded.\<close>

record rev_db =
  rd_zones :: "zone_row list"
  rd_subnets :: "subnet_row list"
  rd_records :: "ptr_row list"
  rd_addresses :: "(uuid \<times> uuid) list"
  rd_blocks :: "rev_block list"
  rd_spaces :: "(uuid \<times> dns_settings) list"
  rd_groups :: "rev_group list"
  rd_audit :: "(uuid \<times> string) list"
  rd_provision :: "uuid list"
  rd_wake :: "uuid list"
  rd_swept :: "uuid list"

abbreviation zr_id :: "zone_row \<Rightarrow> uuid" where "zr_id z \<equiv> rz_id (zr_zone z)"
abbreviation zr_name :: "zone_row \<Rightarrow> string" where "zr_name z \<equiv> rz_name (zr_zone z)"
abbreviation zr_linked :: "zone_row \<Rightarrow> uuid option" where "zr_linked z \<equiv> rz_linked_subnet_id (zr_zone z)"
abbreviation sr_id :: "subnet_row \<Rightarrow> uuid" where "sr_id s \<equiv> rs_id (sr_subnet s)"

definition live_zones :: "rev_db \<Rightarrow> zone_row list" where
  "live_zones d = filter (\<lambda>z. zr_deleted_at z = None) (rd_zones d)"

definition live_subnets :: "rev_db \<Rightarrow> subnet_row list" where
  "live_subnets d = filter (\<lambda>s. sr_deleted_at s = None) (rd_subnets d)"

definition get_zone :: "rev_db \<Rightarrow> uuid \<Rightarrow> zone_row option" where
  "get_zone d i = find (\<lambda>z. zr_id z = i) (live_zones d)"

definition put_zone :: "zone_row \<Rightarrow> rev_db \<Rightarrow> rev_db" where
  "put_zone z d = d\<lparr>rd_zones := map (\<lambda>y. if zr_id y = zr_id z then z else y) (rd_zones d)\<rparr>"

definition link_to :: "uuid \<Rightarrow> zone_row \<Rightarrow> zone_row" where
  "link_to i z = z\<lparr>zr_zone := (zr_zone z)\<lparr>rz_linked_subnet_id := Some i\<rparr>\<rparr>"

section \<open>The group\<close>

text \<open>\<open>uuid.UUID(str(raw))\<close> is the argument \<open>parse\<close>. The walk up the blocks has no guard against a cycle, so that it may not return.\<close>

definition stored_zone_uuid :: "(string \<Rightarrow> uuid option) \<Rightarrow> string option \<Rightarrow> uuid option" where
  "stored_zone_uuid parse v = (case v of None \<Rightarrow> None | Some t \<Rightarrow> if t = [] then None else parse t)"

definition own_dns :: "(string \<Rightarrow> uuid option) \<Rightarrow> dns_settings \<Rightarrow> string list \<times> uuid option" where
  "own_dns parse c = (dns_group_ids c, stored_zone_uuid parse (dns_zone_id c))"

partial_function (option) effective_walk :: "(string \<Rightarrow> uuid option) \<Rightarrow> rev_db \<Rightarrow> rev_block option \<Rightarrow> (string list \<times> uuid option) option" where
  "effective_walk parse d current = (case current of None \<Rightarrow> Some ([], None)
     | Some b \<Rightarrow> if \<not> dns_inherit (rb_dns b) then Some (own_dns parse (rb_dns b))
       else (case rb_parent b of Some p \<Rightarrow> effective_walk parse d (find (\<lambda>c. rb_id c = p) (rd_blocks d))
         | None \<Rightarrow> (case map_of (rd_spaces d) (rb_space_id b) of None \<Rightarrow> Some ([], None) | Some sp \<Rightarrow> Some (own_dns parse sp))))"

declare effective_walk.simps [code]

definition effective_dns :: "(string \<Rightarrow> uuid option) \<Rightarrow> rev_db \<Rightarrow> subnet_row \<Rightarrow> (string list \<times> uuid option) option" where
  "effective_dns parse d s = (if \<not> dns_inherit (sr_dns s) then Some (own_dns parse (sr_dns s))
     else effective_walk parse d (find (\<lambda>c. rb_id c = sr_block_id s) (rd_blocks d)))"

fun first_uuid :: "(string \<Rightarrow> uuid option) \<Rightarrow> string list \<Rightarrow> uuid option" where
  "first_uuid parse [] = None"
| "first_uuid parse (r # rs) = (case parse r of Some i \<Rightarrow> Some i | None \<Rightarrow> first_uuid parse rs)"

definition inherited_dns_group :: "(string \<Rightarrow> uuid option) \<Rightarrow> rev_db \<Rightarrow> subnet_row \<Rightarrow> uuid option option" where
  "inherited_dns_group parse d s = (case effective_dns parse d s of None \<Rightarrow> None
     | Some (groups, zid) \<Rightarrow> Some (case Option.bind zid (get_zone d) of Some z \<Rightarrow> Some (zr_group_id z)
         | None \<Rightarrow> first_uuid parse groups))"

definition resolve_group :: "(string \<Rightarrow> uuid option) \<Rightarrow> rev_db \<Rightarrow> subnet_row \<Rightarrow> uuid option \<Rightarrow> uuid option \<Rightarrow> uuid option option" where
  "resolve_group parse d s dns_group_arg dns_zone_arg = (case dns_group_arg of Some g \<Rightarrow> Some (Some g)
     | None \<Rightarrow> (case Option.bind (if dns_zone_id (sr_dns s) \<in> {None, Some []} then dns_zone_arg else dns_zone_id (sr_dns s)) (get_zone d) of
         Some z \<Rightarrow> Some (Some (zr_group_id z))
       | None \<Rightarrow> (case dns_group_ids (sr_dns s) of
           r # _ \<Rightarrow> (case parse r of Some g \<Rightarrow> Some (Some g) | None \<Rightarrow> inherited_dns_group parse d s)
         | [] \<Rightarrow> inherited_dns_group parse d s)))"

section \<open>Creating the zones of a subnet\<close>

definition CLOUD_DNS_DRIVERS :: "string list" where
  "CLOUD_DNS_DRIVERS = [''cloudflare'', ''route53'', ''azure_dns'', ''google_dns'', ''digitalocean'', ''hetzner'', ''linode'', ''vultr'']"

definition cloud_reverse_optout_driver :: "rev_group \<Rightarrow> string option" where
  "cloud_reverse_optout_driver g = (if rg_auto_at_provider g then None
     else find (\<lambda>dr. dr \<in> set CLOUD_DNS_DRIVERS) (sort (remdups (rg_drivers g))))"

text \<open>One zone of the set. \<open>new_id\<close> draws the id of a new zone. The zone returned is the one stored.\<close>

definition new_zone :: "uuid \<Rightarrow> uuid \<Rightarrow> string \<Rightarrow> uuid \<Rightarrow> zone_row" where
  "new_zone i gid name subnet = \<lparr>zr_zone = \<lparr>rz_id = i, rz_name = name, rz_zone_type = ''primary'', rz_kind = ''reverse'',
     rz_linked_subnet_id = Some subnet\<rparr>, zr_group_id = gid, zr_auto = True, zr_deleted_at = None, zr_deleted_by = None, zr_batch = None\<rparr>"

definition ensure_zone_named :: "rev_db \<Rightarrow> subnet_row \<Rightarrow> uuid \<Rightarrow> string \<Rightarrow> zone_row option \<Rightarrow> uuid \<Rightarrow> rev_db \<times> zone_row option" where
  "ensure_zone_named d s gid name existing fresh = (case existing of
     Some z \<Rightarrow> (if \<not> ipam_authors_zone (zr_zone z) then (d, None)
       else case zr_linked z of None \<Rightarrow> (d, Some z)
         | Some l \<Rightarrow> if l = sr_id s then (d, Some z)
           else (case find (\<lambda>t. sr_id t = l) (live_subnets d) of
               None \<Rightarrow> (let z' = link_to (sr_id s) z in (put_zone z' d, Some z'))
             | Some t \<Rightarrow> if rs_space_id (sr_subnet t) \<noteq> rs_space_id (sr_subnet s) \<and>
                   cidrs_overlap (Some (rs_network (sr_subnet t))) (Some (rs_network (sr_subnet s))) then (d, None)
                 else (d, Some z)))
   | None \<Rightarrow> (let z = new_zone fresh gid name (sr_id s) in
       (d\<lparr>rd_zones := rd_zones d @ [z], rd_provision := rd_provision d @ [fresh], rd_audit := rd_audit d @ [(fresh, name)]\<rparr>, Some z)))"

fun ensure_each :: "rev_db \<Rightarrow> subnet_row \<Rightarrow> uuid \<Rightarrow> (string \<Rightarrow> zone_row option) \<Rightarrow> bool \<Rightarrow> (string \<Rightarrow> uuid) \<Rightarrow> string list \<Rightarrow>
    rev_db \<times> zone_row list" where
  "ensure_each d s gid by_name optout new_id [] = (d, [])"
| "ensure_each d s gid by_name optout new_id (n # ns) =
     (if optout \<and> by_name n = None then ensure_each d s gid by_name optout new_id ns
      else case ensure_zone_named d s gid n (by_name n) (new_id n) of (d', z) \<Rightarrow>
        (case ensure_each d' s gid by_name optout new_id ns of (d'', zs) \<Rightarrow>
           (d'', (case z of Some y \<Rightarrow> [y] | None \<Rightarrow> []) @ zs)))"

definition ensure_reverse_zones_for_subnet :: "(string \<Rightarrow> uuid option) \<Rightarrow> (string \<Rightarrow> uuid) \<Rightarrow> rev_db \<Rightarrow> subnet_row \<Rightarrow>
    uuid option \<Rightarrow> uuid option \<Rightarrow> bool \<Rightarrow> (rev_db \<times> zone_row list) option" where
  "ensure_reverse_zones_for_subnet parse new_id d s dns_group_arg dns_zone_arg honour_opt_out =
     (if honour_opt_out \<and> sr_skip_reverse_zone s then Some (d, [])
      else case resolve_group parse d s dns_group_arg dns_zone_arg of None \<Rightarrow> None
        | Some None \<Rightarrow> Some (d, [])
        | Some (Some gid) \<Rightarrow> (case find (\<lambda>g. rg_id g = gid) (rd_groups d) of None \<Rightarrow> Some (d, [])
            | Some g \<Rightarrow> (case compute_reverse_zone_names (rs_network (sr_subnet s)) of None \<Rightarrow> Some (d, [])
                | Some names \<Rightarrow>
                    (let found = filter (\<lambda>z. zr_group_id z = gid \<and> zr_name z \<in> set names) (live_zones d);
                         by_name = (\<lambda>n. find (\<lambda>z. zr_name z = n) (rev found));
                         optout = (\<exists>n \<in> set names. by_name n = None) \<and> cloud_reverse_optout_driver g \<noteq> None in
                     case ensure_each d s gid by_name optout new_id names of (d', out) \<Rightarrow>
                       Some (if \<exists>z \<in> set out. by_name (zr_name z) = None then d'\<lparr>rd_wake := rd_wake d' @ [gid]\<rparr> else d', out)))))"

section \<open>Retiring them\<close>

text \<open>\<open>network <<= covered\<close> and PostgreSQL's order of networks.\<close>

definition within :: "cidr_column \<Rightarrow> ipnet \<Rightarrow> bool" where
  "within c n = (case ip_network c of None \<Rightarrow> False
     | Some m \<Rightarrow> version m = version n \<and> prefixlen n \<le> prefixlen m \<and> contains n (version m, network_address m))"

definition sharer_key :: "uuid \<Rightarrow> subnet_row \<Rightarrow> bool \<times> nat \<times> nat \<times> nat" where
  "sharer_key space s = (case rs_network (sr_subnet s) of (v, a, p) \<Rightarrow>
     (rs_space_id (sr_subnet s) \<noteq> space, max_prefixlen v, a, p))"

definition surviving_sharer :: "rev_db \<Rightarrow> zone_row \<Rightarrow> subnet_row \<Rightarrow> uuid list \<Rightarrow> string + uuid option" where
  "surviving_sharer d z s exclude = (case reverse_zone_network (zr_name z) of Inl e \<Rightarrow> Inl e
     | Inr None \<Rightarrow> Inr None
     | Inr (Some covered) \<Rightarrow> Inr (case sort_key (sharer_key (rs_space_id (sr_subnet s)))
           (filter (\<lambda>t. sr_id t \<noteq> sr_id s \<and> sr_id t \<notin> set exclude \<and> within (rs_network (sr_subnet t)) covered) (live_subnets d)) of
         [] \<Rightarrow> None | t # _ \<Rightarrow> Some (sr_id t)))"

fun plan_zones :: "rev_db \<Rightarrow> subnet_row \<Rightarrow> uuid list \<Rightarrow> zone_row list \<Rightarrow> string + (zone_row \<times> uuid option) list" where
  "plan_zones d s exclude [] = Inr []"
| "plan_zones d s exclude (z # zs) = (case surviving_sharer d z s exclude of Inl e \<Rightarrow> Inl e
     | Inr v \<Rightarrow> (case plan_zones d s exclude zs of Inl e \<Rightarrow> Inl e | Inr r \<Rightarrow> Inr ((z, v) # r)))"

definition retirement_plan :: "rev_db \<Rightarrow> subnet_row \<Rightarrow> uuid list \<Rightarrow> string + (zone_row \<times> uuid option) list" where
  "retirement_plan d s exclude = plan_zones d s exclude
     (filter (\<lambda>z. zr_linked z = Some (sr_id s) \<and> zr_auto z) (live_zones d))"

text \<open>The trashed subnets whose trashed records sit in the zone under another deletion, and the most recently deleted of them.\<close>

definition shares_trashed :: "rev_db \<Rightarrow> zone_row \<Rightarrow> subnet_row \<Rightarrow> bool" where
  "shares_trashed d z s \<longleftrightarrow> sr_deleted_at s \<noteq> None \<and> sr_batch s \<noteq> None \<and>
     (\<exists>r \<in> set (rd_records d). pt_zone_id r = zr_id z \<and> pt_deleted_at r \<noteq> None \<and> pt_batch r \<noteq> zr_batch z \<and>
        (\<exists>(a, owner) \<in> set (rd_addresses d). pt_address_id r = Some a \<and> owner = sr_id s))"

definition trashed_sharer :: "rev_db \<Rightarrow> zone_row \<Rightarrow> uuid list \<Rightarrow> subnet_row option" where
  "trashed_sharer d z exclude =
     (case sort_key (\<lambda>s. ((case sr_deleted_at s of Some t \<Rightarrow> - t | None \<Rightarrow> 0), sr_id s))
         (filter (\<lambda>s. shares_trashed d z s \<and> sr_id s \<notin> set exclude) (rd_subnets d)) of
       [] \<Rightarrow> None | s # _ \<Rightarrow> Some s)"

definition stamp_record :: "subnet_row \<Rightarrow> ptr_row \<Rightarrow> ptr_row" where
  "stamp_record heir r = r\<lparr>pt_deleted_at := sr_deleted_at heir, pt_deleted_by := sr_deleted_by heir, pt_batch := sr_batch heir\<rparr>"

text \<open>\<open>x IN (...)\<close> is true or unknown: a NULL is in no list, but SQL only knows that of the empty one.\<close>

definition in_or_unknown :: "uuid option \<Rightarrow> uuid list \<Rightarrow> bool" where
  "in_or_unknown x xs = (case x of None \<Rightarrow> xs \<noteq> [] | Some a \<Rightarrow> a \<in> set xs)"

definition rides :: "rev_db \<Rightarrow> zone_row \<Rightarrow> subnet_row \<Rightarrow> ptr_row \<Rightarrow> bool" where
  "rides d z heir r \<longleftrightarrow> pt_zone_id r = zr_id z \<and>
     (if zr_deleted_at z = None then pt_deleted_at r = None
      else if zr_batch z \<noteq> None
      then pt_batch r = zr_batch z \<and>
        \<not> (pt_auto r \<and> in_or_unknown (pt_address_id r) (map fst (filter (\<lambda>(a, owner). owner \<noteq> sr_id heir) (rd_addresses d))))
      else False)"

definition hand_over :: "zone_row \<Rightarrow> subnet_row \<Rightarrow> rev_db \<Rightarrow> rev_db" where
  "hand_over z heir d = put_zone ((link_to (sr_id heir) z)\<lparr>zr_deleted_at := sr_deleted_at heir, zr_deleted_by := sr_deleted_by heir,
       zr_batch := sr_batch heir\<rparr>)
     (d\<lparr>rd_records := map (\<lambda>r. if rides d z heir r then stamp_record heir r else r) (rd_records d)\<rparr>)"

definition hand_over_zone_to_trashed_sharer :: "zone_row \<Rightarrow> uuid list \<Rightarrow> rev_db \<Rightarrow> rev_db \<times> uuid option" where
  "hand_over_zone_to_trashed_sharer z exclude d = (if zr_deleted_at z = None \<or> \<not> zr_auto z then (d, None)
     else case trashed_sharer d z exclude of None \<Rightarrow> (d, None) | Some heir \<Rightarrow> (hand_over z heir d, Some (sr_id heir)))"

text \<open>The result: the tables, the zones put into the batch of a soft deletion, those retired and those re-linked.\<close>

record retirement =
  rt_db :: rev_db
  rt_batch :: "uuid list"
  rt_retired :: "uuid list"
  rt_relinked :: "uuid list"

definition delete_zone :: "zone_row \<Rightarrow> rev_db \<Rightarrow> rev_db" where
  "delete_zone z d = d\<lparr>rd_zones := filter (\<lambda>y. zr_id y \<noteq> zr_id z) (rd_zones d),
     rd_records := filter (\<lambda>r. pt_zone_id r \<noteq> zr_id z) (rd_records d), rd_provision := rd_provision d @ [zr_id z]\<rparr>"

definition retire_one :: "subnet_row \<Rightarrow> bool \<Rightarrow> uuid list \<Rightarrow> zone_row \<Rightarrow> uuid option \<Rightarrow> retirement \<Rightarrow> retirement" where
  "retire_one s soft exclude z survivor t = (case survivor of
     Some i \<Rightarrow> t\<lparr>rt_db := put_zone (link_to i z) (rt_db t), rt_relinked := rt_relinked t @ [zr_id z]\<rparr>
   | None \<Rightarrow>
     (let d = (rt_db t)\<lparr>rd_swept := rd_swept (rt_db t) @ [zr_id z]\<rparr>; woken = (\<lambda>d. d\<lparr>rd_wake := rd_wake d @ [zr_group_id z]\<rparr>) in
      case (if soft then None else trashed_sharer d z (sr_id s # exclude)) of
        Some heir \<Rightarrow> t\<lparr>rt_db := woken (hand_over z heir d), rt_relinked := rt_relinked t @ [zr_id z]\<rparr>
      | None \<Rightarrow> if soft then t\<lparr>rt_db := woken d, rt_batch := rt_batch t @ [zr_id z], rt_retired := rt_retired t @ [zr_id z]\<rparr>
          else t\<lparr>rt_db := woken (delete_zone z d), rt_retired := rt_retired t @ [zr_id z]\<rparr>))"

fun retire_each :: "subnet_row \<Rightarrow> bool \<Rightarrow> uuid list \<Rightarrow> (zone_row \<times> uuid option) list \<Rightarrow> retirement \<Rightarrow> retirement" where
  "retire_each s soft exclude [] t = t"
| "retire_each s soft exclude ((z, v) # plan) t = retire_each s soft exclude plan (retire_one s soft exclude z v t)"

definition retire_auto_reverse_zones :: "rev_db \<Rightarrow> subnet_row \<Rightarrow> bool \<Rightarrow> uuid list \<Rightarrow> string + retirement" where
  "retire_auto_reverse_zones d s soft exclude = (case retirement_plan d s exclude of Inl e \<Rightarrow> Inl e
     | Inr plan \<Rightarrow> Inr (retire_each s soft exclude plan \<lparr>rt_db = d, rt_batch = [], rt_retired = [], rt_relinked = []\<rparr>))"

fun retire_for_batch :: "subnet_row list \<Rightarrow> uuid list \<Rightarrow> rev_db \<Rightarrow> uuid list \<Rightarrow> string + (rev_db \<times> uuid list)" where
  "retire_for_batch [] going d acc = Inr (d, acc)"
| "retire_for_batch (s # ss) going d acc = (case retire_auto_reverse_zones d s True going of Inl e \<Rightarrow> Inl e
     | Inr t \<Rightarrow> retire_for_batch ss going (rt_db t) (acc @ rt_batch t))"

definition retire_auto_reverse_zones_for_batch :: "subnet_row list \<Rightarrow> rev_db \<Rightarrow> string + (rev_db \<times> uuid list)" where
  "retire_auto_reverse_zones_for_batch ss d = retire_for_batch ss (map sr_id ss) d []"

fun preview_zones :: "rev_db \<Rightarrow> uuid list \<Rightarrow> subnet_row list \<Rightarrow> string + uuid list" where
  "preview_zones d going [] = Inr []"
| "preview_zones d going (s # ss) = (case retirement_plan d s going of Inl e \<Rightarrow> Inl e
     | Inr plan \<Rightarrow> (case preview_zones d going ss of Inl e \<Rightarrow> Inl e
         | Inr r \<Rightarrow> Inr (map (\<lambda>(z, _). zr_id z) (filter (\<lambda>(_, v). v = None) plan) @ r)))"

definition add_retiring_reverse_zones :: "subnet_row list \<Rightarrow> rev_db \<Rightarrow> string + uuid list" where
  "add_retiring_reverse_zones ss d = preview_zones d (map sr_id ss) ss"

section \<open>Candidates\<close>

definition reverse_owner_candidate :: "rev_zone \<Rightarrow> bool" where
  "reverse_owner_candidate z \<longleftrightarrow> rz_kind z = ''reverse'' \<or>
     rz_zone_type z \<noteq> ''primary'' \<and> (py_endswith (py_lower (rz_name z)) ''arpa'' \<or> py_endswith (py_lower (rz_name z)) ''arpa.'')"

fun stored_uuid_list :: "(string \<Rightarrow> uuid option) \<Rightarrow> string list \<Rightarrow> uuid list" where
  "stored_uuid_list parse [] = []"
| "stored_uuid_list parse (r # rs) = (case parse r of Some i \<Rightarrow> i # stored_uuid_list parse rs | None \<Rightarrow> stored_uuid_list parse rs)"

definition group_candidate :: "rev_db \<Rightarrow> zone_row \<Rightarrow> reverse_candidate" where
  "group_candidate d z = (let l = Option.bind (zr_linked z) (\<lambda>i. find (\<lambda>t. sr_id t = i) (live_subnets d)) in
     \<lparr>rc_zone = zr_zone z, rc_linked_space_id = map_option (\<lambda>t. rs_space_id (sr_subnet t)) l,
      rc_linked_network = map_option (\<lambda>t. rs_network (sr_subnet t)) l, rc_in_group = True\<rparr>)"

definition load_reverse_candidates :: "(string \<Rightarrow> uuid option) \<Rightarrow> rev_db \<Rightarrow> subnet_row \<Rightarrow> string list \<Rightarrow> reverse_candidate list" where
  "load_reverse_candidates parse d s group_ids =
     (let linked = filter (\<lambda>z. zr_linked z = Some (sr_id s) \<and> rz_kind (zr_zone z) = ''reverse'') (live_zones d);
          valid = stored_uuid_list parse group_ids;
          rows = filter (\<lambda>z. zr_group_id z \<in> set valid \<and> reverse_owner_candidate (zr_zone z)) (live_zones d) in
      map (\<lambda>z. if zr_id z \<in> zr_id ` set rows then group_candidate d z
         else \<lparr>rc_zone = zr_zone z, rc_linked_space_id = Some (rs_space_id (sr_subnet s)),
           rc_linked_network = Some (rs_network (sr_subnet s)), rc_in_group = False\<rparr>) linked @
      map (group_candidate d) (filter (\<lambda>z. zr_id z \<notin> zr_id ` set linked) rows))"

lemma linked_candidate:
  assumes "z \<in> set (live_zones d)" "zr_linked z = Some (sr_id s)" "rz_kind (zr_zone z) = ''reverse''"
  shows "\<exists>c \<in> set (load_reverse_candidates parse d s group_ids). rc_zone c = zr_zone z"
proof -
  let ?rows = "filter (\<lambda>z. zr_group_id z \<in> set (stored_uuid_list parse group_ids) \<and> reverse_owner_candidate (zr_zone z)) (live_zones d)"
  let ?c = "if zr_id z \<in> zr_id ` set ?rows then group_candidate d z
         else \<lparr>rc_zone = zr_zone z, rc_linked_space_id = Some (rs_space_id (sr_subnet s)),
           rc_linked_network = Some (rs_network (sr_subnet s)), rc_in_group = False\<rparr>"
  have "?c \<in> set (load_reverse_candidates parse d s group_ids)"
    unfolding load_reverse_candidates_def Let_def set_append set_map using assms by (intro UnI1 image_eqI [of _ _ z]) simp_all
  moreover have "rc_zone ?c = zr_zone z" by (simp add: group_candidate_def Let_def)
  ultimately show ?thesis by blast
qed

section \<open>A new subnet gets its pointers\<close>

text \<open>The walk to the inherited settings returns when the blocks above the subnet are ordered by some rank.\<close>

lemma effective_walk_returns:
  assumes "\<And>b p c. rb_parent b = Some p \<Longrightarrow> find (\<lambda>c. rb_id c = p) (rd_blocks d) = Some c \<Longrightarrow> rank c < (rank b :: nat)"
  shows "\<exists>r. effective_walk parse d current = Some r"
proof (cases current)
  case (Some b)
  have "\<exists>r. effective_walk parse d (Some b) = Some r" for b
  proof (induction "rank b" arbitrary: b rule: less_induct)
    case less
    show ?case
    proof (cases "dns_inherit (rb_dns b) \<and> rb_parent b \<noteq> None")
      case False
      then show ?thesis by (subst effective_walk.simps) (auto split: option.splits)
    next
      case True
      then obtain p where p: "rb_parent b = Some p" by auto
      show ?thesis
      proof (cases "find (\<lambda>c. rb_id c = p) (rd_blocks d)")
        case None
        have "effective_walk parse d None = Some ([], None)" by (subst effective_walk.simps) simp
        then show ?thesis using True p None by (subst effective_walk.simps) simp
      next
        case (Some c)
        then obtain r where "effective_walk parse d (Some c) = Some r" using less assms p by blast
        then show ?thesis using True p Some by (subst effective_walk.simps) simp
      qed
    qed
  qed
  then show ?thesis using Some by simp
qed (subst effective_walk.simps, simp)

lemma ensure_each_fresh:
  assumes "\<forall>n \<in> set names. by_name n = None"
  shows "rd_zones (fst (ensure_each d s gid by_name False new_id names)) = rd_zones d @ map (\<lambda>n. new_zone (new_id n) gid n (sr_id s)) names"
    "snd (ensure_each d s gid by_name False new_id names) = map (\<lambda>n. new_zone (new_id n) gid n (sr_id s)) names"
  using assms by (induction names arbitrary: d) (simp_all add: ensure_zone_named_def Let_def case_prod_unfold)

lemma ensure_fresh:
  assumes "ensure_reverse_zones_for_subnet parse new_id d s ga za honour = Some (d', out)"
    "\<not> (honour \<and> sr_skip_reverse_zone s)" "resolve_group parse d s ga za = Some (Some gid)"
    "find (\<lambda>g. rg_id g = gid) (rd_groups d) = Some g" "cloud_reverse_optout_driver g = None"
    "ip_network (rs_network (sr_subnet s)) = Some net"
    "\<forall>z \<in> set (live_zones d). zr_group_id z = gid \<longrightarrow> zr_name z \<notin> zone_name ` set (reverse_zone_pieces net)"
  shows "rd_zones d' = rd_zones d @ map (\<lambda>p. new_zone (new_id (zone_name p)) gid (zone_name p) (sr_id s)) (reverse_zone_pieces net)"
    "map zr_name out = map zone_name (reverse_zone_pieces net)"
proof -
  let ?names = "map zone_name (reverse_zone_pieces net)"
  define by_name where "by_name = (\<lambda>n. find (\<lambda>z. zr_name z = n) (rev (filter (\<lambda>z. zr_group_id z = gid \<and> zr_name z \<in> set ?names) (live_zones d))))"
  have none: "\<forall>n \<in> set ?names. by_name n = None" using assms(7) by (auto simp: by_name_def find_None_conv)
  have names: "compute_reverse_zone_names (rs_network (sr_subnet s)) = Some ?names" using assms(6) by (simp add: compute_reverse_zone_names_def)
  have e: "Some (d', out) = (case ensure_each d s gid by_name False new_id ?names of (d', out) \<Rightarrow>
      Some (if \<exists>z \<in> set out. by_name (zr_name z) = None then d'\<lparr>rd_wake := rd_wake d' @ [gid]\<rparr> else d', out))"
    using assms(1) unfolding ensure_reverse_zones_for_subnet_def if_not_P [OF assms(2)] assms(3) option.case assms(4) names Let_def
      assms(5) by_name_def by (simp cong: if_cong)
  obtain d1 o1 where r: "ensure_each d s gid by_name False new_id ?names = (d1, o1)" by (cases "ensure_each d s gid by_name False new_id ?names")
  have "rd_zones d' = rd_zones d1" "out = o1" using e r by (auto split: if_splits)
  then show "rd_zones d' = rd_zones d @ map (\<lambda>p. new_zone (new_id (zone_name p)) gid (zone_name p) (sr_id s)) (reverse_zone_pieces net)"
    "map zr_name out = map zone_name (reverse_zone_pieces net)"
    using ensure_each_fresh [OF none, of d s gid new_id] r by (simp_all add: comp_def new_zone_def)
qed

text \<open>C33: a subnet that is created in a group holding none of its reverse zones gets one zone for each of its pieces, and then the
  pointer of every one of its addresses is written: into a primary zone at least as specific as the address's piece, chosen among the
  zones the next lookup loads, under an owner name that reads back as the address, provided IPAM authors the candidates.\<close>

theorem new_subnet_pointers_written:
  assumes "ensure_reverse_zones_for_subnet parse new_id d s ga za honour = Some (d', out)"
    "\<not> (honour \<and> sr_skip_reverse_zone s)" "resolve_group parse d s ga za = Some (Some gid)"
    "find (\<lambda>g. rg_id g = gid) (rd_groups d) = Some g" "cloud_reverse_optout_driver g = None"
    "ip_network (rs_network (sr_subnet s)) = Some net"
    "\<forall>z \<in> set (live_zones d). zr_group_id z = gid \<longrightarrow> zr_name z \<notin> zone_name ` set (reverse_zone_pieces net)"
    "\<forall>c \<in> set (load_reverse_candidates parse d' s group_ids). ipam_authors_zone (rc_zone c)" "(v, a) \<in> addresses net"
  shows "map zr_name out = map zone_name (reverse_zone_pieces net) \<and>
    (\<exists>z p. pick_reverse_zone (sr_subnet s) (v, a) (load_reverse_candidates parse d' s group_ids) = Some z \<and>
      p \<in> set (reverse_zone_pieces net) \<and> (v, a) \<in> addresses p \<and>
      length (py_rstrip_char CHR ''.'' (zone_name p)) \<le> length (py_rstrip_char CHR ''.'' (rz_name z)) \<and>
      ptr_address (fst (expected_ptr (v, a) hostname (rz_name z))) (rz_name z) = Some (v, a))"
proof -
  note f = ensure_fresh [OF assms(1-7)]
  have "\<forall>p \<in> set (reverse_zone_pieces net). \<exists>c \<in> set (load_reverse_candidates parse d' s group_ids).
      own_zone (sr_subnet s) (rc_zone c) \<and> rz_name (rc_zone c) = zone_name p"
  proof
    fix p
    assume p: "p \<in> set (reverse_zone_pieces net)"
    let ?z = "new_zone (new_id (zone_name p)) gid (zone_name p) (sr_id s)"
    have "?z \<in> set (live_zones d')" using p f(1) by (auto simp: live_zones_def new_zone_def)
    then obtain c where c: "c \<in> set (load_reverse_candidates parse d' s group_ids)" "rc_zone c = zr_zone ?z"
      using linked_candidate [of ?z d' s] by (auto simp: new_zone_def)
    then show "\<exists>c \<in> set (load_reverse_candidates parse d' s group_ids). own_zone (sr_subnet s) (rc_zone c) \<and> rz_name (rc_zone c) = zone_name p"
      by (intro bexI [OF _ c(1)]) (simp add: own_zone_def new_zone_def)
  qed
  from pointers_written [OF assms(6,9) this assms(8)] f(2) show ?thesis by simp
qed

definition demo_subnet :: "uuid \<Rightarrow> nat \<Rightarrow> nat \<Rightarrow> datetime option \<Rightarrow> uuid option \<Rightarrow> subnet_row" where
  "demo_subnet i a p at b = \<lparr>sr_subnet = \<lparr>rs_id = i, rs_space_id = ''sp'', rs_network = (V4, a, p)\<rparr>,
     sr_dns = \<lparr>dns_inherit = True, dns_zone_id = None, dns_group_ids = []\<rparr>, sr_block_id = ''b'', sr_skip_reverse_zone = False,
     sr_deleted_at = at, sr_deleted_by = None, sr_batch = b\<rparr>"

definition demo_db :: "zone_row list \<Rightarrow> subnet_row list \<Rightarrow> ptr_row list \<Rightarrow> (uuid \<times> uuid) list \<Rightarrow> rev_db" where
  "demo_db zs ss rs as = \<lparr>rd_zones = zs, rd_subnets = ss, rd_records = rs, rd_addresses = as,
     rd_blocks = [\<lparr>rb_id = ''b'', rb_space_id = ''sp'', rb_parent = None, rb_dns = \<lparr>dns_inherit = True, dns_zone_id = None, dns_group_ids = []\<rparr>\<rparr>],
     rd_spaces = [(''sp'', \<lparr>dns_inherit = False, dns_zone_id = None, dns_group_ids = [''g'']\<rparr>)],
     rd_groups = [\<lparr>rg_id = ''g'', rg_auto_at_provider = False, rg_drivers = [''bind9'']\<rparr>],
     rd_audit = [], rd_provision = [], rd_wake = [], rd_swept = []\<rparr>"

definition demo_created :: "rev_db" where
  "demo_created = (let s = demo_subnet ''s'' 167838720 23 None None in
     case ensure_reverse_zones_for_subnet Some (\<lambda>n. n) (demo_db [] [s] [] []) s (Some ''g'') None True of Some (d, _) \<Rightarrow> d | None \<Rightarrow> demo_db [] [] [] [])"

theorem new_subnet_pointers_written_witness:
  "\<exists>z p. pick_reverse_zone (sr_subnet (demo_subnet ''s'' 167838720 23 None None)) (V4, 167838999)
      (load_reverse_candidates Some demo_created (demo_subnet ''s'' 167838720 23 None None) [''g'']) = Some z \<and>
    (V4, 167838999) \<in> addresses p \<and>
    ptr_address (fst (expected_ptr (V4, 167838999) ''www'' (rz_name z))) (rz_name z) = Some (V4, 167838999)"
proof -
  let ?s = "demo_subnet ''s'' 167838720 23 None None"
  let ?n = "\<lparr>version = V4, network_address = 167838720, prefixlen = 23\<rparr> :: ipnet"
  let ?d = "demo_db [] [?s] [] []"
  have "\<not> Option.is_none (ensure_reverse_zones_for_subnet Some (\<lambda>n. n) ?d ?s (Some ''g'') None True)" by code_simp
  then obtain d' out where e: "ensure_reverse_zones_for_subnet Some (\<lambda>n. n) ?d ?s (Some ''g'') None True = Some (d', out)"
    by (cases "ensure_reverse_zones_for_subnet Some (\<lambda>n. n) ?d ?s (Some ''g'') None True") auto
  then have d': "demo_created = d'" by (simp add: demo_created_def Let_def)
  have n: "ip_network (rs_network (sr_subnet ?s)) = Some ?n" by code_simp
  have r: "resolve_group Some ?d ?s (Some ''g'') None = Some (Some ''g'')" by (simp add: resolve_group_def)
  have g: "find (\<lambda>g. rg_id g = ''g'') (rd_groups ?d) = Some \<lparr>rg_id = ''g'', rg_auto_at_provider = False, rg_drivers = [''bind9'']\<rparr>"
    by (simp add: demo_db_def)
  have o: "cloud_reverse_optout_driver \<lparr>rg_id = ''g'', rg_auto_at_provider = False, rg_drivers = [''bind9'']\<rparr> = None" by code_simp
  have c: "\<forall>c \<in> set (load_reverse_candidates Some demo_created ?s [''g'']). ipam_authors_zone (rc_zone c)" by code_simp
  have a: "(V4, 167838999) \<in> addresses ?n" by (simp add: addresses_def num_addresses_def)
  have "\<forall>z \<in> set (live_zones ?d). zr_group_id z = ''g'' \<longrightarrow> zr_name z \<notin> zone_name ` set (reverse_zone_pieces ?n)"
    by (simp add: live_zones_def demo_db_def)
  moreover have "\<not> (True \<and> sr_skip_reverse_zone ?s)" by (simp add: demo_subnet_def)
  ultimately show ?thesis unfolding d'
    using new_subnet_pointers_written [OF e _ r g o n _ c [unfolded d'] a, where hostname = "''www''"] by blast
qed

end
