(* ===== verification/Reverse_Retire.thy ===== *)
theory Reverse_Retire
  imports Reverse_Lifecycle
begin

text \<open>
  What retiring the reverse zones of a subnet keeps: the zones other live subnets need, the records other deletions hold in the
  Trash, and the agreement of the approval preview with the deletion.
\<close>

section \<open>The plan\<close>

lemma sort_key_Nil: "sort_key f xs = [] \<longleftrightarrow> xs = []"
  unfolding length_0_conv [symmetric] length_sort ..

lemma sort_key_hd: "sort_key f xs = y # ys \<Longrightarrow> y \<in> set xs"
  by (metis list.set_intros(1) set_sort)

text \<open>The live subnets other than those going that lie inside the zone's network.\<close>

definition needs_zone :: "rev_db \<Rightarrow> uuid list \<Rightarrow> zone_row \<Rightarrow> subnet_row \<Rightarrow> bool" where
  "needs_zone d going z u \<longleftrightarrow> u \<in> set (live_subnets d) \<and> sr_id u \<notin> set going \<and>
     (\<exists>n. reverse_zone_network (zr_name z) = Inr (Some n) \<and> within (rs_network (sr_subnet u)) n)"

lemma surviving_sharer_needs:
  assumes "surviving_sharer d z s exclude = Inr v"
  shows "case v of None \<Rightarrow> \<forall>u. \<not> needs_zone d (sr_id s # exclude) z u
    | Some i \<Rightarrow> \<exists>u. needs_zone d (sr_id s # exclude) z u \<and> sr_id u = i"
proof (cases "reverse_zone_network (zr_name z)")
  case (Inl e)
  then show ?thesis using assms by (simp add: surviving_sharer_def)
next
  case (Inr c)
  show ?thesis
  proof (cases c)
    case None
    then show ?thesis using assms Inr by (auto simp: surviving_sharer_def needs_zone_def)
  next
    case (Some n)
    let ?xs = "filter (\<lambda>t. sr_id t \<noteq> sr_id s \<and> sr_id t \<notin> set exclude \<and> within (rs_network (sr_subnet t)) n) (live_subnets d)"
    have v: "v = (case sort_key (sharer_key (rs_space_id (sr_subnet s))) ?xs of [] \<Rightarrow> None | t # _ \<Rightarrow> Some (sr_id t))"
      using assms Inr Some by (simp add: surviving_sharer_def)
    have x: "u \<in> set ?xs \<longleftrightarrow> needs_zone d (sr_id s # exclude) z u" for u using Inr Some by (auto simp: needs_zone_def)
    show ?thesis
    proof (cases "sort_key (sharer_key (rs_space_id (sr_subnet s))) ?xs")
      case Nil
      then have "?xs = []" using sort_key_Nil by blast
      then have "\<not> needs_zone d (sr_id s # exclude) z u" for u unfolding x [symmetric] by simp
      moreover have "v = None" using v Nil by simp
      ultimately show ?thesis by simp
    next
      case (Cons y ys)
      then have "y \<in> set ?xs" by (rule sort_key_hd)
      then show ?thesis using v Cons x by auto
    qed
  qed
qed

lemma plan_zones_spec:
  "plan_zones d s exclude zs = Inr plan \<Longrightarrow> map fst plan = zs \<and>
     (\<forall>(z, v) \<in> set plan. surviving_sharer d z s exclude = Inr v)"
  by (induction zs arbitrary: plan) (auto split: sum.splits)

lemma retirement_plan_spec:
  assumes "retirement_plan d s exclude = Inr plan"
  shows "map fst plan = filter (\<lambda>z. zr_linked z = Some (sr_id s) \<and> zr_auto z) (live_zones d)"
    "(z, v) \<in> set plan \<Longrightarrow> surviving_sharer d z s exclude = Inr v"
  using plan_zones_spec [OF assms [unfolded retirement_plan_def]] by auto

section \<open>What a retirement touches\<close>

lemma put_zone_simps [simp]: "rd_subnets (put_zone z d) = rd_subnets d" "rd_addresses (put_zone z d) = rd_addresses d"
  "rd_records (put_zone z d) = rd_records d"
  by (simp_all add: put_zone_def)

lemma hand_over_simps [simp]: "rd_subnets (hand_over z h d) = rd_subnets d" "rd_addresses (hand_over z h d) = rd_addresses d"
  by (simp_all add: hand_over_def)

lemma delete_zone_simps [simp]: "rd_subnets (delete_zone z d) = rd_subnets d" "rd_addresses (delete_zone z d) = rd_addresses d"
  by (simp_all add: delete_zone_def)

lemma retire_one_keeps:
  "rd_subnets (rt_db (retire_one s soft exclude z v t)) = rd_subnets (rt_db t)"
  "rd_addresses (rt_db (retire_one s soft exclude z v t)) = rd_addresses (rt_db t)"
  by (auto simp: retire_one_def Let_def split: option.splits)

lemma retire_each_keeps:
  "rd_subnets (rt_db (retire_each s soft exclude plan t)) = rd_subnets (rt_db t)"
  "rd_addresses (rt_db (retire_each s soft exclude plan t)) = rd_addresses (rt_db t)"
  by (induction plan arbitrary: t) (auto simp: retire_one_keeps)

lemma retire_each_retired:
  "set (rt_retired (retire_each s soft exclude plan t)) \<subseteq> set (rt_retired t) \<union> {zr_id z |z. (z, None) \<in> set plan}"
proof (induction plan arbitrary: t)
  case (Cons p plan)
  obtain z v where p: "p = (z, v)" by (cases p)
  have "set (rt_retired (retire_one s soft exclude z v t)) \<subseteq> set (rt_retired t) \<union> (if v = None then {zr_id z} else {})"
    by (auto simp: retire_one_def Let_def split: option.splits)
  then show ?case using Cons [of "retire_one s soft exclude z v t"] unfolding p by (auto split: if_splits)
qed simp

lemma retire_each_batch:
  "rt_batch (retire_each s True exclude plan t) = rt_batch t @ map (\<lambda>(z, _). zr_id z) (filter (\<lambda>(_, v). v = None) plan)"
proof (induction plan arbitrary: t)
  case (Cons p plan)
  obtain z v where p: "p = (z, v)" by (cases p)
  show ?case unfolding p by (cases v) (simp_all add: Cons retire_one_def Let_def)
qed simp

lemma link_to_simps [simp]: "zr_id (link_to i z) = zr_id z" "zr_name (link_to i z) = zr_name z" "zr_linked (link_to i z) = Some i"
  "zr_auto (link_to i z) = zr_auto z" "zr_deleted_at (link_to i z) = zr_deleted_at z" "zr_group_id (link_to i z) = zr_group_id z"
  "zr_batch (link_to i z) = zr_batch z"
  by (simp_all add: link_to_def)

text \<open>A step leaves every other zone row as it is, in place.\<close>

lemma retire_one_zones:
  "rd_zones (rt_db (retire_one s soft exclude z v t)) = rd_zones (rt_db t) \<or>
   (\<exists>z'. zr_id z' = zr_id z \<and> rd_zones (rt_db (retire_one s soft exclude z v t)) =
      map (\<lambda>y. if zr_id y = zr_id z then z' else y) (rd_zones (rt_db t))) \<or>
   rd_zones (rt_db (retire_one s soft exclude z v t)) = filter (\<lambda>y. zr_id y \<noteq> zr_id z) (rd_zones (rt_db t))"
proof (cases v)
  case None
  show ?thesis
  proof (cases "if soft then None else trashed_sharer ((rt_db t)\<lparr>rd_swept := rd_swept (rt_db t) @ [zr_id z]\<rparr>) z (sr_id s # exclude)")
    case N: None
    then show ?thesis using None by (simp add: retire_one_def Let_def delete_zone_def)
  next
    case (Some h)
    let ?z = "(link_to (sr_id h) z)\<lparr>zr_deleted_at := sr_deleted_at h, zr_deleted_by := sr_deleted_by h, zr_batch := sr_batch h\<rparr>"
    have "zr_id ?z = zr_id z" by simp
    moreover have "rd_zones (rt_db (retire_one s soft exclude z v t)) = map (\<lambda>y. if zr_id y = zr_id z then ?z else y) (rd_zones (rt_db t))"
      using None Some by (simp add: retire_one_def Let_def hand_over_def put_zone_def)
    ultimately show ?thesis by blast
  qed
next
  case (Some i)
  have "zr_id (link_to i z) = zr_id z" by simp
  moreover have "rd_zones (rt_db (retire_one s soft exclude z v t)) = map (\<lambda>y. if zr_id y = zr_id z then link_to i z else y) (rd_zones (rt_db t))"
    using Some by (simp add: retire_one_def put_zone_def)
  ultimately show ?thesis by blast
qed

lemma filter_map_other: "zr_id z' \<noteq> i \<Longrightarrow> filter (\<lambda>y. zr_id y = i) (map (\<lambda>y. if zr_id y = zr_id z' then z' else y) zs) = filter (\<lambda>y. zr_id y = i) zs"
  by (induction zs) auto

lemma other_zones_stay:
  "i \<notin> zr_id ` fst ` set plan \<Longrightarrow>
     filter (\<lambda>y. zr_id y = i) (rd_zones (rt_db (retire_each s soft exclude plan t))) = filter (\<lambda>y. zr_id y = i) (rd_zones (rt_db t))"
proof (induction plan arbitrary: t)
  case (Cons p plan)
  obtain z v where p: "p = (z, v)" by (cases p)
  have ne: "zr_id z \<noteq> i" using Cons.prems p by auto
  have "filter (\<lambda>y. zr_id y = i) (filter (\<lambda>y. zr_id y \<noteq> zr_id z) zs) = filter (\<lambda>y. zr_id y = i) zs" for zs
    using ne by (induction zs) auto
  note gone = this
  have "filter (\<lambda>y. zr_id y = i) (rd_zones (rt_db (retire_one s soft exclude z v t))) = filter (\<lambda>y. zr_id y = i) (rd_zones (rt_db t))"
    using retire_one_zones [of s soft exclude z v t]
  proof (elim disjE exE conjE)
    fix z'
    assume "zr_id z' = zr_id z" "rd_zones (rt_db (retire_one s soft exclude z v t)) = map (\<lambda>y. if zr_id y = zr_id z then z' else y) (rd_zones (rt_db t))"
    then show ?thesis using filter_map_other [of z' i "rd_zones (rt_db t)"] ne by simp
  qed (simp_all only: gone)
  then show ?case using Cons unfolding p by simp
qed simp

section \<open>Shared zones\<close>

lemma retire_each_append: "retire_each s soft exclude (ps @ qs) t = retire_each s soft exclude qs (retire_each s soft exclude ps t)"
  by (induction ps arbitrary: t) auto

lemma unique_row: "distinct (map zr_id zs) \<Longrightarrow> z \<in> set zs \<Longrightarrow> filter (\<lambda>y. zr_id y = zr_id z) zs = [z]"
  by (induction zs) (auto simp: filter_empty_conv image_iff)

lemma filter_single: "filter P xs = [x] \<Longrightarrow> x \<in> set xs"
  using filter_is_subset [of P xs] by simp

lemma plan_ids_distinct:
  assumes "retirement_plan d s exclude = Inr plan" "distinct (map zr_id (rd_zones d))"
  shows "distinct (map (zr_id \<circ> fst) plan)"
proof -
  have "map (zr_id \<circ> fst) plan = map zr_id (filter (\<lambda>z. zr_linked z = Some (sr_id s) \<and> zr_auto z) (live_zones d))"
    unfolding retirement_plan_spec(1) [OF assms(1), symmetric] by simp
  then show ?thesis using assms(2) by (simp add: live_zones_def distinct_map_filter)
qed

lemma plan_mem:
  assumes "retirement_plan d s exclude = Inr plan"
  shows "z \<in> fst ` set plan \<longleftrightarrow> z \<in> set (live_zones d) \<and> zr_linked z = Some (sr_id s) \<and> zr_auto z"
proof -
  have "fst ` set plan = set (map fst plan)" by simp
  then show ?thesis unfolding retirement_plan_spec(1) [OF assms] by auto
qed

lemma relinked_row:
  assumes "distinct (map (zr_id \<circ> fst) (ps @ (z, Some i) # qs))" "filter (\<lambda>y. zr_id y = zr_id z) (rd_zones (rt_db t)) = [z]"
  shows "filter (\<lambda>y. zr_id y = zr_id z) (rd_zones (rt_db (retire_each s soft exclude (ps @ (z, Some i) # qs) t))) = [link_to i z]"
proof -
  let ?t1 = "retire_each s soft exclude ps t"
  have ps: "zr_id z \<notin> zr_id ` fst ` set ps" and qs: "zr_id z \<notin> zr_id ` fst ` set qs" using assms(1) by auto
  have "filter (\<lambda>y. zr_id y = zr_id z) (map (\<lambda>y. if zr_id y = zr_id z then link_to i z else y) zs) =
      map (\<lambda>_. link_to i z) (filter (\<lambda>y. zr_id y = zr_id z) zs)" for zs by (induction zs) auto
  then have "filter (\<lambda>y. zr_id y = zr_id z) (rd_zones (rt_db (retire_one s soft exclude z (Some i) ?t1))) = [link_to i z]"
    using other_zones_stay [OF ps, of s soft exclude t] assms(2) by (simp add: retire_one_def put_zone_def)
  then show ?thesis using other_zones_stay [OF qs] by (simp add: retire_each_append)
qed

lemma retire_plan:
  assumes "retire_auto_reverse_zones d s soft exclude = Inr t"
  obtains plan where "retirement_plan d s exclude = Inr plan"
    "t = retire_each s soft exclude plan \<lparr>rt_db = d, rt_batch = [], rt_retired = [], rt_relinked = []\<rparr>"
  using assms by (auto simp: retire_auto_reverse_zones_def split: sum.splits)

lemma live_zone_mem: "z \<in> set (live_zones d) \<longleftrightarrow> z \<in> set (rd_zones d) \<and> zr_deleted_at z = None"
  by (auto simp: live_zones_def)

lemma zone_of_id:
  assumes "distinct (map zr_id zs)" "y \<in> set zs" "z \<in> set zs" "zr_id y = zr_id z"
  shows "y = z"
  using assms unfolding distinct_map inj_on_def by blast

lemma retired_unneeded:
  assumes "retire_auto_reverse_zones d s soft exclude = Inr t" "distinct (map zr_id (rd_zones d))"
    "z \<in> set (live_zones d)" "zr_id z \<in> set (rt_retired t)"
  shows "zr_auto z \<and> zr_linked z = Some (sr_id s) \<and> (\<forall>u. \<not> needs_zone d (sr_id s # exclude) z u)"
  using assms(1)
proof (cases rule: retire_plan)
  case (1 plan)
  obtain y where y: "(y, None) \<in> set plan" "zr_id y = zr_id z"
    using assms(4) retire_each_retired [of s soft exclude plan] unfolding 1(2) by fastforce
  then have "y \<in> fst ` set plan" by (metis fst_conv imageI)
  then have yl: "y \<in> set (live_zones d) \<and> zr_linked y = Some (sr_id s) \<and> zr_auto y" using plan_mem [OF 1(1)] by blast
  then have "y = z" using zone_of_id [OF assms(2)] live_zone_mem assms(3) y(2) by blast
  then show ?thesis using yl y(1) surviving_sharer_needs [OF retirement_plan_spec(2) [OF 1(1) y(1)]] by simp
qed

lemma unplanned_stay:
  assumes "retire_auto_reverse_zones d s soft exclude = Inr t" "distinct (map zr_id (rd_zones d))"
    "z \<in> set (rd_zones d)" "\<not> (zr_deleted_at z = None \<and> zr_auto z \<and> zr_linked z = Some (sr_id s))"
  shows "z \<in> set (rd_zones (rt_db t))"
  using assms(1)
proof (cases rule: retire_plan)
  case (1 plan)
  have "zr_id z \<notin> zr_id ` fst ` set plan"
  proof
    assume "zr_id z \<in> zr_id ` fst ` set plan"
    then obtain y where y: "y \<in> fst ` set plan" "zr_id y = zr_id z" by (metis imageE)
    then have yl: "y \<in> set (live_zones d) \<and> zr_linked y = Some (sr_id s) \<and> zr_auto y" using plan_mem [OF 1(1)] by blast
    then have "y = z" using zone_of_id [OF assms(2)] live_zone_mem assms(3) y(2) by blast
    then show False using yl assms(4) by (simp add: live_zone_mem)
  qed
  then have "filter (\<lambda>y. zr_id y = zr_id z) (rd_zones (rt_db t)) = [z]"
    unfolding 1(2) using other_zones_stay unique_row [OF assms(2,3)] by simp
  then show ?thesis by (rule filter_single)
qed

lemma needed_relinked:
  assumes "retire_auto_reverse_zones d s soft exclude = Inr t" "distinct (map zr_id (rd_zones d))" "z \<in> set (live_zones d)"
    "zr_auto z" "zr_linked z = Some (sr_id s)" "needs_zone d (sr_id s # exclude) z u"
  shows "\<exists>v. needs_zone d (sr_id s # exclude) z v \<and> link_to (sr_id v) z \<in> set (rd_zones (rt_db t))"
  using assms(1)
proof (cases rule: retire_plan)
  case (1 plan)
  have "z \<in> fst ` set plan" using plan_mem [OF 1(1)] assms(3-5) by blast
  then obtain v where v: "(z, v) \<in> set plan" by (metis imageE prod.collapse)
  note n = surviving_sharer_needs [OF retirement_plan_spec(2) [OF 1(1) v]]
  then obtain i where "v = Some i" using assms(6) by (cases v) simp_all
  then obtain w where w: "needs_zone d (sr_id s # exclude) z w" "v = Some (sr_id w)" using n by auto
  obtain ps qs where split: "plan = ps @ (z, Some (sr_id w)) # qs" using v w(2) by (meson split_list)
  have "z \<in> set (rd_zones d)" using assms(3) by (simp add: live_zone_mem)
  then have "filter (\<lambda>y. zr_id y = zr_id z) (rd_zones (rt_db t)) = [link_to (sr_id w) z]"
    unfolding 1(2) split using plan_ids_distinct [OF 1(1) assms(2)] unique_row [OF assms(2)]
    by (intro relinked_row) (simp_all add: split)
  then have "link_to (sr_id w) z \<in> set (rd_zones (rt_db t))" by (rule filter_single)
  then show ?thesis using w(1) by blast
qed

text \<open>C34: deleting a subnet, softly or for good, retires only zones it created itself and in whose network no other live subnet
  lies; a zone that another live subnet still needs is re-linked to one that does, and every other zone row stays as it is.\<close>

theorem retire_keeps_shared_zones:
  assumes "retire_auto_reverse_zones d s soft exclude = Inr t" "distinct (map zr_id (rd_zones d))"
  shows "(\<forall>z \<in> set (live_zones d). zr_id z \<in> set (rt_retired t) \<longrightarrow>
       zr_auto z \<and> zr_linked z = Some (sr_id s) \<and> (\<forall>u. \<not> needs_zone d (sr_id s # exclude) z u)) \<and>
    (\<forall>z \<in> set (rd_zones d). \<not> (zr_deleted_at z = None \<and> zr_auto z \<and> zr_linked z = Some (sr_id s)) \<longrightarrow>
       z \<in> set (rd_zones (rt_db t))) \<and>
    (\<forall>z \<in> set (live_zones d). \<forall>u. zr_auto z \<and> zr_linked z = Some (sr_id s) \<and> needs_zone d (sr_id s # exclude) z u \<longrightarrow>
       (\<exists>v. needs_zone d (sr_id s # exclude) z v \<and> link_to (sr_id v) z \<in> set (rd_zones (rt_db t))))"
  using retired_unneeded [OF assms] unplanned_stay [OF assms] needed_relinked [OF assms] by blast

section \<open>Records of other deletions\<close>

text \<open>A record in the Trash that belongs to a trashed subnet outside the deletion.\<close>

definition held_elsewhere :: "rev_db \<Rightarrow> uuid list \<Rightarrow> ptr_row \<Rightarrow> bool" where
  "held_elsewhere d going r \<longleftrightarrow> pt_deleted_at r \<noteq> None \<and> pt_batch r \<noteq> None \<and>
     (\<exists>u \<in> set (rd_subnets d). \<exists>a. sr_deleted_at u \<noteq> None \<and> sr_batch u \<noteq> None \<and> sr_id u \<notin> set going \<and>
        (a, sr_id u) \<in> set (rd_addresses d) \<and> pt_address_id r = Some a)"

lemma sharer_of_held:
  assumes "held_elsewhere d exclude r" "r \<in> set (rd_records d)" "pt_zone_id r = zr_id z" "pt_batch r \<noteq> zr_batch z"
  shows "trashed_sharer d z exclude \<noteq> None"
proof -
  obtain u a where u: "u \<in> set (rd_subnets d)" "sr_deleted_at u \<noteq> None" "sr_batch u \<noteq> None" "sr_id u \<notin> set exclude"
    "(a, sr_id u) \<in> set (rd_addresses d)" "pt_address_id r = Some a" using assms(1) unfolding held_elsewhere_def by blast
  have "shares_trashed d z u" unfolding shares_trashed_def
    using u assms unfolding held_elsewhere_def by fastforce
  then have "u \<in> set (filter (\<lambda>s. shares_trashed d z s \<and> sr_id s \<notin> set exclude) (rd_subnets d))" using u by simp
  then have "sort_key f (filter (\<lambda>s. shares_trashed d z s \<and> sr_id s \<notin> set exclude) (rd_subnets d)) \<noteq> []" for f :: "subnet_row \<Rightarrow> int \<times> string"
    unfolding sort_key_Nil by force
  then show ?thesis unfolding trashed_sharer_def by (auto split: list.splits)
qed




text \<open>When a zone in the Trash is not handed over, no record of another deletion sits in it, and purging it takes none.\<close>

lemma no_heir_no_loss:
  assumes "hand_over_zone_to_trashed_sharer z exclude d = (d', None)" "zr_deleted_at z \<noteq> None" "zr_auto z"
    "held_elsewhere d exclude r" "r \<in> set (rd_records d)" "pt_batch r \<noteq> zr_batch z"
  shows "r \<in> set (rd_records (delete_zone z d'))"
proof -
  have h: "trashed_sharer d z exclude = None" "d' = d"
    using assms(1-3) by (auto simp: hand_over_zone_to_trashed_sharer_def split: option.splits)
  then have "pt_zone_id r \<noteq> zr_id z" using sharer_of_held [OF assms(4,5) _ assms(6)] by blast
  then show ?thesis using assms(5) h(2) by (simp add: delete_zone_def)
qed

section \<open>The preview\<close>

text \<open>The plan of a subnet looks at the subnets and at the live zones the subnet created.\<close>

definition own_zones :: "rev_db \<Rightarrow> uuid \<Rightarrow> zone_row list" where
  "own_zones d i = filter (\<lambda>z. zr_linked z = Some i \<and> zr_auto z) (live_zones d)"

lemma plan_zones_cong:
  assumes "rd_subnets d' = rd_subnets d"
  shows "plan_zones d' s exclude zs = plan_zones d s exclude zs"
proof -
  have "live_subnets d' = live_subnets d" using assms by (simp add: live_subnets_def)
  then have "surviving_sharer d' z s exclude = surviving_sharer d z s exclude" for z by (simp only: surviving_sharer_def)
  note sharer = this
  show ?thesis by (induction zs) (simp_all only: plan_zones.simps sharer)
qed

lemma soft_step_others:
  assumes "i \<noteq> j" "v \<noteq> Some j" "\<forall>y \<in> set (rd_zones (rt_db t)). zr_id y = zr_id z \<longrightarrow> zr_linked y = Some i"
  shows "own_zones (rt_db (retire_one s True exclude z v t)) j = own_zones (rt_db t) j"
proof (cases v)
  case None
  then show ?thesis by (simp add: retire_one_def Let_def own_zones_def live_zones_def)
next
  case (Some k)
  have "filter (\<lambda>z. zr_linked z = Some j \<and> zr_auto z) (filter (\<lambda>z. zr_deleted_at z = None)
        (map (\<lambda>y. if zr_id y = zr_id z then link_to k z else y) zs)) =
      filter (\<lambda>z. zr_linked z = Some j \<and> zr_auto z) (filter (\<lambda>z. zr_deleted_at z = None) zs)"
    if "\<forall>y \<in> set zs. zr_id y = zr_id z \<longrightarrow> zr_linked y = Some i" for zs
    using that Some assms(1,2) by (induction zs) auto
  then show ?thesis using Some assms(3) by (simp add: retire_one_def own_zones_def live_zones_def put_zone_def)
qed

lemma soft_step_rows:
  assumes "y \<in> set (rd_zones (rt_db (retire_one s True exclude z v t)))" "zr_id y \<noteq> zr_id z"
  shows "y \<in> set (rd_zones (rt_db t))"
  using assms by (cases v) (auto simp: retire_one_def Let_def put_zone_def)

lemma soft_retirement_others:
  assumes "i \<noteq> j" "\<forall>p \<in> set plan. snd p \<noteq> Some j" "distinct (map (zr_id \<circ> fst) plan)"
    "\<forall>y \<in> set (rd_zones (rt_db t)). zr_id y \<in> zr_id ` fst ` set plan \<longrightarrow> zr_linked y = Some i"
  shows "own_zones (rt_db (retire_each s True exclude plan t)) j = own_zones (rt_db t) j"
  using assms(2-)
proof (induction plan arbitrary: t)
  case (Cons p plan)
  obtain z v where p: "p = (z, v)" by (cases p)
  let ?t = "retire_one s True exclude z v t"
  have z: "zr_id z \<notin> zr_id ` fst ` set plan" using Cons.prems(2) p by (simp add: image_image)
  have "zr_linked y = Some i" if "y \<in> set (rd_zones (rt_db ?t))" "zr_id y \<in> zr_id ` fst ` set plan" for y
  proof -
    have "zr_id y \<noteq> zr_id z" using that(2) z by metis
    then show ?thesis using soft_step_rows [OF that(1)] that(2) Cons.prems(3) p by simp
  qed
  then have "own_zones (rt_db (retire_each s True exclude plan ?t)) j = own_zones (rt_db ?t) j"
    using Cons.prems by (intro Cons.IH) simp_all
  also have "\<dots> = own_zones (rt_db t) j" using Cons.prems p by (intro soft_step_others [OF assms(1)]) simp_all
  finally show ?case using p by simp
qed simp

lemma soft_step_ids: "map zr_id (rd_zones (rt_db (retire_one s True exclude z v t))) = map zr_id (rd_zones (rt_db t))"
  by (cases v) (auto simp: retire_one_def Let_def put_zone_def)

lemma soft_retirement_ids: "map zr_id (rd_zones (rt_db (retire_each s True exclude plan t))) = map zr_id (rd_zones (rt_db t))"
  by (induction plan arbitrary: t) (auto simp: soft_step_ids)

lemma soft_retirement:
  assumes "retire_auto_reverse_zones d s True going = Inr t" "distinct (map zr_id (rd_zones d))" "j \<noteq> sr_id s" "j \<in> set going"
  shows "own_zones (rt_db t) j = own_zones d j" "rd_subnets (rt_db t) = rd_subnets d" "map zr_id (rd_zones (rt_db t)) = map zr_id (rd_zones d)"
proof -
  obtain plan where plan: "retirement_plan d s going = Inr plan"
    "t = retire_each s True going plan \<lparr>rt_db = d, rt_batch = [], rt_retired = [], rt_relinked = []\<rparr>"
    using assms(1) by (rule retire_plan)
  show "rd_subnets (rt_db t) = rd_subnets d" "map zr_id (rd_zones (rt_db t)) = map zr_id (rd_zones d)"
    unfolding plan(2) by (simp_all add: retire_each_keeps soft_retirement_ids)
  have "v \<noteq> Some j" if "(z, v) \<in> set plan" for z v
    using surviving_sharer_needs [OF retirement_plan_spec(2) [OF plan(1) that]] assms(4) by (auto simp: needs_zone_def split: option.splits)
  moreover have "zr_linked y = Some (sr_id s)" if y: "y \<in> set (rd_zones d)" "zr_id y \<in> zr_id ` fst ` set plan" for y
  proof -
    obtain z where z: "z \<in> fst ` set plan" "zr_id z = zr_id y" using y(2) by (metis imageE)
    then have "z \<in> set (live_zones d) \<and> zr_linked z = Some (sr_id s)" using plan_mem [OF plan(1)] by blast
    then show ?thesis using zone_of_id [OF assms(2) _ y(1), of z] z(2) live_zone_mem by blast
  qed
  ultimately show "own_zones (rt_db t) j = own_zones d j"
    unfolding plan(2) using soft_retirement_others [of "sr_id s" j plan] plan_ids_distinct [OF plan(1) assms(2)] assms(3) by fastforce
qed

lemma retire_for_batch_preview:
  assumes "distinct (map sr_id ss)" "sr_id ` set ss \<subseteq> set going" "distinct (map zr_id (rd_zones d))"
    "rd_subnets d = rd_subnets d0" "\<forall>s \<in> set ss. own_zones d (sr_id s) = own_zones d0 (sr_id s)"
  shows "(case retire_for_batch ss going d acc of Inl e \<Rightarrow> Inl e | Inr (_, ids) \<Rightarrow> Inr ids) =
    (case preview_zones d0 going ss of Inl e \<Rightarrow> Inl e | Inr ids \<Rightarrow> Inr (acc @ ids))"
  using assms
proof (induction ss arbitrary: d acc)
  case (Cons s ss)
  have p: "retirement_plan d s going = retirement_plan d0 s going"
    using Cons.prems(4,5) plan_zones_cong [OF Cons.prems(4)] by (simp add: retirement_plan_def own_zones_def)
  show ?case
  proof (cases "retirement_plan d0 s going")
    case (Inl e)
    then show ?thesis using p by (simp add: retire_auto_reverse_zones_def)
  next
    case (Inr plan)
    obtain t where t: "retire_auto_reverse_zones d s True going = Inr t"
      "rt_batch t = map (\<lambda>(z, _). zr_id z) (filter (\<lambda>(_, v). v = None) plan)"
      using Inr p by (simp add: retire_auto_reverse_zones_def retire_each_batch)
    have r: "own_zones (rt_db t) (sr_id u) = own_zones d (sr_id u)" if "u \<in> set ss" for u
    proof -
      have "sr_id u \<in> sr_id ` set ss" using that by simp
      moreover have "sr_id s \<notin> sr_id ` set ss" using Cons.prems(1) by simp
      ultimately have "sr_id u \<noteq> sr_id s" "sr_id u \<in> set going" using Cons.prems(2) by (metis, auto)
      then show ?thesis by (rule soft_retirement [OF t(1) Cons.prems(3)])
    qed
    have "rd_subnets (rt_db t) = rd_subnets d" "map zr_id (rd_zones (rt_db t)) = map zr_id (rd_zones d)"
      using t(1) by (auto elim!: retire_plan simp: retire_each_keeps soft_retirement_ids)
    then have "(case retire_for_batch ss going (rt_db t) (acc @ rt_batch t) of Inl e \<Rightarrow> Inl e | Inr (_, ids) \<Rightarrow> Inr ids) =
      (case preview_zones d0 going ss of Inl e \<Rightarrow> Inl e | Inr ids \<Rightarrow> Inr ((acc @ rt_batch t) @ ids))"
      using Cons.prems r by (intro Cons.IH) simp_all
    then show ?thesis using Inr t by (simp split: sum.splits)
  qed
qed simp

text \<open>the approval preview of a block or space deletion names exactly the zones that the deletion will put into its batch, in the
  same order, and fails exactly when the deletion does.\<close>

theorem preview_matches_retirement:
  assumes "distinct (map sr_id ss)" "distinct (map zr_id (rd_zones d))"
  shows "add_retiring_reverse_zones ss d =
    (case retire_auto_reverse_zones_for_batch ss d of Inl e \<Rightarrow> Inl e | Inr (_, ids) \<Rightarrow> Inr ids)"
  unfolding add_retiring_reverse_zones_def retire_auto_reverse_zones_for_batch_def
  using retire_for_batch_preview [of ss "map sr_id ss" d d "[]"] assms by (simp split: sum.splits)

section \<open>Instances\<close>

lemma not_isl_Inr: "\<not> isl x \<Longrightarrow> \<exists>t. x = Inr t"
  by (cases x) simp_all

definition demo_zone :: zone_row where
  "demo_zone = new_zone ''z'' ''g'' ''0.0.10.in-addr.arpa.'' ''s1''"

text \<open>Two halves of a /24 share its zone, which the first one created.\<close>

abbreviation half :: "uuid \<Rightarrow> nat \<Rightarrow> subnet_row" where
  "half i a \<equiv> demo_subnet i a 25 None None"

definition halves_db :: rev_db where
  "halves_db = demo_db [demo_zone] [half ''s1'' 167772160, half ''s2'' 167772288] [] []"

theorem retire_keeps_shared_zones_witness:
  "\<exists>t v. retire_auto_reverse_zones halves_db (half ''s1'' 167772160) True [] = Inr t \<and>
     needs_zone halves_db [''s1''] demo_zone v \<and> link_to (sr_id v) demo_zone \<in> set (rd_zones (rt_db t))"
proof -
  have "\<not> isl (retire_auto_reverse_zones halves_db (half ''s1'' 167772160) True [])" by code_simp
  then obtain t where t: "retire_auto_reverse_zones halves_db (half ''s1'' 167772160) True [] = Inr t" using not_isl_Inr by blast
  have i: "sr_id (half ''s1'' 167772160) = ''s1''" by (simp add: demo_subnet_def)
  have "distinct (map zr_id (rd_zones halves_db))" by code_simp
  note r = retire_keeps_shared_zones [OF t this]
  have z: "demo_zone \<in> set (live_zones halves_db)" "zr_auto demo_zone" "zr_linked demo_zone = Some (sr_id (half ''s1'' 167772160))"
    by (simp_all add: demo_zone_def new_zone_def live_zones_def halves_db_def demo_db_def demo_subnet_def)
  have "reverse_zone_network (zr_name demo_zone) = Inr (Some \<lparr>version = V4, network_address = 167772160, prefixlen = 24\<rparr>)" by code_simp
  moreover have "within (rs_network (sr_subnet (half ''s2'' 167772288))) \<lparr>version = V4, network_address = 167772160, prefixlen = 24\<rparr>" by code_simp
  moreover have "half ''s2'' 167772288 \<in> set (live_subnets halves_db)" "sr_id (half ''s2'' 167772288) = ''s2''"
    by (simp_all add: live_subnets_def halves_db_def demo_db_def demo_subnet_def)
  ultimately have "needs_zone halves_db [sr_id (half ''s1'' 167772160)] demo_zone (half ''s2'' 167772288)" by (simp add: needs_zone_def i)
  then show ?thesis using r z t unfolding i by blast
qed

text \<open>The second half was deleted first: its pointer record is in the Trash, in the zone of the first.\<close>

definition held_record :: ptr_row where
  "held_record = \<lparr>pt_id = ''r'', pt_zone_id = ''z'', pt_auto = True, pt_address_id = Some ''a'', pt_deleted_at = Some 5, pt_deleted_by = None,
     pt_batch = Some ''b2''\<rparr>"



theorem preview_matches_retirement_witness:
  "add_retiring_reverse_zones [half ''s1'' 167772160, half ''s2'' 167772288] halves_db = Inr [''z''] \<and>
   (case retire_auto_reverse_zones_for_batch [half ''s1'' 167772160, half ''s2'' 167772288] halves_db of Inl e \<Rightarrow> Inl e
     | Inr (_, ids) \<Rightarrow> Inr ids) = Inr [''z'']"
proof -
  have "add_retiring_reverse_zones [half ''s1'' 167772160, half ''s2'' 167772288] halves_db = Inr [''z'']" by code_simp
  moreover have "distinct (map sr_id [half ''s1'' 167772160, half ''s2'' 167772288])" "distinct (map zr_id (rd_zones halves_db))" by code_simp+
  ultimately show ?thesis using preview_matches_retirement by metis
qed

text \<open>An auto-generated record that is bound to no address stays behind when its zone in the Trash is handed over, as soon as another
  subnet has an address.\<close>

lemma unbound_record_stays_behind:
  "rides (demo_db [] [] [] [(''a1'', ''s1'')]) (demo_zone\<lparr>zr_deleted_at := Some 5, zr_batch := Some ''b1''\<rparr>) (half ''s2'' 167772288)
     (held_record\<lparr>pt_address_id := None, pt_batch := Some ''b1''\<rparr>) = False"
  "rides (demo_db [] [] [] []) (demo_zone\<lparr>zr_deleted_at := Some 5, zr_batch := Some ''b1''\<rparr>) (half ''s2'' 167772288)
     (held_record\<lparr>pt_address_id := None, pt_batch := Some ''b1''\<rparr>) = True"
  by code_simp+

end
