(* ===== verification/Block_Move.thy ===== *)
theory Block_Move
  imports Subnet_Boundary "HOL-Library.Code_Target_Nat"
begin

text \<open>
  Moving a block with everything under it into another IP space (\<^verbatim>\<open>services/ipam/block_move.py\<close>), with the ownership of rows by
  integrations it asks for (\<^verbatim>\<open>services/integration_ownership.py\<close>). The tables hold live rows and rows in the Trash.
\<close>

section \<open>Rows, plans and errors\<close>

record mv_block =
  mb_id :: uuid
  mb_space_id :: uuid
  mb_parent_id :: "uuid option"
  mb_network :: ipnet
  mb_owners :: "string list"
  mb_deleted :: bool

record mv_subnet =
  ms_id :: uuid
  ms_block_id :: uuid
  ms_space_id :: uuid
  ms_network :: ipnet
  ms_owners :: "string list"
  ms_deleted :: bool

record mv_address =
  ma_id :: uuid
  ma_subnet_id :: uuid
  ma_address :: ip_addr
  ma_owners :: "string list"

record mv_space =
  mp_id :: uuid
  mp_vrf_id :: "uuid option"
  mp_deleted :: bool

record mv_db =
  mv_blocks :: "mv_block list"
  mv_subnets :: "mv_subnet list"
  mv_addresses :: "mv_address list"
  mv_spaces :: "mv_space list"

text \<open>\<open>TypeError\<close> is what Python raises when networks of two families are compared; nothing catches it.\<close>

datatype move_error = BlockMoveError nat string | TypeError

record integration_blocker =
  ib_kind :: string
  ib_resource_id :: uuid
  ib_network :: string
  ib_integration :: "string option"

record move_plan =
  pl_block_id :: uuid
  pl_source_space_id :: uuid
  pl_target_space_id :: uuid
  pl_target_parent_id :: "uuid option"
  pl_descendant_block_ids :: "uuid list"
  pl_descendant_subnet_ids :: "uuid list"
  pl_descendant_ip_count :: nat
  pl_reparent_chain_block_ids :: "uuid list"
  pl_integration_blockers :: "integration_blocker list"
  pl_warnings :: "string list"
  pl_trashed_subnet_ids :: "uuid list"

record move_result =
  mr_blocks_moved :: nat
  mr_subnets_moved :: nat
  mr_addresses :: nat
  mr_reparented :: "uuid list"

section \<open>Ownership\<close>

text \<open>The owners of a row are the names of its ownership columns that are set.\<close>

definition INTEGRATION_OWNERSHIP :: "(string \<times> string) list" where
  "INTEGRATION_OWNERSHIP = [(''kubernetes_cluster_id'', ''kubernetes''), (''docker_host_id'', ''docker''),
     (''proxmox_node_id'', ''proxmox''), (''tailscale_tenant_id'', ''tailscale''), (''unifi_controller_id'', ''unifi''),
     (''cloud_endpoint_id'', ''cloud''), (''opnsense_router_id'', ''opnsense''), (''netbird_instance_id'', ''netbird''),
     (''panos_firewall_id'', ''paloalto''), (''fortinet_firewall_id'', ''fortinet''), (''meraki_org_id'', ''meraki'')]"

definition owning_integration :: "string list \<Rightarrow> string option" where
  "owning_integration owners = map_option snd (find (\<lambda>(fk, _). fk \<in> set owners) INTEGRATION_OWNERSHIP)"

definition owned_by_any :: "string list \<Rightarrow> bool" where
  "owned_by_any owners \<longleftrightarrow> list_ex (\<lambda>(fk, _). fk \<in> set owners) INTEGRATION_OWNERSHIP"

section \<open>The subtree\<close>

text \<open>The recursive query, level by level; with \<open>UNION ALL\<close> it only ends when a level is empty.\<close>

partial_function (option) descend :: "mv_db \<Rightarrow> uuid list \<Rightarrow> mv_block list \<Rightarrow> mv_block list option" where
  "descend d frontier acc = (if frontier = [] then Some acc
     else let nxt = filter (\<lambda>b. mb_parent_id b \<in> Some ` set frontier) (mv_blocks d) in
       descend d (map mb_id nxt) (acc @ nxt))"

declare descend.simps [code]

definition collect_descendants :: "mv_db \<Rightarrow> uuid \<Rightarrow> (uuid list \<times> uuid list \<times> uuid list \<times> nat) option" where
  "collect_descendants d root = (case descend d [root] [] of None \<Rightarrow> None
     | Some bs \<Rightarrow> (let ids = map mb_id bs; subs = filter (\<lambda>s. ms_block_id s \<in> set (root # ids)) (mv_subnets d);
           live = map ms_id (filter (\<lambda>s. \<not> ms_deleted s) subs); trashed = map ms_id (filter ms_deleted subs) in
         Some (ids, live, trashed, length (filter (\<lambda>a. ma_subnet_id a \<in> set live) (mv_addresses d)))))"

definition collect_integration_blockers :: "mv_db \<Rightarrow> uuid \<Rightarrow> uuid list \<Rightarrow> uuid list \<Rightarrow> integration_blocker list" where
  "collect_integration_blockers d root block_ids subnet_ids =
     (let blk = (\<lambda>k i n os. \<lparr>ib_kind = k, ib_resource_id = i, ib_network = n, ib_integration = owning_integration os\<rparr>) in
      map (\<lambda>b. blk ''block'' (mb_id b) (str_net (mb_network b)) (mb_owners b))
        (filter (\<lambda>b. mb_id b \<in> set (root # block_ids) \<and> owned_by_any (mb_owners b)) (mv_blocks d)) @
      (if subnet_ids = [] then []
       else map (\<lambda>s. blk ''subnet'' (ms_id s) (str_net (ms_network s)) (ms_owners s))
           (filter (\<lambda>s. ms_id s \<in> set subnet_ids \<and> owned_by_any (ms_owners s)) (mv_subnets d)) @
         map (\<lambda>a. blk ''ip_address'' (ma_id a) (str_ip (ma_address a)) (ma_owners a))
           (take 50 (filter (\<lambda>a. ma_subnet_id a \<in> set subnet_ids \<and> owned_by_any (ma_owners a)) (mv_addresses d)))))"

section \<open>The destination\<close>

text \<open>\<open>a.subnet_of(b)\<close> for networks of one family.\<close>

definition subnet_of :: "ipnet \<Rightarrow> ipnet \<Rightarrow> bool" where
  "subnet_of a b \<longleftrightarrow> network_address b \<le> network_address a \<and> broadcast_address a \<le> broadcast_address b"

definition siblings_in :: "mv_db \<Rightarrow> mv_block \<Rightarrow> uuid \<Rightarrow> uuid option \<Rightarrow> mv_block list" where
  "siblings_in d moved space parent = filter (\<lambda>b. mb_space_id b = space \<and> mb_parent_id b = parent \<and>
     overlaps (mb_network b) (mb_network moved) \<and> mb_id b \<noteq> mb_id moved \<and> \<not> mb_deleted b) (mv_blocks d)"

fun check_siblings :: "ipnet \<Rightarrow> mv_block list \<Rightarrow> move_error + uuid list" where
  "check_siblings net [] = Inr []"
| "check_siblings net (b # bs) =
     (if mb_network b = net then Inl (BlockMoveError 409 (''Target space already has a block '' @ str_net net @ '' at this level''))
      else if subnet_of (mb_network b) net
      then (case check_siblings net bs of Inl e \<Rightarrow> Inl e | Inr ids \<Rightarrow> Inr (mb_id b # ids))
      else if subnet_of net (mb_network b)
      then Inl (BlockMoveError 409 (''Target space contains an existing block '' @ str_net (mb_network b) @
        '' that would supernet the moved block '' @ str_net net @ ''; pick that block as the target parent instead.''))
      else Inl (BlockMoveError 409 (''Block '' @ str_net net @ '' overlaps with an existing block '' @ str_net (mb_network b) @
        '' in the target space.'')))"

definition check_overlap_in_target :: "mv_db \<Rightarrow> mv_block \<Rightarrow> uuid \<Rightarrow> uuid option \<Rightarrow> move_error + uuid list" where
  "check_overlap_in_target d moved space parent = check_siblings (mb_network moved) (siblings_in d moved space parent)"

definition validate_target_parent :: "mv_db \<Rightarrow> mv_block \<Rightarrow> uuid \<Rightarrow> uuid \<Rightarrow> move_error option" where
  "validate_target_parent d moved space parent_id =
     (case find (\<lambda>b. mb_id b = parent_id \<and> \<not> mb_deleted b) (mv_blocks d) of
        None \<Rightarrow> Some (BlockMoveError 404 ''Target parent block not found'')
      | Some p \<Rightarrow> (if mb_space_id p \<noteq> space then Some (BlockMoveError 422 ''Target parent block does not belong to the target space'')
          else if mb_id p = mb_id moved then Some (BlockMoveError 422 ''Target parent cannot be the moved block itself'')
          else if version (mb_network moved) \<noteq> version (mb_network p) then Some TypeError
          else if \<not> subnet_of (mb_network moved) (mb_network p)
          then Some (BlockMoveError 422 (''Moved block '' @ str_net (mb_network moved) @ '' is not contained in target parent '' @ str_net (mb_network p)))
          else if mb_network moved = mb_network p
          then Some (BlockMoveError 422 (''Moved block and target parent are the same CIDR; pick the parent's parent or remove '' @
            ''the target_parent_id to land at top level.''))
          else None))"

section \<open>The move\<close>

definition get_space :: "mv_db \<Rightarrow> uuid \<Rightarrow> mv_space option" where
  "get_space d i = find (\<lambda>s. mp_id s = i \<and> \<not> mp_deleted s) (mv_spaces d)"

definition move_warnings :: "mv_db \<Rightarrow> mv_block \<Rightarrow> mv_space \<Rightarrow> string list" where
  "move_warnings d moved target =
     (case get_space d (mb_space_id moved) of
        Some src \<Rightarrow> if mp_vrf_id src \<noteq> None \<and> mp_vrf_id target \<noteq> None \<and> mp_vrf_id src \<noteq> mp_vrf_id target
          then [''Source and target spaces have different VRFs - moved block will inherit the target space's VRF unless it '' @
            ''overrides via vrf_id.''] else []
      | None \<Rightarrow> []) @
     (if owning_integration (mb_owners moved) \<noteq> None
      then [''The moved block itself is owned by an integration reconciler - the move will be refused unless the integration is '' @
        ''detached first.''] else [])"

definition assemble_move_plan :: "mv_db \<Rightarrow> mv_block \<Rightarrow> uuid \<Rightarrow> uuid option \<Rightarrow> (move_error + move_plan) option" where
  "assemble_move_plan d moved target parent =
     (case get_space d target of None \<Rightarrow> Some (Inl (BlockMoveError 404 ''Target IP space not found''))
      | Some sp \<Rightarrow>
        if mp_id sp = mb_space_id moved \<and> parent = None
        then Some (Inl (BlockMoveError 422 ''Block is already at top level of this space - nothing to do.''))
        else (case Option.bind parent (validate_target_parent d moved target) of Some e \<Rightarrow> Some (Inl e)
          | None \<Rightarrow> (case collect_descendants d (mb_id moved) of None \<Rightarrow> None
              | Some (bs, ss, ts, n) \<Rightarrow>
                  (case check_overlap_in_target d moved target parent of Inl e \<Rightarrow> Some (Inl e)
                   | Inr chain \<Rightarrow> Some (Inr \<lparr>pl_block_id = mb_id moved, pl_source_space_id = mb_space_id moved, pl_target_space_id = target,
                       pl_target_parent_id = parent, pl_descendant_block_ids = bs, pl_descendant_subnet_ids = ss, pl_descendant_ip_count = n,
                       pl_reparent_chain_block_ids = chain, pl_integration_blockers = collect_integration_blockers d (mb_id moved) bs ss,
                       pl_warnings = move_warnings d moved sp, pl_trashed_subnet_ids = ts\<rparr>)))))"

text \<open>The rewrite, in the order of its statements.\<close>

definition rewrite :: "move_plan \<Rightarrow> mv_db \<Rightarrow> mv_db" where
  "rewrite p d =
     (let b1 = map (\<lambda>b. if mb_id b = pl_block_id p then b\<lparr>mb_space_id := pl_target_space_id p, mb_parent_id := pl_target_parent_id p\<rparr> else b) (mv_blocks d);
          b2 = map (\<lambda>b. if mb_id b \<in> set (pl_descendant_block_ids p) then b\<lparr>mb_space_id := pl_target_space_id p\<rparr> else b) b1;
          s3 = map (\<lambda>s. if ms_id s \<in> set (pl_descendant_subnet_ids p @ pl_trashed_subnet_ids p) then s\<lparr>ms_space_id := pl_target_space_id p\<rparr> else s) (mv_subnets d);
          b5 = map (\<lambda>b. if mb_id b \<in> set (pl_reparent_chain_block_ids p) then b\<lparr>mb_parent_id := Some (pl_block_id p)\<rparr> else b) b2 in
      d\<lparr>mv_blocks := b5, mv_subnets := s3\<rparr>)"

definition commit_move :: "mv_db \<Rightarrow> mv_block \<Rightarrow> uuid \<Rightarrow> uuid option \<Rightarrow> string \<Rightarrow> bool \<Rightarrow> (move_error + move_result \<times> mv_db) option" where
  "commit_move d moved target parent confirmation locked =
     (if py_strip confirmation \<noteq> str_net (mb_network moved)
      then Some (Inl (BlockMoveError 422 (''Confirmation CIDR '' @ quoted confirmation @ '' does not match block network '' @
        quoted (str_net (mb_network moved)) @ ''.'')))
      else if \<not> locked then Some (Inl (BlockMoveError 423 ''Another move is in progress for this block. Try again shortly.''))
      else case assemble_move_plan d moved target parent of None \<Rightarrow> None
        | Some (Inl e) \<Rightarrow> Some (Inl e)
        | Some (Inr p) \<Rightarrow> if pl_integration_blockers p \<noteq> []
            then Some (Inl (BlockMoveError 409 (nat_digits (length (pl_integration_blockers p)) @
              '' integration-owned descendant row(s) found - refuse to move. Detach the integration first.'')))
            else Some (Inr (\<lparr>mr_blocks_moved = 1 + length (pl_descendant_block_ids p), mr_subnets_moved = length (pl_descendant_subnet_ids p),
              mr_addresses = pl_descendant_ip_count p, mr_reparented = pl_reparent_chain_block_ids p\<rparr>, rewrite p d)))"

section \<open>A sound tree\<close>

text \<open>Every row is where its parent is: in the parent's space and inside the parent's network.\<close>

definition inside :: "ipnet \<Rightarrow> ipnet \<Rightarrow> bool" where
  "inside a b \<longleftrightarrow> wf_net a \<and> wf_net b \<and> addresses a \<subset> addresses b"

definition block_placed :: "mv_db \<Rightarrow> mv_block \<Rightarrow> bool" where
  "block_placed d b \<longleftrightarrow> (\<forall>p. mb_parent_id b = Some p \<longrightarrow>
     (\<exists>q \<in> set (mv_blocks d). mb_id q = p \<and> mb_space_id q = mb_space_id b \<and> inside (mb_network b) (mb_network q)))"

definition subnet_placed :: "mv_db \<Rightarrow> mv_subnet \<Rightarrow> bool" where
  "subnet_placed d s \<longleftrightarrow> (\<exists>q \<in> set (mv_blocks d). mb_id q = ms_block_id s \<and> mb_space_id q = ms_space_id s \<and>
     addresses (ms_network s) \<subseteq> addresses (mb_network q))"

definition tree_ok :: "mv_db \<Rightarrow> bool" where
  "tree_ok d \<longleftrightarrow> distinct (map mb_id (mv_blocks d)) \<and> distinct (map ms_id (mv_subnets d)) \<and>
     (\<forall>b \<in> set (mv_blocks d). wf_net (mb_network b) \<and> block_placed d b) \<and> (\<forall>s \<in> set (mv_subnets d). subnet_placed d s)"

lemma tree_blockD:
  assumes "tree_ok d" "b \<in> set (mv_blocks d)" "mb_parent_id b = Some p"
  obtains q where "q \<in> set (mv_blocks d)" "mb_id q = p" "mb_space_id q = mb_space_id b" "inside (mb_network b) (mb_network q)"
  using assms unfolding tree_ok_def block_placed_def by blast

lemma same_block:
  assumes "tree_ok d" "a \<in> set (mv_blocks d)" "b \<in> set (mv_blocks d)" "mb_id a = mb_id b"
  shows "a = b"
  using assms unfolding tree_ok_def distinct_map inj_on_def by blast

lemma addresses_version: "addresses a \<subseteq> addresses b \<Longrightarrow> version a = version b"
  using subsetD [OF _ broadcast_in(2), of a "addresses b"] by (simp add: addresses_def [of b])

lemma inside_prefix:
  assumes "inside a b"
  shows "prefixlen b < prefixlen a" "prefixlen a \<le> 128"
proof -
  have "card (addresses a) < card (addresses b)" using assms card_addresses(2) by (intro psubset_card_mono) (simp_all add: inside_def)
  then have "num_addresses a < num_addresses b" by (simp add: card_addresses)
  moreover have "version a = version b" using assms addresses_version by (auto simp: inside_def)
  ultimately show "prefixlen b < prefixlen a" by (simp add: num_addresses_def)
  have "prefixlen a \<le> max_prefixlen (version a)" using assms by (simp add: inside_def wf_net_def)
  then show "prefixlen a \<le> 128" by (cases "version a") auto
qed

section \<open>The walk\<close>

text \<open>What the walk adds: the rows below the frontier, all of them, and nothing that is not inside the frontier's network.\<close>

definition below_walk :: "mv_db \<Rightarrow> uuid set \<Rightarrow> mv_block list \<Rightarrow> (ip_version \<times> nat) set \<Rightarrow> bool" where
  "below_walk d F new N \<longleftrightarrow> set new \<subseteq> set (mv_blocks d) \<and>
    (\<forall>b \<in> set new. mb_parent_id b \<in> Some ` (F \<union> mb_id ` set new)) \<and>
    (\<forall>b \<in> set (mv_blocks d). mb_parent_id b \<in> Some ` (F \<union> mb_id ` set new) \<longrightarrow> b \<in> set new) \<and>
    (\<forall>b \<in> set new. addresses (mb_network b) \<subset> N)"

lemma descend_below:
  assumes "tree_ok d" "\<forall>b \<in> set (mv_blocks d). mb_id b \<in> set frontier \<longrightarrow> k \<le> prefixlen (mb_network b) \<and> addresses (mb_network b) \<subseteq> N"
  shows "\<exists>new. descend d frontier acc = Some (acc @ new) \<and> below_walk d (set frontier) new N"
  using assms(2)
proof (induction "129 - k" arbitrary: k frontier acc)
  case 0
  have none: "filter (\<lambda>b. mb_parent_id b \<in> Some ` set frontier) (mv_blocks d) = []"
  proof (rule ccontr)
    assume "\<not> ?thesis"
    then obtain b p where b: "b \<in> set (mv_blocks d)" "mb_parent_id b = Some p" "p \<in> set frontier"
      unfolding filter_empty_conv by blast
    obtain q where q: "q \<in> set (mv_blocks d)" "mb_id q = p" "inside (mb_network b) (mb_network q)"
      using tree_blockD [OF assms(1) b(1,2)] by blast
    have "k \<le> prefixlen (mb_network q)" using 0(2) q(1,2) b(3) by blast
    then show False using inside_prefix [OF q(3)] 0(1) by simp
  qed
  have e: "descend d [] acc = Some acc" by (subst descend.simps) simp
  have "descend d frontier acc = Some acc"
  proof (cases "frontier = []")
    case False
    then have "descend d frontier acc = descend d [] acc" using none by (subst descend.simps) simp
    then show ?thesis using e by simp
  qed (use e in simp)
  then show ?case using none by (intro exI [of _ "[]"]) (simp add: filter_empty_conv below_walk_def)
next
  case (Suc n)
  define nxt where "nxt = filter (\<lambda>b. mb_parent_id b \<in> Some ` set frontier) (mv_blocks d)"
  show ?case
  proof (cases "frontier = []")
    case True
    then show ?thesis by (intro exI [of _ "[]"]) (simp add: descend.simps below_walk_def)
  next
    case False
    have nxt_in: "Suc k \<le> prefixlen (mb_network b) \<and> addresses (mb_network b) \<subset> N" if b: "b \<in> set nxt" for b
    proof -
      have bd: "b \<in> set (mv_blocks d)" using b by (simp add: nxt_def)
      obtain p where p: "mb_parent_id b = Some p" "p \<in> set frontier" using b by (auto simp: nxt_def)
      obtain q where q: "q \<in> set (mv_blocks d)" "mb_id q = p" "inside (mb_network b) (mb_network q)"
        using tree_blockD [OF assms(1) bd p(1)] by blast
      have "k \<le> prefixlen (mb_network q)" "addresses (mb_network q) \<subseteq> N" using Suc.prems q(1,2) p(2) by blast+
      then show ?thesis using inside_prefix(1) [OF q(3)] q(3) unfolding inside_def by (metis Suc_leI le_less_trans psubset_subset_trans)
    qed
    have "\<forall>b \<in> set (mv_blocks d). mb_id b \<in> set (map mb_id nxt) \<longrightarrow> Suc k \<le> prefixlen (mb_network b) \<and> addresses (mb_network b) \<subseteq> N"
    proof (intro ballI impI)
      fix b
      assume b: "b \<in> set (mv_blocks d)" "mb_id b \<in> set (map mb_id nxt)"
      then obtain c where "c \<in> set nxt" "mb_id c = mb_id b" by (metis imageE list.set_map)
      then have "b \<in> set nxt" using same_block [OF assms(1) b(1), of c] by (simp add: nxt_def)
      then show "Suc k \<le> prefixlen (mb_network b) \<and> addresses (mb_network b) \<subseteq> N" using nxt_in by blast
    qed
    moreover have "n = 129 - Suc k" using Suc.hyps(2) by simp
    ultimately obtain new where walk: "descend d (map mb_id nxt) (acc @ nxt) = Some ((acc @ nxt) @ new)" "below_walk d (set (map mb_id nxt)) new N"
      using Suc.hyps(1) [of "Suc k" "map mb_id nxt" "acc @ nxt"] by blast
    note new = walk(2) [unfolded below_walk_def list.set_map]
    have nxt: "b \<in> set nxt \<longleftrightarrow> b \<in> set (mv_blocks d) \<and> mb_parent_id b \<in> Some ` set frontier" for b by (auto simp: nxt_def)
    have "descend d frontier acc = Some (acc @ (nxt @ new))" using False walk(1) by (subst descend.simps) (simp add: nxt_def Let_def)
    moreover have "below_walk d (set frontier) (nxt @ new) N"
      unfolding below_walk_def
    proof (intro conjI ballI impI)
      show "set (nxt @ new) \<subseteq> set (mv_blocks d)" using new nxt by auto
      show "mb_parent_id b \<in> Some ` (set frontier \<union> mb_id ` set (nxt @ new))" if "b \<in> set (nxt @ new)" for b
        using that new nxt [of b] unfolding set_append image_Un by blast
      show "b \<in> set (nxt @ new)" if "b \<in> set (mv_blocks d)" "mb_parent_id b \<in> Some ` (set frontier \<union> mb_id ` set (nxt @ new))" for b
        using that new nxt [of b] unfolding set_append image_Un by blast
      show "addresses (mb_network b) \<subset> N" if "b \<in> set (nxt @ new)" for b using that nxt_in new by auto
    qed
    ultimately show ?thesis by blast
  qed
qed

section \<open>What a move does\<close>

lemma subnet_of_iff: "version a = version b \<Longrightarrow> subnet_of a b \<longleftrightarrow> addresses a \<subseteq> addresses b"
proof -
  assume v: "version a = version b"
  have pos: "0 < num_addresses a" "0 < num_addresses b" by (rule num_addresses_pos)+
  show ?thesis
  proof
    assume s: "subnet_of a b"
    show "addresses a \<subseteq> addresses b"
    proof
      fix va
      assume "va \<in> addresses a"
      then show "va \<in> addresses b" using s v pos unfolding subnet_of_def broadcast_address_def addresses_def
        by (cases va) (auto simp del: num_addresses_pos)
    qed
  next
    assume "addresses a \<subseteq> addresses b"
    then have "(version a, broadcast_address a) \<in> addresses b" "(version a, network_address a) \<in> addresses b"
      using broadcast_in by blast+
    then show "subnet_of a b" using pos by (auto simp: subnet_of_def addresses_def broadcast_address_def)
  qed
qed

lemma same_addresses:
  assumes "wf_net a" "wf_net b" "addresses a = addresses b"
  shows "a = b"
proof -
  have v: "version a = version b" using addresses_version assms(3) by blast
  have "num_addresses a = num_addresses b" using card_addresses(1) assms(3) by metis
  then have "max_prefixlen (version a) - prefixlen a = max_prefixlen (version b) - prefixlen b" by (simp add: num_addresses_def)
  then have "prefixlen a = prefixlen b" using assms(1,2) v by (auto simp: wf_net_def)
  moreover have "network_address a = network_address b"
  proof -
    have "(version a, network_address a) \<in> addresses b" "(version b, network_address b) \<in> addresses a"
      using broadcast_in(2) [of a] broadcast_in(2) [of b] unfolding assms(3) by simp_all
    then show ?thesis by (simp add: addresses_def)
  qed
  ultimately show ?thesis using v by simp
qed

lemma strictly_inside:
  assumes "wf_net a" "wf_net b" "version a = version b" "subnet_of a b" "a \<noteq> b"
  shows "inside a b"
  using assms same_addresses subnet_of_iff unfolding inside_def by blast

lemma check_siblings_Inr:
  "check_siblings net bs = Inr ids \<Longrightarrow> ids = map mb_id bs \<and> (\<forall>b \<in> set bs. mb_network b \<noteq> net \<and> subnet_of (mb_network b) net)"
  by (induction bs arbitrary: ids) (auto split: if_splits sum.splits)

lemma validate_None:
  assumes "validate_target_parent d moved space p = None" "tree_ok d" "moved \<in> set (mv_blocks d)"
  shows "\<exists>q \<in> set (mv_blocks d). mb_id q = p \<and> mb_space_id q = space \<and> mb_id q \<noteq> mb_id moved \<and> inside (mb_network moved) (mb_network q)"
proof -
  obtain q where q: "find (\<lambda>b. mb_id b = p \<and> \<not> mb_deleted b) (mv_blocks d) = Some q"
    using assms(1) by (auto simp: validate_target_parent_def split: option.splits)
  then have f: "q \<in> set (mv_blocks d)" "mb_id q = p" using find_SomeD by fastforce+
  have "wf_net (mb_network q)" "wf_net (mb_network moved)" using assms(2,3) f(1) by (auto simp: tree_ok_def)
  moreover have "mb_space_id q = space" "mb_id q \<noteq> mb_id moved" "version (mb_network moved) = version (mb_network q)"
    "subnet_of (mb_network moved) (mb_network q)" "mb_network moved \<noteq> mb_network q"
    using assms(1) q by (auto simp: validate_target_parent_def split: if_splits)
  ultimately show ?thesis using f strictly_inside by blast
qed

text \<open>The rewritten rows of a successful move: the rows below, and the siblings taken over.\<close>

definition moved_row :: "mv_block \<Rightarrow> uuid \<Rightarrow> uuid option \<Rightarrow> uuid set \<Rightarrow> uuid set \<Rightarrow> mv_block \<Rightarrow> mv_block" where
  "moved_row moved target parent D R b =
     b\<lparr>mb_space_id := if mb_id b \<in> insert (mb_id moved) D then target else mb_space_id b,
       mb_parent_id := if mb_id b \<in> R then Some (mb_id moved) else if mb_id b = mb_id moved then parent else mb_parent_id b\<rparr>"

lemma moved_row_simps [simp]: "mb_id (moved_row m t p D R b) = mb_id b" "mb_network (moved_row m t p D R b) = mb_network b"
  "mb_deleted (moved_row m t p D R b) = mb_deleted b"
  "mb_space_id (moved_row m t p D R b) = (if mb_id b \<in> insert (mb_id m) D then t else mb_space_id b)"
  "mb_parent_id (moved_row m t p D R b) = (if mb_id b \<in> R then Some (mb_id m) else if mb_id b = mb_id m then p else mb_parent_id b)"
  by (simp_all add: moved_row_def)

lemma commit_moveD:
  assumes "commit_move d moved target parent confirmation locked = Some (Inr (res, d'))"
  obtains bs chain where "descend d [mb_id moved] [] = Some bs" "check_overlap_in_target d moved target parent = Inr chain"
    "Option.bind parent (validate_target_parent d moved target) = None"
    "mv_blocks d' = map (moved_row moved target parent (mb_id ` set bs) (set chain)) (mv_blocks d)"
    "mv_subnets d' = map (\<lambda>s. if ms_id s \<in> ms_id ` {s \<in> set (mv_subnets d). ms_block_id s \<in> insert (mb_id moved) (mb_id ` set bs)}
       then s\<lparr>ms_space_id := target\<rparr> else s) (mv_subnets d)"
    "collect_integration_blockers d (mb_id moved) (map mb_id bs) (map ms_id (filter (\<lambda>s. \<not> ms_deleted s)
       (filter (\<lambda>s. ms_block_id s \<in> set (mb_id moved # map mb_id bs)) (mv_subnets d)))) = []"
    "\<not> (target = mb_space_id moved \<and> parent = None)"
proof -
  obtain p where p: "assemble_move_plan d moved target parent = Some (Inr p)" "d' = rewrite p d" "pl_integration_blockers p = []"
    using assms by (auto simp: commit_move_def split: if_splits option.splits sum.splits)
  obtain bs where bs: "descend d [mb_id moved] [] = Some bs"
    using p(1) by (cases "descend d [mb_id moved] []")
      (auto simp: assemble_move_plan_def collect_descendants_def split: option.splits if_splits)
  obtain chain where chain: "check_overlap_in_target d moved target parent = Inr chain"
    using p(1) bs by (cases "check_overlap_in_target d moved target parent")
      (auto simp: assemble_move_plan_def collect_descendants_def Let_def split: option.splits if_splits)
  obtain sp where sp: "get_space d target = Some sp" using p(1) by (cases "get_space d target") (auto simp: assemble_move_plan_def)
  then have sp_id: "mp_id sp = target" using find_SomeD unfolding get_space_def by fastforce
  have top: "\<not> (target = mb_space_id moved \<and> parent = None)"
  proof
    assume "target = mb_space_id moved \<and> parent = None"
    then show False using p(1) sp sp_id by (simp add: assemble_move_plan_def)
  qed
  have "\<not> (mp_id sp = mb_space_id moved \<and> parent = None)" using top sp_id by simp
  note plan = p(1) [unfolded assemble_move_plan_def sp option.case if_not_P [OF this]]
  have v: "Option.bind parent (validate_target_parent d moved target) = None"
    using plan by (cases "Option.bind parent (validate_target_parent d moved target)") simp_all
  let ?subs = "filter (\<lambda>s. ms_block_id s \<in> set (mb_id moved # map mb_id bs)) (mv_subnets d)"
  have f: "pl_block_id p = mb_id moved" "pl_target_space_id p = target" "pl_target_parent_id p = parent"
    "pl_descendant_block_ids p = map mb_id bs" "pl_reparent_chain_block_ids p = chain"
    "pl_descendant_subnet_ids p = map ms_id (filter (\<lambda>s. \<not> ms_deleted s) ?subs)" "pl_trashed_subnet_ids p = map ms_id (filter ms_deleted ?subs)"
    "pl_integration_blockers p = collect_integration_blockers d (mb_id moved) (map mb_id bs) (map ms_id (filter (\<lambda>s. \<not> ms_deleted s) ?subs))"
    using plan v bs chain by (auto simp: collect_descendants_def Let_def)
  have b: "mv_blocks d' = map (moved_row moved target parent (mb_id ` set bs) (set chain)) (mv_blocks d)"
    unfolding p(2) rewrite_def Let_def by (simp add: f(1-5) moved_row_def)
  have "set (pl_descendant_subnet_ids p @ pl_trashed_subnet_ids p) =
    ms_id ` {s \<in> set (mv_subnets d). ms_block_id s \<in> insert (mb_id moved) (mb_id ` set bs)}"
    unfolding f(6,7) by auto
  then have "mv_subnets d' = map (\<lambda>s. if ms_id s \<in> ms_id ` {s \<in> set (mv_subnets d). ms_block_id s \<in> insert (mb_id moved) (mb_id ` set bs)}
       then s\<lparr>ms_space_id := target\<rparr> else s) (mv_subnets d)"
    unfolding p(2) rewrite_def Let_def f(2) by simp
  then show ?thesis using that [OF bs chain v b] p(3) top unfolding f(8) by blast
qed

section \<open>The tree stays sound\<close>

lemma walk_of_moved:
  assumes "tree_ok d" "moved \<in> set (mv_blocks d)"
  shows "\<exists>bs. descend d [mb_id moved] [] = Some bs \<and> below_walk d {mb_id moved} bs (addresses (mb_network moved))"
proof -
  have "\<forall>b \<in> set (mv_blocks d). mb_id b \<in> set [mb_id moved] \<longrightarrow> 0 \<le> prefixlen (mb_network b) \<and> addresses (mb_network b) \<subseteq> addresses (mb_network moved)"
    using same_block [OF assms(1) _ assms(2)] by force
  from descend_below [OF assms(1) this, of "[]"] show ?thesis by simp
qed

text \<open>The setting of a successful move: \<open>D\<close> are the ids below the moved block, \<open>R\<close> those of the siblings taken over.\<close>

definition move_ok :: "mv_db \<Rightarrow> mv_block \<Rightarrow> uuid \<Rightarrow> uuid option \<Rightarrow> mv_block list \<Rightarrow> uuid set \<Rightarrow> bool" where
  "move_ok d moved target parent bs R \<longleftrightarrow> tree_ok d \<and> moved \<in> set (mv_blocks d) \<and> below_walk d {mb_id moved} bs (addresses (mb_network moved)) \<and>
     (\<forall>p. parent = Some p \<longrightarrow> (\<exists>q \<in> set (mv_blocks d). mb_id q = p \<and> mb_space_id q = target \<and> mb_id q \<noteq> mb_id moved \<and>
        inside (mb_network moved) (mb_network q))) \<and>
     (\<forall>b \<in> set (mv_blocks d). mb_id b \<in> R \<longrightarrow> mb_space_id b = target \<and> mb_parent_id b = parent \<and> mb_id b \<noteq> mb_id moved \<and>
        inside (mb_network b) (mb_network moved))"

lemma move_facts:
  assumes "move_ok d moved target parent bs R" "b \<in> set (mv_blocks d)"
  shows "mb_id b \<in> mb_id ` set bs \<Longrightarrow> mb_parent_id b \<in> Some ` insert (mb_id moved) (mb_id ` set bs)"
    "mb_parent_id b \<in> Some ` insert (mb_id moved) (mb_id ` set bs) \<Longrightarrow> mb_id b \<in> mb_id ` set bs"
    "mb_id b \<in> mb_id ` set bs \<Longrightarrow> addresses (mb_network b) \<subset> addresses (mb_network moved)"
    "mb_id b \<in> mb_id ` set bs \<Longrightarrow> mb_id b \<noteq> mb_id moved"
proof -
  have t: "tree_ok d" and m: "moved \<in> set (mv_blocks d)" and w: "below_walk d {mb_id moved} bs (addresses (mb_network moved))"
    using assms(1) by (simp_all add: move_ok_def)
  have eq: "insert (mb_id moved) (mb_id ` set bs) = {mb_id moved} \<union> mb_id ` set bs" by (rule insert_is_Un)
  have in_bs: "b \<in> set bs" if h: "mb_id b \<in> mb_id ` set bs"
  proof -
    obtain c where c: "c \<in> set bs" "mb_id b = mb_id c" using h by auto
    then have "c \<in> set (mv_blocks d)" using w by (auto simp: below_walk_def)
    then show ?thesis using same_block [OF t assms(2) _ c(2)] c(1) by simp
  qed
  show "mb_parent_id b \<in> Some ` insert (mb_id moved) (mb_id ` set bs)" if "mb_id b \<in> mb_id ` set bs"
    using w in_bs [OF that] unfolding below_walk_def eq by blast
  show "mb_id b \<in> mb_id ` set bs" if "mb_parent_id b \<in> Some ` insert (mb_id moved) (mb_id ` set bs)"
  proof -
    have "b \<in> set bs" using w assms(2) that unfolding below_walk_def eq by blast
    then show ?thesis by simp
  qed
  show strict: "addresses (mb_network b) \<subset> addresses (mb_network moved)" if "mb_id b \<in> mb_id ` set bs"
    using w in_bs [OF that] by (simp add: below_walk_def)
  show "mb_id b \<noteq> mb_id moved" if "mb_id b \<in> mb_id ` set bs"
    using strict [OF that] same_block [OF t assms(2) m] by auto
qed

lemma moved_block_placed:
  assumes ok: "move_ok d moved target parent bs R" and b: "b \<in> set (mv_blocks d)"
    and d': "mv_blocks d' = map (moved_row moved target parent (mb_id ` set bs) R) (mv_blocks d)"
  shows "block_placed d' (moved_row moved target parent (mb_id ` set bs) R b)"
proof -
  let ?D = "mb_id ` set bs" and ?f = "moved_row moved target parent (mb_id ` set bs) R"
  note F = move_facts [OF ok]
  have t: "tree_ok d" and m: "moved \<in> set (mv_blocks d)" using ok by (simp_all add: move_ok_def)
  have goal: "block_placed d' (?f b)"
    if "q \<in> set (mv_blocks d)" "mb_parent_id (?f b) = Some (mb_id q)" "mb_space_id (?f q) = mb_space_id (?f b)"
      "inside (mb_network b) (mb_network q)" for q
    using that unfolding block_placed_def d' by (auto intro!: bexI [of _ q] simp del: moved_row_simps(4,5))
  have R: "mb_id b \<in> R \<Longrightarrow> mb_space_id b = target \<and> mb_parent_id b = parent \<and> mb_id b \<noteq> mb_id moved \<and> inside (mb_network b) (mb_network moved)"
    using ok b by (simp add: move_ok_def)
  consider "mb_id b \<in> R" | "mb_id b \<notin> R" "mb_id b = mb_id moved" | "mb_id b \<notin> R" "mb_id b \<noteq> mb_id moved" by blast
  then show ?thesis
  proof cases
    case 1
    then show ?thesis using R [OF 1] m by (intro goal [of moved]) simp_all
  next
    case 2
    have bm: "b = moved" using same_block [OF t b m 2(2)] .
    show ?thesis
    proof (cases parent)
      case None
      then show ?thesis using 2 by (simp add: block_placed_def)
    next
      case (Some p)
      obtain q where q: "q \<in> set (mv_blocks d)" "mb_id q = p" "mb_space_id q = target" "mb_id q \<noteq> mb_id moved" "inside (mb_network moved) (mb_network q)"
        using ok Some unfolding move_ok_def by blast
      have "mb_id q \<notin> ?D" using F(3) [OF q(1)] q(5) by (auto simp: inside_def)
      then show ?thesis using q Some 2 bm by (intro goal [of q]) simp_all
    qed
  next
    case 3
    show ?thesis
    proof (cases "mb_parent_id b")
      case None
      then show ?thesis using 3 by (simp add: block_placed_def)
    next
      case (Some p)
      obtain q where q: "q \<in> set (mv_blocks d)" "mb_id q = p" "mb_space_id q = mb_space_id b" "inside (mb_network b) (mb_network q)"
        using tree_blockD [OF t b Some] by blast
      have "mb_id b \<in> ?D \<longleftrightarrow> mb_id q \<in> insert (mb_id moved) ?D" using F(1,2) [OF b] Some q(2) by auto
      then show ?thesis using q Some 3 by (intro goal [of q]) auto
    qed
  qed
qed

lemma moved_subnet_placed:
  assumes ok: "move_ok d moved target parent bs R" and s: "s \<in> set (mv_subnets d)"
    and d': "mv_blocks d' = map (moved_row moved target parent (mb_id ` set bs) R) (mv_blocks d)"
  shows "subnet_placed d' (if ms_id s \<in> ms_id ` {s \<in> set (mv_subnets d). ms_block_id s \<in> insert (mb_id moved) (mb_id ` set bs)}
       then s\<lparr>ms_space_id := target\<rparr> else s)"
proof -
  let ?D = "mb_id ` set bs" and ?f = "moved_row moved target parent (mb_id ` set bs) R"
  have t: "tree_ok d" using ok by (simp add: move_ok_def)
  then obtain q where q: "q \<in> set (mv_blocks d)" "mb_id q = ms_block_id s" "mb_space_id q = ms_space_id s"
    "addresses (ms_network s) \<subseteq> addresses (mb_network q)" using s unfolding tree_ok_def subnet_placed_def by blast
  have "inj_on ms_id (set (mv_subnets d))" using t by (simp add: tree_ok_def distinct_map)
  then have "ms_id s \<in> ms_id ` {s \<in> set (mv_subnets d). ms_block_id s \<in> insert (mb_id moved) ?D} \<longleftrightarrow> ms_block_id s \<in> insert (mb_id moved) ?D"
    using s inj_on_image_mem_iff [of ms_id "set (mv_subnets d)" s] by simp
  moreover have "?f q \<in> set (mv_blocks d')" using q(1) unfolding d' by simp
  ultimately show ?thesis using q unfolding subnet_placed_def by (intro bexI [of _ "?f q"]) auto
qed

lemma move_setting:
  assumes "tree_ok d" "moved \<in> set (mv_blocks d)" "commit_move d moved target parent confirmation locked = Some (Inr (res, d'))"
  obtains bs chain where "move_ok d moved target parent bs (set chain)"
    "mv_blocks d' = map (moved_row moved target parent (mb_id ` set bs) (set chain)) (mv_blocks d)"
    "mv_subnets d' = map (\<lambda>s. if ms_id s \<in> ms_id ` {s \<in> set (mv_subnets d). ms_block_id s \<in> insert (mb_id moved) (mb_id ` set bs)}
       then s\<lparr>ms_space_id := target\<rparr> else s) (mv_subnets d)"
    "chain = map mb_id (siblings_in d moved target parent)"
    "\<forall>b \<in> set (siblings_in d moved target parent). inside (mb_network b) (mb_network moved)"
  using assms(3)
proof (cases rule: commit_moveD)
  case (1 bs chain)
  have wf: "wf_net (mb_network b)" if "b \<in> set (mv_blocks d)" for b using assms(1) that by (simp add: tree_ok_def)
  have w: "below_walk d {mb_id moved} bs (addresses (mb_network moved))" using walk_of_moved [OF assms(1,2)] 1(1) by auto
  have c: "chain = map mb_id (siblings_in d moved target parent)"
    "\<forall>b \<in> set (siblings_in d moved target parent). mb_network b \<noteq> mb_network moved \<and> subnet_of (mb_network b) (mb_network moved)"
    using check_siblings_Inr 1(2) unfolding check_overlap_in_target_def by blast+
  have ins: "\<forall>b \<in> set (siblings_in d moved target parent). inside (mb_network b) (mb_network moved)"
  proof
    fix b
    assume b: "b \<in> set (siblings_in d moved target parent)"
    then have bd: "b \<in> set (mv_blocks d)" "overlaps (mb_network b) (mb_network moved)" by (simp_all add: siblings_in_def)
    then have "addresses (mb_network b) \<inter> addresses (mb_network moved) \<noteq> {}" using overlaps_iff wf assms(2) by blast
    then have "version (mb_network b) = version (mb_network moved)" by (auto simp: addresses_def)
    then show "inside (mb_network b) (mb_network moved)" using c(2) b bd(1) wf assms(2) strictly_inside by blast
  qed
  have "mb_space_id b = target \<and> mb_parent_id b = parent \<and> mb_id b \<noteq> mb_id moved \<and> inside (mb_network b) (mb_network moved)"
    if b: "b \<in> set (mv_blocks d)" "mb_id b \<in> set chain" for b
  proof -
    obtain c' where c': "c' \<in> set (siblings_in d moved target parent)" "mb_id b = mb_id c'" using b(2) unfolding c(1) by auto
    then have "b = c'" using same_block [OF assms(1) b(1)] by (simp add: siblings_in_def)
    then show ?thesis using c'(1) ins by (auto simp: siblings_in_def)
  qed
  moreover have "\<exists>q \<in> set (mv_blocks d). mb_id q = p \<and> mb_space_id q = target \<and> mb_id q \<noteq> mb_id moved \<and> inside (mb_network moved) (mb_network q)"
    if "parent = Some p" for p using validate_None [OF _ assms(1,2)] 1(3) that by simp
  ultimately have "move_ok d moved target parent bs (set chain)" using assms(1,2) w by (simp add: move_ok_def)
  then show ?thesis using that 1(4,5) c(1) ins by blast
qed

text \<open>C36: in a sound tree a move always answers, and a move that goes through leaves a sound tree: every block and every subnet, those
  in the Trash included, is in the space of its parent and inside its parent's network. The block lands where it was sent, and no
  row changes its network.\<close>

theorem move_keeps_tree:
  assumes "tree_ok d" "moved \<in> set (mv_blocks d)"
  shows "commit_move d moved target parent confirmation locked \<noteq> None \<and>
    (\<forall>res d'. commit_move d moved target parent confirmation locked = Some (Inr (res, d')) \<longrightarrow> tree_ok d' \<and>
       (\<exists>b \<in> set (mv_blocks d'). mb_id b = mb_id moved \<and> mb_space_id b = target \<and> mb_parent_id b = parent) \<and>
       map (\<lambda>b. (mb_id b, mb_network b, mb_deleted b)) (mv_blocks d') = map (\<lambda>b. (mb_id b, mb_network b, mb_deleted b)) (mv_blocks d) \<and>
       map (\<lambda>s. (ms_id s, ms_block_id s, ms_network s, ms_deleted s)) (mv_subnets d') =
         map (\<lambda>s. (ms_id s, ms_block_id s, ms_network s, ms_deleted s)) (mv_subnets d) \<and> mv_addresses d' = mv_addresses d)"
proof (intro conjI allI impI)
  obtain bs where "descend d [mb_id moved] [] = Some bs" using walk_of_moved [OF assms] by blast
  then show "commit_move d moved target parent confirmation locked \<noteq> None"
    by (auto simp: commit_move_def assemble_move_plan_def collect_descendants_def Let_def split: option.splits sum.splits)
next
  fix res d'
  assume c: "commit_move d moved target parent confirmation locked = Some (Inr (res, d'))"
  obtain bs chain where m: "move_ok d moved target parent bs (set chain)"
    and b: "mv_blocks d' = map (moved_row moved target parent (mb_id ` set bs) (set chain)) (mv_blocks d)"
    and s: "mv_subnets d' = map (\<lambda>s. if ms_id s \<in> ms_id ` {s \<in> set (mv_subnets d). ms_block_id s \<in> insert (mb_id moved) (mb_id ` set bs)}
       then s\<lparr>ms_space_id := target\<rparr> else s) (mv_subnets d)"
    using move_setting [OF assms c] by blast
  have "distinct (map mb_id (mv_blocks d'))" "distinct (map ms_id (mv_subnets d'))"
    using assms(1) unfolding b s tree_ok_def by (simp_all add: comp_def if_distrib cong: if_cong)
  moreover have "wf_net (mb_network x)" if "x \<in> set (mv_blocks d')" for x using that assms(1) unfolding b tree_ok_def by auto
  moreover have "block_placed d' x" if "x \<in> set (mv_blocks d')" for x using that moved_block_placed [OF m _ b] unfolding b by auto
  moreover have "subnet_placed d' x" if "x \<in> set (mv_subnets d')" for x
    using that unfolding s list.set_map by (rule imageE) (simp only: moved_subnet_placed [OF m _ b])
  ultimately show "tree_ok d'" by (simp add: tree_ok_def)
  have "mb_id moved \<notin> set chain" using m assms(2) by (auto simp: move_ok_def)
  then show "\<exists>b \<in> set (mv_blocks d'). mb_id b = mb_id moved \<and> mb_space_id b = target \<and> mb_parent_id b = parent"
    unfolding b using assms(2) by (auto intro!: bexI [of _ moved])
  show "map (\<lambda>b. (mb_id b, mb_network b, mb_deleted b)) (mv_blocks d') = map (\<lambda>b. (mb_id b, mb_network b, mb_deleted b)) (mv_blocks d)"
    by (simp add: b comp_def)
  show "map (\<lambda>s. (ms_id s, ms_block_id s, ms_network s, ms_deleted s)) (mv_subnets d') =
      map (\<lambda>s. (ms_id s, ms_block_id s, ms_network s, ms_deleted s)) (mv_subnets d)" by (simp add: s)
  show "mv_addresses d' = mv_addresses d" using c by (auto simp: commit_move_def rewrite_def Let_def split: if_splits option.splits sum.splits)
qed

section \<open>The destination\<close>

text \<open>The live blocks of one level.\<close>

definition level_at :: "mv_db \<Rightarrow> uuid \<Rightarrow> uuid option \<Rightarrow> mv_block list" where
  "level_at d space parent = filter (\<lambda>b. mb_space_id b = space \<and> mb_parent_id b = parent \<and> \<not> mb_deleted b) (mv_blocks d)"

definition level_disjoint :: "mv_db \<Rightarrow> uuid \<Rightarrow> uuid option \<Rightarrow> bool" where
  "level_disjoint d space parent \<longleftrightarrow> (\<forall>a \<in> set (level_at d space parent). \<forall>b \<in> set (level_at d space parent).
     mb_id a \<noteq> mb_id b \<longrightarrow> addresses (mb_network a) \<inter> addresses (mb_network b) = {})"

lemma level_member:
  assumes ok: "move_ok d moved target parent bs R" and x: "x \<in> set (level_at d' target parent)"
    and d': "mv_blocks d' = map (moved_row moved target parent (mb_id ` set bs) R) (mv_blocks d)"
  shows "\<exists>b \<in> set (mv_blocks d). mb_id b = mb_id x \<and> mb_network b = mb_network x \<and> mb_id b \<notin> R \<and> \<not> mb_deleted b \<and>
    (mb_id b = mb_id moved \<or> b \<in> set (level_at d target parent))"
proof -
  let ?D = "mb_id ` set bs"
  obtain b where b: "b \<in> set (mv_blocks d)" "x = moved_row moved target parent ?D R b" using x d' by (auto simp: level_at_def)
  have p: "mb_space_id x = target" "mb_parent_id x = parent" "\<not> mb_deleted x" using x by (simp_all add: level_at_def)
  have pm: "parent \<notin> Some ` insert (mb_id moved) ?D"
  proof
    assume "parent \<in> Some ` insert (mb_id moved) ?D"
    then obtain i where i: "parent = Some i" "i \<in> insert (mb_id moved) ?D" by blast
    then obtain q where q: "q \<in> set (mv_blocks d)" "mb_id q = i" "mb_id q \<noteq> mb_id moved" "inside (mb_network moved) (mb_network q)"
      using ok unfolding move_ok_def by blast
    then have "addresses (mb_network q) \<subset> addresses (mb_network moved)" using move_facts(3) [OF ok q(1)] i(2) by auto
    then show False using q(4) by (auto simp: inside_def)
  qed
  have nR: "mb_id b \<notin> R" using p(2) pm b(2) by auto
  have "mb_id b = mb_id moved \<or> b \<in> set (level_at d target parent)"
  proof (cases "mb_id b = mb_id moved")
    case False
    then have "mb_parent_id b = parent" using p(2) nR b(2) by simp
    then have "mb_id b \<notin> ?D" using move_facts(1) [OF ok b(1)] pm by blast
    then show ?thesis using p False b nR by (auto simp: level_at_def)
  qed simp
  then show ?thesis using b nR p(3) by (intro bexI [OF _ b(1)]) simp
qed

text \<open>a move that goes through keeps the level the block lands on free of overlaps: if no two live blocks of the target space
  with the target parent overlapped before, none do afterwards, the moved block included.\<close>

theorem move_keeps_destination_disjoint:
  assumes "tree_ok d" "moved \<in> set (mv_blocks d)" "commit_move d moved target parent confirmation locked = Some (Inr (res, d'))"
    "level_disjoint d target parent"
  shows "level_disjoint d' target parent"
  unfolding level_disjoint_def
proof (intro ballI impI)
  fix x y
  assume x: "x \<in> set (level_at d' target parent)" and y: "y \<in> set (level_at d' target parent)" and ne: "mb_id x \<noteq> mb_id y"
  obtain bs chain where m: "move_ok d moved target parent bs (set chain)"
    and b: "mv_blocks d' = map (moved_row moved target parent (mb_id ` set bs) (set chain)) (mv_blocks d)"
    and chain: "chain = map mb_id (siblings_in d moved target parent)"
    using move_setting [OF assms(1-3)] by metis
  have free: "addresses (mb_network c) \<inter> addresses (mb_network moved) = {}"
    if "c \<in> set (level_at d target parent)" "mb_id c \<notin> set chain" "mb_id c \<noteq> mb_id moved" for c
  proof (rule ccontr)
    assume "addresses (mb_network c) \<inter> addresses (mb_network moved) \<noteq> {}"
    then have "overlaps (mb_network c) (mb_network moved)"
      using overlaps_iff that(1) assms(1,2) by (simp add: level_at_def tree_ok_def)
    then have "c \<in> set (siblings_in d moved target parent)" using that(1,3) by (simp add: siblings_in_def level_at_def)
    then show False using that(2) chain by simp
  qed
  obtain u where u: "u \<in> set (mv_blocks d)" "mb_id u = mb_id x" "mb_network u = mb_network x" "mb_id u \<notin> set chain"
    "mb_id u = mb_id moved \<or> u \<in> set (level_at d target parent)" using level_member [OF m x b] by blast
  obtain w where w: "w \<in> set (mv_blocks d)" "mb_id w = mb_id y" "mb_network w = mb_network y" "mb_id w \<notin> set chain"
    "mb_id w = mb_id moved \<or> w \<in> set (level_at d target parent)" using level_member [OF m y b] by blast
  have um: "mb_id u = mb_id moved \<Longrightarrow> u = moved" and wm: "mb_id w = mb_id moved \<Longrightarrow> w = moved"
    using same_block [OF assms(1)] u(1) w(1) assms(2) by blast+
  consider "mb_id u = mb_id moved" "mb_id w \<noteq> mb_id moved" | "mb_id w = mb_id moved" "mb_id u \<noteq> mb_id moved"
    | "mb_id u \<noteq> mb_id moved" "mb_id w \<noteq> mb_id moved" using ne u(2) w(2) by metis
  then have "addresses (mb_network u) \<inter> addresses (mb_network w) = {}"
  proof cases
    case 1
    then show ?thesis using free [of w] w(4,5) um by blast
  next
    case 2
    then show ?thesis using free [of u] u(4,5) wm by blast
  next
    case 3
    then show ?thesis using assms(4) u(2,5) w(2,5) ne unfolding level_disjoint_def by metis
  qed
  then show "addresses (mb_network x) \<inter> addresses (mb_network y) = {}" using u(3) w(3) by simp
qed

section \<open>Instances\<close>

definition net4 :: "nat \<Rightarrow> nat \<Rightarrow> ipnet" where
  "net4 a p = \<lparr>version = V4, network_address = a, prefixlen = p\<rparr>"

definition blk :: "uuid \<Rightarrow> uuid \<Rightarrow> uuid option \<Rightarrow> nat \<Rightarrow> nat \<Rightarrow> mv_block" where
  "blk i sp par a p = \<lparr>mb_id = i, mb_space_id = sp, mb_parent_id = par, mb_network = net4 a p, mb_owners = [], mb_deleted = False\<rparr>"

definition sub :: "uuid \<Rightarrow> uuid \<Rightarrow> uuid \<Rightarrow> nat \<Rightarrow> nat \<Rightarrow> mv_subnet" where
  "sub i b sp a p = \<lparr>ms_id = i, ms_block_id = b, ms_space_id = sp, ms_network = net4 a p, ms_owners = [], ms_deleted = False\<rparr>"

text \<open>10.0.0.0/8 with 10.1.0.0/16 and its subnet 10.1.2.0/24 in space \<open>a\<close>; the same /16 and /24 in space \<open>b\<close>.\<close>

definition two_spaces :: mv_db where
  "two_spaces = \<lparr>mv_blocks = [blk ''m'' ''a'' None 167772160 8, blk ''c'' ''a'' (Some ''m'') 167837696 16, blk ''t'' ''b'' None 167837696 16],
     mv_subnets = [sub ''s1'' ''c'' ''a'' 167838208 24, sub ''s2'' ''t'' ''b'' 167838208 24], mv_addresses = [],
     mv_spaces = [\<lparr>mp_id = ''a'', mp_vrf_id = None, mp_deleted = False\<rparr>, \<lparr>mp_id = ''b'', mp_vrf_id = None, mp_deleted = False\<rparr>]\<rparr>"

abbreviation top_block :: mv_block where "top_block \<equiv> blk ''m'' ''a'' None 167772160 8"

lemma net4_inside: "inside (net4 167837696 16) (net4 167772160 8)" "addresses (net4 167838208 24) \<subseteq> addresses (net4 167837696 16)"
proof -
  have w: "wf_net (net4 167837696 16)" "wf_net (net4 167772160 8)" by code_simp+
  have "subnet_of (net4 167837696 16) (net4 167772160 8)" "net4 167837696 16 \<noteq> net4 167772160 8" by code_simp+
  then show "inside (net4 167837696 16) (net4 167772160 8)" using w by (intro strictly_inside) (simp_all add: net4_def)
  have "subnet_of (net4 167838208 24) (net4 167837696 16)" by code_simp
  then show "addresses (net4 167838208 24) \<subseteq> addresses (net4 167837696 16)" using subnet_of_iff by (simp add: net4_def)
qed

lemma two_spaces_ok: "tree_ok two_spaces" "top_block \<in> set (mv_blocks two_spaces)"
proof -
  have "distinct (map mb_id (mv_blocks two_spaces))" "distinct (map ms_id (mv_subnets two_spaces))"
    "\<forall>b \<in> set (mv_blocks two_spaces). wf_net (mb_network b)" by code_simp+
  moreover have "\<forall>b \<in> set (mv_blocks two_spaces). block_placed two_spaces b"
    using net4_inside(1) by (simp add: two_spaces_def block_placed_def blk_def)
  moreover have "\<forall>s \<in> set (mv_subnets two_spaces). subnet_placed two_spaces s"
    using net4_inside(2) by (simp add: two_spaces_def subnet_placed_def blk_def sub_def)
  ultimately show "tree_ok two_spaces" by (simp add: tree_ok_def)
  show "top_block \<in> set (mv_blocks two_spaces)" by (simp add: two_spaces_def)
qed

lemma two_spaces_move:
  "\<exists>r d'. commit_move two_spaces top_block ''b'' None ''10.0.0.0/8'' True = Some (Inr (r, d')) \<and>
     mv_blocks d' = [blk ''m'' ''b'' None 167772160 8, blk ''c'' ''b'' (Some ''m'') 167837696 16, blk ''t'' ''b'' (Some ''m'') 167837696 16] \<and>
     mv_subnets d' = [sub ''s1'' ''c'' ''b'' 167838208 24, sub ''s2'' ''t'' ''b'' 167838208 24]"
proof -
  have "case commit_move two_spaces top_block ''b'' None ''10.0.0.0/8'' True of Some (Inr (r, d')) \<Rightarrow>
     mv_blocks d' = [blk ''m'' ''b'' None 167772160 8, blk ''c'' ''b'' (Some ''m'') 167837696 16, blk ''t'' ''b'' (Some ''m'') 167837696 16] \<and>
     mv_subnets d' = [sub ''s1'' ''c'' ''b'' 167838208 24, sub ''s2'' ''t'' ''b'' 167838208 24] | _ \<Rightarrow> False" by code_simp
  then show ?thesis by (auto split: option.splits sum.splits)
qed

text \<open>The check at the destination looks at one level only: after this move the moved /8 has two children with the same network, and
  the space has two subnets with the same network.\<close>

lemma move_can_overlap_below:
  "\<exists>r d'. commit_move two_spaces top_block ''b'' None ''10.0.0.0/8'' True = Some (Inr (r, d')) \<and>
     \<not> level_disjoint d' ''b'' (Some ''m'') \<and>
     (\<exists>s \<in> set (mv_subnets d'). \<exists>u \<in> set (mv_subnets d'). ms_id s \<noteq> ms_id u \<and> ms_space_id s = ms_space_id u \<and> ms_network s = ms_network u)"
proof -
  obtain r d' where m: "commit_move two_spaces top_block ''b'' None ''10.0.0.0/8'' True = Some (Inr (r, d'))"
     "mv_blocks d' = [blk ''m'' ''b'' None 167772160 8, blk ''c'' ''b'' (Some ''m'') 167837696 16, blk ''t'' ''b'' (Some ''m'') 167837696 16]"
     "mv_subnets d' = [sub ''s1'' ''c'' ''b'' 167838208 24, sub ''s2'' ''t'' ''b'' 167838208 24]" using two_spaces_move by blast
  have "\<not> level_disjoint d' ''b'' (Some ''m'')" using card_addresses(3) [of "net4 167837696 16"] by (simp add: level_disjoint_def level_at_def m(2) blk_def)
  moreover have "\<exists>s \<in> set (mv_subnets d'). \<exists>u \<in> set (mv_subnets d'). ms_id s \<noteq> ms_id u \<and> ms_space_id s = ms_space_id u \<and> ms_network s = ms_network u"
    unfolding m(3) by (simp add: sub_def)
  ultimately show ?thesis using m(1) by blast
qed

text \<open>A nested block cannot be sent to the top level of its own space, and a parent of the other family is an uncaught error.\<close>

lemma nested_block_called_top:
  "commit_move two_spaces (blk ''c'' ''a'' (Some ''m'') 167837696 16) ''a'' None ''10.1.0.0/16'' True =
     Some (Inl (BlockMoveError 422 ''Block is already at top level of this space - nothing to do.''))"
  by code_simp

lemma other_family_raises:
  "commit_move (two_spaces\<lparr>mv_blocks := mv_blocks two_spaces @ [\<lparr>mb_id = ''v6'', mb_space_id = ''b'', mb_parent_id = None,
     mb_network = \<lparr>version = V6, network_address = 0, prefixlen = 8\<rparr>, mb_owners = [], mb_deleted = False\<rparr>]\<rparr>)
     top_block ''b'' (Some ''v6'') ''10.0.0.0/8'' True = Some (Inl TypeError)"
  by code_simp

theorem move_keeps_tree_witness:
  "\<exists>r d'. commit_move two_spaces top_block ''b'' None ''10.0.0.0/8'' True = Some (Inr (r, d')) \<and> tree_ok d'"
  using two_spaces_move move_keeps_tree [OF two_spaces_ok, of "''b''" None "''10.0.0.0/8''" True] by blast

theorem move_keeps_destination_disjoint_witness:
  "\<exists>r d'. commit_move two_spaces top_block ''b'' None ''10.0.0.0/8'' True = Some (Inr (r, d')) \<and> level_disjoint d' ''b'' None"
proof -
  have "level_disjoint two_spaces ''b'' None" by (simp add: level_disjoint_def level_at_def two_spaces_def blk_def)
  then show ?thesis using two_spaces_move move_keeps_destination_disjoint [OF two_spaces_ok] by blast
qed

end
