(* ===== verification/Block_Resize.thy ===== *)
theory Block_Resize
  imports Block_Move
begin

text \<open>
  Growing a block (\<^verbatim>\<open>services/ipam/resize.py\<close>): the validation it shares with the growth of a subnet, the preview and the commit.
  Uses the tables of \<open>Block_Move\<close>; the stored network of a block is a parsed one, names of rows and the log
  line are left out, the advisory lock is its answer. Arrows and dashes of the
  messages are written in ASCII.
\<close>

section \<open>Shared validation\<close>

text \<open>\<open>ResizeRaises\<close> is an exception nothing catches, by its name: the \<open>TypeError\<close> Python raises when networks of two families are
  compared.\<close>

datatype resize_error = ResizeError string nat | ResizeRaises string

text \<open>The text of a CIDR with the version, address and prefix length it spells, if any.\<close>

type_synonym cidr_text = "string \<times> cidr_column option"
type_synonym resize_conflict = "string \<times> string"

definition parse_cidr :: "string \<Rightarrow> cidr_text \<Rightarrow> resize_error + ipnet" where
  "parse_cidr label c = (case Option.bind (snd c) ip_network of
     None \<Rightarrow> Inl (ResizeError (''Invalid CIDR for '' @ label @ '': '' @ fst c) 422) | Some n \<Rightarrow> Inr n)"

definition validate_grow :: "string \<Rightarrow> ipnet \<Rightarrow> ipnet \<Rightarrow> resize_error option" where
  "validate_grow what old new =
     (if version old \<noteq> version new
      then Some (ResizeError (''Address family change is not supported (v4 <-> v6). Create a new subnet in the target family instead.'') 422)
      else if prefixlen old \<le> prefixlen new
      then Some (ResizeError (''Resize is grow-only - the new CIDR must have a smaller prefix length (shorter mask) than the current /'' @
        nat_digits (prefixlen old) @ ''. To reduce a '' @ what @ '', delete it and recreate at the smaller size.'') 422)
      else if \<not> subnet_of old new
      then Some (ResizeError (str_net old @ '' is not contained within '' @ str_net new @
        '' - resize only grows; it does not move the network address outside the original range.'') 422)
      else None)"

text \<open>Both parent checks: of a subnet with its block, and of a block with its parent.\<close>

definition parent_containment_conflicts :: "mv_block list \<Rightarrow> uuid option \<Rightarrow> ipnet \<Rightarrow> resize_error + resize_conflict list" where
  "parent_containment_conflicts bs parent n = (case parent of None \<Rightarrow> Inr []
     | Some p \<Rightarrow> (case find (\<lambda>b. mb_id b = p \<and> \<not> mb_deleted b) bs of None \<Rightarrow> Inr []
         | Some q \<Rightarrow> if version n \<noteq> version (mb_network q) then Inl (ResizeRaises ''TypeError'')
             else if \<not> subnet_of n (mb_network q)
             then Inr [(''parent_too_small'', ''Proposed CIDR '' @ str_net n @ '' does not fit inside the parent block '' @
               str_net (mb_network q) @ ''. Resize the parent block first.'')]
             else Inr []))"

definition overlap_conflict :: "string \<Rightarrow> ipnet \<Rightarrow> uuid \<Rightarrow> resize_conflict" where
  "overlap_conflict kind n i = (kind @ ''_overlap'', ''New CIDR overlaps existing '' @ kind @ '' '' @ str_net n @ '' (id='' @ i @ '')'')"

section \<open>Overlaps of a growing block\<close>

text \<open>The recursive query up the parents; \<open>UNION\<close> drops what it has seen, so it ends on a cycle too.\<close>

function ancestors_walk :: "mv_block list \<Rightarrow> uuid list \<Rightarrow> uuid list \<Rightarrow> uuid list" where
  "ancestors_walk bs frontier acc = (if frontier = [] then acc
     else let nxt = remdups (filter (\<lambda>p. p \<notin> set acc) (List.map_filter mb_parent_id (filter (\<lambda>b. mb_id b \<in> set frontier) bs))) in
       ancestors_walk bs nxt (acc @ nxt))"
  by pat_completeness auto

termination
proof (relation "measures [\<lambda>(bs, F, acc). card (set (List.map_filter mb_parent_id bs) - set acc), \<lambda>(bs, F, acc). length F]")
  fix bs :: "mv_block list" and F acc nxt :: "uuid list"
  assume F: "F \<noteq> []"
    and n: "nxt = remdups (filter (\<lambda>p. p \<notin> set acc) (List.map_filter mb_parent_id (filter (\<lambda>b. mb_id b \<in> set F) bs)))"
  let ?P = "set (List.map_filter mb_parent_id bs)"
  have sub: "set nxt \<subseteq> ?P - set acc" unfolding n by (auto simp: List.map_filter_def)
  have "card (?P - set (acc @ nxt)) < card (?P - set acc)" if "nxt \<noteq> []"
  proof (rule psubset_card_mono)
    have "hd nxt \<in> set nxt" using that by simp
    then show "?P - set (acc @ nxt) \<subset> ?P - set acc" using sub by auto
  qed simp
  then show "((bs, nxt, acc @ nxt), (bs, F, acc)) \<in>
      measures [\<lambda>(bs, F, acc). card (set (List.map_filter mb_parent_id bs) - set acc), \<lambda>(bs, F, acc). length F]"
    using F by (cases "nxt = []") auto
qed simp

declare ancestors_walk.simps [simp del]

definition ancestors_of :: "mv_block list \<Rightarrow> uuid \<Rightarrow> uuid list" where
  "ancestors_of bs i = ancestors_walk bs [i] []"

definition overlap_conflicts_space_blocks :: "mv_db \<Rightarrow> uuid \<Rightarrow> ipnet \<Rightarrow> uuid \<Rightarrow> resize_conflict list option" where
  "overlap_conflicts_space_blocks d space n i = (case descend d [i] [] of None \<Rightarrow> None
     | Some below \<Rightarrow> Some (map (\<lambda>b. overlap_conflict ''block'' (mb_network b) (mb_id b))
         (filter (\<lambda>b. mb_space_id b = space \<and> overlaps (mb_network b) n \<and> \<not> mb_deleted b \<and>
            mb_id b \<notin> set (i # map mb_id below) \<and> mb_id b \<notin> set (ancestors_of (mv_blocks d) i)) (mv_blocks d))))"

definition overlap_conflicts_space_subnets_for_block :: "mv_db \<Rightarrow> uuid \<Rightarrow> ipnet \<Rightarrow> uuid \<Rightarrow> resize_conflict list option" where
  "overlap_conflicts_space_subnets_for_block d space n i = (case descend d [i] [] of None \<Rightarrow> None
     | Some below \<Rightarrow> Some (map (\<lambda>s. overlap_conflict ''subnet'' (ms_network s) (ms_id s))
         (filter (\<lambda>s. ms_space_id s = space \<and> overlaps (ms_network s) n \<and> \<not> ms_deleted s \<and>
            ms_block_id s \<notin> set (i # map mb_id below)) (mv_subnets d))))"

section \<open>The rows below\<close>

text \<open>The walk that leaves rows in the Trash out, with the live subnets it reaches.\<close>

definition live_blocks_below :: "mv_db \<Rightarrow> uuid \<Rightarrow> mv_block list option" where
  "live_blocks_below d i = map_option (filter (\<lambda>b. mb_id b \<noteq> i))
     (descend (d\<lparr>mv_blocks := filter (\<lambda>b. \<not> mb_deleted b) (mv_blocks d)\<rparr>) [i] [])"

definition live_subnets_below :: "mv_db \<Rightarrow> uuid \<Rightarrow> mv_block list \<Rightarrow> mv_subnet list" where
  "live_subnets_below d i below = filter (\<lambda>s. ms_block_id s \<in> set (i # map mb_id below) \<and> \<not> ms_deleted s) (mv_subnets d)"

definition outside_detail :: "string \<Rightarrow> ipnet \<Rightarrow> ipnet \<Rightarrow> string" where
  "outside_detail kind c n = ''Descendant '' @ kind @ '' '' @ str_net c @ '' would no longer fit inside '' @ str_net n"

fun child_conflicts :: "string \<Rightarrow> ipnet \<Rightarrow> ipnet list \<Rightarrow> resize_error + resize_conflict list" where
  "child_conflicts kind n [] = Inr []"
| "child_conflicts kind n (c # cs) = (if version c \<noteq> version n then Inl (ResizeRaises ''TypeError'')
     else case child_conflicts kind n cs of Inl e \<Rightarrow> Inl e
       | Inr r \<Rightarrow> Inr ((if subnet_of c n then [] else [(''child_outside_new_cidr'', outside_detail kind c n)]) @ r))"

fun children_fit :: "string \<Rightarrow> ipnet \<Rightarrow> ipnet list \<Rightarrow> resize_error option" where
  "children_fit kind n [] = None"
| "children_fit kind n (c # cs) = (if version c \<noteq> version n then Some (ResizeRaises ''TypeError'')
     else if \<not> subnet_of c n then Some (ResizeError (outside_detail kind c n) 422) else children_fit kind n cs)"

section \<open>Preview\<close>

record block_resize_preview =
  bp_old_cidr :: string
  bp_new_cidr :: string
  bp_shifts :: bool
  bp_old_network_ip :: string
  bp_new_network_ip :: string
  bp_total_before :: nat
  bp_total_after :: nat
  bp_child_blocks :: "(uuid \<times> string) list"
  bp_child_subnets :: "(uuid \<times> string) list"
  bp_addresses :: nat
  bp_conflicts :: "resize_conflict list"
  bp_warnings :: "string list"

definition net_ip :: "ipnet \<Rightarrow> string" where
  "net_ip n = str_ip (version n, network_address n)"

text \<open>The checks of a growing block against its space: the parent's edge, the other blocks, the subnets.\<close>

definition block_space_conflicts :: "mv_db \<Rightarrow> mv_block \<Rightarrow> ipnet \<Rightarrow> (resize_error + resize_conflict list) option" where
  "block_space_conflicts d b n = (case parent_containment_conflicts (mv_blocks d) (mb_parent_id b) n of Inl e \<Rightarrow> Some (Inl e)
     | Inr ps \<Rightarrow> (case overlap_conflicts_space_blocks d (mb_space_id b) n (mb_id b) of None \<Rightarrow> None
         | Some bs \<Rightarrow> (case overlap_conflicts_space_subnets_for_block d (mb_space_id b) n (mb_id b) of None \<Rightarrow> None
             | Some ss \<Rightarrow> Some (Inr (ps @ bs @ ss)))))"

definition block_preview_of :: "mv_db \<Rightarrow> mv_block \<Rightarrow> ipnet \<Rightarrow> resize_conflict list \<Rightarrow> (resize_error + block_resize_preview) option" where
  "block_preview_of d b n conflicts = (case live_blocks_below d (mb_id b) of None \<Rightarrow> None
     | Some below \<Rightarrow> (let subs = live_subnets_below d (mb_id b) below; old = mb_network b in
         case child_conflicts ''block'' n (map mb_network below) of Inl e \<Rightarrow> Some (Inl e)
         | Inr cb \<Rightarrow> (case child_conflicts ''subnet'' n (map ms_network subs) of Inl e \<Rightarrow> Some (Inl e)
             | Inr cs \<Rightarrow> Some (Inr \<lparr>bp_old_cidr = str_net old, bp_new_cidr = str_net n, bp_shifts = (net_ip n \<noteq> net_ip old),
                 bp_old_network_ip = net_ip old, bp_new_network_ip = net_ip n, bp_total_before = num_addresses old,
                 bp_total_after = num_addresses n, bp_child_blocks = map (\<lambda>c. (mb_id c, str_net (mb_network c))) below,
                 bp_child_subnets = map (\<lambda>s. (ms_id s, str_net (ms_network s))) subs,
                 bp_addresses = length (filter (\<lambda>a. ma_subnet_id a \<in> ms_id ` set subs) (mv_addresses d)),
                 bp_conflicts = conflicts @ cb @ cs,
                 bp_warnings = (if net_ip n \<noteq> net_ip old
                   then [''The block network address shifts from '' @ net_ip old @ '' to '' @ net_ip n @
                     ''. Child subnets are unchanged; only the block's displayed container CIDR moves.''] else [])\<rparr>))))"

definition preview_block_resize :: "mv_db \<Rightarrow> mv_block \<Rightarrow> cidr_text \<Rightarrow> (resize_error + block_resize_preview) option" where
  "preview_block_resize d b new = (case parse_cidr ''new CIDR'' new of
     Inl (ResizeError m st) \<Rightarrow> Some (Inr \<lparr>bp_old_cidr = str_net (mb_network b), bp_new_cidr = fst new, bp_shifts = False,
         bp_old_network_ip = net_ip (mb_network b), bp_new_network_ip = [], bp_total_before = num_addresses (mb_network b), bp_total_after = 0,
         bp_child_blocks = [], bp_child_subnets = [], bp_addresses = 0, bp_conflicts = [(''validation'', m)], bp_warnings = []\<rparr>)
   | Inl (ResizeRaises x) \<Rightarrow> Some (Inl (ResizeRaises x))
   | Inr n \<Rightarrow> (case validate_grow ''block'' (mb_network b) n of
         Some (ResizeError m st) \<Rightarrow> block_preview_of d b n [(''validation'', m)]
       | Some (ResizeRaises x) \<Rightarrow> Some (Inl (ResizeRaises x))
       | None \<Rightarrow> (case block_space_conflicts d b n of None \<Rightarrow> None | Some (Inl e) \<Rightarrow> Some (Inl e)
           | Some (Inr cs) \<Rightarrow> block_preview_of d b n cs)))"

section \<open>Commit\<close>

record block_resize_result =
  br_block_id :: uuid
  br_old_cidr :: string
  br_new_cidr :: string
  br_summary :: "string list"

definition details :: "resize_conflict list \<Rightarrow> string" where
  "details cs = py_join ''; '' (map snd cs)"

definition set_block_network :: "uuid \<Rightarrow> ipnet \<Rightarrow> mv_db \<Rightarrow> mv_db" where
  "set_block_network i n d = d\<lparr>mv_blocks := map (\<lambda>b. if mb_id b = i then b\<lparr>mb_network := n\<rparr> else b) (mv_blocks d)\<rparr>"

text \<open>The last checks and the write.\<close>

definition apply_block_resize :: "mv_db \<Rightarrow> mv_block \<Rightarrow> ipnet \<Rightarrow> (resize_error + block_resize_result \<times> mv_db) option" where
  "apply_block_resize d b n = (case live_blocks_below d (mb_id b) of None \<Rightarrow> None
     | Some below \<Rightarrow> (case children_fit ''block'' n (map mb_network below) of Some e \<Rightarrow> Some (Inl e)
         | None \<Rightarrow> (case children_fit ''subnet'' n (map ms_network (live_subnets_below d (mb_id b) below)) of Some e \<Rightarrow> Some (Inl e)
             | None \<Rightarrow> Some (Inr (\<lparr>br_block_id = mb_id b, br_old_cidr = str_net (mb_network b), br_new_cidr = str_net n,
                 br_summary = [''Grew block '' @ str_net (mb_network b) @ '' -> '' @ str_net n,
                   ''Child blocks and subnets are unchanged - only the container widened.'']\<rparr>, set_block_network (mb_id b) n d)))))"

definition commit_block_resize :: "mv_db \<Rightarrow> mv_block \<Rightarrow> cidr_text \<Rightarrow> bool \<Rightarrow> (resize_error + block_resize_result \<times> mv_db) option" where
  "commit_block_resize d b new locked =
     (if \<not> locked then Some (Inl (ResizeError ''Another operation is already in progress for this block. Retry once it completes.'' 423))
      else case parse_cidr ''new CIDR'' new of Inl e \<Rightarrow> Some (Inl e)
      | Inr n \<Rightarrow> (case validate_grow ''block'' (mb_network b) n of Some e \<Rightarrow> Some (Inl e)
        | None \<Rightarrow> (case parent_containment_conflicts (mv_blocks d) (mb_parent_id b) n of Inl e \<Rightarrow> Some (Inl e)
          | Inr ((_, m) # _) \<Rightarrow> Some (Inl (ResizeError m 422))
          | Inr [] \<Rightarrow> (case overlap_conflicts_space_blocks d (mb_space_id b) n (mb_id b) of None \<Rightarrow> None
            | Some (c # cs) \<Rightarrow> Some (Inl (ResizeError (''New CIDR overlaps an existing block: '' @ details (c # cs)) 409))
            | Some [] \<Rightarrow> (case overlap_conflicts_space_subnets_for_block d (mb_space_id b) n (mb_id b) of None \<Rightarrow> None
              | Some (c # cs) \<Rightarrow> Some (Inl (ResizeError (''New CIDR overlaps an existing subnet: '' @ details (c # cs)) 409))
              | Some [] \<Rightarrow> apply_block_resize d b n)))))"

section \<open>The preview and the commit agree\<close>

lemma child_conflicts_clean: "(child_conflicts kind n cs = Inr []) \<longleftrightarrow> children_fit kind n cs = None"
  by (induction cs) (auto split: sum.splits)

lemma block_preview_of_clean:
  "(\<exists>p. block_preview_of d b n conflicts = Some (Inr p) \<and> bp_conflicts p = []) \<longleftrightarrow>
     conflicts = [] \<and> (\<exists>r. apply_block_resize d b n = Some (Inr r))"
  (is "?P \<longleftrightarrow> ?Q")
proof (cases "live_blocks_below d (mb_id b)")
  case (Some below)
  let ?cb = "map mb_network below" and ?cs = "map ms_network (live_subnets_below d (mb_id b) below)"
  have "?Q \<longleftrightarrow> conflicts = [] \<and> children_fit ''block'' n ?cb = None \<and> children_fit ''subnet'' n ?cs = None"
    by (auto simp: apply_block_resize_def Some split: option.splits)
  moreover have "?P \<longleftrightarrow> conflicts = [] \<and> child_conflicts ''block'' n ?cb = Inr [] \<and> child_conflicts ''subnet'' n ?cs = Inr []"
    by (auto simp: block_preview_of_def Some Let_def split: sum.splits)
  ultimately show ?thesis by (simp only: child_conflicts_clean)
qed (simp add: block_preview_of_def apply_block_resize_def)

text \<open>The preview of a block resize is honest. When the lock is free, the commit succeeds exactly when the preview comes back without a
  conflict, whatever the tables hold.\<close>

theorem block_preview_matches_commit:
  "(\<exists>p. preview_block_resize d b new = Some (Inr p) \<and> bp_conflicts p = []) \<longleftrightarrow> (\<exists>r. commit_block_resize d b new True = Some (Inr r))"
proof (cases "parse_cidr ''new CIDR'' new")
  case (Inl e)
  then show ?thesis by (cases e) (simp_all add: preview_block_resize_def commit_block_resize_def)
next
  case n: (Inr n)
  show ?thesis
  proof (cases "validate_grow ''block'' (mb_network b) n")
    case (Some e)
    then show ?thesis using n block_preview_of_clean [of d b n] by (cases e) (simp_all add: preview_block_resize_def commit_block_resize_def)
  next
    case None
    note pre = n None preview_block_resize_def commit_block_resize_def
    show ?thesis
    proof (cases "block_space_conflicts d b n")
      case None
      then show ?thesis by (auto simp: pre block_space_conflicts_def split: sum.splits option.splits list.splits)
    next
      case (Some r)
      then show ?thesis
      proof (cases r)
        case (Inl e)
        then show ?thesis using Some by (auto simp: pre block_space_conflicts_def split: sum.splits option.splits)
      next
        case (Inr cs)
        have "(\<exists>p. preview_block_resize d b new = Some (Inr p) \<and> bp_conflicts p = []) \<longleftrightarrow> cs = [] \<and> (\<exists>r. apply_block_resize d b n = Some (Inr r))"
          using Some Inr block_preview_of_clean by (simp add: pre)
        also have "\<dots> \<longleftrightarrow> (\<exists>r. commit_block_resize d b new True = Some (Inr r))"
          using Some Inr by (auto simp: pre block_space_conflicts_def split: sum.splits option.splits list.splits)
        finally show ?thesis .
      qed
    qed
  qed
qed

section \<open>The tree above and below a block\<close>

text \<open>A row's id with its parent's.\<close>

definition up :: "mv_block list \<Rightarrow> (uuid \<times> uuid) set" where
  "up bs = {(mb_id b, p) | b p. b \<in> set bs \<and> mb_parent_id b = Some p}"

lemma upI: "b \<in> set bs \<Longrightarrow> mb_parent_id b = Some p \<Longrightarrow> (mb_id b, p) \<in> up bs"
  by (auto simp: up_def)

lemma finite_up: "finite (up bs)"
proof -
  have "up bs \<subseteq> (\<lambda>b. (mb_id b, the (mb_parent_id b))) ` set bs" unfolding up_def by force
  then show ?thesis by (rule finite_subset) simp
qed

lemma parents_of: "set (List.map_filter mb_parent_id (filter (\<lambda>b. mb_id b \<in> F) bs)) = up bs `` F"
  by (force simp: map_filter_def up_def)

lemma trancl_closed:
  assumes "r `` F \<subseteq> S" "r `` S \<subseteq> S"
  shows "r\<^sup>+ `` F \<subseteq> S"
proof
  fix y
  assume "y \<in> r\<^sup>+ `` F"
  then obtain x where "x \<in> F" "(x, y) \<in> r\<^sup>+" by blast
  from this(2) show "y \<in> S" by induction (use \<open>x \<in> F\<close> assms in blast)+
qed

text \<open>The walk up finds the ancestors, all of them and nothing else.\<close>

lemma ancestors_walk_set:
  "\<forall>x \<in> set acc. x \<in> set F \<or> up bs `` {x} \<subseteq> set acc \<Longrightarrow> set (ancestors_walk bs F acc) = set acc \<union> (up bs)\<^sup>+ `` set F"
proof (induction bs F acc rule: ancestors_walk.induct)
  case (1 bs F acc)
  show ?case
  proof (cases "F = []")
    case True
    then show ?thesis by (simp add: ancestors_walk.simps)
  next
    case False
    define nxt where "nxt = remdups (filter (\<lambda>p. p \<notin> set acc) (List.map_filter mb_parent_id (filter (\<lambda>b. mb_id b \<in> set F) bs)))"
    have nxt: "set nxt = up bs `` set F - set acc"
    proof -
      have "set nxt = set (List.map_filter mb_parent_id (filter (\<lambda>b. mb_id b \<in> set F) bs)) - set acc" unfolding nxt_def by auto
      then show ?thesis unfolding parents_of .
    qed
    have "\<forall>x \<in> set (acc @ nxt). x \<in> set nxt \<or> up bs `` {x} \<subseteq> set (acc @ nxt)"
    proof
      fix x
      assume x: "x \<in> set (acc @ nxt)"
      then consider "x \<in> set nxt" | "x \<in> set acc" "x \<in> set F" | "x \<in> set acc" "up bs `` {x} \<subseteq> set acc" using 1(2) by auto
      then show "x \<in> set nxt \<or> up bs `` {x} \<subseteq> set (acc @ nxt)" by cases (auto simp: nxt)
    qed
    then have ih: "set (ancestors_walk bs nxt (acc @ nxt)) = set (acc @ nxt) \<union> (up bs)\<^sup>+ `` set nxt"
      using 1(1) [OF False nxt_def] by blast
    have e: "set (ancestors_walk bs F acc) = set (ancestors_walk bs nxt (acc @ nxt))"
      using False by (subst ancestors_walk.simps) (simp add: nxt_def Let_def)
    let ?S = "set acc \<union> set nxt \<union> (up bs)\<^sup>+ `` set nxt"
    have "(up bs)\<^sup>+ `` set F \<subseteq> ?S"
    proof (rule trancl_closed)
      show "up bs `` set F \<subseteq> ?S" by (auto simp: nxt)
      show "up bs `` ?S \<subseteq> ?S"
      proof
        fix y
        assume "y \<in> up bs `` ?S"
        then obtain x where x: "x \<in> ?S" "(x, y) \<in> up bs" by blast
        from x(1) consider "x \<in> set acc" "x \<in> set F" | "x \<in> set acc" "x \<notin> set F" | "x \<in> set nxt" | "x \<in> (up bs)\<^sup>+ `` set nxt" by blast
        then show "y \<in> ?S"
        proof cases
          case 1
          then show ?thesis using x(2) by (auto simp: nxt)
        next
          case 2
          then show ?thesis using x(2) "1.prems" by auto
        next
          case 3
          then show ?thesis using x(2) by (intro UnI2) blast
        next
          case 4
          then show ?thesis using x(2) by (intro UnI2) (blast intro: trancl_into_trancl)
        qed
      qed
    qed
    moreover have "set nxt \<subseteq> (up bs)\<^sup>+ `` set F" unfolding nxt by blast
    moreover have "(up bs)\<^sup>+ `` set nxt \<subseteq> (up bs)\<^sup>+ `` set F" unfolding nxt by (blast intro: trancl_into_trancl2)
    ultimately show ?thesis unfolding e ih set_append by blast
  qed
qed

lemma ancestors_of_set: "set (ancestors_of bs i) = {p. (i, p) \<in> (up bs)\<^sup>+}"
  using ancestors_walk_set [of "[]" "[i]" bs] by (auto simp: ancestors_of_def)

text \<open>The rows strictly below a set of ids, and the walk down.\<close>

definition below :: "mv_block list \<Rightarrow> uuid set \<Rightarrow> mv_block set" where
  "below bs F = {b \<in> set bs. \<exists>p. mb_parent_id b = Some p \<and> (\<exists>f \<in> F. (p, f) \<in> (up bs)\<^sup>*)}"

lemma below_step: "below bs F = {b \<in> set bs. mb_parent_id b \<in> Some ` F} \<union> below bs (mb_id ` {b \<in> set bs. mb_parent_id b \<in> Some ` F})"
  (is "_ = ?N \<union> below bs (mb_id ` ?N)")
proof (intro equalityI subsetI)
  fix b
  assume "b \<in> below bs F"
  then obtain p f where b: "b \<in> set bs" "mb_parent_id b = Some p" "f \<in> F" "(p, f) \<in> (up bs)\<^sup>*" by (auto simp: below_def)
  show "b \<in> ?N \<union> below bs (mb_id ` ?N)"
  proof (cases "p = f")
    case False
    then obtain q where q: "(p, q) \<in> (up bs)\<^sup>*" "(q, f) \<in> up bs" using b(4) by (meson rtranclE)
    then have "q \<in> mb_id ` ?N" using b(3) by (auto simp: up_def)
    then show ?thesis using b(1,2) q(1) by (auto simp: below_def)
  qed (use b in simp)
next
  fix b
  assume "b \<in> ?N \<union> below bs (mb_id ` ?N)"
  then show "b \<in> below bs F"
  proof
    assume "b \<in> below bs (mb_id ` ?N)"
    then obtain p c f where b: "b \<in> set bs" "mb_parent_id b = Some p" "(p, mb_id c) \<in> (up bs)\<^sup>*" "c \<in> set bs" "mb_parent_id c = Some f" "f \<in> F"
      by (auto simp: below_def)
    then have "(p, f) \<in> (up bs)\<^sup>*" using upI by (meson rtrancl_into_rtrancl)
    then show ?thesis using b by (auto simp: below_def)
  qed (auto simp: below_def)
qed

lemma below_ids: "mb_id ` below bs F = {x. \<exists>f \<in> F. (x, f) \<in> (up bs)\<^sup>+}"
proof (intro equalityI subsetI)
  fix x
  assume "x \<in> mb_id ` below bs F"
  then obtain b p f where "b \<in> set bs" "mb_parent_id b = Some p" "f \<in> F" "(p, f) \<in> (up bs)\<^sup>*" "x = mb_id b" by (auto simp: below_def)
  then show "x \<in> {x. \<exists>f \<in> F. (x, f) \<in> (up bs)\<^sup>+}" using rtrancl_into_trancl2 [OF upI] by blast
next
  fix x
  assume "x \<in> {x. \<exists>f \<in> F. (x, f) \<in> (up bs)\<^sup>+}"
  then obtain f where f: "f \<in> F" "(x, f) \<in> (up bs)\<^sup>+" by blast
  then obtain p where p: "(x, p) \<in> up bs" "(p, f) \<in> (up bs)\<^sup>*" by (meson tranclD)
  then obtain b where "b \<in> set bs" "mb_id b = x" "mb_parent_id b = Some p" by (auto simp: up_def)
  then show "x \<in> mb_id ` below bs F" using f(1) p(2) by (auto simp: below_def intro!: image_eqI [of _ _ b])
qed

lemma below_empty: "below bs {} = {}"
  by (simp add: below_def)

text \<open>Where no block is above itself the walk down returns, with the rows below, all of them and nothing else.\<close>

lemma descend_set:
  assumes "acyclic (up (mv_blocks d))"
  shows "\<exists>new. descend d F acc = Some (acc @ new) \<and> set new = below (mv_blocks d) (set F)"
proof (induction "card (below (mv_blocks d) (set F))" arbitrary: F acc rule: less_induct)
  case less
  define nxt where "nxt = filter (\<lambda>b. mb_parent_id b \<in> Some ` set F) (mv_blocks d)"
  let ?U = "up (mv_blocks d)"
  show ?case
  proof (cases "F = []")
    case True
    then show ?thesis by (simp add: descend.simps below_empty)
  next
    case False
    have N: "set nxt = {b \<in> set (mv_blocks d). mb_parent_id b \<in> Some ` set F}" by (auto simp: nxt_def)
    have step: "below (mv_blocks d) (set F) = set nxt \<union> below (mv_blocks d) (set (map mb_id nxt))"
      using below_step [of "mv_blocks d" "set F"] by (simp add: N)
    have e: "descend d F acc = descend d (map mb_id nxt) (acc @ nxt)" using False by (subst descend.simps) (simp add: nxt_def Let_def)
    show ?thesis
    proof (cases "nxt = []")
      case True
      then have "below (mv_blocks d) (set F) = {}" unfolding step by (simp add: below_empty)
      moreover have "descend d F acc = Some acc" using e True by (simp add: descend.simps)
      ultimately show ?thesis by simp
    next
      case False
      obtain z where z: "z \<in> set nxt" "\<And>y. (mb_id z, y) \<in> ?U\<^sup>+ \<Longrightarrow> y \<notin> mb_id ` set nxt"
      proof -
        have "wf ((?U\<inverse>)\<^sup>+)" using finite_acyclic_wf_converse [OF finite_up assms] by (rule wf_trancl)
        then obtain m where "m \<in> mb_id ` set nxt" "\<And>y. (y, m) \<in> (?U\<inverse>)\<^sup>+ \<Longrightarrow> y \<notin> mb_id ` set nxt"
          using wfE_min [of _ _ "mb_id ` set nxt"] False by (metis empty_set ex_in_conv image_is_empty set_empty)
        then show ?thesis using that by (auto simp: trancl_converse)
      qed
      have "z \<notin> below (mv_blocks d) (set (map mb_id nxt))"
      proof
        assume "z \<in> below (mv_blocks d) (set (map mb_id nxt))"
        then have "mb_id z \<in> {x. \<exists>f \<in> set (map mb_id nxt). (x, f) \<in> ?U\<^sup>+}" using below_ids by blast
        then show False using z(2) by auto
      qed
      then have "below (mv_blocks d) (set (map mb_id nxt)) \<subset> below (mv_blocks d) (set F)" using z(1) step by blast
      moreover have "finite (below (mv_blocks d) (set F))" by (rule finite_subset [of _ "set (mv_blocks d)"]) (auto simp: below_def)
      ultimately have "card (below (mv_blocks d) (set (map mb_id nxt))) < card (below (mv_blocks d) (set F))" by (rule psubset_card_mono [rotated])
      then obtain new where new: "descend d (map mb_id nxt) (acc @ nxt) = Some ((acc @ nxt) @ new)" "set new = below (mv_blocks d) (set (map mb_id nxt))"
        using less by blast
      then show ?thesis using e step by (intro exI [of _ "nxt @ new"]) simp
    qed
  qed
qed

section \<open>A sound space\<close>

text \<open>Every row is under its parent: in the parent's space, inside its network, and not live under a row in the Trash. No block is above
  itself. Two live blocks of a space only share addresses when one is above the other, and a live block only shares addresses with a
  subnet below it. Unlike in \<open>Block_Move\<close>, a block may fill its parent: a resize allows it.\<close>

definition block_under :: "mv_db \<Rightarrow> mv_block \<Rightarrow> bool" where
  "block_under d b \<longleftrightarrow> (\<forall>p. mb_parent_id b = Some p \<longrightarrow> (\<exists>q \<in> set (mv_blocks d). mb_id q = p \<and> mb_space_id q = mb_space_id b \<and>
     addresses (mb_network b) \<subseteq> addresses (mb_network q) \<and> (mb_deleted q \<longrightarrow> mb_deleted b)))"

definition subnet_under :: "mv_db \<Rightarrow> mv_subnet \<Rightarrow> bool" where
  "subnet_under d s \<longleftrightarrow> (\<exists>q \<in> set (mv_blocks d). mb_id q = ms_block_id s \<and> mb_space_id q = ms_space_id s \<and>
     addresses (ms_network s) \<subseteq> addresses (mb_network q))"

definition related :: "mv_block list \<Rightarrow> uuid \<Rightarrow> uuid \<Rightarrow> bool" where
  "related bs i j \<longleftrightarrow> i = j \<or> (i, j) \<in> (up bs)\<^sup>+ \<or> (j, i) \<in> (up bs)\<^sup>+"

definition share :: "ipnet \<Rightarrow> ipnet \<Rightarrow> bool" where
  "share a b \<longleftrightarrow> addresses a \<inter> addresses b \<noteq> {}"

definition blocks_apart :: "mv_db \<Rightarrow> bool" where
  "blocks_apart d \<longleftrightarrow> (\<forall>a \<in> set (mv_blocks d). \<forall>b \<in> set (mv_blocks d). \<not> mb_deleted a \<and> \<not> mb_deleted b \<and>
     mb_space_id a = mb_space_id b \<and> share (mb_network a) (mb_network b) \<longrightarrow> related (mv_blocks d) (mb_id a) (mb_id b))"

definition subnets_apart :: "mv_db \<Rightarrow> bool" where
  "subnets_apart d \<longleftrightarrow> (\<forall>b \<in> set (mv_blocks d). \<forall>s \<in> set (mv_subnets d). \<not> mb_deleted b \<and> \<not> ms_deleted s \<and>
     mb_space_id b = ms_space_id s \<and> share (mb_network b) (ms_network s) \<longrightarrow> (ms_block_id s, mb_id b) \<in> (up (mv_blocks d))\<^sup>*)"

definition space_ok :: "mv_db \<Rightarrow> bool" where
  "space_ok d \<longleftrightarrow> distinct (map mb_id (mv_blocks d)) \<and> acyclic (up (mv_blocks d)) \<and>
     (\<forall>b \<in> set (mv_blocks d). wf_net (mb_network b) \<and> block_under d b) \<and>
     (\<forall>s \<in> set (mv_subnets d). wf_net (ms_network s) \<and> subnet_under d s) \<and> blocks_apart d \<and> subnets_apart d"

lemma one_block:
  assumes "distinct (map mb_id (mv_blocks d))" "a \<in> set (mv_blocks d)" "b \<in> set (mv_blocks d)" "mb_id a = mb_id b"
  shows "a = b"
  using assms unfolding distinct_map inj_on_def by blast

lemma space_walks:
  assumes "space_ok d"
  shows "\<exists>bs. descend d [i] [] = Some bs \<and> mb_id ` set bs = {x. (x, i) \<in> (up (mv_blocks d))\<^sup>+}"
    "\<exists>bs. live_blocks_below d i = Some bs \<and> (\<forall>b \<in> set bs. b \<in> set (mv_blocks d) \<and> (mb_id b, i) \<in> (up (mv_blocks d))\<^sup>+)"
proof -
  have a: "acyclic (up (mv_blocks d))" using assms by (simp add: space_ok_def)
  show "\<exists>bs. descend d [i] [] = Some bs \<and> mb_id ` set bs = {x. (x, i) \<in> (up (mv_blocks d))\<^sup>+}"
    using descend_set [OF a, of "[i]" "[]"] below_ids [of "mv_blocks d" "{i}"] by auto
  let ?l = "filter (\<lambda>b. \<not> mb_deleted b) (mv_blocks d)"
  have sub: "up ?l \<subseteq> up (mv_blocks d)" by (auto simp: up_def)
  then have "acyclic (up ?l)" using a acyclic_subset by blast
  then obtain bs where bs: "descend (d\<lparr>mv_blocks := ?l\<rparr>) [i] [] = Some bs" "set bs = below ?l {i}"
    using descend_set [of "d\<lparr>mv_blocks := ?l\<rparr>" "[i]" "[]"] by auto
  have "b \<in> set (mv_blocks d) \<and> (mb_id b, i) \<in> (up (mv_blocks d))\<^sup>+" if "b \<in> set bs" for b
  proof
    show "b \<in> set (mv_blocks d)" using that bs(2) by (simp add: below_def)
    have "mb_id b \<in> {x. \<exists>f \<in> {i}. (x, f) \<in> (up ?l)\<^sup>+}" using that bs(2) below_ids by blast
    then show "(mb_id b, i) \<in> (up (mv_blocks d))\<^sup>+" using trancl_mono [OF _ sub] by blast
  qed
  then show "\<exists>bs. live_blocks_below d i = Some bs \<and> (\<forall>b \<in> set bs. b \<in> set (mv_blocks d) \<and> (mb_id b, i) \<in> (up (mv_blocks d))\<^sup>+)"
    by (intro exI [of _ "filter (\<lambda>b. mb_id b \<noteq> i) bs"]) (simp add: live_blocks_below_def bs(1))
qed

text \<open>What is below a block is inside its network.\<close>

lemma below_inside:
  assumes "space_ok d" "(x, i) \<in> (up (mv_blocks d))\<^sup>+" "a \<in> set (mv_blocks d)" "mb_id a = x" "b \<in> set (mv_blocks d)" "mb_id b = i"
  shows "addresses (mb_network a) \<subseteq> addresses (mb_network b) \<and> mb_space_id a = mb_space_id b"
  using assms(2-4)
proof (induction arbitrary: a rule: converse_trancl_induct)
  note sp = assms(1) [unfolded space_ok_def]
  have up: "\<exists>q \<in> set (mv_blocks d). mb_id q = y \<and> mb_space_id q = mb_space_id a \<and> addresses (mb_network a) \<subseteq> addresses (mb_network q)"
    if h: "(x, y) \<in> up (mv_blocks d)" "a \<in> set (mv_blocks d)" "mb_id a = x" for x y a
  proof -
    obtain c where c: "c \<in> set (mv_blocks d)" "mb_id c = x" "mb_parent_id c = Some y" using h(1) by (auto simp: up_def)
    then have "c = a" using one_block sp h(2,3) by metis
    then show ?thesis using c sp unfolding block_under_def by blast
  qed
  {
    case (base y)
    then obtain q where "q \<in> set (mv_blocks d)" "mb_id q = i" "mb_space_id q = mb_space_id a" "addresses (mb_network a) \<subseteq> addresses (mb_network q)"
      using up [of y i a] by blast
    then show ?case using one_block [of d q b] sp assms(5,6) by auto
  next
    case (step y z)
    then obtain q where "q \<in> set (mv_blocks d)" "mb_id q = z" "mb_space_id q = mb_space_id a" "addresses (mb_network a) \<subseteq> addresses (mb_network q)"
      using up [of y z a] by blast
    then show ?case using step.IH [of q] by auto
  }
qed

section \<open>What a commit does\<close>

lemma grown:
  assumes "validate_grow what old n = None"
  shows "version old = version n" "addresses old \<subseteq> addresses n" "prefixlen n < prefixlen old"
proof -
  show "version old = version n" "prefixlen n < prefixlen old" using assms by (auto simp: validate_grow_def split: if_splits)
  then show "addresses old \<subseteq> addresses n" using assms subnet_of_iff by (auto simp: validate_grow_def split: if_splits)
qed

lemma parse_wf: "parse_cidr label c = Inr n \<Longrightarrow> wf_net n"
proof -
  assume "parse_cidr label c = Inr n"
  then have "Option.bind (snd c) ip_network = Some n" by (auto simp: parse_cidr_def split: option.splits)
  then obtain v a p where "ip_network (v, a, p) = Some n" by (auto simp: bind_eq_Some_conv)
  then show ?thesis using ip_network_wf by blast
qed

lemma share_overlaps: "wf_net a \<Longrightarrow> wf_net b \<Longrightarrow> overlaps a b = share a b"
  by (simp add: overlaps_iff share_def)

lemma share_sym: "share a b = share b a"
  by (auto simp: share_def)

lemma commit_block_resizeD:
  assumes "commit_block_resize d b new locked = Some (Inr (res, d'))"
  obtains n where "parse_cidr ''new CIDR'' new = Inr n" "validate_grow ''block'' (mb_network b) n = None"
    "parent_containment_conflicts (mv_blocks d) (mb_parent_id b) n = Inr []"
    "overlap_conflicts_space_blocks d (mb_space_id b) n (mb_id b) = Some []"
    "overlap_conflicts_space_subnets_for_block d (mb_space_id b) n (mb_id b) = Some []" "d' = set_block_network (mb_id b) n d"
  using assms by (auto simp: commit_block_resize_def apply_block_resize_def split: if_splits sum.splits option.splits list.splits)

lemma no_block_conflict:
  assumes "space_ok d" "overlap_conflicts_space_blocks d space n i = Some []" "wf_net n" "c \<in> set (mv_blocks d)" "\<not> mb_deleted c"
    "mb_space_id c = space" "share (mb_network c) n"
  shows "related (mv_blocks d) i (mb_id c)"
proof -
  obtain bs where bs: "descend d [i] [] = Some bs" "mb_id ` set bs = {x. (x, i) \<in> (up (mv_blocks d))\<^sup>+}"
    using space_walks(1) [OF assms(1)] by blast
  have "overlaps (mb_network c) n" using assms(1,3,4,7) share_overlaps by (simp add: space_ok_def)
  then have "mb_id c \<in> set (i # map mb_id bs) \<or> mb_id c \<in> set (ancestors_of (mv_blocks d) i)"
    using assms(2,4-6) by (auto simp: overlap_conflicts_space_blocks_def bs(1) filter_empty_conv)
  then show ?thesis using bs(2) by (auto simp: related_def ancestors_of_set)
qed

lemma no_subnet_conflict:
  assumes "space_ok d" "overlap_conflicts_space_subnets_for_block d space n i = Some []" "wf_net n" "s \<in> set (mv_subnets d)" "\<not> ms_deleted s"
    "ms_space_id s = space" "share (ms_network s) n"
  shows "(ms_block_id s, i) \<in> (up (mv_blocks d))\<^sup>*"
proof -
  obtain bs where bs: "descend d [i] [] = Some bs" "mb_id ` set bs = {x. (x, i) \<in> (up (mv_blocks d))\<^sup>+}"
    using space_walks(1) [OF assms(1)] by blast
  have "overlaps (ms_network s) n" using assms(1,3,4,7) share_overlaps by (simp add: space_ok_def)
  then have "ms_block_id s \<in> set (i # map mb_id bs)"
    using assms(2,4-6) by (auto simp: overlap_conflicts_space_subnets_for_block_def bs(1) filter_empty_conv)
  then show ?thesis using bs(2) by (auto intro: trancl_into_rtrancl)
qed

lemma contained_in_parent:
  assumes "space_ok d" "b \<in> set (mv_blocks d)" "\<not> mb_deleted b" "mb_parent_id b = Some p" "version n = version (mb_network b)"
  shows "\<exists>q \<in> set (mv_blocks d). mb_id q = p \<and> mb_space_id q = mb_space_id b \<and> \<not> mb_deleted q \<and>
    parent_containment_conflicts (mv_blocks d) (Some p) n \<noteq> Inl (ResizeRaises x) \<and>
    (parent_containment_conflicts (mv_blocks d) (Some p) n = Inr [] \<longrightarrow> addresses n \<subseteq> addresses (mb_network q))"
proof -
  note sp = assms(1) [unfolded space_ok_def]
  obtain q where q: "q \<in> set (mv_blocks d)" "mb_id q = p" "mb_space_id q = mb_space_id b" "addresses (mb_network b) \<subseteq> addresses (mb_network q)"
    "\<not> mb_deleted q" using sp assms(2-4) unfolding block_under_def by blast
  have "find (\<lambda>b. mb_id b = p \<and> \<not> mb_deleted b) (mv_blocks d) = Some q"
  proof (cases "find (\<lambda>b. mb_id b = p \<and> \<not> mb_deleted b) (mv_blocks d)")
    case None
    then show ?thesis using q by (auto simp: find_None_conv)
  next
    case (Some r)
    then have "mb_id r = p \<and> r \<in> set (mv_blocks d)" using find_SomeD by fastforce
    then show ?thesis using Some one_block [of d r q] sp q(1,2) by simp
  qed
  then have f: "parent_containment_conflicts (mv_blocks d) (Some p) n =
      (if \<not> subnet_of n (mb_network q) then Inr [(''parent_too_small'', ''Proposed CIDR '' @ str_net n @ '' does not fit inside the parent block '' @
               str_net (mb_network q) @ ''. Resize the parent block first.'')] else Inr [])"
    using addresses_version [OF q(4)] assms(5) by (simp add: parent_containment_conflicts_def)
  have "addresses n \<subseteq> addresses (mb_network q)" if "subnet_of n (mb_network q)"
    using that subnet_of_iff addresses_version [OF q(4)] assms(5) by simp
  then show ?thesis using q f by (intro bexI [of _ q]) auto
qed

section \<open>The space stays sound\<close>

lemma set_block_network_blocks:
  "mv_blocks (set_block_network i n d) = map (\<lambda>b. b\<lparr>mb_network := if mb_id b = i then n else mb_network b\<rparr>) (mv_blocks d)"
  by (simp add: set_block_network_def)

lemma set_block_network_simps [simp]:
  "up (mv_blocks (set_block_network i n d)) = up (mv_blocks d)" "mv_subnets (set_block_network i n d) = mv_subnets d"
  "mv_addresses (set_block_network i n d) = mv_addresses d" "mv_spaces (set_block_network i n d) = mv_spaces d"
proof -
  have "up (map f bs) = up bs" if f: "\<And>b. mb_id (f b) = mb_id b" "\<And>b. mb_parent_id (f b) = mb_parent_id b" for f :: "mv_block \<Rightarrow> mv_block" and bs
  proof (intro equalityI subrelI)
    fix x p
    assume "(x, p) \<in> up (map f bs)"
    then show "(x, p) \<in> up bs" by (auto simp: up_def f)
  next
    fix x p
    assume "(x, p) \<in> up bs"
    then obtain b where "b \<in> set bs" "x = mb_id b" "mb_parent_id b = Some p" by (auto simp: up_def)
    then show "(x, p) \<in> up (map f bs)" using upI [of "f b" "map f bs" p] by (simp add: f)
  qed
  then show "up (mv_blocks (set_block_network i n d)) = up (mv_blocks d)" by (simp add: set_block_network_blocks)
qed (simp_all add: set_block_network_def)

lemma block_resize_sound:
  assumes ok: "space_ok d" and b: "b \<in> set (mv_blocks d)" "\<not> mb_deleted b" and n: "wf_net n" "addresses (mb_network b) \<subseteq> addresses n"
    and p: "\<forall>p. mb_parent_id b = Some p \<longrightarrow> (\<exists>q \<in> set (mv_blocks d). mb_id q = p \<and> mb_space_id q = mb_space_id b \<and> \<not> mb_deleted q \<and>
      addresses n \<subseteq> addresses (mb_network q))"
    and c: "\<And>c. c \<in> set (mv_blocks d) \<Longrightarrow> \<not> mb_deleted c \<Longrightarrow> mb_space_id c = mb_space_id b \<Longrightarrow> share (mb_network c) n \<Longrightarrow>
      related (mv_blocks d) (mb_id b) (mb_id c)"
    and s: "\<And>s. s \<in> set (mv_subnets d) \<Longrightarrow> \<not> ms_deleted s \<Longrightarrow> ms_space_id s = mb_space_id b \<Longrightarrow> share (ms_network s) n \<Longrightarrow>
      (ms_block_id s, mb_id b) \<in> (up (mv_blocks d))\<^sup>*"
  shows "space_ok (set_block_network (mb_id b) n d)"
proof -
  let ?d = "set_block_network (mb_id b) n d" and ?f = "\<lambda>x. x\<lparr>mb_network := if mb_id x = mb_id b then n else mb_network x\<rparr>"
  note sp = ok [unfolded space_ok_def]
  have is_b: "x = b" if "x \<in> set (mv_blocks d)" "mb_id x = mb_id b" for x using one_block sp that b(1) by metis
  have grows: "addresses (mb_network x) \<subseteq> addresses (mb_network (?f x))" if "x \<in> set (mv_blocks d)" for x using is_b [OF that] n(2) by auto
  have put: "?f x \<in> set (mv_blocks ?d)" if "x \<in> set (mv_blocks d)" for x using that unfolding set_block_network_blocks by simp
  have "block_under ?d (?f x)" if x: "x \<in> set (mv_blocks d)" for x
    unfolding block_under_def
  proof (intro allI impI)
    fix q
    assume "mb_parent_id (?f x) = Some q"
    then have xq: "mb_parent_id x = Some q" by simp
    obtain y where y: "y \<in> set (mv_blocks d)" "mb_id y = q" "mb_space_id y = mb_space_id x" "mb_deleted y \<longrightarrow> mb_deleted x"
      "addresses (mb_network (?f x)) \<subseteq> addresses (mb_network y)"
    proof (cases "x = b")
      case True
      then show ?thesis using p xq that b(2) by auto
    next
      case False
      then have "mb_id x \<noteq> mb_id b" using is_b x by blast
      moreover obtain y where "y \<in> set (mv_blocks d)" "mb_id y = q" "mb_space_id y = mb_space_id x" "mb_deleted y \<longrightarrow> mb_deleted x"
        "addresses (mb_network x) \<subseteq> addresses (mb_network y)" using sp x xq unfolding block_under_def by blast
      ultimately show ?thesis using that by simp
    qed
    then show "\<exists>y \<in> set (mv_blocks ?d). mb_id y = q \<and> mb_space_id y = mb_space_id (?f x) \<and>
        addresses (mb_network (?f x)) \<subseteq> addresses (mb_network y) \<and> (mb_deleted y \<longrightarrow> mb_deleted (?f x))"
      using grows [OF y(1)] by (intro bexI [OF _ put [OF y(1)]]) auto
  qed
  moreover have "subnet_under ?d t" if "t \<in> set (mv_subnets d)" for t
  proof -
    obtain y where y: "y \<in> set (mv_blocks d)" "mb_id y = ms_block_id t" "mb_space_id y = ms_space_id t"
      "addresses (ms_network t) \<subseteq> addresses (mb_network y)"
      using sp \<open>t \<in> set (mv_subnets d)\<close> unfolding subnet_under_def by blast
    then show ?thesis using grows [OF y(1)] unfolding subnet_under_def by (intro bexI [OF _ put [OF y(1)]]) auto
  qed
  moreover have "blocks_apart ?d"
  proof -
    have "related (mv_blocks d) (mb_id x) (mb_id y)"
      if x: "x \<in> set (mv_blocks d)" "\<not> mb_deleted x" and y: "y \<in> set (mv_blocks d)" "\<not> mb_deleted y" and e: "mb_space_id x = mb_space_id y"
        and sh: "share (mb_network (?f x)) (mb_network (?f y))" for x y
    proof -
      consider "mb_id x = mb_id b" "mb_id y = mb_id b" | "mb_id x = mb_id b" "mb_id y \<noteq> mb_id b" | "mb_id x \<noteq> mb_id b" "mb_id y = mb_id b"
        | "mb_id x \<noteq> mb_id b" "mb_id y \<noteq> mb_id b" by blast
      then show ?thesis
      proof cases
        case 1
        then show ?thesis by (simp add: related_def)
      next
        case 2
        then show ?thesis using c [of y] y e sh is_b [OF x(1)] share_sym by simp
      next
        case 3
        then have "related (mv_blocks d) (mb_id b) (mb_id x)" using c [of x] x e sh is_b [OF y(1)] by simp
        then show ?thesis using 3 by (auto simp: related_def)
      next
        case 4
        then show ?thesis using sp x y e sh unfolding blocks_apart_def by simp
      qed
    qed
    then show ?thesis unfolding blocks_apart_def related_def set_block_network_simps unfolding set_block_network_blocks by auto
  qed
  moreover have "subnets_apart ?d"
  proof -
    have "(ms_block_id t, mb_id x) \<in> (up (mv_blocks d))\<^sup>*"
      if "x \<in> set (mv_blocks d)" "\<not> mb_deleted x" "t \<in> set (mv_subnets d)" "\<not> ms_deleted t" "mb_space_id x = ms_space_id t"
        "share (mb_network (?f x)) (ms_network t)" for x t
      using that s [of t] is_b [of x] sp share_sym [of n] unfolding subnets_apart_def by (cases "mb_id x = mb_id b") auto
    then show ?thesis unfolding subnets_apart_def set_block_network_simps unfolding set_block_network_blocks by auto
  qed
  ultimately show ?thesis using sp n(1) unfolding space_ok_def set_block_network_simps unfolding set_block_network_blocks
    by (auto simp: comp_def)
qed

text \<open>The last checks of the commit never refuse: what is below the block fits.\<close>

lemma children_fit_None: "list_all (\<lambda>c. version c = version n \<and> subnet_of c n) cs \<Longrightarrow> children_fit kind n cs = None"
  by (induction cs) simp_all

lemma resize_applies:
  assumes ok: "space_ok d" and b: "b \<in> set (mv_blocks d)" and n: "addresses (mb_network b) \<subseteq> addresses n"
  shows "\<exists>res. apply_block_resize d b n = Some (Inr (res, set_block_network (mb_id b) n d))"
proof -
  note sp = ok [unfolded space_ok_def]
  obtain bs where bs: "live_blocks_below d (mb_id b) = Some bs"
    "\<forall>c \<in> set bs. c \<in> set (mv_blocks d) \<and> (mb_id c, mb_id b) \<in> (up (mv_blocks d))\<^sup>+" using space_walks(2) [OF ok] by blast
  have fits: "version c = version n \<and> subnet_of c n" if "addresses c \<subseteq> addresses (mb_network b)" for c
  proof -
    have "addresses c \<subseteq> addresses n" using that n by blast
    then show ?thesis using addresses_version subnet_of_iff by blast
  qed
  have inb: "addresses (mb_network c) \<subseteq> addresses (mb_network b)" if "c \<in> set bs" for c
    using below_inside [OF ok _ _ refl b refl] bs(2) that by blast
  have ins: "addresses (ms_network s) \<subseteq> addresses (mb_network b)" if s: "s \<in> set (live_subnets_below d (mb_id b) bs)" for s
  proof -
    have "s \<in> set (mv_subnets d)" using s by (simp add: live_subnets_below_def)
    then obtain q where q: "q \<in> set (mv_blocks d)" "mb_id q = ms_block_id s" "addresses (ms_network s) \<subseteq> addresses (mb_network q)"
      using sp unfolding subnet_under_def by blast
    have "ms_block_id s \<in> insert (mb_id b) (mb_id ` set bs)" using s by (simp add: live_subnets_below_def)
    then have "mb_id q = mb_id b \<or> (mb_id q, mb_id b) \<in> (up (mv_blocks d))\<^sup>+" using bs(2) q(2) by auto
    then have "addresses (mb_network q) \<subseteq> addresses (mb_network b)"
    proof
      assume "mb_id q = mb_id b"
      then show ?thesis using one_block [of d q b] sp q(1) b by simp
    next
      assume "(mb_id q, mb_id b) \<in> (up (mv_blocks d))\<^sup>+"
      then show ?thesis using below_inside [OF ok _ q(1) refl b refl] by blast
    qed
    then show ?thesis using q(3) by blast
  qed
  have "children_fit ''block'' n (map mb_network bs) = None" by (rule children_fit_None) (simp add: list_all_iff fits inb)
  moreover have "children_fit ''subnet'' n (map ms_network (live_subnets_below d (mb_id b) bs)) = None"
    by (rule children_fit_None) (simp add: list_all_iff fits ins)
  ultimately show ?thesis by (simp add: apply_block_resize_def bs(1))
qed

text \<open>In a sound space the commit answers, and not with an uncaught exception.\<close>

lemma commit_block_answers:
  assumes "space_ok d" "b \<in> set (mv_blocks d)" "\<not> mb_deleted b"
  shows "\<exists>y. commit_block_resize d b new locked = Some y \<and> y \<noteq> Inl (ResizeRaises x)"
proof -
  obtain bs where bs: "descend d [mb_id b] [] = Some bs" using space_walks(1) [OF assms(1)] by blast
  have parent: "parent_containment_conflicts (mv_blocks d) (mb_parent_id b) n \<noteq> Inl (ResizeRaises x)"
    if "validate_grow what (mb_network b) n = None" for what n
    using contained_in_parent [OF assms, of _ n] grown(1) [OF that]
    by (cases "mb_parent_id b") (auto simp: parent_containment_conflicts_def [of _ None])
  show ?thesis
  proof (cases "parse_cidr ''new CIDR'' new")
    case (Inl e)
    then have "e \<noteq> ResizeRaises x" by (auto simp: parse_cidr_def split: option.splits)
    then show ?thesis using Inl by (simp add: commit_block_resize_def)
  next
    case n: (Inr n)
    show ?thesis
    proof (cases "validate_grow ''block'' (mb_network b) n")
      case (Some e)
      then have "e \<noteq> ResizeRaises x" by (auto simp: validate_grow_def split: if_splits)
      then show ?thesis using n Some by (simp add: commit_block_resize_def)
    next
      case None
      obtain res where "apply_block_resize d b n = Some (Inr (res, set_block_network (mb_id b) n d))"
        using resize_applies [OF assms(1,2) grown(2) [OF None]] by blast
      then show ?thesis using n None parent [OF None]
        by (auto simp: commit_block_resize_def overlap_conflicts_space_blocks_def overlap_conflicts_space_subnets_for_block_def bs
            split: sum.splits list.splits)
    qed
  qed
qed

text \<open>C37: growing a block keeps its space sound. In a sound space the commit always answers, never with an uncaught error; when it goes
  through, the block has the wider network and nothing else changed, and the space is sound again: every row is still under its
  parent, and live blocks and subnets still share addresses only with what is above or below them.\<close>

theorem block_resize_keeps_space:
  assumes "space_ok d" "b \<in> set (mv_blocks d)" "\<not> mb_deleted b"
  shows "commit_block_resize d b new locked \<noteq> None \<and> commit_block_resize d b new locked \<noteq> Some (Inl (ResizeRaises x)) \<and>
    (\<forall>res d'. commit_block_resize d b new locked = Some (Inr (res, d')) \<longrightarrow> space_ok d' \<and>
       (\<exists>n. parse_cidr ''new CIDR'' new = Inr n \<and> addresses (mb_network b) \<subset> addresses n \<and> d' = set_block_network (mb_id b) n d))"
proof (intro conjI allI impI)
  show "commit_block_resize d b new locked \<noteq> None" "commit_block_resize d b new locked \<noteq> Some (Inl (ResizeRaises x))"
    using commit_block_answers [OF assms, of new locked x] by auto
next
  fix res d'
  assume "commit_block_resize d b new locked = Some (Inr (res, d'))"
  then obtain n where n: "parse_cidr ''new CIDR'' new = Inr n" "validate_grow ''block'' (mb_network b) n = None"
    "parent_containment_conflicts (mv_blocks d) (mb_parent_id b) n = Inr []"
    "overlap_conflicts_space_blocks d (mb_space_id b) n (mb_id b) = Some []"
    "overlap_conflicts_space_subnets_for_block d (mb_space_id b) n (mb_id b) = Some []" "d' = set_block_network (mb_id b) n d"
    by (rule commit_block_resizeD)
  note g = grown [OF n(2)] and wf = parse_wf [OF n(1)]
  show "space_ok d'"
    unfolding n(6)
  proof (rule block_resize_sound [OF assms wf g(2)])
    show "\<forall>p. mb_parent_id b = Some p \<longrightarrow> (\<exists>q \<in> set (mv_blocks d). mb_id q = p \<and> mb_space_id q = mb_space_id b \<and> \<not> mb_deleted q \<and>
      addresses n \<subseteq> addresses (mb_network q))"
      using contained_in_parent [OF assms _ g(1) [symmetric]] n(3) by metis
  qed (use no_block_conflict [OF assms(1) n(4) wf] no_subnet_conflict [OF assms(1) n(5) wf] in blast)+
  have "num_addresses (mb_network b) < num_addresses n"
    using g(1,3) assms(1,2) by (auto simp: num_addresses_def space_ok_def wf_net_def)
  then have "addresses (mb_network b) \<noteq> addresses n" using card_addresses(1) by (metis less_irrefl)
  then show "\<exists>n. parse_cidr ''new CIDR'' new = Inr n \<and> addresses (mb_network b) \<subset> addresses n \<and> d' = set_block_network (mb_id b) n d"
    using n(1,6) g(2) by blast
qed

section \<open>Instances\<close>

abbreviation child_block :: mv_block where "child_block \<equiv> blk ''c'' ''a'' (Some ''m'') 167837696 16"

lemma two_spaces_sound: "space_ok two_spaces" "child_block \<in> set (mv_blocks two_spaces)"
proof -
  have up: "up (mv_blocks two_spaces) = {(''c'', ''m'')}"
  proof
    show "{(''c'', ''m'')} \<subseteq> up (mv_blocks two_spaces)"
      using upI [of child_block "mv_blocks two_spaces" "''m''"] by (simp add: two_spaces_def blk_def)
  qed (auto simp: up_def two_spaces_def blk_def)
  have "acyclic (up (mv_blocks two_spaces))" unfolding up by (simp add: acyclic_def trancl_insert)
  moreover have "distinct (map mb_id (mv_blocks two_spaces))" "\<forall>b \<in> set (mv_blocks two_spaces). wf_net (mb_network b)"
    "\<forall>s \<in> set (mv_subnets two_spaces). wf_net (ms_network s)" by code_simp+
  moreover have "\<forall>b \<in> set (mv_blocks two_spaces). block_under two_spaces b"
    using net4_inside(1) by (auto simp: two_spaces_def block_under_def blk_def inside_def)
  moreover have "\<forall>s \<in> set (mv_subnets two_spaces). subnet_under two_spaces s"
    using net4_inside(2) by (simp add: two_spaces_def subnet_under_def blk_def sub_def)
  moreover have "blocks_apart two_spaces" unfolding blocks_apart_def related_def up by (auto simp: two_spaces_def blk_def)
  moreover have "subnets_apart two_spaces" unfolding subnets_apart_def up by (auto simp: two_spaces_def blk_def sub_def)
  ultimately show "space_ok two_spaces" by (simp add: space_ok_def)
  show "child_block \<in> set (mv_blocks two_spaces)" by (simp add: two_spaces_def)
qed

theorem block_resize_keeps_space_witness:
  "\<exists>res d'. commit_block_resize two_spaces child_block (''10.0.0.0/15'', Some (V4, 167772160, 15)) True = Some (Inr (res, d')) \<and> space_ok d'"
proof -
  have "case commit_block_resize two_spaces child_block (''10.0.0.0/15'', Some (V4, 167772160, 15)) True of Some (Inr _) \<Rightarrow> True | _ \<Rightarrow> False"
    by code_simp
  moreover have "\<not> mb_deleted child_block" by (simp add: blk_def)
  ultimately show ?thesis using block_resize_keeps_space [OF two_spaces_sound] by (auto split: option.splits sum.splits)
qed

text \<open>A preview to the other family is not a conflict but an uncaught error as soon as the block has a child; the commit refuses it.\<close>

lemma block_preview_raises:
  "preview_block_resize two_spaces top_block (''::/0'', Some (V6, 0, 0)) = Some (Inl (ResizeRaises ''TypeError'')) \<and>
   (\<exists>m. commit_block_resize two_spaces top_block (''::/0'', Some (V6, 0, 0)) True = Some (Inl (ResizeError m 422)))"
proof
  show "preview_block_resize two_spaces top_block (''::/0'', Some (V6, 0, 0)) = Some (Inl (ResizeRaises ''TypeError''))" by code_simp
  have "version (mb_network top_block) \<noteq> V6" by (simp add: blk_def net4_def)
  then show "\<exists>m. commit_block_resize two_spaces top_block (''::/0'', Some (V6, 0, 0)) True = Some (Inl (ResizeError m 422))"
    by (simp add: commit_block_resize_def parse_cidr_def validate_grow_def)
qed

text \<open>A block may grow to its parent's network.\<close>

lemma block_may_fill_parent:
  "\<exists>res d'. commit_block_resize two_spaces child_block (''10.0.0.0/8'', Some (V4, 167772160, 8)) True = Some (Inr (res, d')) \<and>
     map mb_network (mv_blocks d') = [net4 167772160 8, net4 167772160 8, net4 167837696 16]"
proof -
  have "case commit_block_resize two_spaces child_block (''10.0.0.0/8'', Some (V4, 167772160, 8)) True of
     Some (Inr (_, d')) \<Rightarrow> map mb_network (mv_blocks d') = [net4 167772160 8, net4 167772160 8, net4 167837696 16] | _ \<Rightarrow> False"
    by code_simp
  then show ?thesis by (auto split: option.splits sum.splits)
qed

end
