(* ===== verification/Subnet_Resize.thy ===== *)
theory Subnet_Resize
  imports Block_Resize Subnet_Split Reverse_Lifecycle
begin

text \<open>
  Growing a subnet (\<^verbatim>\<open>services/ipam/resize.py\<close>): the preview and the commit, which rewrites the network, replaces the default boundary
  rows, moves the gateway, creates the reverse zones and marks the DHCP servers. Uses the tables of \<open>Subnet_Split\<close>, the blocks of
  \<open>Block_Move\<close> and the DNS side of \<open>Reverse_Lifecycle\<close>. Percentages, the rollup to the blocks and the log line are left out; the
  advisory lock is its answer.
\<close>

section \<open>State\<close>

text \<open>\<open>rz_auto_records\<close>: the subnet of the address of every automatic DNS record. \<open>rz_synced\<close>: the rows whose records were written.
  \<open>rz_woken\<close>: the DHCP servers whose agents are woken after the transaction.\<close>

record resize_db =
  rz_tables :: split_db
  rz_blocks :: "mv_block list"
  rz_rev :: rev_db
  rz_auto_records :: "uuid list"
  rz_synced :: "ip_address list"
  rz_woken :: "uuid list"

type_synonym ipam_subnet = Subnet_Split.subnet_row

definition space_of :: "ipam_subnet \<Rightarrow> uuid" where
  "space_of s = (case column s ''space_id'' of PyStr i \<Rightarrow> i | _ \<Rightarrow> [])"

definition gateway_text :: "ipam_subnet \<Rightarrow> string option" where
  "gateway_text s = (case sn_gateway s of Some (t, _) \<Rightarrow> if t = [] then None else Some t | None \<Rightarrow> None)"

section \<open>Sizes and edges\<close>

definition display_total_ips :: "ipnet \<Rightarrow> int" where
  "display_total_ips n = (if version n = V6 then int (num_addresses n) else child_total_ips n)"

definition broadcast_or_none :: "ipnet \<Rightarrow> ip_addr option" where
  "broadcast_or_none n = (if version n = V4 \<and> prefixlen n \<le> 30 then Some (version n, broadcast_address n) else None)"

definition first_usable :: "ipnet \<Rightarrow> ip_addr option" where
  "first_usable n = (if version n = V4 \<and> 31 \<le> prefixlen n \<or> version n = V6 \<and> 127 \<le> prefixlen n then None
     else Some (version n, network_address n + 1))"

section \<open>Conflicts\<close>

text \<open>The network of a stored subnet is parsed from its column; one that is refused overlaps nothing.\<close>

definition overlap_conflicts_space_subnets :: "split_db \<Rightarrow> uuid \<Rightarrow> ipnet \<Rightarrow> uuid \<Rightarrow> ipnet \<Rightarrow> resize_conflict list" where
  "overlap_conflicts_space_subnets T space n exclude old = List.map_filter (\<lambda>s. case ip_network (sn_network s) of None \<Rightarrow> None
     | Some m \<Rightarrow> if space_of s = space \<and> overlaps m n \<and> sn_id s \<noteq> exclude \<and> m \<noteq> old
         then Some (overlap_conflict ''subnet'' m (sn_id s)) else None) (subnets_tab T)"

fun ancestor_walk :: "mv_block list \<Rightarrow> nat \<Rightarrow> uuid option \<Rightarrow> uuid list \<Rightarrow> uuid list" where
  "ancestor_walk bs steps current acc = (if steps = 0 then acc
     else case current of None \<Rightarrow> acc
     | Some i \<Rightarrow> if i \<in> set acc then acc
         else (case find (\<lambda>b. mb_id b = i) bs of None \<Rightarrow> acc @ [i] | Some b \<Rightarrow> ancestor_walk bs (steps - 1) (mb_parent_id b) (acc @ [i])))"

declare ancestor_walk.simps [simp del]

definition ancestor_block_ids_for_subnet :: "mv_block list \<Rightarrow> ipam_subnet \<Rightarrow> uuid list" where
  "ancestor_block_ids_for_subnet bs s = ancestor_walk bs 64 (sn_block_id s) []"

definition overlap_conflicts_space_blocks_for_subnet :: "mv_block list \<Rightarrow> uuid \<Rightarrow> ipnet \<Rightarrow> uuid list \<Rightarrow> resize_conflict list" where
  "overlap_conflicts_space_blocks_for_subnet bs space n exclude = map (\<lambda>b. overlap_conflict ''block'' (mb_network b) (mb_id b))
     (filter (\<lambda>b. mb_space_id b = space \<and> overlaps (mb_network b) n \<and> \<not> mb_deleted b \<and> mb_id b \<notin> set exclude) bs)"

definition subnet_rows :: "split_db \<Rightarrow> uuid \<Rightarrow> ip_address list" where
  "subnet_rows T i = filter (\<lambda>r. ipa_subnet_id r = i) (addrs T)"

definition new_boundary_conflicts :: "split_db \<Rightarrow> ipam_subnet \<Rightarrow> ipnet \<Rightarrow> ipnet \<Rightarrow> string list" where
  "new_boundary_conflicts T s old n = map (py_replace 0 '' first.'' '' before resizing.'')
     (boundary_host_conflicts (subnet_rows T (sn_id s)) [n] (sn_kind s) (boundary_addresses old (sn_kind s)))"

text \<open>The rows with a boundary status, those to replace and those to keep.\<close>

definition replaceable :: "uuid \<Rightarrow> ipnet \<Rightarrow> ip_address \<Rightarrow> bool" where
  "replaceable i old r \<longleftrightarrow> ipa_subnet_id r = i \<and> is_default_placeholder r \<and>
     (ipa_address r = (version old, network_address old) \<or> Some (ipa_address r) = broadcast_or_none old)"

definition load_boundary_placeholders :: "split_db \<Rightarrow> uuid \<Rightarrow> ipnet \<Rightarrow> ip_address list \<times> ip_address list" where
  "load_boundary_placeholders T i old =
     (let rows = filter (\<lambda>r. ipa_subnet_id r = i \<and> ipa_status r \<in> {''network'', ''broadcast''}) (addrs T) in
      (filter (replaceable i old) rows, filter (\<lambda>r. \<not> replaceable i old r) rows))"

definition gateway_target_in_use :: "split_db \<Rightarrow> ipam_subnet \<Rightarrow> ip_addr \<Rightarrow> resize_error + bool" where
  "gateway_target_in_use T s target =
     (let used = list_ex (\<lambda>r. ipa_subnet_id r = sn_id s \<and> ipa_address r = target) (addrs T) in
      case sn_gateway s of None \<Rightarrow> Inr used
      | Some (t, a) \<Rightarrow> if t = [] then Inr used
          else (case a of None \<Rightarrow> Inl (ResizeRaises ''ValueError'') | Some gw \<Rightarrow> Inr (gw \<noteq> target \<and> used)))"

section \<open>Preview\<close>

record subnet_resize_preview =
  rp_old_cidr :: string
  rp_new_cidr :: string
  rp_shifts :: bool
  rp_old_network_ip :: string
  rp_new_network_ip :: string
  rp_old_broadcast_ip :: "string option"
  rp_new_broadcast_ip :: "string option"
  rp_total_before :: int
  rp_total_after :: int
  rp_gateway_current :: "string option"
  rp_gateway_suggested :: "string option"
  rp_placeholders_default :: "(string \<times> string) list"
  rp_placeholders_renamed :: "(string \<times> string) list"
  rp_addresses :: nat
  rp_dhcp_scopes :: nat
  rp_dhcp_pools :: nat
  rp_dhcp_statics :: nat
  rp_dns_auto :: nat
  rp_active_leases :: nat
  rp_reverse_existing :: "string list"
  rp_reverse_created :: "string list"
  rp_conflicts :: "resize_conflict list"
  rp_warnings :: "string list"

definition shell_preview :: "ipam_subnet \<Rightarrow> ipnet option \<Rightarrow> cidr_text \<Rightarrow> string \<Rightarrow> subnet_resize_preview" where
  "shell_preview s old new m = \<lparr>rp_old_cidr = (case old of None \<Rightarrow> [] | Some k \<Rightarrow> str_net k), rp_new_cidr = fst new, rp_shifts = False,
     rp_old_network_ip = (case old of None \<Rightarrow> [] | Some k \<Rightarrow> net_ip k), rp_new_network_ip = [],
     rp_old_broadcast_ip = (case old of None \<Rightarrow> None | Some k \<Rightarrow> map_option str_ip (broadcast_or_none k)), rp_new_broadcast_ip = None,
     rp_total_before = (case old of None \<Rightarrow> 0 | Some k \<Rightarrow> display_total_ips k), rp_total_after = 0,
     rp_gateway_current = gateway_text s, rp_gateway_suggested = None, rp_placeholders_default = [], rp_placeholders_renamed = [],
     rp_addresses = 0, rp_dhcp_scopes = 0, rp_dhcp_pools = 0, rp_dhcp_statics = 0, rp_dns_auto = 0, rp_active_leases = 0,
     rp_reverse_existing = [], rp_reverse_created = [], rp_conflicts = [(''validation'', m)], rp_warnings = []\<rparr>"

text \<open>The checks that only run on a valid growth: the other subnets, the blocks, the parent's edge, the hosts on the new boundary.\<close>

definition subnet_space_conflicts :: "resize_db \<Rightarrow> ipam_subnet \<Rightarrow> ipnet \<Rightarrow> ipnet \<Rightarrow> resize_error + resize_conflict list" where
  "subnet_space_conflicts D s old n = (case parent_containment_conflicts (rz_blocks D) (sn_block_id s) n of Inl e \<Rightarrow> Inl e
     | Inr ps \<Rightarrow> Inr (overlap_conflicts_space_subnets (rz_tables D) (space_of s) n (sn_id s) old @
         overlap_conflicts_space_blocks_for_subnet (rz_blocks D) (space_of s) n (ancestor_block_ids_for_subnet (rz_blocks D) s) @ ps @
         map (\<lambda>m. (''host_on_new_boundary'', m)) (new_boundary_conflicts (rz_tables D) s old n)))"

definition gateway_conflicts :: "resize_db \<Rightarrow> ipam_subnet \<Rightarrow> ipnet \<Rightarrow> bool \<Rightarrow> resize_error + resize_conflict list" where
  "gateway_conflicts D s n move = (if \<not> move then Inr []
     else case first_usable n of
       None \<Rightarrow> Inr [(''gateway_move_impossible'', ''Cannot move gateway to first-usable: new CIDR /'' @ nat_digits (prefixlen n) @
         '' has no usable host range. Uncheck 'Move gateway to new first-usable IP' or pick a larger CIDR.'')]
     | Some fu \<Rightarrow> (case gateway_target_in_use (rz_tables D) s fu of Inl e \<Rightarrow> Inl e
         | Inr used \<Rightarrow> Inr (if used then [(''gateway_move_target_in_use'', ''Cannot move gateway to '' @ str_ip fu @
             '': an address row already exists there. Free or move it, or uncheck 'Move gateway to new first-usable IP'.'')] else [])))"

definition or_text :: "string option \<Rightarrow> string \<Rightarrow> string" where
  "or_text h t = (case h of None \<Rightarrow> t | Some x \<Rightarrow> if x = [] then t else x)"

definition reverse_names :: "ipnet \<Rightarrow> string list" where
  "reverse_names n = (case compute_reverse_zone_names (version n, network_address n, prefixlen n) of None \<Rightarrow> [] | Some ns \<Rightarrow> ns)"

definition resize_warnings :: "nat \<Rightarrow> ipnet \<Rightarrow> ipnet \<Rightarrow> string list" where
  "resize_warnings pool_count old n =
     (if pool_count \<noteq> 0 then [nat_digits pool_count @ '' DHCP pool(s) on this subnet will not auto-expand into the new address space. '' @
        ''Create a new pool if you want the extra range served.''] else []) @
     [''Clients on this subnet must have their netmask updated from /'' @ nat_digits (prefixlen old) @ '' to /'' @ nat_digits (prefixlen n) @ ''.''] @
     (if net_ip n \<noteq> net_ip old then [''The network address shifts from '' @ net_ip old @ '' to '' @ net_ip n @
        ''. Update router ACLs, firewall rules, monitoring, and documentation that reference the old network.''] else [])"

definition preview_of :: "resize_db \<Rightarrow> ipam_subnet \<Rightarrow> ipnet \<Rightarrow> ipnet \<Rightarrow> resize_conflict list \<Rightarrow> subnet_resize_preview" where
  "preview_of D s old n conflicts =
     (let T = rz_tables D; (default_named, renamed) = load_boundary_placeholders T (sn_id s) old;
          scope_ids = map sc_id (filter (\<lambda>sc. sc_subnet_id sc = sn_id s) (scopes T));
          pool_count = length (filter (\<lambda>p. pl_scope_id p \<in> set scope_ids) (pools T)) in
      \<lparr>rp_old_cidr = str_net old, rp_new_cidr = str_net n, rp_shifts = (net_ip n \<noteq> net_ip old),
       rp_old_network_ip = net_ip old, rp_new_network_ip = net_ip n,
       rp_old_broadcast_ip = map_option str_ip (broadcast_or_none old), rp_new_broadcast_ip = map_option str_ip (broadcast_or_none n),
       rp_total_before = display_total_ips old, rp_total_after = display_total_ips n,
       rp_gateway_current = gateway_text s, rp_gateway_suggested = map_option str_ip (first_usable n),
       rp_placeholders_default = map (\<lambda>r. (str_ip (ipa_address r), or_text (ipa_hostname r)
         (if ipa_status r = ''network'' then ''network'' else ''broadcast''))) default_named,
       rp_placeholders_renamed = map (\<lambda>r. (str_ip (ipa_address r), or_text (ipa_hostname r) ''(default)'')) renamed,
       rp_addresses = length (subnet_rows T (sn_id s)), rp_dhcp_scopes = length scope_ids, rp_dhcp_pools = pool_count,
       rp_dhcp_statics = length (filter (\<lambda>p. st_scope_id p \<in> set scope_ids) (statics T)),
       rp_dns_auto = length (filter (\<lambda>i. i = sn_id s) (rz_auto_records D)),
       rp_active_leases = length (filter (\<lambda>l. l \<in> set scope_ids) (active_leases T)),
       rp_reverse_existing = reverse_names old,
       rp_reverse_created = filter (\<lambda>x. x \<notin> set (reverse_names old)) (reverse_names n),
       rp_conflicts = conflicts, rp_warnings = resize_warnings pool_count old n\<rparr>)"

definition preview_subnet_resize :: "resize_db \<Rightarrow> ipam_subnet \<Rightarrow> cidr_text \<Rightarrow> bool \<Rightarrow> resize_error + subnet_resize_preview" where
  "preview_subnet_resize D s new move = (case ip_network (sn_network s) of
     None \<Rightarrow> Inr (shell_preview s None new ''Invalid CIDR for subnet'')
   | Some old \<Rightarrow> (case parse_cidr ''new CIDR'' new of
       Inl (ResizeError m st) \<Rightarrow> Inr (shell_preview s (Some old) new m)
     | Inl (ResizeRaises x) \<Rightarrow> Inl (ResizeRaises x)
     | Inr n \<Rightarrow>
        (case (case validate_grow ''subnet'' old n of Some (ResizeError m st) \<Rightarrow> Inr [(''validation'', m)]
             | Some (ResizeRaises x) \<Rightarrow> Inl (ResizeRaises x) | None \<Rightarrow> subnet_space_conflicts D s old n) of
           Inl e \<Rightarrow> Inl e
         | Inr cs \<Rightarrow> (case gateway_conflicts D s n move of Inl e \<Rightarrow> Inl e | Inr gs \<Rightarrow> Inr (preview_of D s old n (cs @ gs))))))"

section \<open>Commit\<close>

record subnet_resize_result =
  rr_subnet_id :: uuid
  rr_old_cidr :: string
  rr_new_cidr :: string
  rr_deleted :: nat
  rr_created :: nat
  rr_notified :: nat
  rr_summary :: "string list"

text \<open>The refusals of the commit, in their order; \<open>None\<close> when it goes ahead.\<close>

definition resize_refusal :: "resize_db \<Rightarrow> ipam_subnet \<Rightarrow> ipnet \<Rightarrow> ipnet \<Rightarrow> bool \<Rightarrow> resize_error option" where
  "resize_refusal D s old n move =
     (case validate_grow ''subnet'' old n of Some e \<Rightarrow> Some e
      | None \<Rightarrow> (if move \<and> first_usable n = None
         then Some (ResizeError (''Cannot move gateway to first-usable: new CIDR /'' @ nat_digits (prefixlen n) @ '' has no usable host range.'') 422)
         else case (if move then gateway_target_in_use (rz_tables D) s (the (first_usable n)) else Inr False) of
           Inl e \<Rightarrow> Some e
         | Inr True \<Rightarrow> Some (ResizeError (''Cannot move gateway to '' @ str_ip (the (first_usable n)) @ '': an address row already exists there.'') 409)
         | Inr False \<Rightarrow> (case overlap_conflicts_space_subnets (rz_tables D) (space_of s) n (sn_id s) old of
             c # cs \<Rightarrow> Some (ResizeError (''New CIDR overlaps another subnet in the same space: '' @ details (c # cs)) 409)
           | [] \<Rightarrow> (case overlap_conflicts_space_blocks_for_subnet (rz_blocks D) (space_of s) n (ancestor_block_ids_for_subnet (rz_blocks D) s) of
               c # cs \<Rightarrow> Some (ResizeError (''New CIDR overlaps an existing block in the same space: '' @ details (c # cs)) 409)
             | [] \<Rightarrow> (case parent_containment_conflicts (rz_blocks D) (sn_block_id s) n of
                 Inl e \<Rightarrow> Some e
               | Inr ((_, m) # _) \<Rightarrow> Some (ResizeError m 422)
               | Inr [] \<Rightarrow> (case new_boundary_conflicts (rz_tables D) s old n of [] \<Rightarrow> None
                   | m # ms \<Rightarrow> Some (ResizeError (''Resize blocked: '' @ py_join ''; '' (m # ms)) 409)))))))"

definition default_gateway_row :: "uuid \<Rightarrow> ip_addr \<Rightarrow> ip_address \<Rightarrow> bool" where
  "default_gateway_row i gw r \<longleftrightarrow> ipa_subnet_id r = i \<and> ipa_address r = gw \<and> ipa_status r = ''reserved'' \<and>
     ipa_hostname r = Some ''gateway'' \<and> ipa_description r = ''Gateway'' \<and> ipa_dns_record_id r = None"

definition remove_first :: "(ip_address \<Rightarrow> bool) \<Rightarrow> ip_address list \<Rightarrow> ip_address list" where
  "remove_first P rows = (case find P rows of None \<Rightarrow> rows | Some r \<Rightarrow> remove1 r rows)"

definition gateway_row :: "uuid \<Rightarrow> ip_addr \<Rightarrow> uuid option \<Rightarrow> ip_address" where
  "gateway_row i gw creator = \<lparr>ipa_subnet_id = i, ipa_address = gw, ipa_status = ''reserved'', ipa_hostname = Some ''gateway'',
     ipa_description = ''Gateway'', ipa_dns_record_id = None, ipa_created_by = creator\<rparr>"

text \<open>The gateway the subnet is moved to, when its text changes.\<close>

definition moved_gateway :: "ipam_subnet \<Rightarrow> ipnet \<Rightarrow> bool \<Rightarrow> ip_addr option" where
  "moved_gateway s n move = (if \<not> move then None
     else case first_usable n of None \<Rightarrow> None | Some fu \<Rightarrow> if gateway_text s = Some (str_ip fu) then None else Some fu)"

definition resized_row :: "ipam_subnet \<Rightarrow> ipnet \<Rightarrow> bool \<Rightarrow> ipam_subnet" where
  "resized_row s n move = s\<lparr>sn_network := (version n, network_address n, prefixlen n), sn_total_ips := child_total_ips n,
     sn_gateway := (case (if move then first_usable n else None) of Some fu \<Rightarrow> Some (str_ip fu, Some fu) | None \<Rightarrow> sn_gateway s)\<rparr>"

text \<open>The address rows after the resize.\<close>

definition resized_addresses :: "uuid option \<Rightarrow> split_db \<Rightarrow> ipam_subnet \<Rightarrow> ipnet \<Rightarrow> ipnet \<Rightarrow> bool \<Rightarrow> bool \<Rightarrow> ip_address list" where
  "resized_addresses creator T s old n move replace =
     (let a1 = (if replace then filter (\<lambda>r. \<not> replaceable (sn_id s) old r) (addrs T) else addrs T);
          a2 = (if replace then a1 @ ensure_boundary_rows (sn_id s) n creator (sn_kind s) a1 else a1) in
      case moved_gateway s n move of None \<Rightarrow> a2
      | Some fu \<Rightarrow> (let a3 = (case sn_gateway s of Some (t, Some gw) \<Rightarrow>
            if replace \<and> t \<noteq> [] then remove_first (default_gateway_row (sn_id s) gw) a2 else a2 | _ \<Rightarrow> a2) in
          a3 @ [gateway_row (sn_id s) fu creator]))"

definition resize_summary :: "ipam_subnet \<Rightarrow> ipnet \<Rightarrow> ipnet \<Rightarrow> bool \<Rightarrow> nat \<Rightarrow> nat \<Rightarrow> nat \<Rightarrow> string list" where
  "resize_summary s old n move deleted created srvs =
     [''Grew '' @ str_net old @ '' -> '' @ str_net n,
      ''Total usable IPs: '' @ int_str (sn_total_ips s) @ '' -> '' @ int_str (child_total_ips n)] @
     (if deleted \<noteq> 0 then [''Replaced '' @ nat_digits deleted @ '' default-named placeholder row(s) with '' @ nat_digits created @ '' new one(s)''] else []) @
     (case moved_gateway s n move of
        Some fu \<Rightarrow> [''Gateway moved '' @ (case gateway_text s of None \<Rightarrow> ''None'' | Some t \<Rightarrow> t) @ '' -> '' @ str_ip fu]
      | None \<Rightarrow> (case gateway_text s of None \<Rightarrow> [] | Some t \<Rightarrow> [''Gateway unchanged ('' @ t @ '') - still inside new CIDR''])) @
     (if srvs \<noteq> 0 then [''Notified '' @ nat_digits srvs @ '' DHCP server(s) to re-render config''] else [])"

text \<open>The row of the subnet on the DNS side, with its new network, and its reverse zones.\<close>

definition set_rev_network :: "uuid \<Rightarrow> ipnet \<Rightarrow> rev_db \<Rightarrow> rev_db" where
  "set_rev_network i n d = d\<lparr>rd_subnets := map (\<lambda>t. if sr_id t = i
     then t\<lparr>sr_subnet := (sr_subnet t)\<lparr>rs_network := (version n, network_address n, prefixlen n)\<rparr>\<rparr> else t) (rd_subnets d)\<rparr>"

definition backfill_reverse :: "(string \<Rightarrow> uuid option) \<Rightarrow> (string \<Rightarrow> uuid) \<Rightarrow> uuid \<Rightarrow> rev_db \<Rightarrow> rev_db option" where
  "backfill_reverse parse new_id i d = (case find (\<lambda>t. sr_id t = i) (live_subnets d) of None \<Rightarrow> Some d
     | Some t \<Rightarrow> map_option fst (ensure_reverse_zones_for_subnet parse new_id d t None None True))"

text \<open>The DHCP servers of the groups with a scope on the subnet that run an agent.\<close>

definition servers_to_notify :: "split_db \<Rightarrow> uuid \<Rightarrow> dhcp_server list" where
  "servers_to_notify T i = filter (notified (map sc_group_id (filter (\<lambda>sc. sc_subnet_id sc = i) (scopes T)))) (servers T)"

definition apply_subnet_resize :: "(split_db \<Rightarrow> dhcp_server \<Rightarrow> string) \<Rightarrow> (string \<Rightarrow> uuid option) \<Rightarrow> (string \<Rightarrow> uuid) \<Rightarrow> uuid option \<Rightarrow>
    resize_db \<Rightarrow> ipam_subnet \<Rightarrow> ipnet \<Rightarrow> ipnet \<Rightarrow> bool \<Rightarrow> bool \<Rightarrow> (subnet_resize_result \<times> resize_db) option" where
  "apply_subnet_resize etag parse new_id creator D s old n move replace =
     (let T = rz_tables D; i = sn_id s;
          T1 = T\<lparr>subnets_tab := map (\<lambda>x. if sn_id x = i then resized_row s n move else x) (subnets_tab T),
            addrs := resized_addresses creator T s old n move replace\<rparr>;
          T2 = update_utilization i T1;
          srvs = servers_to_notify T2 i;
          a1 = (if replace then filter (\<lambda>r. \<not> replaceable i old r) (addrs T) else addrs T);
          deleted = (if replace then length (fst (load_boundary_placeholders T i old)) else 0);
          created = (if replace then length (ensure_boundary_rows i n creator (sn_kind s) a1) else 0) in
      case backfill_reverse parse new_id i (set_rev_network i n (rz_rev D)) of None \<Rightarrow> None
      | Some rv \<Rightarrow> Some (\<lparr>rr_subnet_id = i, rr_old_cidr = str_net old, rr_new_cidr = str_net n, rr_deleted = deleted,
            rr_created = created, rr_notified = length srvs, rr_summary = resize_summary s old n move deleted created (length srvs)\<rparr>,
          D\<lparr>rz_tables := notify_servers etag ''subnet_resize'' srvs T2, rz_rev := rv,
            rz_synced := rz_synced D @ (case moved_gateway s n move of Some fu \<Rightarrow> [gateway_row i fu creator] | None \<Rightarrow> []),
            rz_woken := rz_woken D @ map srv_id srvs\<rparr>))"

definition commit_subnet_resize :: "(split_db \<Rightarrow> dhcp_server \<Rightarrow> string) \<Rightarrow> (string \<Rightarrow> uuid option) \<Rightarrow> (string \<Rightarrow> uuid) \<Rightarrow> uuid option \<Rightarrow>
    bool \<Rightarrow> resize_db \<Rightarrow> ipam_subnet \<Rightarrow> cidr_text \<Rightarrow> bool \<Rightarrow> bool \<Rightarrow> (resize_error + subnet_resize_result \<times> resize_db) option" where
  "commit_subnet_resize etag parse new_id creator locked D s new move replace =
     (if \<not> locked then Some (Inl (ResizeError ''Another operation is already in progress for this subnet. Retry once it completes.'' 423))
      else case ip_network (sn_network s) of None \<Rightarrow> Some (Inl (ResizeError ''Invalid CIDR for subnet'' 422))
      | Some old \<Rightarrow> (case parse_cidr ''new CIDR'' new of Inl e \<Rightarrow> Some (Inl e)
          | Inr n \<Rightarrow> (case resize_refusal D s old n move of Some e \<Rightarrow> Some (Inl e)
              | None \<Rightarrow> map_option Inr (apply_subnet_resize etag parse new_id creator D s old n move replace))))"

section \<open>The preview and the commit agree\<close>

lemma refusal_conflicts:
  assumes "validate_grow ''subnet'' old n = None"
  shows "resize_refusal D s old n move = None \<longleftrightarrow> subnet_space_conflicts D s old n = Inr [] \<and> gateway_conflicts D s n move = Inr []"
proof -
  let ?T = "rz_tables D"
  have g: "gateway_conflicts D s n move = Inr [] \<longleftrightarrow> \<not> (move \<and> first_usable n = None) \<and>
      (if move then gateway_target_in_use ?T s (the (first_usable n)) else Inr False) = Inr False"
    by (auto simp: gateway_conflicts_def split: option.splits sum.splits)
  have c: "subnet_space_conflicts D s old n = Inr [] \<longleftrightarrow> overlap_conflicts_space_subnets ?T (space_of s) n (sn_id s) old = [] \<and>
      overlap_conflicts_space_blocks_for_subnet (rz_blocks D) (space_of s) n (ancestor_block_ids_for_subnet (rz_blocks D) s) = [] \<and>
      parent_containment_conflicts (rz_blocks D) (sn_block_id s) n = Inr [] \<and> new_boundary_conflicts ?T s old n = []"
    by (auto simp: subnet_space_conflicts_def split: sum.splits)
  show ?thesis unfolding g c resize_refusal_def assms
    by (auto split: sum.splits bool.splits list.splits)
qed

text \<open>C38: the preview of a subnet resize is honest. When the lock is free, the commit refuses or fails exactly when the preview lists a
  conflict or fails itself, whatever the tables hold and whether or not the default rows are to be replaced.\<close>

theorem subnet_preview_matches_commit:
  "(\<exists>p. preview_subnet_resize D s new move = Inr p \<and> rp_conflicts p = []) \<longleftrightarrow>
   (\<forall>e. commit_subnet_resize etag parse new_id creator True D s new move replace \<noteq> Some (Inl e))"
proof (cases "ip_network (sn_network s)")
  case None
  then show ?thesis by (simp add: preview_subnet_resize_def commit_subnet_resize_def shell_preview_def)
next
  case old: (Some old)
  show ?thesis
  proof (cases "parse_cidr ''new CIDR'' new")
    case (Inl e)
    then show ?thesis using old by (cases e) (simp_all add: preview_subnet_resize_def commit_subnet_resize_def shell_preview_def)
  next
    case n: (Inr n)
    have c: "(\<forall>e. commit_subnet_resize etag parse new_id creator True D s new move replace \<noteq> Some (Inl e)) \<longleftrightarrow> resize_refusal D s old n move = None"
      using old n by (auto simp: commit_subnet_resize_def split: option.splits)
    have pc: "rp_conflicts (preview_of D s old n cs) = cs" for cs by (simp add: preview_of_def Let_def case_prod_unfold)
    show ?thesis
    proof (cases "validate_grow ''subnet'' old n")
      case (Some e)
      then have "resize_refusal D s old n move \<noteq> None" by (simp add: resize_refusal_def)
      then show ?thesis using old n Some unfolding c
        by (cases e) (auto simp: preview_subnet_resize_def pc split: sum.splits)
    next
      case None
      show ?thesis unfolding c refusal_conflicts [OF None] using old n None
        by (auto simp: preview_subnet_resize_def pc split: sum.splits)
    qed
  qed
qed

section \<open>The address rows\<close>

lemma notify_keeps_rows: "addrs (notify_servers etag reason srvs T) = addrs T \<and> subnets_tab (notify_servers etag reason srvs T) = subnets_tab T"
  by (induction srvs arbitrary: T) (simp_all add: Let_def)

lemma commit_subnet_resizeD:
  assumes "commit_subnet_resize etag parse new_id creator locked D s new move replace = Some (Inr (res, D'))"
  obtains old n where "ip_network (sn_network s) = Some old" "parse_cidr ''new CIDR'' new = Inr n" "resize_refusal D s old n move = None"
    "addrs (rz_tables D') = resized_addresses creator (rz_tables D) s old n move replace" "rz_blocks D' = rz_blocks D"
    "map (\<lambda>x. x\<lparr>sn_allocated_ips := 0\<rparr>) (subnets_tab (rz_tables D')) =
       map (\<lambda>x. (if sn_id x = sn_id s then resized_row s n move else x)\<lparr>sn_allocated_ips := 0\<rparr>) (subnets_tab (rz_tables D))"
proof -
  obtain old n where h: "ip_network (sn_network s) = Some old" "parse_cidr ''new CIDR'' new = Inr n" "resize_refusal D s old n move = None"
    "apply_subnet_resize etag parse new_id creator D s old n move replace = Some (res, D')"
    using assms by (auto simp: commit_subnet_resize_def split: if_splits option.splits sum.splits)
  show ?thesis
  proof (rule that [OF h(1-3)])
    show "addrs (rz_tables D') = resized_addresses creator (rz_tables D) s old n move replace" "rz_blocks D' = rz_blocks D"
      "map (\<lambda>x. x\<lparr>sn_allocated_ips := 0\<rparr>) (subnets_tab (rz_tables D')) =
       map (\<lambda>x. (if sn_id x = sn_id s then resized_row s n move else x)\<lparr>sn_allocated_ips := 0\<rparr>) (subnets_tab (rz_tables D))"
      using h(4) by (auto simp: apply_subnet_resize_def Let_def notify_keeps_rows update_utilization_def resized_row_def split: option.splits)
  qed
qed

lemma refusal_None:
  assumes "resize_refusal D s old n move = None"
  shows "validate_grow ''subnet'' old n = None" "move \<Longrightarrow> \<exists>fu. first_usable n = Some fu \<and> gateway_target_in_use (rz_tables D) s fu = Inr False"
    "overlap_conflicts_space_subnets (rz_tables D) (space_of s) n (sn_id s) old = []"
    "overlap_conflicts_space_blocks_for_subnet (rz_blocks D) (space_of s) n (ancestor_block_ids_for_subnet (rz_blocks D) s) = []"
    "parent_containment_conflicts (rz_blocks D) (sn_block_id s) n = Inr []" "new_boundary_conflicts (rz_tables D) s old n = []"
  using assms by (auto simp: resize_refusal_def split: option.splits if_splits sum.splits bool.splits list.splits)

lemma boundary_inside: "a \<in> set (boundary_addresses n kind) \<Longrightarrow> a \<in> addresses n"
  using broadcast_in [of n] by (auto simp: boundary_addresses_def boundary_rows_def split: if_splits)

lemma first_usable_inside:
  assumes "wf_net n" "first_usable n = Some fu"
  shows "fu \<in> addresses n" "fu \<notin> set (boundary_addresses n kind)"
proof -
  have p: "version n = V4 \<Longrightarrow> prefixlen n \<le> 30" "version n = V6 \<Longrightarrow> prefixlen n \<le> 126" and fu: "fu = (version n, network_address n + 1)"
    using assms(2) by (auto simp: first_usable_def split: if_splits)
  have "2 \<le> max_prefixlen (version n) - prefixlen n" using p by (cases "version n") auto
  then have "(2::nat) ^ 2 \<le> num_addresses n" unfolding num_addresses_def by (rule power_increasing) simp
  then have "4 \<le> num_addresses n" by simp
  then show "fu \<in> addresses n" "fu \<notin> set (boundary_addresses n kind)"
    unfolding fu by (auto simp: addresses_def boundary_addresses_def boundary_rows_def broadcast_address_def)
qed

lemma ensured_row:
  assumes "r \<in> set (ensure_boundary_rows i n creator kind table)"
  shows "ipa_subnet_id r = i" "ipa_address r \<in> set (boundary_addresses n kind)" "ipa_status r \<in> {''network'', ''broadcast''}"
    "\<forall>x \<in> set table. ipa_subnet_id x = i \<longrightarrow> ipa_address x \<noteq> ipa_address r"
proof -
  obtain a st de where x: "(a, st, de) \<in> set (boundary_rows n kind)" "a \<notin> ipa_address ` {x \<in> set table. ipa_subnet_id x = i}"
    "ipa_subnet_id r = i" "ipa_address r = a" "ipa_status r = st" using assms by (auto simp: ensure_boundary_rows_def)
  show "ipa_subnet_id r = i" by (rule x(3))
  show "\<forall>x \<in> set table. ipa_subnet_id x = i \<longrightarrow> ipa_address x \<noteq> ipa_address r"
  proof (intro ballI impI notI)
    fix x
    assume h: "x \<in> set table" "ipa_subnet_id x = i" "ipa_address x = ipa_address r"
    have "x \<in> {x \<in> set table. ipa_subnet_id x = i}" using h(1,2) by simp
    then have "ipa_address x \<in> ipa_address ` {x \<in> set table. ipa_subnet_id x = i}" by (rule imageI)
    then show False using x(2) unfolding h(3) x(4) by contradiction
  qed
  show "ipa_address r \<in> set (boundary_addresses n kind)" using x(1,4) by (force simp: boundary_addresses_def)
  show "ipa_status r \<in> {''network'', ''broadcast''}" using x(1,5) by (auto simp: boundary_rows_def split: if_splits)
qed

definition row_key :: "ip_address \<Rightarrow> uuid \<times> ip_addr" where
  "row_key r = (ipa_subnet_id r, ipa_address r)"

lemma ensured_distinct:
  assumes "wf_net n" "distinct (map row_key table)"
  shows "distinct (map row_key (table @ ensure_boundary_rows i n creator kind table))"
proof -
  have "network_address n \<noteq> broadcast_address n" if "has_boundary_rows n kind" "version n = V4"
    using that network_not_broadcast [of n] by (simp add: has_boundary_rows_def split: if_splits)
  then have b: "distinct (map fst (boundary_rows n kind))" by (auto simp: boundary_rows_def)
  have pair: "distinct (map (\<lambda>x. (i, fst x)) xs) = distinct (map fst xs)" for xs :: "(ip_addr \<times> string \<times> string) list"
    by (simp add: distinct_map inj_on_def)
  have e: "map row_key (ensure_boundary_rows i n creator kind table) =
      map (\<lambda>x. (i, fst x)) (filter (\<lambda>(a, _). a \<notin> set (map ipa_address (filter (\<lambda>r. ipa_subnet_id r = i) table))) (boundary_rows n kind))"
    by (simp add: ensure_boundary_rows_def Let_def row_key_def comp_def case_prod_unfold)
  have "distinct (map fst (filter (\<lambda>(a, _). a \<notin> set (map ipa_address (filter (\<lambda>r. ipa_subnet_id r = i) table))) (boundary_rows n kind)))"
    using b by (rule distinct_map_filter)
  then have "distinct (map row_key (ensure_boundary_rows i n creator kind table))"
    unfolding e using pair by blast
  moreover have "row_key r \<noteq> row_key x" if "r \<in> set (ensure_boundary_rows i n creator kind table)" "x \<in> set table" for r x
    using ensured_row(1,4) [OF that(1)] that(2) by (auto simp: row_key_def)
  then have "row_key ` set table \<inter> row_key ` set (ensure_boundary_rows i n creator kind table) = {}" by fastforce
  ultimately show ?thesis using assms(2) by simp
qed

lemma remove_first_facts: "set (remove_first P rows) \<subseteq> set rows" "r \<in> set rows \<Longrightarrow> \<not> P r \<Longrightarrow> r \<in> set (remove_first P rows)"
  "distinct (map f rows) \<Longrightarrow> distinct (map f (remove_first P rows))"
  "(\<And>r. P r \<Longrightarrow> \<not> Q r) \<Longrightarrow> filter Q (remove_first P rows) = filter Q rows"
proof -
  show "set (remove_first P rows) \<subseteq> set rows" using set_remove1_subset by (fastforce simp: remove_first_def split: option.splits)
  show "r \<in> set (remove_first P rows)" if "r \<in> set rows" "\<not> P r"
  proof (cases "find P rows")
    case (Some x)
    then have "r \<noteq> x" using that find_SomeD by fastforce
    then show ?thesis using Some that in_set_remove1 [of r x rows] by (simp add: remove_first_def)
  qed (use that in \<open>simp add: remove_first_def\<close>)
  show "distinct (map f (remove_first P rows))" if "distinct (map f rows)"
    using that by (auto simp: remove_first_def distinct_map distinct_remove1 split: option.splits intro: inj_on_diff)
  show "filter Q (remove_first P rows) = filter Q rows" if "\<And>r. P r \<Longrightarrow> \<not> Q r"
  proof (cases "find P rows")
    case (Some r)
    then have "\<not> Q r" using that find_SomeD by fastforce
    then show ?thesis using Some filter_remove1 [of Q r rows] by (simp add: remove_first_def remove1_idem)
  qed (simp add: remove_first_def)
qed

lemma no_host_on_boundary:
  assumes "new_boundary_conflicts T s old n = []" "r \<in> set (addrs T)" "ipa_subnet_id r = sn_id s"
    "ipa_address r \<in> set (boundary_addresses n (sn_kind s))"
  shows "ipa_status r \<in> {''network'', ''broadcast''} \<or> ipa_address r \<in> set (boundary_addresses old (sn_kind s))"
proof (rule ccontr)
  assume h: "\<not> ?thesis"
  have "boundary_labels [n] (sn_kind s) (ipa_address r) \<noteq> None"
    using assms(4) by (auto simp: boundary_labels_def boundary_addresses_def map_of_eq_None_iff image_image case_prod_unfold)
  then obtain l where l: "boundary_labels [n] (sn_kind s) (ipa_address r) = Some l" by blast
  have "r \<in> set (subnet_rows T (sn_id s))" using assms(2,3) by (simp add: subnet_rows_def)
  then have "boundary_conflict r l \<in> set (boundary_host_conflicts (subnet_rows T (sn_id s)) [n] (sn_kind s) (boundary_addresses old (sn_kind s)))"
    unfolding boundary_host_conflicts_def set_map_filter using h l by (intro CollectI bexI [of _ r]) simp_all
  then show False using assms(1) by (simp add: new_boundary_conflicts_def)
qed

text \<open>The gateway column holds the text of its address.\<close>

definition canonical_gateway :: "ipam_subnet \<Rightarrow> bool" where
  "canonical_gateway s \<longleftrightarrow> (\<forall>t gw. sn_gateway s = Some (t, Some gw) \<longrightarrow> t = str_ip gw)"

lemma moved_gateway_free:
  assumes "resize_refusal D s old n move = None" "canonical_gateway s" "moved_gateway s n move = Some fu"
  shows "first_usable n = Some fu" "\<And>r. r \<in> set (addrs (rz_tables D)) \<Longrightarrow> ipa_subnet_id r = sn_id s \<Longrightarrow> ipa_address r \<noteq> fu"
proof -
  show fu: "first_usable n = Some fu" using assms(3) by (auto simp: moved_gateway_def split: if_splits option.splits)
  have "move" and t: "gateway_text s \<noteq> Some (str_ip fu)" using assms(3) fu by (auto simp: moved_gateway_def split: if_splits)
  then have u: "gateway_target_in_use (rz_tables D) s fu = Inr False" using refusal_None(2) [OF assms(1)] fu by simp
  let ?used = "list_ex (\<lambda>r. ipa_subnet_id r = sn_id s \<and> ipa_address r = fu) (addrs (rz_tables D))"
  have "\<not> ?used"
  proof (cases "sn_gateway s")
    case None
    then show ?thesis using u by (simp add: gateway_target_in_use_def)
  next
    case (Some ta)
    obtain x a where ta: "ta = (x, a)" by (cases ta)
    note g = u [unfolded gateway_target_in_use_def Let_def Some ta option.case prod.case]
    show ?thesis
    proof (cases "x = [] \<or> a = None")
      case True
      then show ?thesis using g by (cases "x = []") simp_all
    next
      case False
      then obtain gw where gw: "a = Some gw" "x \<noteq> []" by auto
      have "x = str_ip gw" using assms(2) Some unfolding ta gw(1) canonical_gateway_def by blast
      then have "gw \<noteq> fu" using t gw(2) by (auto simp: gateway_text_def Some ta)
      then show ?thesis using g gw by simp
    qed
  qed
  then show "ipa_address r \<noteq> fu" if "r \<in> set (addrs (rz_tables D))" "ipa_subnet_id r = sn_id s" for r
    using that by (auto simp: list_ex_iff)
qed

text \<open>The rows a resize may take away: default boundary rows at the old edges, and the default row of a gateway that moves.\<close>

definition retired_row :: "ipam_subnet \<Rightarrow> ipnet \<Rightarrow> ipnet \<Rightarrow> bool \<Rightarrow> bool \<Rightarrow> ip_address \<Rightarrow> bool" where
  "retired_row s old n move replace r \<longleftrightarrow> replace \<and> (replaceable (sn_id s) old r \<or>
     moved_gateway s n move \<noteq> None \<and> (\<exists>t gw. sn_gateway s = Some (t, Some gw) \<and> default_gateway_row (sn_id s) gw r))"

text \<open>The rows before the gateway row is added: those kept, and the new boundary rows.\<close>

lemma resized_rows:
  assumes "wf_net n" "distinct (map row_key (addrs T))"
  shows "\<exists>kept. resized_addresses creator T s old n move replace =
      kept @ (case moved_gateway s n move of None \<Rightarrow> [] | Some fu \<Rightarrow> [gateway_row (sn_id s) fu creator]) \<and>
    distinct (map row_key kept) \<and> filter (\<lambda>r. ipa_subnet_id r \<noteq> sn_id s) kept = filter (\<lambda>r. ipa_subnet_id r \<noteq> sn_id s) (addrs T) \<and>
    (\<forall>r \<in> set (addrs T). \<not> retired_row s old n move replace r \<longrightarrow> r \<in> set kept) \<and>
    (\<forall>r \<in> set kept. r \<in> set (addrs T) \<or>
       ipa_subnet_id r = sn_id s \<and> ipa_address r \<in> set (boundary_addresses n (sn_kind s)) \<and> ipa_status r \<in> {''network'', ''broadcast''})"
proof -
  define a1 where "a1 = (if replace then filter (\<lambda>r. \<not> replaceable (sn_id s) old r) (addrs T) else addrs T)"
  define a2 where "a2 = (if replace then a1 @ ensure_boundary_rows (sn_id s) n creator (sn_kind s) a1 else a1)"
  define a3 where "a3 = (case sn_gateway s of Some (t, Some gw) \<Rightarrow>
     if replace \<and> t \<noteq> [] then remove_first (default_gateway_row (sn_id s) gw) a2 else a2 | _ \<Rightarrow> a2)"
  define kept where "kept = (case moved_gateway s n move of None \<Rightarrow> a2 | Some _ \<Rightarrow> a3)"
  have d1: "distinct (map row_key a1)" using assms(2) by (simp add: a1_def distinct_map_filter)
  have d2: "distinct (map row_key a2)" using ensured_distinct [OF assms(1) d1] d1 by (simp add: a2_def)
  have o1: "filter (\<lambda>r. ipa_subnet_id r \<noteq> sn_id s) a1 = filter (\<lambda>r. ipa_subnet_id r \<noteq> sn_id s) (addrs T)"
    by (auto simp: a1_def replaceable_def intro: filter_cong)
  have "filter (\<lambda>r. ipa_subnet_id r \<noteq> sn_id s) (ensure_boundary_rows (sn_id s) n creator (sn_kind s) a1) = []"
    using ensured_row(1) by (fastforce simp: filter_empty_conv)
  then have o2: "filter (\<lambda>r. ipa_subnet_id r \<noteq> sn_id s) a2 = filter (\<lambda>r. ipa_subnet_id r \<noteq> sn_id s) (addrs T)" using o1 by (simp add: a2_def)
  have k3: "set a3 \<subseteq> set a2 \<and> distinct (map row_key a3) \<and> filter (\<lambda>r. ipa_subnet_id r \<noteq> sn_id s) a3 = filter (\<lambda>r. ipa_subnet_id r \<noteq> sn_id s) a2 \<and>
      (\<forall>r \<in> set a2. \<not> (replace \<and> (\<exists>t gw. sn_gateway s = Some (t, Some gw) \<and> default_gateway_row (sn_id s) gw r)) \<longrightarrow> r \<in> set a3)"
  proof (cases "\<exists>t gw. sn_gateway s = Some (t, Some gw) \<and> replace \<and> t \<noteq> []")
    case True
    then obtain t gw where g: "sn_gateway s = Some (t, Some gw)" "replace" "t \<noteq> []" by blast
    then have a3: "a3 = remove_first (default_gateway_row (sn_id s) gw) a2" by (simp add: a3_def)
    have "filter (\<lambda>r. ipa_subnet_id r \<noteq> sn_id s) a3 = filter (\<lambda>r. ipa_subnet_id r \<noteq> sn_id s) a2"
      unfolding a3 by (rule remove_first_facts(4)) (simp add: default_gateway_row_def)
    moreover have "r \<in> set a3" if "r \<in> set a2" "\<not> default_gateway_row (sn_id s) gw r" for r unfolding a3 using that by (rule remove_first_facts(2))
    ultimately show ?thesis using remove_first_facts(1,3) d2 g unfolding a3 by auto
  next
    case False
    then have "a3 = a2" by (auto simp: a3_def split: option.splits)
    then show ?thesis using d2 by simp
  qed
  show ?thesis
  proof (intro exI [of _ kept] conjI ballI impI)
    show "resized_addresses creator T s old n move replace =
      kept @ (case moved_gateway s n move of None \<Rightarrow> [] | Some fu \<Rightarrow> [gateway_row (sn_id s) fu creator])"
      by (simp add: resized_addresses_def Let_def kept_def a3_def a2_def a1_def split: option.splits cong: if_cong)
    show "distinct (map row_key kept)" "filter (\<lambda>r. ipa_subnet_id r \<noteq> sn_id s) kept = filter (\<lambda>r. ipa_subnet_id r \<noteq> sn_id s) (addrs T)"
      using d2 k3 o2 by (auto simp: kept_def split: option.splits)
    show "r \<in> set kept" if r: "r \<in> set (addrs T)" "\<not> retired_row s old n move replace r" for r
    proof -
      have "r \<in> set a2" using r by (auto simp: a1_def a2_def retired_row_def)
      then show ?thesis using r(2) k3 by (auto simp: kept_def retired_row_def split: option.splits)
    qed
    show "r \<in> set (addrs T) \<or>
       ipa_subnet_id r = sn_id s \<and> ipa_address r \<in> set (boundary_addresses n (sn_kind s)) \<and> ipa_status r \<in> {''network'', ''broadcast''}"
      if "r \<in> set kept" for r
    proof -
      have "r \<in> set a2" using that k3 by (auto simp: kept_def split: option.splits)
      then have "r \<in> set (addrs T) \<or> r \<in> set (ensure_boundary_rows (sn_id s) n creator (sn_kind s) a1)"
        by (auto simp: a2_def a1_def split: if_splits)
      then show ?thesis using ensured_row(1-3) by blast
    qed
  qed
qed

lemma add_gateway_distinct:
  assumes "distinct (map row_key kept)" "\<forall>r \<in> set kept. ipa_subnet_id r = i \<longrightarrow> ipa_address r \<noteq> fu"
  shows "distinct (map row_key (kept @ [gateway_row i fu creator]))"
proof -
  have "row_key (gateway_row i fu creator) \<noteq> row_key r" if "r \<in> set kept" for r
    using assms(2) that unfolding row_key_def gateway_row_def prod.inject ip_address.simps by metis
  then have "row_key (gateway_row i fu creator) \<notin> row_key ` set kept" by (metis imageE)
  then show ?thesis using assms(1) by simp
qed

lemma added_row_cases:
  assumes "r \<in> set (kept @ (case m of None \<Rightarrow> [] | Some fu \<Rightarrow> [gateway_row i fu creator]))"
  obtains "r \<in> set kept" | fu where "m = Some fu" "ipa_address r = fu"
  using assms by (cases m) (auto simp: gateway_row_def)

text \<open>C39: growing a subnet loses no address and breaks no rule of the rows. When the commit goes through, the rows of other subnets are
  untouched; of its own rows only default boundary rows at the old edges and, if the gateway moves, the gateway's default row can go;
  no address is held twice; every row is inside the new network; nothing but a boundary row sits on a boundary address the subnet did
  not have before; and a moved gateway is reserved.\<close>

theorem subnet_resize_keeps_rows:
  assumes "commit_subnet_resize etag parse new_id creator locked D s new move replace = Some (Inr (res, D'))"
    "distinct (map row_key (addrs (rz_tables D)))" "ip_network (sn_network s) = Some old" "canonical_gateway s"
    "\<forall>r \<in> set (addrs (rz_tables D)). ipa_subnet_id r = sn_id s \<longrightarrow> ipa_address r \<in> addresses old"
  shows "\<exists>n. parse_cidr ''new CIDR'' new = Inr n \<and> distinct (map row_key (addrs (rz_tables D'))) \<and>
    filter (\<lambda>r. ipa_subnet_id r \<noteq> sn_id s) (addrs (rz_tables D')) = filter (\<lambda>r. ipa_subnet_id r \<noteq> sn_id s) (addrs (rz_tables D)) \<and>
    (\<forall>r \<in> set (addrs (rz_tables D)). retired_row s old n move replace r \<or> r \<in> set (addrs (rz_tables D'))) \<and>
    (\<forall>r \<in> set (addrs (rz_tables D')). ipa_subnet_id r = sn_id s \<longrightarrow> ipa_address r \<in> addresses n \<and>
       (ipa_address r \<in> set (boundary_addresses n (sn_kind s)) \<longrightarrow>
          ipa_status r \<in> {''network'', ''broadcast''} \<or> ipa_address r \<in> set (boundary_addresses old (sn_kind s)))) \<and>
    (\<forall>fu. moved_gateway s n move = Some fu \<longrightarrow> gateway_row (sn_id s) fu creator \<in> set (addrs (rz_tables D')))"
proof -
  let ?T = "rz_tables D" and ?A' = "addrs (rz_tables D')"
  obtain old' n where o: "ip_network (sn_network s) = Some old'" and n': "parse_cidr ''new CIDR'' new = Inr n" "resize_refusal D s old' n move = None"
    "?A' = resized_addresses creator ?T s old' n move replace" by (rule commit_subnet_resizeD [OF assms(1)])
  have "old' = old" using o assms(3) by simp
  note n = n' [unfolded this]
  have wf: "wf_net n" using parse_wf [OF n(1)] .
  note ref = refusal_None [OF n(2)] and free = moved_gateway_free [OF n(2) assms(4)]
  obtain kept where k: "?A' = kept @ (case moved_gateway s n move of None \<Rightarrow> [] | Some fu \<Rightarrow> [gateway_row (sn_id s) fu creator])"
    "distinct (map row_key kept)" "filter (\<lambda>r. ipa_subnet_id r \<noteq> sn_id s) kept = filter (\<lambda>r. ipa_subnet_id r \<noteq> sn_id s) (addrs ?T)"
    "\<forall>r \<in> set (addrs ?T). \<not> retired_row s old n move replace r \<longrightarrow> r \<in> set kept"
    "\<forall>r \<in> set kept. r \<in> set (addrs ?T) \<or>
       ipa_subnet_id r = sn_id s \<and> ipa_address r \<in> set (boundary_addresses n (sn_kind s)) \<and> ipa_status r \<in> {''network'', ''broadcast''}"
    using resized_rows [OF wf assms(2), of creator s old move replace, folded n(3)] by (elim exE conjE) (rule that)
  have new: "ipa_address r \<noteq> fu" if "moved_gateway s n move = Some fu" "r \<in> set kept" "ipa_subnet_id r = sn_id s" for fu r
    using bspec [OF k(5) that(2)] free(2) [OF that(1)] first_usable_inside(2) [OF wf free(1) [OF that(1)], of "sn_kind s"] that(3) by blast
  have "distinct (map row_key ?A')"
    using add_gateway_distinct [OF k(2)] new k(2) unfolding k(1) by (cases "moved_gateway s n move") simp_all
  moreover have "filter (\<lambda>r. ipa_subnet_id r \<noteq> sn_id s) ?A' = filter (\<lambda>r. ipa_subnet_id r \<noteq> sn_id s) (addrs ?T)"
    unfolding k(1) using k(3) by (simp add: gateway_row_def split: option.splits)
  moreover have "ipa_address r \<in> addresses n \<and> (ipa_address r \<in> set (boundary_addresses n (sn_kind s)) \<longrightarrow>
          ipa_status r \<in> {''network'', ''broadcast''} \<or> ipa_address r \<in> set (boundary_addresses old (sn_kind s)))"
    if r: "r \<in> set ?A'" "ipa_subnet_id r = sn_id s" for r
  proof -
    consider "r \<in> set (addrs ?T)" | "ipa_address r \<in> set (boundary_addresses n (sn_kind s))" "ipa_status r \<in> {''network'', ''broadcast''}"
      | fu where "moved_gateway s n move = Some fu" "ipa_address r = fu"
      by (rule added_row_cases [OF r(1) [unfolded k(1)]]) (use that k(5) in blast)+
    then show ?thesis
    proof cases
      case 1
      then show ?thesis using assms(5) grown(2) [OF ref(1)] no_host_on_boundary [OF ref(6)] r(2) by blast
    next
      case 2
      then show ?thesis using boundary_inside by blast
    next
      case 3
      then show ?thesis using first_usable_inside [OF wf free(1)] by blast
    qed
  qed
  ultimately show ?thesis using n(1) k(1,4) by (intro exI [of _ n]) auto
qed

section \<open>The space\<close>

text \<open>The space of \<open>Block_Resize\<close> as these tables hold it.\<close>

definition net_of :: "ipam_subnet \<Rightarrow> ipnet" where
  "net_of s = the (ip_network (sn_network s))"

definition subnet_view :: "ipam_subnet \<Rightarrow> mv_subnet" where
  "subnet_view s = \<lparr>ms_id = sn_id s, ms_block_id = (case sn_block_id s of Some b \<Rightarrow> b | None \<Rightarrow> []), ms_space_id = space_of s,
     ms_network = net_of s, ms_owners = [], ms_deleted = False\<rparr>"

definition view :: "resize_db \<Rightarrow> mv_db" where
  "view D = \<lparr>mv_blocks = rz_blocks D, mv_subnets = map subnet_view (subnets_tab (rz_tables D)), mv_addresses = [], mv_spaces = []\<rparr>"

text \<open>What the schema guarantees of a live subnet: a unique id, a network, and a block that is not in the Trash.\<close>

definition stored_ok :: "resize_db \<Rightarrow> bool" where
  "stored_ok D \<longleftrightarrow> distinct (map sn_id (subnets_tab (rz_tables D))) \<and> (\<forall>s \<in> set (subnets_tab (rz_tables D)).
     ip_network (sn_network s) \<noteq> None \<and> (\<exists>b \<in> set (rz_blocks D). sn_block_id s = Some (mb_id b) \<and> \<not> mb_deleted b))"

definition subnets_disjoint :: "resize_db \<Rightarrow> bool" where
  "subnets_disjoint D \<longleftrightarrow> (\<forall>s \<in> set (subnets_tab (rz_tables D)). \<forall>t \<in> set (subnets_tab (rz_tables D)).
     sn_id s \<noteq> sn_id t \<and> space_of s = space_of t \<longrightarrow> \<not> share (net_of s) (net_of t))"

definition resize_space_ok :: "resize_db \<Rightarrow> bool" where
  "resize_space_ok D \<longleftrightarrow> space_ok (view D) \<and> stored_ok D \<and> subnets_disjoint D"

lemma net_of_wf: "ip_network (sn_network s) \<noteq> None \<Longrightarrow> wf_net (net_of s)"
  using ip_network_wf unfolding net_of_def by (cases "sn_network s") auto

lemma ancestor_walk_up: "set (ancestor_walk bs k cur acc) \<subseteq> set acc \<union> {p. \<exists>c. cur = Some c \<and> (c, p) \<in> (up bs)\<^sup>*}"
proof (induction k arbitrary: cur acc)
  case 0
  then show ?case by (simp add: ancestor_walk.simps)
next
  case (Suc k)
  show ?case
  proof (cases cur)
    case None
    then show ?thesis by (simp add: ancestor_walk.simps)
  next
    case (Some i)
    show ?thesis
    proof (cases "i \<in> set acc \<or> find (\<lambda>b. mb_id b = i) bs = None")
      case True
      then show ?thesis using Some by (subst ancestor_walk.simps) (auto split: option.splits)
    next
      case False
      then obtain b where b: "find (\<lambda>b. mb_id b = i) bs = Some b" by auto
      then have "b \<in> set bs" "mb_id b = i" using find_SomeD by fastforce+
      then have "(i, c) \<in> up bs" if "mb_parent_id b = Some c" for c using upI that by metis
      then have "{p. \<exists>c. mb_parent_id b = Some c \<and> (c, p) \<in> (up bs)\<^sup>*} \<subseteq> {p. (i, p) \<in> (up bs)\<^sup>*}" by (blast intro: converse_rtrancl_into_rtrancl)
      moreover have "set (ancestor_walk bs k (mb_parent_id b) (acc @ [i])) \<subseteq>
          insert i (set acc) \<union> {p. \<exists>c. mb_parent_id b = Some c \<and> (c, p) \<in> (up bs)\<^sup>*}" using Suc.IH [of "mb_parent_id b" "acc @ [i]"] by simp
      moreover have "(i, i) \<in> (up bs)\<^sup>*" by simp
      ultimately have "set (ancestor_walk bs k (mb_parent_id b) (acc @ [i])) \<subseteq> set acc \<union> {p. (i, p) \<in> (up bs)\<^sup>*}" by blast
      then show ?thesis using False b Some by (subst ancestor_walk.simps) simp
    qed
  qed
qed

text \<open>The rows of the subnets after a resize, as far as a function of them does not look at the count.\<close>

lemma resized_subnets:
  assumes "map (\<lambda>x. x\<lparr>sn_allocated_ips := 0\<rparr>) new = map (\<lambda>x. (if sn_id x = i then y else x)\<lparr>sn_allocated_ips := 0\<rparr>) tab"
    "\<And>x. f (x\<lparr>sn_allocated_ips := 0\<rparr>) = f x"
  shows "map f new = map (\<lambda>x. f (if sn_id x = i then y else x)) tab"
proof -
  have "map f new = map f (map (\<lambda>x. x\<lparr>sn_allocated_ips := 0\<rparr>) new)" by (simp add: assms(2))
  also have "\<dots> = map (\<lambda>x. f ((if sn_id x = i then y else x)\<lparr>sn_allocated_ips := 0\<rparr>)) tab" by (simp only: assms(1) list.map_comp comp_def)
  finally show ?thesis by (simp only: assms(2))
qed

lemma resized_row_simps [simp]: "sn_id (resized_row s n m) = sn_id s" "sn_block_id (resized_row s n m) = sn_block_id s"
  "space_of (resized_row s n m) = space_of s" "sn_network (resized_row s n m) = (version n, network_address n, prefixlen n)"
  by (simp_all add: resized_row_def space_of_def column_def)

lemma alloc_simps [simp]: "space_of (x\<lparr>sn_allocated_ips := k\<rparr>) = space_of x" "net_of (x\<lparr>sn_allocated_ips := k\<rparr>) = net_of x"
  "subnet_view (x\<lparr>sn_allocated_ips := k\<rparr>) = subnet_view x"
  by (simp_all add: space_of_def column_def net_of_def subnet_view_def)

lemma network_reads_back: "wf_net n \<Longrightarrow> ip_network (version n, network_address n, prefixlen n) = Some n"
  by (auto simp: wf_net_def num_addresses_def)

lemma in_map: "\<And>x. x \<in> set xs \<Longrightarrow> map f xs = map g ys \<Longrightarrow> \<exists>y \<in> set ys. f x = g y"
  by (metis imageE image_eqI list.set_map)

lemma no_twin_conflict:
  assumes "overlap_conflicts_space_subnets T space n exclude old = []" "t \<in> set (subnets_tab T)" "ip_network (sn_network t) = Some m" "space_of t = space"
    "sn_id t \<noteq> exclude" "m \<noteq> old"
  shows "\<not> overlaps m n"
proof
  assume "overlaps m n"
  then have "overlap_conflict ''subnet'' m (sn_id t) \<in> set (overlap_conflicts_space_subnets T space n exclude old)"
    unfolding overlap_conflicts_space_subnets_def set_map_filter using assms(2-6) by (intro CollectI bexI [of _ t]) simp_all
  then show False using assms(1) by simp
qed

lemma resize_stays_in_block:
  assumes "resize_space_ok D" "s \<in> set (subnets_tab (rz_tables D))" "version n = version (net_of s)"
    "parent_containment_conflicts (rz_blocks D) (sn_block_id s) n = Inr []"
  shows "\<exists>q \<in> set (rz_blocks D). sn_block_id s = Some (mb_id q) \<and> mb_space_id q = space_of s \<and> addresses n \<subseteq> addresses (mb_network q)"
proof -
  note sp = assms(1) [unfolded resize_space_ok_def space_ok_def]
  obtain b where b: "b \<in> set (rz_blocks D)" "sn_block_id s = Some (mb_id b)" "\<not> mb_deleted b" using sp assms(2) unfolding stored_ok_def by blast
  have "subnet_under (view D) (subnet_view s)" using sp assms(2) by (simp add: view_def)
  then obtain q where q: "q \<in> set (rz_blocks D)" "mb_id q = mb_id b" "mb_space_id q = space_of s" "addresses (net_of s) \<subseteq> addresses (mb_network q)"
    by (auto simp: subnet_under_def view_def subnet_view_def b(2))
  have one: "x = y" if "x \<in> set (rz_blocks D)" "y \<in> set (rz_blocks D)" "mb_id x = mb_id y" for x y
    using one_block [of "view D" x y] sp that by (simp add: view_def)
  have qb: "q = b" using one q(1,2) b(1) by blast
  have "find (\<lambda>x. mb_id x = mb_id b \<and> \<not> mb_deleted x) (rz_blocks D) = Some b"
  proof (cases "find (\<lambda>x. mb_id x = mb_id b \<and> \<not> mb_deleted x) (rz_blocks D)")
    case None
    then show ?thesis using b by (auto simp: find_None_conv)
  next
    case (Some r)
    then have "mb_id r = mb_id b \<and> r \<in> set (rz_blocks D)" using find_SomeD by fastforce
    then show ?thesis using Some one b(1) by blast
  qed
  then have "subnet_of n (mb_network b)" "version n = version (mb_network b)"
    using assms(4) by (auto simp: parent_containment_conflicts_def b(2) split: if_splits)
  then show ?thesis using q(1,3) b(2) unfolding qb by (intro bexI [of _ b]) (simp_all add: subnet_of_iff)
qed

text \<open>The setting of a successful resize: \<open>n\<close> is the new network of \<open>s\<close>.\<close>

definition resized_from :: "resize_db \<Rightarrow> resize_db \<Rightarrow> ipam_subnet \<Rightarrow> ipnet \<Rightarrow> bool \<Rightarrow> bool" where
  "resized_from D D' s n move \<longleftrightarrow> resize_space_ok D \<and> s \<in> set (subnets_tab (rz_tables D)) \<and> wf_net n \<and>
     resize_refusal D s (net_of s) n move = None \<and> rz_blocks D' = rz_blocks D \<and>
     map (\<lambda>x. x\<lparr>sn_allocated_ips := 0\<rparr>) (subnets_tab (rz_tables D')) =
       map (\<lambda>x. (if sn_id x = sn_id s then resized_row s n move else x)\<lparr>sn_allocated_ips := 0\<rparr>) (subnets_tab (rz_tables D))"

lemma resized_fromI:
  assumes "resize_space_ok D" "s \<in> set (subnets_tab (rz_tables D))"
    "commit_subnet_resize etag parse new_id creator locked D s new move replace = Some (Inr (res, D'))"
  shows "\<exists>n. parse_cidr ''new CIDR'' new = Inr n \<and> resized_from D D' s n move"
proof -
  obtain old n where h: "ip_network (sn_network s) = Some old" "parse_cidr ''new CIDR'' new = Inr n" "resize_refusal D s old n move = None"
    "rz_blocks D' = rz_blocks D"
    "map (\<lambda>x. x\<lparr>sn_allocated_ips := 0\<rparr>) (subnets_tab (rz_tables D')) =
      map (\<lambda>x. (if sn_id x = sn_id s then resized_row s n move else x)\<lparr>sn_allocated_ips := 0\<rparr>) (subnets_tab (rz_tables D))"
    by (rule commit_subnet_resizeD [OF assms(3)])
  have "net_of s = old" using h(1) by (simp add: net_of_def)
  then show ?thesis using h(2-5) assms(1,2) parse_wf [OF h(2)] unfolding resized_from_def by blast
qed

lemma resized_fromD:
  assumes "resized_from D D' s n move"
  shows "space_ok (view D)" "stored_ok D" "subnets_disjoint D" "s \<in> set (subnets_tab (rz_tables D))" "wf_net n"
    "resize_refusal D s (net_of s) n move = None" "rz_blocks D' = rz_blocks D"
    "\<And>x. x \<in> set (subnets_tab (rz_tables D)) \<Longrightarrow> sn_id x = sn_id s \<Longrightarrow> x = s"
    "\<And>x. x \<in> set (subnets_tab (rz_tables D)) \<Longrightarrow> ip_network (sn_network x) \<noteq> None"
    "\<And>x. x \<in> set (subnets_tab (rz_tables D)) \<Longrightarrow> \<exists>b \<in> set (rz_blocks D). sn_block_id x = Some (mb_id b) \<and> \<not> mb_deleted b"
proof -
  show *: "space_ok (view D)" "stored_ok D" "subnets_disjoint D" "s \<in> set (subnets_tab (rz_tables D))" "wf_net n"
    "resize_refusal D s (net_of s) n move = None" "rz_blocks D' = rz_blocks D"
    using assms by (simp_all add: resized_from_def resize_space_ok_def)
  show "x = s" if "x \<in> set (subnets_tab (rz_tables D))" "sn_id x = sn_id s" for x
    using *(2,4) that unfolding stored_ok_def distinct_map inj_on_def by blast
  show "ip_network (sn_network x) \<noteq> None" "\<exists>b \<in> set (rz_blocks D). sn_block_id x = Some (mb_id b) \<and> \<not> mb_deleted b"
    if "x \<in> set (subnets_tab (rz_tables D))" for x using *(2) that unfolding stored_ok_def by simp_all
qed

text \<open>The rows of the new table: the subnet has the new network, the others have theirs.\<close>

lemma resized_table:
  assumes "resized_from D D' s n move"
  shows "map (\<lambda>x. (subnet_view x, sn_block_id x, sn_network x)) (subnets_tab (rz_tables D')) =
    map (\<lambda>x. ((subnet_view x)\<lparr>ms_network := if sn_id x = sn_id s then n else net_of x\<rparr>, sn_block_id x,
      if sn_id x = sn_id s then (version n, network_address n, prefixlen n) else sn_network x)) (subnets_tab (rz_tables D))"
    (is "map ?f _ = map ?h _")
proof -
  let ?g = "\<lambda>x. if sn_id x = sn_id s then resized_row s n move else x"
  have rn: "net_of (resized_row s n move) = n"
    by (simp only: net_of_def resized_row_simps network_reads_back [OF resized_fromD(5) [OF assms]] option.sel)
  have "map ?f (subnets_tab (rz_tables D')) = map (\<lambda>x. ?f (?g x)) (subnets_tab (rz_tables D))"
    by (rule resized_subnets) (use assms in \<open>simp_all add: resized_from_def\<close>)
  also have "\<dots> = map ?h (subnets_tab (rz_tables D))"
  proof (rule map_cong [OF refl])
    fix x
    assume x: "x \<in> set (subnets_tab (rz_tables D))"
    show "?f (?g x) = ?h x" using resized_fromD(8) [OF assms x] rn by (cases "sn_id x = sn_id s") (auto simp: subnet_view_def)
  qed
  finally show ?thesis .
qed

lemma resized_member:
  assumes "resized_from D D' s n move" "x \<in> set (subnets_tab (rz_tables D'))"
  obtains u where "u \<in> set (subnets_tab (rz_tables D))" "sn_id x = sn_id u" "space_of x = space_of u" "sn_block_id x = sn_block_id u"
    "net_of x = (if sn_id u = sn_id s then n else net_of u)"
    "sn_network x = (if sn_id u = sn_id s then (version n, network_address n, prefixlen n) else sn_network u)"
  using in_map [OF assms(2) resized_table [OF assms(1)]] by (auto simp: subnet_view_def)

text \<open>No other subnet of the space, and no block that is not above, reaches into the new network.\<close>

lemma resized_apart:
  assumes "resized_from D D' s n move" "t \<in> set (subnets_tab (rz_tables D))" "sn_id t \<noteq> sn_id s" "space_of t = space_of s"
  shows "\<not> share (net_of t) n"
proof
  note d = resized_fromD [OF assms(1)]
  assume sh: "share (net_of t) n"
  obtain m where m: "ip_network (sn_network t) = Some m" using d(9) [OF assms(2)] by auto
  have nt: "net_of t = m" using m by (simp add: net_of_def)
  have "m = net_of s"
  proof (rule ccontr)
    assume "m \<noteq> net_of s"
    then have "\<not> overlaps m n" using no_twin_conflict [OF refusal_None(3) [OF d(6)] assms(2) m assms(4,3)] by blast
    then show False using sh share_overlaps net_of_wf [OF d(9) [OF assms(2)]] d(5) nt by simp
  qed
  then have "share (net_of t) (net_of s)" using nt card_addresses(3) [of m] by (simp add: share_def)
  then show False using d(3,4) assms(2-4) unfolding subnets_disjoint_def by blast
qed

lemma resized_above:
  assumes "resized_from D D' s n move" "b \<in> set (rz_blocks D)" "\<not> mb_deleted b" "mb_space_id b = space_of s" "share (mb_network b) n"
  shows "(the (sn_block_id s), mb_id b) \<in> (up (rz_blocks D))\<^sup>*"
proof -
  note d = resized_fromD [OF assms(1)]
  have "wf_net (mb_network b)" using d(1) assms(2) by (simp add: space_ok_def view_def)
  then have "mb_id b \<in> set (ancestor_block_ids_for_subnet (rz_blocks D) s)"
    using refusal_None(4) [OF d(6)] assms(2-5) share_overlaps d(5)
    by (auto simp: overlap_conflicts_space_blocks_for_subnet_def filter_empty_conv)
  then show ?thesis using ancestor_walk_up [of "rz_blocks D" 64 "sn_block_id s" "[]"] by (auto simp: ancestor_block_ids_for_subnet_def)
qed

lemma resized_under:
  assumes rf: "resized_from D D' s n move" and t: "t \<in> set (mv_subnets (view D'))"
  shows "wf_net (ms_network t) \<and> subnet_under (view D') t"
proof -
  note d = resized_fromD [OF rf]
  obtain x where x: "x \<in> set (subnets_tab (rz_tables D'))" "t = subnet_view x" using t by (auto simp: view_def)
  obtain u where u: "u \<in> set (subnets_tab (rz_tables D))" "sn_id x = sn_id u" "space_of x = space_of u" "sn_block_id x = sn_block_id u"
    "net_of x = (if sn_id u = sn_id s then n else net_of u)" using rf x(1) by (rule resized_member)
  obtain b :: mv_block where b: "sn_block_id u = Some (mb_id b)" using d(10) [OF u(1)] by auto
  have "\<exists>q \<in> set (rz_blocks D). mb_id q = mb_id b \<and> mb_space_id q = space_of u \<and> addresses (net_of x) \<subseteq> addresses (mb_network q)"
  proof (cases "sn_id u = sn_id s")
    case True
    then have us: "u = s" using d(8) [OF u(1)] by simp
    have "resize_space_ok D" "version n = version (net_of s)"
      using rf grown(1) [OF refusal_None(1) [OF d(6)]] by (simp_all add: resized_from_def)
    then show ?thesis using resize_stays_in_block [OF _ d(4) _ refusal_None(5) [OF d(6)]] b u(5) unfolding us by force
  next
    case False
    have "subnet_under (view D) (subnet_view u)" using d(1) u(1) by (simp add: space_ok_def view_def)
    then show ?thesis using u(5) False b by (simp add: subnet_under_def view_def subnet_view_def)
  qed
  moreover have "wf_net (net_of x)" using u(5) d(5) net_of_wf [OF d(9) [OF u(1)]] by simp
  ultimately show ?thesis unfolding x(2) by (simp add: subnet_under_def view_def subnet_view_def d(7) u(3,4) b)
qed

lemma resized_subnets_apart:
  assumes "resized_from D D' s n move"
  shows "subnets_apart (view D')"
  unfolding subnets_apart_def
proof (intro ballI impI)
  note d = resized_fromD [OF assms]
  fix b t
  assume bt: "b \<in> set (mv_blocks (view D'))" "t \<in> set (mv_subnets (view D'))" "\<not> mb_deleted b \<and> \<not> ms_deleted t \<and>
    mb_space_id b = ms_space_id t \<and> share (mb_network b) (ms_network t)"
  obtain x where x: "x \<in> set (subnets_tab (rz_tables D'))" "t = subnet_view x" using bt(2) by (auto simp: view_def)
  obtain u where u: "u \<in> set (subnets_tab (rz_tables D))" "sn_id x = sn_id u" "space_of x = space_of u" "sn_block_id x = sn_block_id u"
    "net_of x = (if sn_id u = sn_id s then n else net_of u)" using assms x(1) by (rule resized_member)
  obtain c :: mv_block where c: "sn_block_id u = Some (mb_id c)" using d(10) [OF u(1)] by auto
  have b: "b \<in> set (rz_blocks D)" "\<not> mb_deleted b" "mb_space_id b = space_of u" "share (mb_network b) (net_of x)"
    using bt(1,3) x(2) u(3) d(7) by (simp_all add: view_def subnet_view_def)
  have "(mb_id c, mb_id b) \<in> (up (rz_blocks D))\<^sup>*"
  proof (cases "sn_id u = sn_id s")
    case True
    then show ?thesis using resized_above [OF assms b(1,2)] b(3,4) u(5) d(8) [OF u(1)] c by simp
  next
    case False
    have "subnet_view u \<in> set (mv_subnets (view D))" "subnets_apart (view D)" using u(1) d(1) by (simp_all add: view_def space_ok_def)
    then show ?thesis using b u(5) False c unfolding subnets_apart_def by (auto simp: view_def subnet_view_def)
  qed
  then show "(ms_block_id t, mb_id b) \<in> (up (mv_blocks (view D')))\<^sup>*" unfolding x(2) by (simp add: view_def subnet_view_def d(7) u(4) c)
qed

lemma resized_disjoint:
  assumes "resized_from D D' s n move"
  shows "subnets_disjoint D'"
  unfolding subnets_disjoint_def
proof (intro ballI impI)
  note d = resized_fromD [OF assms]
  fix x y
  assume xy: "x \<in> set (subnets_tab (rz_tables D'))" "y \<in> set (subnets_tab (rz_tables D'))" "sn_id x \<noteq> sn_id y \<and> space_of x = space_of y"
  obtain u where u: "u \<in> set (subnets_tab (rz_tables D))" "sn_id x = sn_id u" "space_of x = space_of u" "sn_block_id x = sn_block_id u"
    "net_of x = (if sn_id u = sn_id s then n else net_of u)" using assms xy(1) by (rule resized_member)
  obtain w where w: "w \<in> set (subnets_tab (rz_tables D))" "sn_id y = sn_id w" "space_of y = space_of w" "sn_block_id y = sn_block_id w"
    "net_of y = (if sn_id w = sn_id s then n else net_of w)" using assms xy(2) by (rule resized_member)
  have "\<not> share (net_of u) (net_of w)" using d(3) u(1-3) w(1-3) xy(3) unfolding subnets_disjoint_def by auto
  then show "\<not> share (net_of x) (net_of y)"
    using resized_apart [OF assms u(1)] resized_apart [OF assms w(1)] d(8) [OF u(1)] d(8) [OF w(1)] u(2,3,5) w(2,3,5) xy(3) share_sym by auto
qed

lemma resized_stored:
  assumes "resized_from D D' s n move"
  shows "stored_ok D'"
  unfolding stored_ok_def
proof (intro conjI ballI)
  note d = resized_fromD [OF assms]
  have "map sn_id (subnets_tab (rz_tables D')) = map sn_id (subnets_tab (rz_tables D))"
    using arg_cong [OF resized_table [OF assms], of "map (\<lambda>p. ms_id (fst p))"] by (simp add: comp_def subnet_view_def)
  then show "distinct (map sn_id (subnets_tab (rz_tables D')))" using d(2) by (simp add: stored_ok_def)
  fix x
  assume x: "x \<in> set (subnets_tab (rz_tables D'))"
  obtain u where u: "u \<in> set (subnets_tab (rz_tables D))" "sn_block_id x = sn_block_id u"
    "sn_network x = (if sn_id u = sn_id s then (version n, network_address n, prefixlen n) else sn_network u)" using assms x by (rule resized_member)
  show "ip_network (sn_network x) \<noteq> None" using u(3) d(9) [OF u(1)] network_reads_back [OF d(5)] by simp
  show "\<exists>b \<in> set (rz_blocks D'). sn_block_id x = Some (mb_id b) \<and> \<not> mb_deleted b" using u(2) d(10) [OF u(1)] d(7) by simp
qed

text \<open>C40: growing a subnet keeps its space sound, over the blocks and the subnets together. When the commit goes through in a sound space,
  the subnet has the wider network, no other subnet and no block changed, the subnet is inside its block, no two subnets of a space share
  an address, and live blocks share addresses only with what is above or below them.\<close>

theorem subnet_resize_keeps_space:
  assumes "resize_space_ok D" "s \<in> set (subnets_tab (rz_tables D))"
    "commit_subnet_resize etag parse new_id creator locked D s new move replace = Some (Inr (res, D'))"
  shows "resize_space_ok D' \<and> rz_blocks D' = rz_blocks D \<and> (\<exists>n. parse_cidr ''new CIDR'' new = Inr n \<and> addresses (net_of s) \<subset> addresses n \<and>
    map (\<lambda>x. (sn_id x, sn_block_id x, space_of x, net_of x)) (subnets_tab (rz_tables D')) =
      map (\<lambda>x. (sn_id x, sn_block_id x, space_of x, if sn_id x = sn_id s then n else net_of x)) (subnets_tab (rz_tables D)))"
proof -
  obtain n where n: "parse_cidr ''new CIDR'' new = Inr n" "resized_from D D' s n move" using resized_fromI [OF assms] by blast
  note d = resized_fromD [OF n(2)] and g = grown [OF refusal_None(1) [OF resized_fromD(6) [OF n(2)]]]
  have "distinct (map mb_id (mv_blocks (view D')))" "acyclic (up (mv_blocks (view D')))"
    "\<forall>b \<in> set (mv_blocks (view D')). wf_net (mb_network b) \<and> block_under (view D') b" "blocks_apart (view D')"
    using d(1) by (simp_all add: space_ok_def view_def d(7) block_under_def blocks_apart_def)
  then have "resize_space_ok D'"
    using resized_under [OF n(2)] resized_subnets_apart [OF n(2)] resized_stored [OF n(2)] resized_disjoint [OF n(2)]
    by (simp add: resize_space_ok_def space_ok_def)
  moreover have "num_addresses (net_of s) < num_addresses n"
    using g(1,3) net_of_wf [OF d(9) [OF d(4)]] by (auto simp: num_addresses_def wf_net_def)
  then have "addresses (net_of s) \<subset> addresses n" using g(2) card_addresses(1) by (metis less_irrefl psubsetI)
  moreover have "map (\<lambda>x. (sn_id x, sn_block_id x, space_of x, net_of x)) (subnets_tab (rz_tables D')) =
      map (\<lambda>x. (sn_id x, sn_block_id x, space_of x, if sn_id x = sn_id s then n else net_of x)) (subnets_tab (rz_tables D))"
    using arg_cong [OF resized_table [OF n(2)], of "map (\<lambda>(v, b, _). (ms_id v, b, ms_space_id v, ms_network v))"]
    by (simp add: comp_def subnet_view_def)
  ultimately show ?thesis using n(1) d(7) by blast
qed

section \<open>Instances\<close>

definition grow_row :: "nat \<Rightarrow> string \<Rightarrow> string option \<Rightarrow> string \<Rightarrow> ip_address" where
  "grow_row a st h de = \<lparr>ipa_subnet_id = ''s'', ipa_address = (V4, a), ipa_status = st, ipa_hostname = h, ipa_description = de,
     ipa_dns_record_id = None, ipa_created_by = None\<rparr>"

definition grow_subnet :: "uuid \<Rightarrow> nat \<Rightarrow> nat \<Rightarrow> ipam_subnet" where
  "grow_subnet i a p = \<lparr>sn_id = i, sn_block_id = Some ''m'', sn_network = (V4, a, p), sn_name = [], sn_description = [],
     sn_gateway = Some (str_ip (V4, a + 254), Some (V4, a + 254)), sn_total_ips = 254, sn_allocated_ips = 0, sn_kind = None,
     sn_columns = [(''space_id'', PyStr ''a'')]\<rparr>"

text \<open>10.1.2.0/24 with its default rows, its gateway at .254 and a host at .5, in 10.0.0.0/8, next to the subnets given.\<close>

definition grow_db :: "ipam_subnet list \<Rightarrow> resize_db" where
  "grow_db others = \<lparr>rz_tables = \<lparr>subnets_tab = grow_subnet ''s'' 167838208 24 # others,
       addrs = [grow_row 167838208 ''network'' None ''Network address'', grow_row 167838463 ''broadcast'' None ''Broadcast address'',
         grow_row 167838462 ''reserved'' (Some ''gateway'') ''Gateway'', grow_row 167838213 ''allocated'' (Some ''www'') []],
       scopes = [], pools = [], statics = [], active_leases = [], domains = [], address_sets = [], servers = [], config_ops = []\<rparr>,
     rz_blocks = [top_block], rz_rev = demo_db [] [demo_subnet ''s'' 167838208 24 None None] [] [], rz_auto_records = [], rz_synced = [],
     rz_woken = []\<rparr>"

definition grow_commit :: "ipam_subnet list \<Rightarrow> (resize_error + subnet_resize_result \<times> resize_db) option" where
  "grow_commit others = commit_subnet_resize (\<lambda>_ _. []) Some (\<lambda>n. n) None True (grow_db others) (grow_subnet ''s'' 167838208 24)
     (''10.1.2.0/23'', Some (V4, 167838208, 23)) True True"

lemma grow_commit_ok:
  "case grow_commit [grow_subnet ''t'' 167840000 24] of Some (Inr (res, D')) \<Rightarrow> rr_deleted res = 2 \<and> rr_created res = 2 \<and>
     map (\<lambda>r. (snd (ipa_address r), ipa_status r)) (addrs (rz_tables D')) = [(167838213, ''allocated''), (167838208, ''network''),
       (167838719, ''broadcast''), (167838209, ''reserved'')] | _ \<Rightarrow> False"
  by code_simp

theorem subnet_resize_keeps_rows_witness:
  "\<exists>res D'. grow_commit [grow_subnet ''t'' 167840000 24] = Some (Inr (res, D')) \<and> distinct (map row_key (addrs (rz_tables D')))"
proof -
  let ?D = "grow_db [grow_subnet ''t'' 167840000 24]" and ?s = "grow_subnet ''s'' 167838208 24"
  let ?n = "\<lparr>version = V4, network_address = 167838208, prefixlen = 24\<rparr> :: ipnet"
  obtain res D' where c: "grow_commit [grow_subnet ''t'' 167840000 24] = Some (Inr (res, D'))"
    using grow_commit_ok by (auto split: option.splits sum.splits)
  have "distinct (map row_key (addrs (rz_tables ?D)))" by (simp add: grow_db_def row_key_def grow_row_def)
  moreover have "ip_network (sn_network ?s) = Some ?n" by (simp add: grow_subnet_def)
  moreover have "canonical_gateway ?s" by (simp add: canonical_gateway_def grow_subnet_def)
  moreover have "\<forall>r \<in> set (addrs (rz_tables ?D)). ipa_subnet_id r = sn_id ?s \<longrightarrow> ipa_address r \<in> addresses ?n"
    by (simp add: grow_db_def grow_row_def addresses_def num_addresses_def)
  ultimately show ?thesis using c subnet_resize_keeps_rows [OF c [unfolded grow_commit_def]] by blast
qed

lemma grow_db_ok: "resize_space_ok (grow_db [grow_subnet ''t'' 167840000 24])"
proof -
  let ?D = "grow_db [grow_subnet ''t'' 167840000 24]"
  have up: "up (mv_blocks (view ?D)) = {}" by (simp add: up_def view_def grow_db_def blk_def)
  have nets: "net_of (grow_subnet ''s'' 167838208 24) = net4 167838208 24" "net_of (grow_subnet ''t'' 167840000 24) = net4 167840000 24" by code_simp+
  have sp: "space_of (grow_subnet i a p) = ''a''" for i a p by (simp add: space_of_def column_def grow_subnet_def)
  have sub: "addresses (net4 167838208 24) \<subseteq> addresses (net4 167772160 8)" "addresses (net4 167840000 24) \<subseteq> addresses (net4 167772160 8)"
    by (auto simp: addresses_def num_addresses_def net4_def)
  have "wf_net (net4 167838208 24)" "wf_net (net4 167840000 24)" "wf_net (net4 167772160 8)" by code_simp+
  moreover have "\<forall>s \<in> set (mv_subnets (view ?D)). subnet_under (view ?D) s"
    using sub by (simp add: subnet_under_def view_def subnet_view_def grow_db_def nets sp) (simp add: grow_subnet_def blk_def)
  ultimately have "space_ok (view ?D)"
    unfolding space_ok_def up blocks_apart_def subnets_apart_def
    by (simp add: view_def grow_db_def blk_def block_under_def related_def subnet_view_def nets) (simp add: grow_subnet_def acyclic_def)
  moreover have "stored_ok ?D" by (simp add: stored_ok_def grow_db_def) (simp add: grow_subnet_def blk_def)
  moreover have "subnets_disjoint ?D"
  proof -
    have "\<not> share (net4 167838208 24) (net4 167840000 24)" by (auto simp: share_def addresses_def num_addresses_def net4_def)
    then show ?thesis using share_sym by (auto simp: subnets_disjoint_def grow_db_def nets)
  qed
  ultimately show ?thesis by (simp add: resize_space_ok_def)
qed

theorem subnet_resize_keeps_space_witness:
  "\<exists>res D'. grow_commit [grow_subnet ''t'' 167840000 24] = Some (Inr (res, D')) \<and> resize_space_ok D'"
proof -
  obtain res D' where c: "grow_commit [grow_subnet ''t'' 167840000 24] = Some (Inr (res, D'))"
    using grow_commit_ok by (auto split: option.splits sum.splits)
  have "grow_subnet ''s'' 167838208 24 \<in> set (subnets_tab (rz_tables (grow_db [grow_subnet ''t'' 167840000 24])))" by (simp add: grow_db_def)
  then show ?thesis using c subnet_resize_keeps_space [OF grow_db_ok _ c [unfolded grow_commit_def]] by blast
qed

text \<open>The overlap check skips every subnet with the old network, not only the subnet itself: a twin, as a block move can leave one, is
  swallowed without a word.\<close>

lemma twin_is_overlooked:
  "\<exists>res D'. grow_commit [grow_subnet ''t'' 167838208 24] = Some (Inr (res, D')) \<and>
     map sn_network (subnets_tab (rz_tables D')) = [(V4, 167838208, 23), (V4, 167838208, 24)]"
proof -
  have "case grow_commit [grow_subnet ''t'' 167838208 24] of Some (Inr (res, D')) \<Rightarrow>
     map sn_network (subnets_tab (rz_tables D')) = [(V4, 167838208, 23), (V4, 167838208, 24)] | _ \<Rightarrow> False" by code_simp
  then show ?thesis by (auto split: option.splits sum.splits)
qed

end
