(* ===== verification/Spec2Isabelle.thy ===== *)
theory Spec2Isabelle
  imports Permission_Gates Audit_Chain Lockout Throttle Approval_Rules Subnet_Merge Api_Tokens Dns_Serial Trash_Safety Event_Outbox Reverse_Retire Subnet_Resize
begin

text \<open>
  A verification development of SpatiumDDI, the DNS, DHCP and IP address management server whose
  sources are under \<^verbatim>\<open>src/\<close>. It models the Python backend (\<^verbatim>\<open>src/backend/app\<close>): the part of it that decides
  who may do what, keeps the record of what was done, and moves address space around.

  \<^bold>\<open>The program.\<close> A request carries a session or an API token. \<^verbatim>\<open>api/deps.py\<close> turns the bearer into a user,
  after the throttles of \<^verbatim>\<open>core/auth_throttle.py\<close> and the lockout of \<^verbatim>\<open>services/account_lockout.py\<close>; a route
  dependency of \<^verbatim>\<open>core/permissions.py\<close> admits the user or writes a denied row into the audit log, which
  the flush hook of \<^verbatim>\<open>services/audit_chain.py\<close> links into a hash chain. A risky mutation goes through the
  two-person gate of \<^verbatim>\<open>services/approvals\<close> before its operation runs, and the IPAM services of
  \<^verbatim>\<open>services/ipam\<close> find free space, split, merge, grow and move subnets and blocks and count what is in use. Deleted rows go to the Trash
  of \<^verbatim>\<open>services/soft_delete.py\<close>, and \<^verbatim>\<open>services/dns\<close> numbers zones and folds record changes into the record sets
  that agents serve. The audit rows of a commit become typed events for webhook receivers.

  \<^bold>\<open>The theories.\<close>
  \<^item> \<open>Prelude\<close>: Python strings and times, shared list lemmas.
  \<^item> \<open>Accounts\<close>, \<open>Permissions\<close>, \<open>Permission_Gates\<close>: the rows of \<^verbatim>\<open>models/auth.py\<close>; the decisions of
    \<^verbatim>\<open>core/permissions.py\<close> (\<open>user_has_permission\<close>, \<open>effective_grants\<close>, \<open>caller_can_grant\<close>, the token
    intersection) and the matcher of \<^verbatim>\<open>frontend/src/hooks/usePermissions.ts\<close>; every route dependency with
    its refusal and audit row. The locale \<open>instance_grants\<close> states what a list of grants promises and is
    interpreted on role permissions, time-bound grants and token grants. Shown: grants reported to the
    user interface are sound, and exact without a token; a token only narrows; nobody hands on more
    than they hold; a gate answers or audits; an unclassified route is closed.
  \<^item> \<open>Json\<close>, \<open>Audit_Log\<close>, \<open>Audit_Chain\<close>: \<^verbatim>\<open>json.dumps\<close> and \<^verbatim>\<open>json.loads\<close> as the chain uses them with their
    round trip, the audit row, and \<^verbatim>\<open>services/audit_chain.py\<close> (canonical text, flush hook, paged verifier,
    newest window, checkpoint). Shown: a log written through the hook verifies after any history of
    flushes and rollbacks; two verified logs with the same last hash are equal or exhibit a SHA-256
    collision; the paged walk and the resumed walk equal the walk over the whole log.
  \<^item> \<open>Lockout\<close>, \<open>Throttle\<close>: \<^verbatim>\<open>services/account_lockout.py\<close> against the history of failures it stands for, and
    \<^verbatim>\<open>core/auth_throttle.py\<close> over a Redis that the locale \<open>redis\<close> describes (interpreted on a reference
    store). Shown: when an account locks, how many guesses a window allows, that no counter outlives
    its window, and which throttles fail open or closed.
  \<^item> \<open>Approvals\<close>, \<open>Approval_Flow\<close>, \<open>Approval_Safety\<close>, \<open>Approval_Rules\<close>: policies, change requests and their
    transitions, the approve and reject spine with its commits, the gate, cancel and the expiry sweep.
    A session is its durable and its working state with the history of commits, so the theorems speak
    of what a crash leaves behind. Shown: a decision takes a second person with the right to it; no
    effect is durable without its approval; every reachable table replays from its audit rows.
  \<^item> \<open>Token_Scopes\<close>, \<open>Api_Tokens\<close>: \<^verbatim>\<open>services/api_token_scopes.py\<close> with the regular expressions of its route
    rules, the operator step-up of \<^verbatim>\<open>api/stepup.py\<close> and \<^verbatim>\<open>services/reauth.py\<close>, the resolution of a bearer
    token and the token routes. Shown: what a scoped token reaches; that an update without the
    step-up never lets a bearer in where it was not before; that a bound token stays within what its
    creator held.
  \<^item> \<open>Net\<close>, \<open>Free_Space\<close>, \<open>Subnet_Boundary\<close>, \<open>Subnet_Split\<close>, \<open>Collapse\<close>, \<open>Subnet_Merge\<close>: the part of Python's
    \<^verbatim>\<open>ipaddress\<close> the code uses; \<^verbatim>\<open>services/ipam/free_space.py\<close>, \<^verbatim>\<open>subnet_boundary.py\<close>, \<^verbatim>\<open>gateway_rules.py\<close>,
    \<^verbatim>\<open>utilization.py\<close>, \<^verbatim>\<open>subnet_split.py\<close>, \<^verbatim>\<open>subnet_merge.py\<close> and \<^verbatim>\<open>subnet_carry.py\<close>. Shown: candidates are free and an
    empty answer means no room; the subtree walk ends even on cyclic parents; a split or a merge loses no
    address and keeps every scope inside its subnet; networks summarise exactly when they make up
    the supernet, so a split merges back.
  \<^item> \<open>Block_Move\<close>: \<^verbatim>\<open>services/ipam/block_move.py\<close> and the ownership of rows by integrations. Shown: a move answers, and leaves every
    row, in the Trash or not, in the space and inside the network of its parent; the level the block lands on stays
    free of overlaps.
  \<^item> \<open>Block_Resize\<close>, \<open>Subnet_Resize\<close>: \<^verbatim>\<open>services/ipam/resize.py\<close>, over the tables of \<open>Block_Move\<close>, \<open>Subnet_Split\<close> and \<open>Reverse_Lifecycle\<close>.
    Shown: a commit goes ahead exactly when its preview has no conflict; in a sound space (\<open>space_ok\<close>) a growing block or
    subnet reaches over nothing that is not above or below it; a growing subnet loses no address but default rows,
    and its moved gateway is reserved. The walk down the blocks is shown to return where no block is above itself, with exactly
    the rows below, the walk up to end on any parent links.
  \<^item> \<open>Dns_Serial\<close>, \<open>Dns_Records\<close>: \<^verbatim>\<open>services/dns/serial.py\<close>, the SOA floor of the PowerDNS agent, the zone-state report of
    \<^verbatim>\<open>api/v1/dns/agents.py\<close>; \<^verbatim>\<open>record_identity.py\<close>, \<^verbatim>\<open>cname_conflict.py\<close> and \<^verbatim>\<open>rrset.py\<close>. Shown: serials only move forward in
    RFC 1982 arithmetic, on the wire and in the database; an import batch obeys the CNAME rule and the two
    forms of that rule agree; the operations of a batch converge in any order.
  \<^item> \<open>Reverse_Zones\<close>, \<open>Reverse_Owner\<close>, \<open>Reverse_Lifecycle\<close>, \<open>Reverse_Retire\<close>: the reverse zones of \<^verbatim>\<open>services/dns/sync_check.py\<close> and
    \<^verbatim>\<open>reverse_zone.py\<close>, with the address parsers and reverse pointers of \<^verbatim>\<open>ipaddress\<close>. Shown: the pieces of a subnet are
    exactly its addresses; a name and a network determine each other; the pointer of every address goes into the most
    specific zone, never into another tenant's, under an owner name that reads back as the address, for a new subnet
    in particular; a deleted subnet takes neither the zones its neighbours need nor the records of other
    deletions, and takes exactly the zones its preview named.
  \<^item> \<open>Soft_Delete\<close>, \<open>Trash_Safety\<close>: \<^verbatim>\<open>services/soft_delete.py\<close> with the overlap rules of \<^verbatim>\<open>api/v1/ipam/router.py\<close> and
    \<^verbatim>\<open>api/v1/dhcp/scopes.py\<close> it borrows. The soft-deletable tables are one list of rows, those in the Trash
    included. Shown: a deletion takes exactly the subtree; no sequence of deletions and restores
    (\<open>trash_step\<close>) leaves a live row below a row in the Trash; a restore undoes a deletion exactly and clashes
    with nothing. The locale \<open>trashing\<close> holds what every update that only trashes rows preserves and is
    interpreted on the deletion.

  \<^item> \<open>Event_Outbox\<close>: \<^verbatim>\<open>services/event_publisher.py\<close>, \<^verbatim>\<open>event_delivery.py\<close> and \<^verbatim>\<open>audit_redact.py\<close>. Shown: events are queued for committed
    changes only, once per subscription that asks for them; every delivery ends, delivered or dead, by a
    potential that each pass of the worker decreases; headers cannot be forged and no credential leaves.

  \<^bold>\<open>Conventions.\<close> A string is a list of Latin-1 characters; where a message of the source has a dash or a
  comparison sign outside that range the model writes the ASCII form. A time is an integer of
  microseconds and one call reads the clock once. An exception is the left value of a sum. A table is
  the list of its live rows and a query filters it; rows in the Trash are hidden by the session filter
  and left out, except where the Trash itself is modelled. SHA-256, password and authenticator checks, UUID generation and parsing, PostgreSQL's
  JSONB rendering, Redis and the approved operations are arguments, with what is assumed of them as
  named hypotheses; every such theorem has an instance with concrete functions.

  \<^bold>\<open>Termination and fuel.\<close> The JSON parser recurses on fuel equal to the length of its text, which the round
  trip shows to suffice. \<open>verify_loop\<close> and \<open>walk_subtree\<close> end by measures on the rows not yet visited,
  \<open>collapse_loop\<close> and \<open>summarize_range\<close> by measures on the networks and addresses left,
  \<open>ancestors_walk\<close> by one on the parents not yet seen. \<open>collect_descendants\<close> takes
  Python's recursion limit as its fuel; 133 levels suffice because a block is strictly inside its parent. The walk to the
  inherited DNS settings and the recursive query of a block move have no bound in the code: \<open>effective_walk\<close> and \<open>descend\<close> are
  partial functions, shown to return when the blocks are ordered by a rank and in a sound tree. All
  other recursion is structural.

  \<^bold>\<open>Not modelled.\<close> Percentages (floating point) and the block rollup query; row and advisory locks beyond the
  answer of the lock; sessions, JWTs and the sign-in providers; response headers, log lines and
  wake-up messages; DNS, DHCP and cloud drivers, agents, discovery and integrations, which are I/O
  towards other systems; routers beyond the ones named; the web frontend but for its permission
  matcher. Next-free allocation, the DNS operation queue and the drift report are long sequences of
  database statements and provider calls over many tables; the rules they share with the modelled code (boundaries,
  utilization, carried rows, serials, record sets, reverse zones) are modelled where they are defined. Lock order
  is left out: one call runs at a time here.
\<close>

end
